(* ===== verification/Pussy_Prelude.thy ===== *)
theory Pussy_Prelude
  imports Main "HOL-Library.Word" "HOL-Library.Monad_Syntax"
begin

unbundle bit_operations_syntax

text \<open>
  What every component of the development shares: the machine types of the C code on an LP64
  target, the move from 32-bit arithmetic to natural numbers, stores into byte buffers
  (\<open>memcpy\<close>, \<open>memmove\<close>, \<open>memset\<close> on a mapped range), and the facts about single bits and masks.
  An access outside its object is the value \<open>None\<close>; it is never an unspecified list element.
\<close>

type_synonym u8 = "8 word"
type_synonym u32 = "32 word"
type_synonym u64 = "64 word"

named_theorems u32_nat "reading 32-bit comparisons and arithmetic as natural numbers"

lemmas u32_order [u32_nat] = word_less_nat_alt word_le_nat_alt

lemma unat_eq_iff: "a = b \<longleftrightarrow> unat a = unat b" for a b :: "'a::len word"
  by (simp add: word_unat_eq_iff)

lemma unat_add_exact:
  "unat a + unat b < 2 ^ LENGTH('a) \<Longrightarrow> unat (a + b) = unat a + unat b" for a b :: "'a::len word"
  using unat_add_lem by blast

lemma unat_sub_exact: "unat b \<le> unat a \<Longrightarrow> unat (a - b) = unat a - unat b"
  for a b :: "'a::len word"
  by (simp add: unat_sub word_le_nat_alt)

lemma unat_mult_exact:
  "unat a * unat b < 2 ^ LENGTH('a) \<Longrightarrow> unat (a * b) = unat a * unat b" for a b :: "'a::len word"
  using unat_mult_lem by blast

lemma unat_u32_bound: "unat (x :: u32) < 4294967296"
  using unsigned_less [of x] by simp

lemma unat_u64_bound: "unat (x :: u64) < 18446744073709551616"
  using unsigned_less [of x] by simp

lemma unat_ucast_u64 [simp]: "unat (ucast (x :: u32) :: u64) = unat x"
  by (simp add: unsigned_ucast_eq take_bit_nat_eq_self_iff order_less_trans [OF unat_u32_bound])

lemma bind_Some_map: "x \<bind> (\<lambda>y. Some (f y)) = map_option f x"
  by (cases x) simp_all

subsection \<open>Failures\<close>

text \<open>
  How a run of the code can end other than by returning: an access to memory that is not mapped (or
  not what the code takes it for), a call of \<open>abort\<close> or \<open>exit\<close>, or a loop that does not end.
\<close>

datatype failure = Bad_Access | Abort | Does_Not_Return

type_synonym 'a res = "failure + 'a"

definition bindE :: "'a res \<Rightarrow> ('a \<Rightarrow> 'b res) \<Rightarrow> 'b res" where
  "bindE m f = (case m of Inl e \<Rightarrow> Inl e | Inr x \<Rightarrow> f x)"

definition or_fail :: "failure \<Rightarrow> 'a option \<Rightarrow> 'a res" where
  "or_fail e m = (case m of None \<Rightarrow> Inl e | Some x \<Rightarrow> Inr x)"

lemma bindE_simps [simp]: "bindE (Inr x) f = f x" "bindE (Inl e) f = Inl e"
  by (simp_all add: bindE_def)

lemma or_fail_simps [simp]: "or_fail e (Some x) = Inr x" "or_fail e None = Inl e"
  by (simp_all add: or_fail_def)

lemma bindE_Inr_iff: "bindE m f = Inr y \<longleftrightarrow> (\<exists>x. m = Inr x \<and> f x = Inr y)"
  by (cases m) auto

lemma bindE_assoc: "bindE (bindE m f) g = bindE m (\<lambda>x. bindE (f x) g)"
  by (cases m) auto

subsection \<open>Byte buffers\<close>

text \<open>
  \<open>load_bytes b i n\<close> is the source side of a \<open>memcpy\<close> from \<open>b + i\<close>, \<open>store_bytes b i xs\<close> the
  destination side. Both are \<open>None\<close> outside the buffer. A \<open>memmove\<close> within one buffer reads the
  whole source before it writes, whatever the overlap.
\<close>

definition load_bytes :: "'a list \<Rightarrow> nat \<Rightarrow> nat \<Rightarrow> 'a list option" where
  "load_bytes b i n = (if i + n \<le> length b then Some (take n (drop i b)) else None)"

definition store_bytes :: "'a list \<Rightarrow> nat \<Rightarrow> 'a list \<Rightarrow> 'a list option" where
  "store_bytes b i xs =
     (if i + length xs \<le> length b
      then Some (take i b @ xs @ drop (i + length xs) b) else None)"

definition move_bytes :: "'a list \<Rightarrow> nat \<Rightarrow> nat \<Rightarrow> nat \<Rightarrow> 'a list option" where
  "move_bytes b dst src n = do { xs \<leftarrow> load_bytes b src n; store_bytes b dst xs }"

lemma load_bytes_Some [simp]: "i + n \<le> length b \<Longrightarrow> load_bytes b i n = Some (take n (drop i b))"
  by (simp add: load_bytes_def)

lemma store_bytes_Some [simp]:
  "i + length xs \<le> length b \<Longrightarrow>
   store_bytes b i xs = Some (take i b @ xs @ drop (i + length xs) b)"
  by (simp add: store_bytes_def)

lemma length_store_bytes: "store_bytes b i xs = Some b' \<Longrightarrow> length b' = length b"
  by (auto simp: store_bytes_def split: if_splits)

lemma move_bytes_Some:
  "src + n \<le> length b \<Longrightarrow> dst + n \<le> length b \<Longrightarrow>
   move_bytes b dst src n = Some (take dst b @ take n (drop src b) @ drop (dst + n) b)"
  by (simp add: move_bytes_def)

lemma length_move_bytes: "move_bytes b dst src n = Some b' \<Longrightarrow> length b' = length b"
  by (auto simp: move_bytes_def load_bytes_def split: if_splits dest: length_store_bytes)

subsection \<open>Masks\<close>

lemma and_not_eq_minus: "x AND NOT a = x - (x AND a)" for x a :: "'a::len word"
proof -
  have "(x AND NOT a) + (x AND a) = (x AND NOT a) OR (x AND a)"
    by (rule disjunctive_add) (simp add: bit_simps)
  also have "\<dots> = x"
    by (rule bit_word_eqI) (auto simp: bit_simps)
  finally show ?thesis
    by (simp add: eq_diff_eq)
qed

lemma unat_and_le: "unat (x AND a) \<le> unat a" "unat (x AND a) \<le> unat x" for x a :: "'a::len word"
  using word_and_le1 [of x a] word_and_le2 [of x a] by (simp_all add: word_le_nat_alt)

lemma unat_and_not: "unat (x AND NOT a) = unat x - unat (x AND a)" for x a :: "'a::len word"
  by (simp add: and_not_eq_minus unat_sub_exact unat_and_le)

lemma unat_and_mask: "unat (x AND mask k) = unat x mod 2 ^ k" for x :: "'a::len word"
proof -
  have "unat (take_bit k x) = take_bit k (unat x)"
    by (rule unsigned_take_bit_eq)
  then show ?thesis
    by (simp only: take_bit_eq_mask [symmetric] take_bit_eq_mod)
qed

lemma unat_mask:
  assumes "k \<le> LENGTH('a)"
  shows "unat (mask k :: 'a::len word) = 2 ^ k - 1"
proof -
  have "unat (mask k :: 'a word) = unat (take_bit k (- 1 :: 'a word))"
    by (simp only: take_bit_minus_one_eq_mask)
  also have "\<dots> = take_bit k (mask LENGTH('a) :: nat)"
    by (simp only: unsigned_take_bit_eq unsigned_minus_1_eq_mask)
  also have "\<dots> = mask k"
    using assms by (simp only: take_bit_of_mask min_absorb1)
  finally show ?thesis by (simp add: mask_eq_exp_minus_1)
qed

lemma unat_and_not_mask: "unat (x AND NOT (mask k)) = unat x div 2 ^ k * 2 ^ k" for x :: "'a::len word"
  by (simp add: unat_and_not unat_and_mask minus_mod_eq_div_mult)

lemma pow2_minus_1_eq_mask:
  fixes a :: "'a::len word"
  assumes "unat a = 2 ^ k" and "k < LENGTH('a)"
  shows "a - 1 = mask k"
proof -
  have "a = of_nat (unat a)" by simp
  also have "\<dots> = 2 ^ k" by (simp add: assms)
  finally have "a = 2 ^ k" .
  then show ?thesis
    by (simp add: mask_eq_exp_minus_1)
qed

end
