(* ===== verification/Word_Bits.thy ===== *)
theory Word_Bits
  imports Pussy_Prelude
begin

text \<open>
  \<^verbatim>\<open>src/word.h\<close> on a 64-bit target: \<open>Word\<close> is a 64-bit unsigned integer, \<open>WORD_WIDTH\<close> is 64 and
  \<open>count_trailing_zeros\<close> is the compiler's \<open>__builtin_ctzl\<close>, whose result for zero is undefined (the
  callers test for zero first). A bitmap is the list of its words; \<open>bit_at\<close> reads it as the
  sequence of its bits, least significant bit of the first word first.
\<close>

definition WORD_WIDTH :: u32 where "WORD_WIDTH = 64"

lemma WORD_WIDTH_neq_0 [simp]: "WORD_WIDTH \<noteq> 0" "\<not> WORD_WIDTH \<le> 0"
  by (simp_all add: WORD_WIDTH_def)

definition WORD_MAX :: u64 where "WORD_MAX = 0xFFFFFFFFFFFFFFFF"

definition count_trailing_zeros :: "u64 \<Rightarrow> u64" where
  "count_trailing_zeros value = of_nat (length (takeWhile (\<lambda>i. \<not> bit value i) [0..<64]))"

lemma WORD_MAX_eq: "WORD_MAX = - 1"
  by (simp add: WORD_MAX_def)

lemma count_trailing_zeros_spec:
  assumes "w \<noteq> 0"
  shows "unat (count_trailing_zeros w) < 64" and "bit w (unat (count_trailing_zeros w))"
    and "i < unat (count_trailing_zeros w) \<Longrightarrow> \<not> bit w i"
proof -
  let ?P = "\<lambda>i. \<not> bit w i"
  let ?n = "length (takeWhile ?P [0..<64])"
  obtain j where j: "j < 64" "bit w j"
    using assms bit_word_eqI [of w 0] by auto
  have n: "?n < 64"
  proof (rule ccontr)
    assume "\<not> ?n < 64"
    then have "?n = 64" using length_takeWhile_le [of ?P "[0..<64]"] by simp
    then have "takeWhile ?P [0..<64] = [0..<64]"
      by (metis append_eq_append_conv append_Nil2 length_upt minus_nat.diff_0 takeWhile_dropWhile_id)
    then have "\<forall>x\<in>set [0..<64]. ?P x" by (metis set_takeWhileD)
    with j show False by simp
  qed
  have u: "unat (count_trailing_zeros w) = ?n"
    unfolding count_trailing_zeros_def using n by (simp add: unat_of_nat)
  show "unat (count_trailing_zeros w) < 64" using n u by simp
  have "\<not> ?P ([0..<64] ! ?n)" using n by (intro nth_length_takeWhile) simp
  then show "bit w (unat (count_trailing_zeros w))" using n u by simp
  show "\<not> bit w i" if "i < unat (count_trailing_zeros w)"
  proof -
    have i: "i < ?n" using that u by simp
    then have "takeWhile ?P [0..<64] ! i \<in> set (takeWhile ?P [0..<64])" by (rule nth_mem)
    moreover have "takeWhile ?P [0..<64] ! i = i"
      using i n by (simp add: takeWhile_nth)
    ultimately show ?thesis by (metis (mono_tags, lifting) set_takeWhileD)
  qed
qed

subsection \<open>Bitmaps as sequences of bits\<close>

definition bit_at :: "u64 list \<Rightarrow> nat \<Rightarrow> bool" where
  "bit_at bm i \<longleftrightarrow> i div 64 < length bm \<and> bit (bm ! (i div 64)) (i mod 64)"

definition upd_word :: "u64 list \<Rightarrow> nat \<Rightarrow> (u64 \<Rightarrow> u64) \<Rightarrow> u64 list option" where
  "upd_word bm idx f = (if idx < length bm then Some (bm[idx := f (bm ! idx)]) else None)"

definition read_word :: "u64 list \<Rightarrow> nat \<Rightarrow> u64 option" where
  "read_word bm idx = (if idx < length bm then Some (bm ! idx) else None)"

lemma bit_at_beyond: "64 * length bm \<le> i \<Longrightarrow> \<not> bit_at bm i"
  by (auto simp: bit_at_def)

lemma bit_at_less: "bit_at bm i \<Longrightarrow> i < 64 * length bm"
  using bit_at_beyond [of bm i] by linarith

lemma bit_at_update:
  "idx < length bm \<Longrightarrow> bit_at (bm[idx := w]) i =
     (if i div 64 = idx then bit w (i mod 64) else bit_at bm i)"
  by (auto simp: bit_at_def nth_list_update)

lemma bit_at_or:
  "idx < length bm \<Longrightarrow> bit_at (bm[idx := bm ! idx OR m]) i \<longleftrightarrow>
     bit_at bm i \<or> i div 64 = idx \<and> bit m (i mod 64)"
  by (auto simp: bit_at_def nth_list_update bit_or_iff)

lemma div_eq_iff_range: "i div 64 = p \<longleftrightarrow> 64 * p \<le> i \<and> i < 64 * p + 64" for i p :: nat
  by (auto simp: div_nat_eqI)

lemma range_from_word:
  fixes i p b n :: nat
  assumes "b < 64" and "64 - b < n"
  shows "i div 64 = p \<and> b \<le> i mod 64 \<or> 64 * Suc p \<le> i \<and> i < 64 * Suc p + (n - (64 - b)) \<longleftrightarrow>
    64 * p + b \<le> i \<and> i < 64 * p + b + n"
proof -
  obtain q r where i: "i = 64 * q + r" "r < 64"
    using mult_div_mod_eq [of 64 i] by (metis mod_less_divisor zero_less_numeral)
  then have "i div 64 = q" "i mod 64 = r" by simp_all
  then show ?thesis using assms i by (cases "q = p"; cases "q < p") auto
qed

lemma to_word_boundary: "off + (64 - off mod 64) = 64 * Suc (off div 64)" for off :: nat
proof -
  obtain q r where "off = 64 * q + r" "r < 64"
    using mult_div_mod_eq [of 64 off] by (metis mod_less_divisor zero_less_numeral)
  then show ?thesis by simp
qed

lemma bit_at_word: "idx < length bm \<Longrightarrow> j < 64 \<Longrightarrow> bit_at bm (64 * idx + j) = bit (bm ! idx) j"
  by (simp add: bit_at_def)

lemma bit_at_map_not:
  "bit_at (map NOT bm) i \<longleftrightarrow> i < 64 * length bm \<and> \<not> bit_at bm i"
  by (auto simp: bit_at_def bit_simps)

text \<open>The C expression \<^verbatim>\<open>(((Word) 1) << length) - 1\<close>, used with \<open>length\<close> below the word width.\<close>

definition low_mask :: "u32 \<Rightarrow> u64" where
  "low_mask len = push_bit (unat len) 1 - 1"

lemma bit_low_mask: "unat len < 64 \<Longrightarrow> bit (low_mask len) i \<longleftrightarrow> i < unat len"
proof -
  assume n: "unat len < 64"
  have "low_mask len = mask (unat len)"
    by (simp add: low_mask_def mask_eq_exp_minus_1 push_bit_eq_mult)
  then show ?thesis using n by (auto simp: bit_simps)
qed

lemma unat_and_63: "unat (x AND 63 :: u32) = unat x mod 64"
  using unat_and_mask [of x 6] by (simp add: mask_eq_exp_minus_1)

lemma bit_WORD_MAX [simp]: "bit WORD_MAX i \<longleftrightarrow> i < 64"
  by (simp add: WORD_MAX_eq)

end
