(* ===== verification/Block_Map.thy ===== *)
theory Block_Map
  imports Pussy_Prelude
begin

text \<open>
  The interface between the pages of the bitmap allocator and the bitmaps they carry: units that are
  in use or free, marking and unmarking a range of units, and the search for a free range. The laws
  are those the allocator relies on; the consequences proved here hold for any bitmap that keeps them.
\<close>

locale block_map =
  fixes used :: "'b \<Rightarrow> nat \<Rightarrow> bool" and ok :: "'b \<Rightarrow> bool" and units :: nat and hdr :: nat
    and mark :: "'b \<Rightarrow> u32 \<Rightarrow> u32 \<Rightarrow> 'b option" and unmark :: "'b \<Rightarrow> u32 \<Rightarrow> u32 \<Rightarrow> 'b option"
    and find :: "'b \<Rightarrow> u32 \<Rightarrow> u32 option"
  assumes mark_law: "ok b \<Longrightarrow> unat off + unat n \<le> units \<Longrightarrow>
      \<exists>b'. mark b off n = Some b' \<and> ok b' \<and>
        (\<forall>i. used b' i \<longleftrightarrow> used b i \<or> (unat off \<le> i \<and> i < unat off + unat n))"
    and unmark_law: "ok b \<Longrightarrow> hdr \<le> unat off \<Longrightarrow> unat off + unat n \<le> units \<Longrightarrow>
      \<exists>b'. unmark b off n = Some b' \<and> ok b' \<and>
        (\<forall>i. used b' i \<longleftrightarrow> used b i \<and> \<not> (unat off \<le> i \<and> i < unat off + unat n))"
    and find_law: "ok b \<Longrightarrow> 0 < unat n \<Longrightarrow>
      \<exists>r. find b n = Some r \<and>
        (r = 0 \<longrightarrow> \<not> (\<exists>s\<ge>hdr. s + unat n \<le> units \<and> (\<forall>i. s \<le> i \<and> i < s + unat n \<longrightarrow> \<not> used b i))) \<and>
        (r \<noteq> 0 \<longrightarrow> hdr \<le> unat r \<and> unat r + unat n \<le> units \<and>
           (\<forall>i. unat r \<le> i \<and> i < unat r + unat n \<longrightarrow> \<not> used b i))"
begin

text \<open>Taking the block that the search found touches no unit that was in use.\<close>

lemma find_mark:
  assumes "ok b" and "0 < unat n" and "find b n = Some r" and "r \<noteq> 0"
  shows "\<exists>b'. mark b r n = Some b' \<and> ok b' \<and> hdr \<le> unat r \<and> unat r + unat n \<le> units \<and>
    {i. used b' i} = {i. used b i} \<union> {unat r ..< unat r + unat n} \<and>
    {i. used b i} \<inter> {unat r ..< unat r + unat n} = {}"
proof -
  from find_law [OF assms(1,2)] assms(3,4) have r: "hdr \<le> unat r" "unat r + unat n \<le> units"
    "\<forall>i. unat r \<le> i \<and> i < unat r + unat n \<longrightarrow> \<not> used b i" by auto
  from mark_law [OF assms(1) r(2)] r show ?thesis by fastforce
qed

text \<open>Releasing a block restores the map as it was before the block was taken.\<close>

lemma mark_unmark:
  assumes "ok b" and "hdr \<le> unat off" and "unat off + unat n \<le> units"
    and "\<And>i. unat off \<le> i \<Longrightarrow> i < unat off + unat n \<Longrightarrow> \<not> used b i"
    and "mark b off n = Some b'"
  shows "\<exists>b''. unmark b' off n = Some b'' \<and> ok b'' \<and> (\<forall>i. used b'' i \<longleftrightarrow> used b i)"
proof -
  from mark_law [OF assms(1,3)] assms(5) have m: "ok b'"
    "\<forall>i. used b' i \<longleftrightarrow> used b i \<or> (unat off \<le> i \<and> i < unat off + unat n)" by auto
  from unmark_law [OF m(1) assms(2,3)] m(2) assms(4) show ?thesis by auto
qed

text \<open>A released block can be allocated again: the next search for its size succeeds.\<close>

lemma find_after_unmark:
  assumes "ok b" and "hdr \<le> unat off" and "unat off + unat n \<le> units" and "0 < unat n"
    and "unmark b off n = Some b'"
  shows "\<exists>r. find b' n = Some r \<and> r \<noteq> 0"
proof -
  from unmark_law [OF assms(1-3)] assms(5) have m: "ok b'"
    "\<forall>i. used b' i \<longleftrightarrow> used b i \<and> \<not> (unat off \<le> i \<and> i < unat off + unat n)" by auto
  from find_law [OF m(1) assms(4)] m(2) assms(2,3) show ?thesis by blast
qed

end

end
