(* ===== verification/Bitmap_Ops.thy ===== *)
theory Bitmap_Ops
  imports Word_Bits Block_Map
begin

text \<open>
  The bitmap functions of \<^verbatim>\<open>src/allocator_pet.c\<close>: \<open>set_bits\<close>, \<open>clear_bits\<close>, \<open>count_zero_bits\<close>,
  \<open>count_nonzero_bits\<close>, \<open>find_free_block\<close> and \<open>find_longest_free_block\<close>, word by word as the code
  goes. The moving pointer \<open>ptr\<close> is the index of the word it points to; a read or write past the
  bitmap is \<open>None\<close>. The lemmas say what each does to the sequence of bits.
\<close>

subsection \<open>Setting bits\<close>

function set_words :: "u64 list \<Rightarrow> nat \<Rightarrow> u32 \<Rightarrow> u64 list option" where
  "set_words bm ptr len =
     (if len \<ge> WORD_WIDTH
      then (if ptr < length bm then set_words (bm[ptr := WORD_MAX]) (Suc ptr) (len - WORD_WIDTH)
            else None)
      else if len \<noteq> 0
      then upd_word bm ptr (\<lambda>w. w OR low_mask len)
      else Some bm)"
  by pat_completeness auto
termination
  by (relation "measure (\<lambda>(bm, ptr, len). length bm - ptr)") auto

declare set_words.simps [simp del]

definition set_bits :: "u64 list \<Rightarrow> u32 \<Rightarrow> u32 \<Rightarrow> u64 list option" where
  "set_bits bm offset len =
     (let ptr = unat (offset div WORD_WIDTH);
          bit_index = offset AND (WORD_WIDTH - 1)
      in if bit_index \<noteq> 0
         then (let num_bits = WORD_WIDTH - bit_index;
                   (bitmask, num_bits) =
                     (if len \<le> num_bits then (WORD_MAX AND low_mask len, len)
                      else (WORD_MAX, num_bits));
                   bitmask = push_bit (unat bit_index) bitmask
               in do { bm' \<leftarrow> upd_word bm ptr (\<lambda>w. w OR bitmask);
                       set_words bm' (Suc ptr) (len - num_bits) })
         else set_words bm ptr len)"

subsection \<open>Clearing bits\<close>

function clear_words :: "u64 list \<Rightarrow> nat \<Rightarrow> u32 \<Rightarrow> u64 list option" where
  "clear_words bm ptr len =
     (if len \<ge> WORD_WIDTH
      then (if ptr < length bm then clear_words (bm[ptr := 0]) (Suc ptr) (len - WORD_WIDTH)
            else None)
      else if len \<noteq> 0
      then upd_word bm ptr (\<lambda>w. w AND NOT (low_mask len))
      else Some bm)"
  by pat_completeness auto
termination
  by (relation "measure (\<lambda>(bm, ptr, len). length bm - ptr)") auto

declare clear_words.simps [simp del]

definition clear_bits :: "u64 list \<Rightarrow> u32 \<Rightarrow> u32 \<Rightarrow> u64 list option" where
  "clear_bits bm offset len =
     (let ptr = unat (offset div WORD_WIDTH);
          bit_index = offset AND (WORD_WIDTH - 1)
      in if bit_index \<noteq> 0
         then (let num_bits = WORD_WIDTH - bit_index;
                   (bitmask, num_bits) =
                     (if len \<le> num_bits then (WORD_MAX AND low_mask len, len)
                      else (WORD_MAX, num_bits));
                   bitmask = push_bit (unat bit_index) bitmask
               in do { bm' \<leftarrow> upd_word bm ptr (\<lambda>w. w AND NOT bitmask);
                       clear_words bm' (Suc ptr) (len - num_bits) })
         else clear_words bm ptr len)"

subsection \<open>Counting runs\<close>

text \<open>
  The counters never stop inside a word of the wanted kind: \<open>limit\<close> is only looked at between
  words, so the count can exceed it.
\<close>

function count_zero_words :: "u32 \<Rightarrow> u64 list \<Rightarrow> nat \<Rightarrow> u32 \<Rightarrow> u32 \<Rightarrow> u32 \<Rightarrow> u32 option" where
  "count_zero_words units_per_page bm ptr offset count limit =
     (if offset < units_per_page \<and> count < limit
      then (if ptr < length bm
            then (if bm ! ptr \<noteq> 0
                  then Some (count + ucast (count_trailing_zeros (bm ! ptr)))
                  else count_zero_words units_per_page bm (Suc ptr)
                         (offset + WORD_WIDTH) (count + WORD_WIDTH) limit)
            else None)
      else Some count)"
  by pat_completeness auto
termination
  by (relation "measure (\<lambda>(u, bm, ptr, offset, count, limit). length bm - ptr)") auto

declare count_zero_words.simps [simp del]

definition count_zero_bits :: "u32 \<Rightarrow> u64 list \<Rightarrow> u32 \<Rightarrow> u32 \<Rightarrow> u32 option" where
  "count_zero_bits units_per_page bm offset limit =
     (let ptr = unat (offset div WORD_WIDTH);
          bit_index = offset AND (WORD_WIDTH - 1)
      in if bit_index \<noteq> 0
         then do { w \<leftarrow> read_word bm ptr;
                   let w = drop_bit (unat bit_index) w;
                   if w \<noteq> 0 then Some (ucast (count_trailing_zeros w))
                   else let count = WORD_WIDTH - bit_index
                        in count_zero_words units_per_page bm (Suc ptr) (offset + count) count limit }
         else count_zero_words units_per_page bm ptr offset 0 limit)"

function count_nonzero_words :: "u32 \<Rightarrow> u64 list \<Rightarrow> nat \<Rightarrow> u32 \<Rightarrow> u32 \<Rightarrow> u32 \<Rightarrow> u32 option" where
  "count_nonzero_words units_per_page bm ptr offset count limit =
     (if offset < units_per_page \<and> count < limit
      then (if ptr < length bm
            then (if NOT (bm ! ptr) \<noteq> 0
                  then Some (count + ucast (count_trailing_zeros (NOT (bm ! ptr))))
                  else count_nonzero_words units_per_page bm (Suc ptr)
                         (offset + WORD_WIDTH) (count + WORD_WIDTH) limit)
            else None)
      else Some count)"
  by pat_completeness auto
termination
  by (relation "measure (\<lambda>(u, bm, ptr, offset, count, limit). length bm - ptr)") auto

declare count_nonzero_words.simps [simp del]

definition count_nonzero_bits :: "u32 \<Rightarrow> u64 list \<Rightarrow> u32 \<Rightarrow> u32 \<Rightarrow> u32 option" where
  "count_nonzero_bits units_per_page bm offset limit =
     (let ptr = unat (offset div WORD_WIDTH);
          bit_index = offset AND (WORD_WIDTH - 1)
      in if bit_index \<noteq> 0
         then do { w \<leftarrow> read_word bm ptr;
                   let w = drop_bit (unat bit_index) (NOT w);
                   if w \<noteq> 0 then Some (ucast (count_trailing_zeros w))
                   else let count = WORD_WIDTH - bit_index
                        in count_nonzero_words units_per_page bm (Suc ptr) (offset + count) count limit }
         else count_nonzero_words units_per_page bm ptr offset 0 limit)"

subsection \<open>Searching for free blocks\<close>

text \<open>
  The two search loops run until the page is exhausted; that they do return is proved below. The
  value \<open>None\<close> stands for an access past the bitmap or a loop that does not return.
\<close>

partial_function (option) find_free_block_from ::
  "u32 \<Rightarrow> u64 list \<Rightarrow> u32 \<Rightarrow> u32 \<Rightarrow> u32 option" where
  "find_free_block_from units_per_page bm block_size offset =
     (if offset < units_per_page
      then do { len \<leftarrow> count_zero_bits units_per_page bm offset block_size;
                if len \<ge> block_size then Some offset
                else do { ones \<leftarrow> count_nonzero_bits units_per_page bm (offset + len) 0xFFFFFFFF;
                          find_free_block_from units_per_page bm block_size (offset + len + ones) } }
      else Some 0)"

definition find_free_block :: "u32 \<Rightarrow> u32 \<Rightarrow> u64 list \<Rightarrow> u32 \<Rightarrow> u32 option" where
  "find_free_block units_per_page header_units bm block_size =
     find_free_block_from units_per_page bm block_size header_units"

partial_function (option) longest_free_block_from ::
  "u32 \<Rightarrow> u64 list \<Rightarrow> u32 \<Rightarrow> u32 \<Rightarrow> u32 \<Rightarrow> u32 option" where
  "longest_free_block_from units_per_page bm offset n lfb =
     (if n \<noteq> 0
      then do { zeros \<leftarrow> count_zero_bits units_per_page bm offset n;
                let lfb = (if zeros > lfb then zeros else lfb);
                let offset = offset + zeros;
                let n = n - zeros;
                ones \<leftarrow> count_nonzero_bits units_per_page bm offset n;
                longest_free_block_from units_per_page bm (offset + ones) (n - ones) lfb }
      else Some lfb)"

declare find_free_block_from.simps [code] longest_free_block_from.simps [code]

definition find_longest_free_block :: "u32 \<Rightarrow> u32 \<Rightarrow> u32 \<Rightarrow> u64 list \<Rightarrow> u32 option" where
  "find_longest_free_block units_per_page header_units max_data_units bm =
     longest_free_block_from units_per_page bm header_units max_data_units 0"

subsection \<open>What setting and clearing do to the sequence of bits\<close>

lemma unat_WORD_WIDTH [simp]: "unat WORD_WIDTH = 64"
  by (simp add: WORD_WIDTH_def)

lemma unat_bit_index [simp]: "unat (offset AND (WORD_WIDTH - 1)) = unat offset mod 64"
  using unat_and_63 [of offset] by (simp add: WORD_WIDTH_def)

lemma unat_div_WORD_WIDTH [simp]: "unat (offset div WORD_WIDTH) = unat offset div 64"
  by (simp add: unat_div)

lemma bit_index_neq_0: "offset AND (WORD_WIDTH - 1) \<noteq> 0 \<longleftrightarrow> unat offset mod 64 \<noteq> 0"
  by (metis unat_bit_index unat_eq_0)

lemma unat_word_rest:
  "unat (WORD_WIDTH - (offset AND (WORD_WIDTH - 1))) = 64 - unat offset mod 64"
  by (subst unat_sub_exact) simp_all

lemma bit_partial_mask:
  "unat len < 64 \<Longrightarrow> j < 64 \<Longrightarrow>
   bit (push_bit b (WORD_MAX AND low_mask len)) j \<longleftrightarrow> b \<le> j \<and> j < b + unat len"
  by (auto simp: bit_simps bit_low_mask)

lemma bit_high_mask: "j < 64 \<Longrightarrow> bit (push_bit b WORD_MAX :: u64) j \<longleftrightarrow> b \<le> j"
  by (auto simp: bit_simps)

lemma set_words_0 [simp]: "set_words bm ptr 0 = Some bm"
  by (simp add: set_words.simps WORD_WIDTH_def)

lemma set_words_spec:
  assumes "64 * ptr + unat len \<le> 64 * length bm"
  shows "\<exists>bm'. set_words bm ptr len = Some bm' \<and> length bm' = length bm \<and>
    (\<forall>i. bit_at bm' i \<longleftrightarrow> bit_at bm i \<or> (64 * ptr \<le> i \<and> i < 64 * ptr + unat len))"
  using assms
proof (induction bm ptr len rule: set_words.induct)
  case (1 bm ptr len)
  show ?case
  proof (cases "len \<ge> WORD_WIDTH")
    case True
    then have len: "64 \<le> unat len" by (simp add: word_le_nat_alt)
    then have ptr: "ptr < length bm" using "1.prems" by linarith
    have rest: "unat (len - WORD_WIDTH) = unat len - 64" using len by (simp add: unat_sub_exact)
    have "64 * Suc ptr + unat (len - WORD_WIDTH) \<le> 64 * length (bm[ptr := WORD_MAX])"
      using "1.prems" len rest by simp
    from "1.IH" [OF True ptr this] obtain bm' where bm':
      "set_words (bm[ptr := WORD_MAX]) (Suc ptr) (len - WORD_WIDTH) = Some bm'"
      "length bm' = length bm"
      "\<And>i. bit_at bm' i \<longleftrightarrow> bit_at (bm[ptr := WORD_MAX]) i \<or>
         (64 * Suc ptr \<le> i \<and> i < 64 * Suc ptr + unat (len - WORD_WIDTH))"
      by auto
    have "bit_at bm' i \<longleftrightarrow> bit_at bm i \<or> (64 * ptr \<le> i \<and> i < 64 * ptr + unat len)" for i
      using len ptr div_eq_iff_range [of i ptr] by (auto simp: bm'(3) rest bit_at_update)
    with bm'(1,2) True ptr show ?thesis by (simp add: set_words.simps [of bm ptr len])
  next
    case False
    then have len: "unat len < 64" by (simp add: word_le_nat_alt)
    show ?thesis
    proof (cases "len = 0")
      case True
      then show ?thesis by auto
    next
      case nz: False
      then have "0 < unat len" by (simp add: unat_gt_0)
      then have ptr: "ptr < length bm" using "1.prems" by linarith
      let ?bm' = "bm[ptr := bm ! ptr OR low_mask len]"
      have "bit_at ?bm' i \<longleftrightarrow> bit_at bm i \<or> (64 * ptr \<le> i \<and> i < 64 * ptr + unat len)" for i
        using len ptr div_eq_iff_range [of i ptr] minus_mod_eq_mult_div [of i 64]
        by (auto simp: bit_at_or bit_low_mask)
      with False nz ptr show ?thesis by (simp add: set_words.simps [of bm ptr len] upd_word_def)
    qed
  qed
qed

lemma set_bits_spec:
  assumes "unat offset + unat len \<le> 64 * length bm"
  obtains bm' where "set_bits bm offset len = Some bm'" and "length bm' = length bm"
    and "\<And>i. bit_at bm' i \<longleftrightarrow> bit_at bm i \<or> (unat offset \<le> i \<and> i < unat offset + unat len)"
proof -
  let ?p = "unat offset div 64" and ?b = "unat offset mod 64"
  have off: "64 * ?p + ?b = unat offset" by simp
  have "\<exists>bm'. set_bits bm offset len = Some bm' \<and> length bm' = length bm \<and>
    (\<forall>i. bit_at bm' i \<longleftrightarrow> bit_at bm i \<or> (unat offset \<le> i \<and> i < unat offset + unat len))"
  proof (cases "?b = 0")
    case True
    then have "set_bits bm offset len = set_words bm ?p len"
      using bit_index_neq_0 [of offset] by (simp add: set_bits_def)
    with set_words_spec [of ?p len bm] assms off True show ?thesis by simp
  next
    case b: False
    let ?num = "WORD_WIDTH - (offset AND (WORD_WIDTH - 1))"
    have num: "unat ?num = 64 - ?b" by (rule unat_word_rest)
    have p: "?p < length bm" using assms off b by linarith
    show ?thesis
    proof (cases "len \<le> ?num")
      case True
      then have len: "unat len \<le> 64 - ?b" using num by (simp add: word_le_nat_alt)
      let ?bm' = "bm[?p := bm ! ?p OR push_bit ?b (WORD_MAX AND low_mask len)]"
      have eq: "set_bits bm offset len = Some ?bm'"
        using True b p bit_index_neq_0 [of offset]
        by (simp add: set_bits_def upd_word_def Let_def)
      have "bit_at ?bm' i \<longleftrightarrow> bit_at bm i \<or> (unat offset \<le> i \<and> i < unat offset + unat len)" for i
      proof -
        have "i div 64 = ?p \<and> ?b \<le> i mod 64 \<and> i mod 64 < ?b + unat len \<longleftrightarrow>
          unat offset \<le> i \<and> i < unat offset + unat len"
          using len b off div_eq_iff_range [of i ?p] mult_div_mod_eq [of 64 i] by linarith
        then show ?thesis using p len b by (simp add: bit_at_or bit_partial_mask del: push_bit_and)
      qed
      with eq show ?thesis by simp
    next
      case False
      then have len: "64 - ?b < unat len" using num by (simp add: word_le_nat_alt)
      let ?bm1 = "bm[?p := bm ! ?p OR push_bit ?b WORD_MAX]"
      have eq: "set_bits bm offset len = set_words ?bm1 (Suc ?p) (len - ?num)"
        using False b p bit_index_neq_0 [of offset]
        by (simp add: set_bits_def upd_word_def Let_def)
      have rest: "unat (len - ?num) = unat len - (64 - ?b)"
        using len num by (simp add: unat_sub_exact)
      have "64 * Suc ?p + unat (len - ?num) \<le> 64 * length ?bm1"
        using assms off len rest by simp
      from set_words_spec [OF this] obtain bm' where bm': "set_words ?bm1 (Suc ?p) (len - ?num) = Some bm'"
        "length bm' = length bm"
        "\<And>i. bit_at bm' i \<longleftrightarrow> bit_at ?bm1 i \<or> (64 * Suc ?p \<le> i \<and> i < 64 * Suc ?p + unat (len - ?num))"
        by auto
      have "bit_at bm' i \<longleftrightarrow> bit_at bm i \<or> (unat offset \<le> i \<and> i < unat offset + unat len)" for i
      proof -
        have "i div 64 = ?p \<and> ?b \<le> i mod 64 \<or>
            (64 * Suc ?p \<le> i \<and> i < 64 * Suc ?p + unat (len - ?num)) \<longleftrightarrow>
          unat offset \<le> i \<and> i < unat offset + unat len"
          using range_from_word [of ?b "unat len" i ?p] len by (simp only: off rest)
        then show ?thesis using p by (auto simp: bm'(3) bit_at_or bit_high_mask)
      qed
      with eq bm' show ?thesis by simp
    qed
  qed
  then show thesis using that by blast
qed

text \<open>Clearing is setting on the complement, so its effect follows from that of \<open>set_bits\<close>.\<close>

lemma upd_word_not:
  "upd_word bm idx (\<lambda>w. w AND NOT m) =
   map_option (map NOT) (upd_word (map NOT bm) idx (\<lambda>w. w OR m))"
  by (simp add: upd_word_def map_update comp_def)

lemma clear_words_0 [simp]: "clear_words bm ptr 0 = Some bm"
  by (simp add: clear_words.simps)

lemma clear_words_not:
  "clear_words bm ptr len = map_option (map NOT) (set_words (map NOT bm) ptr len)"
proof (induction bm ptr len rule: clear_words.induct)
  case (1 bm ptr len)
  show ?case
    using "1.IH"
    by (subst clear_words.simps, subst set_words.simps)
       (simp add: upd_word_not map_update comp_def WORD_MAX_eq)
qed

lemma clear_bits_not: "clear_bits bm offset len = map_option (map NOT) (set_bits (map NOT bm) offset len)"
  by (simp add: clear_bits_def set_bits_def Let_def upd_word_not clear_words_not map_option_bind comp_def
      bind_map_option bind_Some_map option.map_ident split: prod.split)

lemma clear_bits_spec:
  assumes "unat offset + unat len \<le> 64 * length bm"
  obtains bm' where "clear_bits bm offset len = Some bm'" and "length bm' = length bm"
    and "\<And>i. bit_at bm' i \<longleftrightarrow> bit_at bm i \<and> \<not> (unat offset \<le> i \<and> i < unat offset + unat len)"
proof -
  have "unat offset + unat len \<le> 64 * length (map NOT bm)" using assms by simp
  from set_bits_spec [OF this] obtain c where c: "set_bits (map NOT bm) offset len = Some c"
    "length c = length bm"
    "\<And>i. bit_at c i \<longleftrightarrow> bit_at (map NOT bm) i \<or> (unat offset \<le> i \<and> i < unat offset + unat len)"
    by auto
  show thesis
  proof (rule that)
    show "clear_bits bm offset len = Some (map NOT c)" by (simp add: clear_bits_not c(1))
    show "length (map NOT c) = length bm" by (simp add: c(2))
    show "bit_at (map NOT c) i \<longleftrightarrow> bit_at bm i \<and> \<not> (unat offset \<le> i \<and> i < unat offset + unat len)" for i
      using bit_at_less [of bm i] by (auto simp: bit_at_map_not c(2,3))
  qed
qed

subsection \<open>What the counters count\<close>

lemma count_nonzero_words_not:
  "count_nonzero_words u bm ptr offset count limit = count_zero_words u (map NOT bm) ptr offset count limit"
proof (induction u bm ptr offset count limit rule: count_nonzero_words.induct)
  case (1 u bm ptr offset count limit)
  then show ?case
    by (subst count_nonzero_words.simps, subst count_zero_words.simps) simp
qed

lemma count_nonzero_bits_not: "count_nonzero_bits u bm offset limit = count_zero_bits u (map NOT bm) offset limit"
  by (simp add: count_nonzero_bits_def count_zero_bits_def read_word_def count_nonzero_words_not Let_def)

text \<open>
  \<open>zero_run bm i n\<close>: \<open>n\<close> consecutive zero bits from bit \<open>i\<close>. A count that stays below the limit
  stops at a bit of the other kind or at the end of the page.
\<close>

definition zero_run :: "u64 list \<Rightarrow> nat \<Rightarrow> nat \<Rightarrow> bool" where
  "zero_run bm i n \<longleftrightarrow> (\<forall>j. i \<le> j \<and> j < i + n \<longrightarrow> \<not> bit_at bm j)"

lemma zero_run_0 [simp]: "zero_run bm i 0"
  by (auto simp: zero_run_def)

lemma zero_run_add: "zero_run bm i n \<Longrightarrow> zero_run bm (i + n) m \<Longrightarrow> zero_run bm i (n + m)"
  by (simp add: zero_run_def) (metis add.assoc not_le)

lemma zero_run_sub: "zero_run bm i n \<Longrightarrow> i \<le> k \<Longrightarrow> k + m \<le> i + n \<Longrightarrow> zero_run bm k m"
  by (auto simp: zero_run_def)

lemma zero_run_le: "zero_run bm i n \<Longrightarrow> m \<le> n \<Longrightarrow> zero_run bm i m"
  by (auto simp: zero_run_def)

definition page_bitmap :: "u32 \<Rightarrow> u64 list \<Rightarrow> bool" where
  "page_bitmap units_per_page bm \<longleftrightarrow>
     64 * length bm = unat units_per_page \<and> unat units_per_page < 2 ^ 31"

lemma count_zero_words_spec:
  assumes "page_bitmap u bm" and "unat offset = 64 * ptr" and "ptr \<le> length bm"
    and "unat count \<le> unat offset" and "zero_run bm (unat offset - unat count) (unat count)"
  shows "\<exists>c. count_zero_words u bm ptr offset count limit = Some c \<and>
    unat offset - unat count + unat c \<le> unat u \<and> zero_run bm (unat offset - unat count) (unat c) \<and>
    unat count \<le> unat c \<and>
    (unat c < unat limit \<longrightarrow> unat offset - unat count + unat c = unat u \<or>
       bit_at bm (unat offset - unat count + unat c))"
  using assms
proof (induction u bm ptr offset count limit rule: count_zero_words.induct)
  case (1 u bm ptr offset count limit)
  let ?s = "unat offset - unat count"
  note u = "1.prems"(1) [unfolded page_bitmap_def]
  have s: "?s + unat count = unat offset" using "1.prems"(4) by simp
  show ?case
  proof (cases "offset < u \<and> count < limit")
    case True
    then have ptr: "ptr < length bm" using u "1.prems"(2) by (simp add: word_less_nat_alt)
    show ?thesis
    proof (cases "bm ! ptr = 0")
      case zero: True
      have o': "unat (offset + WORD_WIDTH) = unat offset + 64"
        using u ptr "1.prems"(2) by (subst unat_add_exact) simp_all
      have c': "unat (count + WORD_WIDTH) = unat count + 64"
        using u ptr "1.prems"(2,4) by (subst unat_add_exact) simp_all
      have "zero_run bm (unat offset) 64"
        using ptr zero "1.prems"(2) bit_at_def
        by (auto simp: zero_run_def bit_at_def div_nat_eqI)
      then have run: "zero_run bm ?s (unat count + 64)"
        using zero_run_add [OF "1.prems"(5)] s by simp
      have "?s = unat (offset + WORD_WIDTH) - unat (count + WORD_WIDTH)" by (simp add: o' c')
      moreover from "1.IH" [OF True ptr] zero "1.prems" run o' c' ptr
      have "\<exists>c. count_zero_words u bm (Suc ptr) (offset + WORD_WIDTH) (count + WORD_WIDTH) limit = Some c \<and>
        ?s + unat c \<le> unat u \<and> zero_run bm ?s (unat c) \<and> unat count + 64 \<le> unat c \<and>
        (unat c < unat limit \<longrightarrow> ?s + unat c = unat u \<or> bit_at bm (?s + unat c))"
        by simp
      ultimately show ?thesis
        using True ptr zero by (auto simp: count_zero_words.simps [of u bm ptr offset count limit])
    next
      case nz: False
      let ?t = "count_trailing_zeros (bm ! ptr)"
      note t = count_trailing_zeros_spec [OF nz]
      have ut: "unat (ucast ?t :: u32) = unat ?t"
        using t(1) by (simp add: unsigned_ucast_eq take_bit_nat_eq_self_iff)
      have c: "unat (count + ucast ?t) = unat count + unat ?t"
        using t(1) u ptr "1.prems"(2,4) ut by (subst unat_add_exact) simp_all
      have "zero_run bm (unat offset) (unat ?t)"
      proof (unfold zero_run_def, intro allI impI)
        fix j assume j: "unat offset \<le> j \<and> j < unat offset + unat ?t"
        then have "bit_at bm (64 * ptr + (j - 64 * ptr)) = bit (bm ! ptr) (j - 64 * ptr)"
          using t(1) ptr "1.prems"(2) by (intro bit_at_word) auto
        moreover have "j - 64 * ptr < unat ?t" using j "1.prems"(2) by linarith
        ultimately show "\<not> bit_at bm j" using j "1.prems"(2) t(3) [of "j - 64 * ptr"] by auto
      qed
      then have "zero_run bm ?s (unat count + unat ?t)"
        using zero_run_add [OF "1.prems"(5)] s by simp
      moreover have "bit_at bm (64 * ptr + unat ?t)"
        using t(1,2) ptr by (simp add: bit_at_word)
      moreover have pos: "?s + (unat count + unat ?t) = 64 * ptr + unat ?t"
        using s "1.prems"(2) by simp
      moreover have "64 * ptr + unat ?t \<le> unat u" using u ptr t(1) by simp
      moreover have "count_zero_words u bm ptr offset count limit = Some (count + ucast ?t)"
        using True ptr nz by (simp add: count_zero_words.simps [of u bm ptr offset count limit])
      ultimately show ?thesis
        by (intro exI [of _ "count + ucast ?t"]) (simp only: c pos, simp)
    qed
  next
    case False
    then have "unat offset = unat u \<or> unat limit \<le> unat count"
      using u "1.prems"(2,3) by (auto simp: word_less_nat_alt)
    with False "1.prems" u s show ?thesis
      by (auto simp: count_zero_words.simps [of u bm ptr offset count limit])
  qed
qed

lemma count_zero_bits_spec:
  assumes "page_bitmap u bm" and "unat offset \<le> unat u"
  obtains c where "count_zero_bits u bm offset limit = Some c"
    and "unat offset + unat c \<le> unat u" and "zero_run bm (unat offset) (unat c)"
    and "unat c < unat limit \<Longrightarrow> unat offset + unat c = unat u \<or> bit_at bm (unat offset + unat c)"
proof -
  let ?p = "unat offset div 64" and ?b = "unat offset mod 64"
  note u = assms(1) [unfolded page_bitmap_def]
  have off: "64 * ?p + ?b = unat offset" by simp
  have "\<exists>c. count_zero_bits u bm offset limit = Some c \<and> unat offset + unat c \<le> unat u \<and>
    zero_run bm (unat offset) (unat c) \<and>
    (unat c < unat limit \<longrightarrow> unat offset + unat c = unat u \<or> bit_at bm (unat offset + unat c))"
  proof (cases "?b = 0")
    case True
    then have "count_zero_bits u bm offset limit = count_zero_words u bm ?p offset 0 limit"
      using bit_index_neq_0 [of offset] by (simp add: count_zero_bits_def)
    moreover have "?p \<le> length bm" using u assms(2) off by linarith
    moreover have "unat offset = 64 * ?p" using off True by simp
    ultimately show ?thesis
      using count_zero_words_spec [OF assms(1), of offset ?p 0 limit] by simp
  next
    case b: False
    have p: "?p < length bm" using u assms(2) off b by linarith
    let ?w = "drop_bit ?b (bm ! ?p)"
    let ?count = "WORD_WIDTH - (offset AND (WORD_WIDTH - 1))"
    have cnt: "unat ?count = 64 - ?b" by (rule unat_word_rest)
    have b64: "?b < 64" by simp
    have bit: "bit ?w j = bit_at bm (unat offset + j)" if "?b + j < 64" for j
      using bit_at_word [OF p that] off by (simp add: bit_simps add.assoc [symmetric])
    show ?thesis
    proof (cases "?w = 0")
      case False
      let ?t = "count_trailing_zeros ?w"
      note t = count_trailing_zeros_spec [OF False]
      have ut: "unat (ucast ?t :: u32) = unat ?t"
        using t(1) by (simp add: unsigned_ucast_eq take_bit_nat_eq_self_iff)
      have bt: "?b + unat ?t < 64" using t(2) by (auto simp: bit_simps dest: bit_imp_le_length)
      have "zero_run bm (unat offset) (unat ?t)"
      proof (unfold zero_run_def, intro allI impI)
        fix j assume j: "unat offset \<le> j \<and> j < unat offset + unat ?t"
        then have "?b + (j - unat offset) < 64" using bt by linarith
        moreover have "j - unat offset < unat ?t" using j by linarith
        ultimately show "\<not> bit_at bm j" using j t(3) [of "j - unat offset"] bit [of "j - unat offset"] by auto
      qed
      moreover have "bit_at bm (unat offset + unat ?t)" using bit [OF bt] t(2) by simp
      moreover have "unat offset + unat ?t \<le> unat u" using u p bt off by linarith
      ultimately show ?thesis
        using b p False bit_index_neq_0 [of offset] ut
        by (simp add: count_zero_bits_def read_word_def Let_def)
    next
      case True
      have "count_zero_bits u bm offset limit =
        count_zero_words u bm (Suc ?p) (offset + ?count) ?count limit"
        using b p True bit_index_neq_0 [of offset]
        by (simp add: count_zero_bits_def read_word_def Let_def)
      moreover have o': "unat (offset + ?count) = 64 * Suc ?p"
      proof (subst unat_add_exact)
        show "unat offset + unat ?count < 2 ^ LENGTH(32)"
          using u assms(2) cnt by simp linarith
        show "unat offset + unat ?count = 64 * Suc ?p"
          by (simp only: cnt to_word_boundary)
      qed
      moreover have "unat ?count \<le> unat (offset + ?count)"
        unfolding o' cnt by simp
      moreover have diff: "unat (offset + ?count) - unat ?count = unat offset"
        unfolding o' cnt using to_word_boundary [of "unat offset"] by linarith
      moreover have "zero_run bm (unat offset) (unat ?count)"
      proof (unfold zero_run_def, intro allI impI)
        fix j assume j: "unat offset \<le> j \<and> j < unat offset + unat ?count"
        then have "?b + (j - unat offset) < 64" using b64 unfolding cnt by linarith
        from bit [OF this] show "\<not> bit_at bm j" using j True by simp
      qed
      ultimately show ?thesis
        using count_zero_words_spec [OF assms(1), of "offset + ?count" "Suc ?p" ?count limit] p cnt
        by auto
    qed
  qed
  then show thesis using that by blast
qed

lemma page_bitmap_not: "page_bitmap u bm \<Longrightarrow> page_bitmap u (map NOT bm)"
  by (simp add: page_bitmap_def)

lemma count_nonzero_bits_spec:
  assumes "page_bitmap u bm" and "unat offset \<le> unat u"
  obtains c where "count_nonzero_bits u bm offset limit = Some c"
    and "unat offset + unat c \<le> unat u"
    and "\<And>j. unat offset \<le> j \<Longrightarrow> j < unat offset + unat c \<Longrightarrow> bit_at bm j"
    and "unat c < unat limit \<Longrightarrow> unat offset + unat c = unat u \<or> \<not> bit_at bm (unat offset + unat c)"
proof -
  from count_zero_bits_spec [OF page_bitmap_not [OF assms(1)] assms(2)] obtain c where c:
    "count_zero_bits u (map NOT bm) offset limit = Some c" "unat offset + unat c \<le> unat u"
    "zero_run (map NOT bm) (unat offset) (unat c)"
    "unat c < unat limit \<Longrightarrow> unat offset + unat c = unat u \<or> bit_at (map NOT bm) (unat offset + unat c)"
    by blast
  have u: "unat u = 64 * length bm" using assms(1) by (simp add: page_bitmap_def)
  show thesis
  proof (rule that [of c])
    show "count_nonzero_bits u bm offset limit = Some c" by (simp add: count_nonzero_bits_not c(1))
    show "bit_at bm j" if "unat offset \<le> j" "j < unat offset + unat c" for j
      using c(2,3) that u by (auto simp: zero_run_def bit_at_map_not)
  qed (use c u in \<open>auto simp: bit_at_map_not\<close>)
qed

subsection \<open>First fit and longest free block\<close>

text \<open>\<open>free_from bm u i n\<close>: a block of \<open>n\<close> zero bits starts at bit \<open>i\<close> and ends within the page.\<close>

definition free_from :: "u64 list \<Rightarrow> nat \<Rightarrow> nat \<Rightarrow> nat \<Rightarrow> bool" where
  "free_from bm u i n \<longleftrightarrow> i + n \<le> u \<and> zero_run bm i n"

lemma free_from_le: "free_from bm u i n \<Longrightarrow> m \<le> n \<Longrightarrow> free_from bm u i m"
  by (auto simp: free_from_def intro: zero_run_le)

lemma not_free_before_stop:
  assumes "free_from bm u s n" and "s \<le> k" and "k < s + n" and "k = u \<or> bit_at bm k"
  shows False
  using assms by (auto simp: free_from_def zero_run_def)

lemma find_free_block_from_spec:
  assumes "page_bitmap u bm" and "unat offset \<le> unat u" and "0 < unat block_size"
  shows "\<exists>r. find_free_block_from u bm block_size offset = Some r \<and>
    (r = 0 \<and> (\<forall>s\<ge>unat offset. \<not> free_from bm (unat u) s (unat block_size)) \<or>
     unat offset \<le> unat r \<and> free_from bm (unat u) (unat r) (unat block_size) \<and>
     (\<forall>s\<ge>unat offset. s < unat r \<longrightarrow> \<not> free_from bm (unat u) s (unat block_size)))"
  using assms(2)
proof (induction "unat u - unat offset" arbitrary: offset rule: less_induct)
  case less
  let ?free = "\<lambda>s. free_from bm (unat u) s (unat block_size)"
  have u31: "unat u < 2 ^ 31" using assms(1) by (simp add: page_bitmap_def)
  show ?case
  proof (cases "offset < u")
    case False
    then have "unat offset = unat u" using less.prems by (simp add: word_less_nat_alt)
    then have "\<forall>s\<ge>unat offset. \<not> ?free s" using assms(3) by (auto simp: free_from_def)
    with False show ?thesis by (simp add: find_free_block_from.simps)
  next
    case True
    obtain c where c: "count_zero_bits u bm offset block_size = Some c"
      "unat offset + unat c \<le> unat u" "zero_run bm (unat offset) (unat c)"
      "unat c < unat block_size \<Longrightarrow> unat offset + unat c = unat u \<or> bit_at bm (unat offset + unat c)"
      using count_zero_bits_spec [OF assms(1) less.prems] by blast
    show ?thesis
    proof (cases "block_size \<le> c")
      case fits: True
      then have "?free (unat offset)"
        using c(2,3) by (auto simp: free_from_def word_le_nat_alt intro: zero_run_le)
      with True fits c(1) show ?thesis by (simp add: find_free_block_from.simps)
    next
      case False
      then have short: "unat c < unat block_size" by (simp add: word_le_nat_alt)
      have o1: "unat (offset + c) = unat offset + unat c"
        using c(2) u31 by (subst unat_add_exact) simp_all
      obtain d where d: "count_nonzero_bits u bm (offset + c) 0xFFFFFFFF = Some d"
        "unat (offset + c) + unat d \<le> unat u"
        "\<And>j. unat (offset + c) \<le> j \<Longrightarrow> j < unat (offset + c) + unat d \<Longrightarrow> bit_at bm j"
        "unat d < unat (0xFFFFFFFF :: u32) \<Longrightarrow>
           unat (offset + c) + unat d = unat u \<or> \<not> bit_at bm (unat (offset + c) + unat d)"
        using count_nonzero_bits_spec [OF assms(1), of "offset + c" "0xFFFFFFFF"] c(2) o1 by auto
      have o2: "unat (offset + c + d) = unat offset + unat c + unat d"
        using d(2) o1 u31 by (subst unat_add_exact) simp_all
      have "unat d < unat (0xFFFFFFFF :: u32)" using d(2) u31 by simp
      then have stop: "unat offset + unat c + unat d = unat u \<or> \<not> bit_at bm (unat offset + unat c + unat d)"
        using d(4) o1 by simp
      have progress: "unat offset < unat (offset + c + d)"
      proof (rule ccontr)
        assume "\<not> ?thesis"
        then have "unat c = 0" "unat d = 0" using o2 by simp_all
        then show False using stop c(4) [OF short] True by (simp add: word_less_nat_alt)
      qed
      have skip: "\<not> ?free s" if "unat offset \<le> s" "s < unat (offset + c + d)" for s
      proof
        assume free: "?free s"
        show False
        proof (cases "s < unat offset + unat c")
          case True
          then show False using not_free_before_stop [OF free, of "unat offset + unat c"] that c(4) short by auto
        next
          case False
          then have "bit_at bm s" using d(3) [of s] that o1 o2 by simp
          then show False using not_free_before_stop [OF free, of s] assms(3) by simp
        qed
      qed
      have "unat u - unat (offset + c + d) < unat u - unat offset" "unat (offset + c + d) \<le> unat u"
        using progress True o2 d(2) o1 by (simp_all add: word_less_nat_alt, linarith)
      from less.hyps [OF this] obtain r where
        r: "find_free_block_from u bm block_size (offset + c + d) = Some r"
        "r = 0 \<and> (\<forall>s\<ge>unat (offset + c + d). \<not> ?free s) \<or> unat (offset + c + d) \<le> unat r \<and> ?free (unat r) \<and>
         (\<forall>s\<ge>unat (offset + c + d). s < unat r \<longrightarrow> \<not> ?free s)"
        by blast
      have "find_free_block_from u bm block_size offset = Some r"
        using True False c(1) d(1) r(1) by (simp add: find_free_block_from.simps [of u bm block_size offset])
      moreover have "r = 0 \<and> (\<forall>s\<ge>unat offset. \<not> ?free s) \<or> unat offset \<le> unat r \<and> ?free (unat r) \<and>
         (\<forall>s\<ge>unat offset. s < unat r \<longrightarrow> \<not> ?free s)"
        using r(2) skip progress by (meson le_trans less_imp_le not_le)
      ultimately show ?thesis by blast
    qed
  qed
qed

lemma longest_free_block_from_spec:
  assumes "page_bitmap u bm" and "unat offset + unat n = unat u"
  shows "\<exists>r. longest_free_block_from u bm offset n lfb = Some r \<and> unat lfb \<le> unat r \<and>
    (\<forall>s\<ge>unat offset. \<forall>l. free_from bm (unat u) s l \<longrightarrow> l \<le> unat r) \<and>
    (r = lfb \<or> (\<exists>s\<ge>unat offset. free_from bm (unat u) s (unat r)))"
  using assms(2)
proof (induction "unat n" arbitrary: offset n lfb rule: less_induct)
  case less
  let ?free = "free_from bm (unat u)"
  have u31: "unat u < 2 ^ 31" using assms(1) by (simp add: page_bitmap_def)
  show ?case
  proof (cases "n = 0")
    case True
    then have "unat offset = unat u" using less.prems by simp
    then have "\<forall>s\<ge>unat offset. \<forall>l. ?free s l \<longrightarrow> l \<le> unat lfb" by (auto simp: free_from_def)
    with True show ?thesis by (simp add: longest_free_block_from.simps)
  next
    case False
    then have n0: "0 < unat n" by (simp add: unat_gt_0)
    obtain c where c: "count_zero_bits u bm offset n = Some c"
      "unat offset + unat c \<le> unat u" "zero_run bm (unat offset) (unat c)"
      "unat c < unat n \<Longrightarrow> unat offset + unat c = unat u \<or> bit_at bm (unat offset + unat c)"
      using count_zero_bits_spec [OF assms(1), of offset n] less.prems by auto
    have stop: "unat offset + unat c = unat u \<or> bit_at bm (unat offset + unat c)"
      using c(2,4) less.prems by (cases "unat c < unat n") auto
    have o1: "unat (offset + c) = unat offset + unat c"
      using c(2) u31 by (subst unat_add_exact) simp_all
    have n1: "unat (n - c) = unat n - unat c" using c(2) less.prems by (intro unat_sub_exact) simp
    obtain d where d: "count_nonzero_bits u bm (offset + c) (n - c) = Some d"
      "unat (offset + c) + unat d \<le> unat u"
      "\<And>j. unat (offset + c) \<le> j \<Longrightarrow> j < unat (offset + c) + unat d \<Longrightarrow> bit_at bm j"
      "unat d < unat (n - c) \<Longrightarrow>
         unat (offset + c) + unat d = unat u \<or> \<not> bit_at bm (unat (offset + c) + unat d)"
      using count_nonzero_bits_spec [OF assms(1), of "offset + c" "n - c"] c(2) o1 by auto
    have o2: "unat (offset + c + d) = unat offset + unat c + unat d"
      using d(2) o1 u31 by (subst unat_add_exact) simp_all
    have n2: "unat (n - c - d) = unat n - unat c - unat d"
      using d(2) o1 n1 less.prems by (subst unat_sub_exact) simp_all
    have progress: "0 < unat c + unat d"
    proof (rule ccontr)
      assume "\<not> ?thesis"
      then have z: "unat c = 0" "unat d = 0" by simp_all
      then have "unat d < unat (n - c)" using n0 n1 by simp
      from d(4) [OF this] stop z o1 n0 less.prems show False by simp
    qed
    let ?lfb = "if lfb < c then c else lfb"
    have lt: "unat (n - c - d) < unat n" using n2 progress n0 by linarith
    have sum: "unat (offset + c + d) + unat (n - c - d) = unat u"
      using o2 n2 less.prems d(2) o1 by linarith
    from less.hyps [OF lt sum, of ?lfb] obtain r where
      r: "longest_free_block_from u bm (offset + c + d) (n - c - d) ?lfb = Some r" "unat ?lfb \<le> unat r"
      "\<And>s l. unat (offset + c + d) \<le> s \<Longrightarrow> ?free s l \<Longrightarrow> l \<le> unat r"
      "r = ?lfb \<or> (\<exists>s\<ge>unat (offset + c + d). ?free s (unat r))"
      by blast
    have "longest_free_block_from u bm offset n lfb = Some r"
      using False c(1) d(1) r(1)
      by (simp add: longest_free_block_from.simps [of u bm offset n lfb] Let_def)
    moreover have "unat lfb \<le> unat r" and cr: "unat c \<le> unat r"
      using r(2) by (auto simp: word_less_nat_alt split: if_splits)
    moreover have "l \<le> unat r" if s: "unat offset \<le> s" and free: "?free s l" for s l
    proof (cases "unat (offset + c + d) \<le> s")
      case True
      then show ?thesis using r(3) free by blast
    next
      case below: False
      show ?thesis
      proof (cases "s < unat offset + unat c")
        case True
        then have "s + l \<le> unat offset + unat c"
          using not_free_before_stop [OF free, of "unat offset + unat c"] stop by fastforce
        then show ?thesis using s cr by linarith
      next
        case False
        then have "bit_at bm s" using d(3) [of s] below o1 o2 by simp
        then have "l = 0" using not_free_before_stop [OF free, of s] by fastforce
        then show ?thesis by simp
      qed
    qed
    moreover have "r = lfb \<or> (\<exists>s\<ge>unat offset. ?free s (unat r))"
    proof -
      have "?free (unat offset) (unat c)" using c(2,3) by (simp add: free_from_def)
      moreover have "unat offset \<le> s" if "unat (offset + c + d) \<le> s" for s using that o2 by simp
      ultimately show ?thesis using r(4) by (auto split: if_splits)
    qed
    ultimately show ?thesis by blast
  qed
qed

text \<open>
  \<open>page_ok\<close> is what a page of the allocator always satisfies: the bitmap covers the page, the header
  takes at least one unit and not all of them, and the units of the header are in use.
\<close>

definition page_ok :: "u32 \<Rightarrow> u32 \<Rightarrow> u64 list \<Rightarrow> bool" where
  "page_ok units_per_page header_units bm \<longleftrightarrow>
     page_bitmap units_per_page bm \<and> 0 < unat header_units \<and>
     unat header_units < unat units_per_page \<and> (\<forall>i<unat header_units. bit_at bm i)"

definition has_block :: "u64 list \<Rightarrow> nat \<Rightarrow> nat \<Rightarrow> nat \<Rightarrow> bool" where
  "has_block bm hdr u n \<longleftrightarrow> (\<exists>s\<ge>hdr. free_from bm u s n)"

lemma has_block_le: "has_block bm hdr u n \<Longrightarrow> m \<le> n \<Longrightarrow> has_block bm hdr u m"
  by (auto simp: has_block_def intro: free_from_le)

lemma find_free_block_spec:
  assumes "page_ok u hdr bm" and "0 < unat block_size"
  obtains r where "find_free_block u hdr bm block_size = Some r"
    and "r = 0 \<longleftrightarrow> \<not> has_block bm (unat hdr) (unat u) (unat block_size)"
    and "r \<noteq> 0 \<Longrightarrow> unat hdr \<le> unat r \<and> free_from bm (unat u) (unat r) (unat block_size)"
    and "\<And>s. r \<noteq> 0 \<Longrightarrow> unat hdr \<le> s \<Longrightarrow> s < unat r \<Longrightarrow> \<not> free_from bm (unat u) s (unat block_size)"
proof -
  have "page_bitmap u bm" "unat hdr \<le> unat u" "0 < unat hdr" using assms(1) by (auto simp: page_ok_def)
  with find_free_block_from_spec [of u bm hdr block_size] assms(2) obtain r where
    r: "find_free_block_from u bm block_size hdr = Some r"
    "r = 0 \<and> (\<forall>s\<ge>unat hdr. \<not> free_from bm (unat u) s (unat block_size)) \<or>
     unat hdr \<le> unat r \<and> free_from bm (unat u) (unat r) (unat block_size) \<and>
     (\<forall>s\<ge>unat hdr. s < unat r \<longrightarrow> \<not> free_from bm (unat u) s (unat block_size))"
    by blast
  have "r \<noteq> 0" if "unat hdr \<le> unat r" using that \<open>0 < unat hdr\<close> by (auto simp: unat_gt_0 [symmetric])
  with r(2) show thesis
    by (intro that [of r]) (auto simp: find_free_block_def has_block_def r(1))
qed

lemma find_longest_free_block_spec:
  assumes "page_ok u hdr bm" and "max_data = u - hdr"
  obtains r where "find_longest_free_block u hdr max_data bm = Some r"
    and "\<And>n. has_block bm (unat hdr) (unat u) n \<longleftrightarrow> n \<le> unat r"
proof -
  have pb: "page_bitmap u bm" "unat hdr < unat u" using assms(1) by (auto simp: page_ok_def)
  then have "unat hdr + unat max_data = unat u" by (simp add: assms(2) unat_sub_exact)
  from longest_free_block_from_spec [OF pb(1) this, of 0] obtain r where
    r: "longest_free_block_from u bm hdr max_data 0 = Some r"
    "\<And>s l. unat hdr \<le> s \<Longrightarrow> free_from bm (unat u) s l \<Longrightarrow> l \<le> unat r"
    "r = 0 \<or> (\<exists>s\<ge>unat hdr. free_from bm (unat u) s (unat r))"
    by blast
  have "has_block bm (unat hdr) (unat u) 0" using pb(2) by (auto simp: has_block_def free_from_def)
  then have "has_block bm (unat hdr) (unat u) (unat r)" using r(3) by (auto simp: has_block_def)
  with r(1,2) show thesis
    by (intro that [of r]) (auto simp: find_longest_free_block_def intro: has_block_le, auto simp: has_block_def)
qed

lemma longest_decides_first_fit:
  assumes "page_ok u hdr bm" and "0 < unat n"
    and f: "find_free_block u hdr bm n = Some r"
    and l: "find_longest_free_block u hdr (u - hdr) bm = Some l"
  shows "r \<noteq> 0 \<longleftrightarrow> n \<le> l"
proof -
  have "r \<noteq> 0 \<longleftrightarrow> has_block bm (unat hdr) (unat u) (unat n)"
    by (rule find_free_block_spec [OF assms(1,2)]) (simp add: f)
  also have "\<dots> \<longleftrightarrow> unat n \<le> unat l"
    by (rule find_longest_free_block_spec [OF assms(1) refl]) (simp add: l)
  finally show ?thesis by (simp add: word_le_nat_alt)
qed

lemma set_bits_page_ok:
  assumes "page_ok u hdr bm" and "unat off + unat n \<le> unat u"
  shows "\<exists>bm'. set_bits bm off n = Some bm' \<and> page_ok u hdr bm' \<and>
    (\<forall>i. bit_at bm' i \<longleftrightarrow> bit_at bm i \<or> (unat off \<le> i \<and> i < unat off + unat n))"
proof -
  have "unat off + unat n \<le> 64 * length bm" using assms by (simp add: page_ok_def page_bitmap_def)
  then show ?thesis
  proof (rule set_bits_spec)
    fix bm' assume "set_bits bm off n = Some bm'" "length bm' = length bm"
      "\<And>i. bit_at bm' i \<longleftrightarrow> bit_at bm i \<or> (unat off \<le> i \<and> i < unat off + unat n)"
    with assms(1) show ?thesis by (simp add: page_ok_def page_bitmap_def)
  qed
qed

lemma clear_bits_page_ok:
  assumes "page_ok u hdr bm" and "unat hdr \<le> unat off" and "unat off + unat n \<le> unat u"
  shows "\<exists>bm'. clear_bits bm off n = Some bm' \<and> page_ok u hdr bm' \<and>
    (\<forall>i. bit_at bm' i \<longleftrightarrow> bit_at bm i \<and> \<not> (unat off \<le> i \<and> i < unat off + unat n))"
proof -
  have "unat off + unat n \<le> 64 * length bm" using assms by (simp add: page_ok_def page_bitmap_def)
  then show ?thesis
  proof (rule clear_bits_spec)
    fix bm' assume "clear_bits bm off n = Some bm'" "length bm' = length bm"
      "\<And>i. bit_at bm' i \<longleftrightarrow> bit_at bm i \<and> \<not> (unat off \<le> i \<and> i < unat off + unat n)"
    with assms(1,2) show ?thesis by (simp add: page_ok_def page_bitmap_def)
  qed
qed

lemma find_free_block_law:
  assumes "page_ok u hdr bm" and "0 < unat n"
  shows "\<exists>r. find_free_block u hdr bm n = Some r \<and>
    (r = 0 \<longrightarrow> \<not> (\<exists>s\<ge>unat hdr. s + unat n \<le> unat u \<and> (\<forall>i. s \<le> i \<and> i < s + unat n \<longrightarrow> \<not> bit_at bm i))) \<and>
    (r \<noteq> 0 \<longrightarrow> unat hdr \<le> unat r \<and> unat r + unat n \<le> unat u \<and>
       (\<forall>i. unat r \<le> i \<and> i < unat r + unat n \<longrightarrow> \<not> bit_at bm i))"
proof (rule find_free_block_spec [OF assms])
  fix r assume "find_free_block u hdr bm n = Some r"
    "r = 0 \<longleftrightarrow> \<not> has_block bm (unat hdr) (unat u) (unat n)"
    "r \<noteq> 0 \<Longrightarrow> unat hdr \<le> unat r \<and> free_from bm (unat u) (unat r) (unat n)"
  then show ?thesis by (simp add: has_block_def free_from_def zero_run_def)
qed

interpretation bm: block_map bit_at "page_ok units_per_page header_units" "unat units_per_page"
  "unat header_units" set_bits clear_bits "find_free_block units_per_page header_units"
  for units_per_page header_units :: u32
  by unfold_locales (rule set_bits_page_ok clear_bits_page_ok find_free_block_law; assumption)+

end
