(* ===== verification/Alignment.thy ===== *)
theory Alignment
  imports Pussy_Prelude
begin

text \<open>
  The alignment helpers of \<^verbatim>\<open>include/allocator.h\<close> and the power-of-two test of \<^verbatim>\<open>src/arena.c\<close>,
  on 32-bit unsigned integers and 64-bit pointers.
\<close>

definition align_unsigned :: "u32 \<Rightarrow> u32 \<Rightarrow> u32" where
  "align_unsigned n alignment =
     (if alignment > 1
      then (let a = alignment - 1 in (n + a) AND NOT a)
      else n)"

definition align_pointer :: "u64 \<Rightarrow> u32 \<Rightarrow> u64" where
  "align_pointer ptr alignment =
     (if alignment > 1
      then (let a = alignment - 1 in (ptr + ucast a) AND NOT (ucast a))
      else ptr)"

definition align_unsigned_to_page :: "u32 \<Rightarrow> u32 \<Rightarrow> u32" where
  "align_unsigned_to_page sys_page_size n = align_unsigned n sys_page_size"

definition align_pointer_to_page :: "u32 \<Rightarrow> u64 \<Rightarrow> u64" where
  "align_pointer_to_page sys_page_size ptr = align_pointer ptr sys_page_size"

definition is_power_of_two :: "u32 \<Rightarrow> bool" where
  "is_power_of_two v \<longleftrightarrow> v \<noteq> 0 \<and> (v AND (v - 1)) = 0"

subsection \<open>Rounding up\<close>

definition round_up :: "nat \<Rightarrow> nat \<Rightarrow> nat" where
  "round_up k n = (n + 2 ^ k - 1) div 2 ^ k * 2 ^ k"

lemma round_up_dvd: "2 ^ k dvd round_up k n"
  by (simp add: round_up_def)

lemma round_up_ge: "n \<le> round_up k n"
proof -
  have "(n + 2 ^ k - 1) mod 2 ^ k < 2 ^ k" by simp
  moreover have "round_up k n + (n + 2 ^ k - 1) mod 2 ^ k = n + 2 ^ k - 1"
    unfolding round_up_def by (rule div_mult_mod_eq)
  ultimately show ?thesis by linarith
qed

lemma round_up_less: "round_up k n < n + 2 ^ k"
proof -
  have "round_up k n \<le> n + 2 ^ k - 1"
    by (simp add: round_up_def)
  moreover have "(0::nat) < 2 ^ k" by simp
  ultimately show ?thesis by linarith
qed

lemma round_up_least:
  assumes "n \<le> m" and "2 ^ k dvd m"
  shows "round_up k n \<le> m"
proof (rule ccontr)
  assume "\<not> round_up k n \<le> m"
  moreover have "2 ^ k dvd round_up k n - m"
    using assms(2) round_up_dvd by (rule dvd_diff_nat [rotated])
  ultimately have "2 ^ k \<le> round_up k n - m" and "m < round_up k n"
    by (simp_all add: dvd_imp_le)
  then show False
    using round_up_less [of k n] assms(1) by linarith
qed

lemma round_up_id: "2 ^ k dvd n \<Longrightarrow> round_up k n = n"
  using round_up_least [of n n k] round_up_ge [of n k] by simp

lemma round_up_le_exp:
  assumes "n \<le> 2 ^ m" and "k \<le> m"
  shows "round_up k n \<le> 2 ^ m"
  using assms by (intro round_up_least) (simp_all add: le_imp_power_dvd)

lemma pow2_le_exp:
  fixes a :: "'a::len word"
  assumes "unat a = 2 ^ k"
  shows "k < LENGTH('a)"
proof -
  have "unat a < 2 ^ LENGTH('a)" by (rule unsigned_less)
  with assms show ?thesis by simp
qed

subsection \<open>What the helpers compute\<close>

lemma align_unsigned_le1: "unat al \<le> 1 \<Longrightarrow> align_unsigned n al = n"
  by (simp add: align_unsigned_def word_less_nat_alt)

lemma align_unsigned_gt1:
  "1 < unat al \<Longrightarrow> align_unsigned n al = (n + (al - 1)) AND NOT (al - 1)"
  by (simp add: align_unsigned_def word_less_nat_alt Let_def)

text \<open>For any alignment, a power of two or not, the result is at least the argument.\<close>

lemma align_unsigned_bounds:
  assumes "unat n + unat al \<le> 2 ^ 32" and "0 < unat al"
  shows "unat n \<le> unat (align_unsigned n al)" and "unat (align_unsigned n al) < unat n + unat al"
proof -
  have "unat n \<le> unat (align_unsigned n al) \<and> unat (align_unsigned n al) < unat n + unat al"
  proof (cases "1 < unat al")
    case True
    have a: "unat (al - 1) = unat al - 1"
      using True by (simp add: unat_sub_exact)
    have s: "unat (n + (al - 1)) = unat n + (unat al - 1)"
      using assms True a by (subst unat_add_exact) simp_all
    show ?thesis
      using True unat_and_le [of "n + (al - 1)" "al - 1"]
      by (simp add: align_unsigned_gt1 unat_and_not a s)
  next
    case False
    with assms show ?thesis by (simp add: align_unsigned_le1)
  qed
  then show "unat n \<le> unat (align_unsigned n al)" "unat (align_unsigned n al) < unat n + unat al"
    by simp_all
qed

lemma align_unsigned_pow2:
  assumes "unat al = 2 ^ k" and "unat n + 2 ^ k \<le> 2 ^ 32"
  shows "unat (align_unsigned n al) = round_up k (unat n)"
proof (cases k)
  case 0
  with assms show ?thesis by (simp add: align_unsigned_le1 round_up_def)
next
  case (Suc j)
  have k: "k < 32" using pow2_le_exp [OF assms(1)] by simp
  have gt: "1 < unat al"
    using assms(1) Suc one_less_power [of "2::nat" k] by simp
  have m: "al - 1 = mask k"
    using assms(1) k by (intro pow2_minus_1_eq_mask) simp_all
  have a: "unat (al - 1) = 2 ^ k - 1"
    using gt assms(1) by (simp add: unat_sub_exact)
  have "unat (n + (al - 1)) = unat n + (2 ^ k - 1)"
    using assms gt a by (subst unat_add_exact) simp_all
  then have "unat (align_unsigned n al) = (unat n + (2 ^ k - 1)) div 2 ^ k * 2 ^ k"
    by (simp add: align_unsigned_gt1 [OF gt] m unat_and_not_mask)
  then show ?thesis by (simp add: round_up_def)
qed

lemma align_unsigned_wraps:
  assumes "unat al = 2 ^ k" and "2 ^ 32 < unat n + 2 ^ k"
  shows "align_unsigned n al = 0"
proof -
  have k: "k < 32" using pow2_le_exp [OF assms(1)] by simp
  have n: "unat n < 2 ^ 32" using unat_u32_bound by simp
  have k0: "k \<noteq> 0" using assms(2) n by (intro notI) simp
  then have gt: "1 < unat al"
    using assms(1) one_less_power [of "2::nat" k] by simp
  have m: "al - 1 = mask k"
    using assms(1) k by (intro pow2_minus_1_eq_mask) simp_all
  have a: "unat (al - 1) = 2 ^ k - 1"
    using gt assms(1) by (simp add: unat_sub_exact)
  have le: "(2::nat) ^ k \<le> 2 ^ 32" using k by (intro power_increasing) simp_all
  have "unat (n + (al - 1)) = unat n + (2 ^ k - 1) - 2 ^ 32"
    using assms n a le by (subst unat_plus_if') simp
  also have "\<dots> < 2 ^ k" using n le zero_less_power [of "2::nat" k] by linarith
  finally have "unat (n + (al - 1)) div 2 ^ k = 0" by simp
  then have "unat (align_unsigned n al) = 0"
    by (simp add: align_unsigned_gt1 [OF gt] m unat_and_not_mask)
  then show ?thesis by (simp add: unat_eq_0)
qed

text \<open>Every power of two that divides the alignment divides the result, wrapped or not.\<close>

lemma align_unsigned_dvd:
  assumes "2 ^ j dvd unat al" and "0 < unat al" and "unat al > 1"
  shows "2 ^ j dvd unat (align_unsigned n al)"
proof -
  have j: "2 ^ j \<le> unat al" using assms dvd_imp_le by blast
  have j32: "j < 32"
    using j unat_u32_bound [of al] power_less_imp_less_exp [of "2::nat" j 32] by simp
  have a: "unat (al - 1) = unat al - 1" using assms by (simp add: unat_sub_exact)
  obtain q where q: "unat al = 2 ^ j * q" using assms(1) by (auto elim: dvdE)
  have "(unat al - 1) mod 2 ^ j = 2 ^ j - 1"
  proof -
    obtain p where "q = Suc p" using q assms(2) by (cases q) auto
    then have "unat al - 1 = 2 ^ j * p + (2 ^ j - 1)" using q by simp
    then have "(unat al - 1) mod 2 ^ j = (2 ^ j - 1 + 2 ^ j * p) mod 2 ^ j" by (simp add: add.commute)
    then show ?thesis by (simp only: mod_mult_self2) simp
  qed
  then have "unat ((al - 1) AND mask j) = unat (mask j :: u32)"
    using j32 by (simp add: unat_and_mask a unat_mask)
  then have am: "(al - 1) AND mask j = mask j" by (simp add: unat_eq_iff)
  have "((n + (al - 1)) AND NOT (al - 1)) AND mask j = 0"
  proof (rule bit_word_eqI)
    fix i assume i: "i < LENGTH(32)"
    have "bit ((al - 1) AND mask j) i = bit (mask j :: u32) i" by (simp add: am)
    then show "bit (((n + (al - 1)) AND NOT (al - 1)) AND mask j) i = bit (0 :: u32) i"
      by (auto simp: bit_simps)
  qed
  then show ?thesis
    using assms by (simp add: align_unsigned_gt1 and_mask_dvd_nat)
qed

lemma align_pointer_pow2:
  assumes "unat al = 2 ^ k" and "unat p + 2 ^ k \<le> 2 ^ 64"
  shows "unat (align_pointer p al) = round_up k (unat p)"
proof (cases k)
  case 0
  with assms show ?thesis by (simp add: align_pointer_def round_up_def word_less_nat_alt)
next
  case (Suc j)
  have k: "k < 32" using pow2_le_exp [OF assms(1)] by simp
  have gt: "1 < unat al"
    using assms(1) Suc one_less_power [of "2::nat" k] by simp
  have a: "unat (ucast (al - 1) :: u64) = 2 ^ k - 1"
    using gt assms(1) by (simp add: unat_sub_exact)
  then have m: "(ucast (al - 1) :: u64) = mask k"
    using k by (simp add: unat_eq_iff unat_mask)
  have "unat (p + ucast (al - 1)) = unat p + (2 ^ k - 1)"
    using assms(2) a by (subst unat_add_exact) simp_all
  then have "unat (align_pointer p al) = (unat p + (2 ^ k - 1)) div 2 ^ k * 2 ^ k"
    using gt by (simp add: align_pointer_def word_less_nat_alt Let_def m unat_and_not_mask)
  then show ?thesis by (simp add: round_up_def)
qed

lemma is_power_of_two_iff: "is_power_of_two v \<longleftrightarrow> (\<exists>k. unat v = 2 ^ k)"
proof
  assume p: "is_power_of_two v"
  then have v0: "0 < unat v" by (simp add: is_power_of_two_def unat_gt_0)
  then obtain m where m: "2 ^ m \<le> unat v" "unat v < 2 ^ (m + 1)"
    using ex_power_ivl1 [of 2 "unat v"] by auto
  show "\<exists>k. unat v = 2 ^ k"
  proof (rule ccontr)
    assume "\<not> ?thesis"
    then have "2 ^ m < unat v" using m(1) by (metis le_neq_implies_less)
    moreover have "unat (v - 1) = unat v - 1" using v0 by (simp add: unat_sub_exact)
    ultimately have "unat v div 2 ^ m = 1" "unat (v - 1) div 2 ^ m = 1"
      using m by (simp_all add: div_nat_eqI)
    then have "bit (unat v) m" "bit (unat (v - 1)) m"
      unfolding bit_iff_odd by simp_all
    then have "bit v m" "bit (v - 1) m"
      by (simp_all only: bit_unsigned_iff)
    then have "bit (v AND (v - 1)) m" by (simp add: bit_simps)
    with p show False by (simp add: is_power_of_two_def)
  qed
next
  assume "\<exists>k. unat v = 2 ^ k"
  then obtain k where k: "unat v = 2 ^ k" by blast
  then have "v - 1 = mask k" using pow2_le_exp [OF k] by (intro pow2_minus_1_eq_mask)
  then have "unat (v AND (v - 1)) = 0" by (simp add: unat_and_mask k)
  moreover have "v \<noteq> 0" using k by (metis power_not_zero unat_0 zero_neq_numeral)
  ultimately show "is_power_of_two v" by (simp add: is_power_of_two_def unat_eq_0)
qed

end
