(* ===== verification/Bitmap_Properties.thy ===== *)
theory Bitmap_Properties
  imports Bitmap_Ops Alignment
begin

text \<open>
  The properties of the bitmap operations and of the alignment helpers, stated over the definitions that
  model them, each with an evaluation on a concrete bitmap.
\<close>

subsection \<open>Bits\<close>

lemma bit_255: "bit (255 :: int) i \<longleftrightarrow> i < 8"
  using bit_mask_iff [of 8 i, where 'a = int] by (simp add: mask_eq_exp_minus_1)

lemma below_8: "i < 8 \<Longrightarrow> i = 0 \<or> i = 1 \<or> i = 2 \<or> i = 3 \<or> i = 4 \<or> i = 5 \<or> i = 6 \<or> i = 7" for i :: nat
  by presburger

lemmas page_eval = page_ok_def page_bitmap_def bit_at_def bit_255

text \<open>
  C14. \<open>set_bits\<close> stays inside the bitmap and sets exactly the bits \<open>offset\<close> to \<open>offset + len - 1\<close>, for
  ranges that start and end anywhere in a word.
\<close>

theorem set_bits_exact:
  assumes "unat offset + unat len \<le> 64 * length bm"
  shows "\<exists>bm'. set_bits bm offset len = Some bm' \<and> length bm' = length bm \<and>
    (\<forall>i. bit_at bm' i \<longleftrightarrow> bit_at bm i \<or> (unat offset \<le> i \<and> i < unat offset + unat len))"
  by (rule set_bits_spec [OF assms]) blast

theorem set_bits_exact_witness:
  "set_bits [1, 0] 60 8 = Some [0xF000000000000001, 0xF] \<and>
   (\<forall>i. bit_at [0xF000000000000001, 0xF] i \<longleftrightarrow> bit_at [1, 0] i \<or> (60 \<le> i \<and> i < 68))"
proof -
  have "set_bits [1, 0] 60 8 = Some [0xF000000000000001, 0xF]" by code_simp
  then show ?thesis using set_bits_exact [of 60 8 "[1, 0]"] by simp
qed

text \<open>
  \<open>clear_bits\<close> clears exactly its range. On a page in use it leaves the bits of the page header
  alone, and undoes \<open>set_bits\<close> on a range that was free.
\<close>

theorem clear_bits_undoes_set_bits:
  assumes "page_ok units_per_page header_units bm" and "unat header_units \<le> unat offset"
    and "unat offset + unat len \<le> unat units_per_page" and "zero_run bm (unat offset) (unat len)"
  shows "\<exists>bm1 bm2. set_bits bm offset len = Some bm1 \<and> clear_bits bm1 offset len = Some bm2 \<and>
    page_ok units_per_page header_units bm1 \<and> page_ok units_per_page header_units bm2 \<and>
    (\<forall>i. bit_at bm2 i \<longleftrightarrow> bit_at bm i)"
proof -
  obtain bm1 where m: "set_bits bm offset len = Some bm1" "page_ok units_per_page header_units bm1"
    using set_bits_page_ok [OF assms(1,3)] by blast
  moreover have "\<not> bit_at bm i" if "unat offset \<le> i" "i < unat offset + unat len" for i
    using assms(4) that by (simp add: zero_run_def)
  ultimately show ?thesis using bm.mark_unmark [OF assms(1-3) _ m(1)] by blast
qed

theorem clear_bits_undoes_set_bits_witness:
  "\<exists>bm1 bm2. set_bits [0xFF, 0] 62 40 = Some bm1 \<and> clear_bits bm1 62 40 = Some bm2 \<and>
    (\<forall>i. bit_at bm2 i \<longleftrightarrow> bit_at [0xFF, 0] i)"
proof -
  have "zero_run [0xFF, 0] 62 40"
    by (auto simp: zero_run_def bit_at_def bit_255 nth_Cons split: nat.splits)
  moreover have "page_ok 128 8 [0xFF, 0]" by (simp add: page_eval)
  ultimately show ?thesis using clear_bits_undoes_set_bits [of 128 8 "[0xFF, 0]" 62 40] by auto
qed

text \<open>
  The two counters. \<open>count_zero_bits\<close> returns a run of zero bits inside the page; when the run is
  shorter than the limit it ends at a set bit or at the end of the page. \<open>count_nonzero_bits\<close> is the same
  count on the complement. So the early exit on a limit never makes a run look longer than it is.
\<close>

theorem count_bits_exact:
  assumes "page_bitmap units_per_page bm" and "unat offset \<le> unat units_per_page"
  shows "\<exists>c. count_zero_bits units_per_page bm offset limit = Some c \<and>
      unat offset + unat c \<le> unat units_per_page \<and> zero_run bm (unat offset) (unat c) \<and>
      (c < limit \<longrightarrow> unat offset + unat c = unat units_per_page \<or> bit_at bm (unat offset + unat c)) \<and>
      count_nonzero_bits units_per_page (map NOT bm) offset limit = Some c"
proof -
  have "map NOT (map NOT bm) = bm" by (simp add: comp_def)
  then show ?thesis
    using count_zero_bits_spec [OF assms, of limit] unfolding count_nonzero_bits_not
    by (metis word_less_nat_alt)
qed

theorem count_bits_exact_witness:
  "count_zero_bits 128 [0xFF, 0x10] 8 100 = Some 60 \<and> zero_run [0xFF, 0x10] 8 60"
proof -
  have e: "count_zero_bits 128 [0xFF, 0x10] 8 100 = Some 60" by code_simp
  have "page_bitmap 128 [0xFF, 0x10]" by (simp add: page_bitmap_def)
  then show ?thesis using count_bits_exact [of 128 "[0xFF, 0x10]" 8 100] e by simp
qed

subsection \<open>Free blocks\<close>

text \<open>
  C15. \<open>find_free_block\<close> is first fit and always returns: the result is the lowest offset past the header
  where the block fits, or 0 when it fits nowhere.
\<close>

theorem find_free_block_first_fit:
  assumes "page_ok units_per_page header_units bm" and "0 < block_size"
  shows "\<exists>r. find_free_block units_per_page header_units bm block_size = Some r \<and>
    (if r = 0
     then \<forall>s\<ge>unat header_units. \<not> free_from bm (unat units_per_page) s (unat block_size)
     else unat header_units \<le> unat r \<and> free_from bm (unat units_per_page) (unat r) (unat block_size) \<and>
       (\<forall>s. unat header_units \<le> s \<and> s < unat r \<longrightarrow>
          \<not> free_from bm (unat units_per_page) s (unat block_size)))"
proof -
  have "0 < unat block_size" using assms(2) by (simp add: word_less_nat_alt)
  from find_free_block_spec [OF assms(1) this] show ?thesis
    by (metis (no_types, lifting) has_block_def)
qed

theorem find_free_block_first_fit_witness:
  "find_free_block 128 8 [0xFFF0FFF, 0] 65 = Some 28 \<and>
   \<not> free_from [0xFFF0FFF, 0] 128 12 65 \<and> free_from [0xFFF0FFF, 0] 128 28 65"
proof -
  have e: "find_free_block 128 8 [0xFFF0FFF, 0] 65 = Some 28" by code_simp
  have "page_ok 128 8 [0xFFF0FFF, 0]" by (auto simp: page_eval bit_iff_odd dest!: below_8)
  then show ?thesis using find_free_block_first_fit [of 128 8 "[0xFFF0FFF, 0]" 65] e by auto
qed

text \<open>
  \<open>find_longest_free_block\<close> always returns the length of the longest free block of the page, and this
  number decides every search: a block of \<open>n\<close> units is found exactly when \<open>n\<close> does not exceed it. The
  superblock, where a page is filed under its longest free block, rests on this.
\<close>

theorem longest_free_block_decides:
  assumes "page_ok units_per_page header_units bm" and "0 < n"
  shows "\<exists>l r. find_longest_free_block units_per_page header_units (units_per_page - header_units) bm = Some l \<and>
    find_free_block units_per_page header_units bm n = Some r \<and> (r \<noteq> 0 \<longleftrightarrow> n \<le> l) \<and>
    (\<forall>k. has_block bm (unat header_units) (unat units_per_page) k \<longleftrightarrow> k \<le> unat l)"
proof -
  have n: "0 < unat n" using assms(2) by (simp add: word_less_nat_alt)
  obtain l where l: "find_longest_free_block units_per_page header_units (units_per_page - header_units) bm = Some l"
    "\<And>k. has_block bm (unat header_units) (unat units_per_page) k \<longleftrightarrow> k \<le> unat l"
    by (rule find_longest_free_block_spec [OF assms(1) refl]) blast
  obtain r where r: "find_free_block units_per_page header_units bm n = Some r"
    using find_free_block_spec [OF assms(1) n] by blast
  show ?thesis using l r longest_decides_first_fit [OF assms(1) n r l(1)] by blast
qed

theorem longest_free_block_decides_witness:
  "\<exists>r. find_longest_free_block 128 8 120 [0xFF, 0x10] = Some 60 \<and>
    find_free_block 128 8 [0xFF, 0x10] 61 = Some r \<and> r = 0"
proof -
  have e: "find_longest_free_block 128 8 120 [0xFF, 0x10] = Some 60" by code_simp
  have "page_ok 128 8 [0xFF, 0x10]" by (simp add: page_eval)
  then show ?thesis using longest_free_block_decides [of 128 8 "[0xFF, 0x10]" 61] e by auto
qed

subsection \<open>Alignment\<close>

text \<open>
  \<open>align_unsigned\<close> with a power of two returns the least multiple that is not below its argument,
  unless there is none in 32 bits: then it wraps around to 0. The callers do not check for this.
\<close>

theorem align_unsigned_least_multiple:
  assumes "is_power_of_two alignment"
  shows "unat alignment dvd unat (align_unsigned n alignment) \<and>
    (if unat n + unat alignment \<le> 2 ^ 32
     then unat n \<le> unat (align_unsigned n alignment) \<and>
       (\<forall>m. unat n \<le> m \<and> unat alignment dvd m \<longrightarrow> unat (align_unsigned n alignment) \<le> m)
     else align_unsigned n alignment = 0)"
proof -
  obtain k where k: "unat alignment = 2 ^ k" using assms by (auto simp: is_power_of_two_iff)
  show ?thesis
  proof (cases "unat n + unat alignment \<le> 2 ^ 32")
    case True
    then have "unat (align_unsigned n alignment) = round_up k (unat n)"
      by (intro align_unsigned_pow2 k) (simp add: k)
    then show ?thesis using True round_up_dvd round_up_ge round_up_least by (simp add: k)
  next
    case False
    then have "align_unsigned n alignment = 0" by (intro align_unsigned_wraps [OF k]) (simp add: k)
    then show ?thesis using False by simp
  qed
qed

theorem align_unsigned_least_multiple_witness:
  "align_unsigned 4097 4096 = 8192 \<and> align_unsigned 0xFFFFF001 4096 = 0 \<and> 4096 dvd unat (align_unsigned 4097 4096)"
proof -
  have "is_power_of_two 4096" by code_simp
  moreover have "align_unsigned 4097 4096 = 8192" by code_simp
  ultimately show ?thesis
    using align_unsigned_least_multiple [of 4096 4097] align_unsigned_least_multiple [of 4096 "0xFFFFF001"] by simp
qed

end
