(* ===== verification/Pet_Lists.thy ===== *)
theory Pet_Lists
  imports Bitmap_Ops Alignment
begin

text \<open>
  The state of the bitmap allocator (\<^verbatim>\<open>src/allocator_pet.c\<close>): its parameters, the page headers that
  are mapped, the superblock and the LRU slot, and the circular doubly-linked lists that hold the
  pages. Pointers are 64-bit words, 0 is \<open>nullptr\<close>; a header that is not mapped cannot be read or
  written (\<open>Bad_Access\<close>). The field \<open>list\<close> of a page points to the head of its list, which is either
  \<open>lru_page\<close> or an entry of the superblock.
\<close>

datatype list_ref = LRU | SB u32

record bm_page =
  bp_list :: "list_ref option"
  bp_next :: u64
  bp_prev :: u64
  bp_bitmap :: "u64 list"

record pet =
  sys_page_size :: u32
  units_per_page :: u32
  bm_page_header_size_in_units :: u32
  max_data_units :: u32
  lru_page :: u64
  superblock :: "u64 list"
  num_bm_pages :: u64
  blocks_allocated :: u64
  pages :: "u64 \<Rightarrow> bm_page option"
  mapped :: "u64 set"
  mem :: "u64 \<Rightarrow> u8"

subsection \<open>Reading and writing headers and list heads\<close>

definition read_page :: "pet \<Rightarrow> u64 \<Rightarrow> bm_page res" where
  "read_page s p = or_fail Bad_Access (pages s p)"

definition write_page :: "pet \<Rightarrow> u64 \<Rightarrow> (bm_page \<Rightarrow> bm_page) \<Rightarrow> pet res" where
  "write_page s p f =
     (case pages s p of None \<Rightarrow> Inl Bad_Access | Some pg \<Rightarrow> Inr (s\<lparr>pages := (pages s)(p \<mapsto> f pg)\<rparr>))"

fun get_head :: "pet \<Rightarrow> list_ref \<Rightarrow> u64 res" where
  "get_head s LRU = Inr (lru_page s)"
| "get_head s (SB i) =
     (if unat i < length (superblock s) then Inr (superblock s ! unat i) else Inl Bad_Access)"

fun set_head :: "pet \<Rightarrow> list_ref \<Rightarrow> u64 \<Rightarrow> pet res" where
  "set_head s LRU p = Inr (s\<lparr>lru_page := p\<rparr>)"
| "set_head s (SB i) p =
     (if unat i < length (superblock s)
      then Inr (s\<lparr>superblock := (superblock s)[unat i := p]\<rparr>) else Inl Bad_Access)"

subsection \<open>The list operations\<close>

definition add_to_list :: "pet \<Rightarrow> list_ref \<Rightarrow> u64 \<Rightarrow> pet res" where
  "add_to_list s l p =
     bindE (get_head s l) (\<lambda>first.
     bindE (if first \<noteq> 0 then
              bindE (read_page s first) (\<lambda>f.
              bindE (write_page s p (\<lambda>pg. pg\<lparr>bp_prev := bp_prev f\<rparr>)) (\<lambda>s.
              bindE (write_page s p (\<lambda>pg. pg\<lparr>bp_next := first\<rparr>)) (\<lambda>s.
              bindE (read_page s first) (\<lambda>f.
              bindE (write_page s (bp_prev f) (\<lambda>pg. pg\<lparr>bp_next := p\<rparr>)) (\<lambda>s.
              write_page s first (\<lambda>pg. pg\<lparr>bp_prev := p\<rparr>))))))
            else
              bindE (write_page s p (\<lambda>pg. pg\<lparr>bp_prev := p, bp_next := p\<rparr>)) (\<lambda>s.
              set_head s l p)) (\<lambda>s.
     write_page s p (\<lambda>pg. pg\<lparr>bp_list := Some l\<rparr>)))"

definition delete_from_list :: "pet \<Rightarrow> u64 \<Rightarrow> pet res" where
  "delete_from_list s p =
     bindE (read_page s p) (\<lambda>pg.
     bindE (or_fail Bad_Access (bp_list pg)) (\<lambda>l.
     bindE (if bp_next pg = bp_prev pg then set_head s l 0
            else
              bindE (get_head s l) (\<lambda>h.
              bindE (if h = p then set_head s l (bp_next pg) else Inr s) (\<lambda>s.
              bindE (write_page s (bp_next pg) (\<lambda>n. n\<lparr>bp_prev := bp_prev pg\<rparr>)) (\<lambda>s.
              bindE (read_page s p) (\<lambda>pg.
              write_page s (bp_prev pg) (\<lambda>n. n\<lparr>bp_next := bp_next pg\<rparr>)))))) (\<lambda>s.
     write_page s p (\<lambda>pg. pg\<lparr>bp_list := None\<rparr>))))"

subsection \<open>Views of the state\<close>

definition nxt :: "pet \<Rightarrow> u64 \<Rightarrow> u64" where
  "nxt s p = (case pages s p of None \<Rightarrow> 0 | Some pg \<Rightarrow> bp_next pg)"

definition prv :: "pet \<Rightarrow> u64 \<Rightarrow> u64" where
  "prv s p = (case pages s p of None \<Rightarrow> 0 | Some pg \<Rightarrow> bp_prev pg)"

definition lst :: "pet \<Rightarrow> u64 \<Rightarrow> list_ref option" where
  "lst s p = (case pages s p of None \<Rightarrow> None | Some pg \<Rightarrow> bp_list pg)"

definition bitmaps :: "pet \<Rightarrow> u64 \<Rightarrow> u64 list option" where
  "bitmaps s p = map_option bp_bitmap (pages s p)"

fun head :: "pet \<Rightarrow> list_ref \<Rightarrow> u64" where
  "head s LRU = lru_page s"
| "head s (SB i) = (if unat i < length (superblock s) then superblock s ! unat i else 0)"

definition valid_ref :: "pet \<Rightarrow> list_ref \<Rightarrow> bool" where
  "valid_ref s l = (case l of LRU \<Rightarrow> True | SB i \<Rightarrow> unat i < length (superblock s))"

text \<open>What the list operations leave alone: everything but the links, the list fields and the heads.\<close>

definition same_but_lists :: "pet \<Rightarrow> pet \<Rightarrow> bool" where
  "same_but_lists s t \<longleftrightarrow>
     sys_page_size t = sys_page_size s \<and> units_per_page t = units_per_page s \<and>
     bm_page_header_size_in_units t = bm_page_header_size_in_units s \<and>
     max_data_units t = max_data_units s \<and> num_bm_pages t = num_bm_pages s \<and>
     blocks_allocated t = blocks_allocated s \<and> mapped t = mapped s \<and> mem t = mem s \<and>
     length (superblock t) = length (superblock s) \<and> bitmaps t = bitmaps s"

lemma same_but_lists_refl [simp]: "same_but_lists s s"
  by (simp add: same_but_lists_def)

lemma same_but_lists_trans: "same_but_lists s t \<Longrightarrow> same_but_lists t u \<Longrightarrow> same_but_lists s u"
  by (simp add: same_but_lists_def)

lemma same_but_lists_valid_ref: "same_but_lists s t \<Longrightarrow> valid_ref t l = valid_ref s l"
  by (simp add: same_but_lists_def valid_ref_def split: list_ref.split)

lemma bitmaps_dom: "bitmaps s p \<noteq> None \<longleftrightarrow> pages s p \<noteq> None"
  by (simp add: bitmaps_def)

lemma bitmaps_None: "bitmaps s p = None \<longleftrightarrow> pages s p = None"
  by (simp add: bitmaps_def)

lemma get_head_valid: "valid_ref s l \<Longrightarrow> get_head s l = Inr (head s l)"
  by (cases l) (simp_all add: valid_ref_def)

lemma head_pages_update [simp]: "head (s\<lparr>pages := x\<rparr>) = head s"
  by (rule ext, rename_tac l, case_tac l) simp_all

lemma valid_ref_pages_update [simp]: "valid_ref (s\<lparr>pages := x\<rparr>) = valid_ref s"
  by (rule ext) (simp add: valid_ref_def split: list_ref.split)

lemmas view_defs = nxt_def prv_def lst_def bitmaps_def

lemma view_upd:
  "nxt (t\<lparr>pages := m(q \<mapsto> pg)\<rparr>) = (nxt (t\<lparr>pages := m\<rparr>))(q := bp_next pg)"
  "prv (t\<lparr>pages := m(q \<mapsto> pg)\<rparr>) = (prv (t\<lparr>pages := m\<rparr>))(q := bp_prev pg)"
  "lst (t\<lparr>pages := m(q \<mapsto> pg)\<rparr>) = (lst (t\<lparr>pages := m\<rparr>))(q := bp_list pg)"
  "bitmaps (t\<lparr>pages := m(q \<mapsto> pg)\<rparr>) = (bitmaps (t\<lparr>pages := m\<rparr>))(q := Some (bp_bitmap pg))"
  by (simp_all add: view_defs fun_eq_iff)

lemma view_same:
  "nxt (t\<lparr>pages := pages s\<rparr>) = nxt s" "prv (t\<lparr>pages := pages s\<rparr>) = prv s"
  "lst (t\<lparr>pages := pages s\<rparr>) = lst s" "bitmaps (t\<lparr>pages := pages s\<rparr>) = bitmaps s"
  by (simp_all add: view_defs fun_eq_iff)

subsection \<open>Elementary effects\<close>

lemma set_head_effect:
  assumes "valid_ref s l"
  obtains t where "set_head s l q = Inr t" and "same_but_lists s t" and "pages t = pages s"
    and "head t = (head s)(l := q)"
proof (cases l)
  case LRU
  let ?t = "s\<lparr>lru_page := q\<rparr>"
  have "head ?t = (head s)(l := q)"
    by (rule ext, rename_tac k, case_tac k) (simp_all add: LRU)
  then show thesis
    by (intro that [of ?t]) (simp_all add: LRU same_but_lists_def bitmaps_def fun_eq_iff)
next
  case (SB i)
  with assms have i: "unat i < length (superblock s)" by (simp add: valid_ref_def)
  let ?t = "s\<lparr>superblock := (superblock s)[unat i := q]\<rparr>"
  have "head ?t = (head s)(l := q)"
    by (rule ext, rename_tac k, case_tac k) (auto simp: SB i nth_list_update word_unat_eq_iff)
  then show thesis
    by (intro that [of ?t]) (simp_all add: SB i same_but_lists_def bitmaps_def fun_eq_iff)
qed

lemma add_to_empty_list_effect:
  assumes "pages s p \<noteq> None" and l: "valid_ref s l" and "head s l = 0"
  obtains t where "add_to_list s l p = Inr t" and "same_but_lists s t"
    and "nxt t = (nxt s)(p := p)" and "prv t = (prv s)(p := p)"
    and "lst t = (lst s)(p := Some l)" and "head t = (head s)(l := p)"
proof -
  obtain pg where pg: "pages s p = Some pg" using assms(1) by blast
  let ?pg = "pg\<lparr>bp_prev := p, bp_next := p\<rparr>"
  let ?s = "s\<lparr>pages := (pages s)(p \<mapsto> ?pg)\<rparr>"
  have "valid_ref ?s l" using l by simp
  then obtain t where t: "set_head ?s l p = Inr t" "same_but_lists ?s t" "pages t = pages ?s"
    "head t = (head ?s)(l := p)" by (rule set_head_effect)
  let ?t = "t\<lparr>pages := (pages t)(p \<mapsto> ?pg\<lparr>bp_list := Some l\<rparr>)\<rparr>"
  show thesis
  proof (rule that)
    show "add_to_list s l p = Inr ?t"
      using t(1,3) assms(3) by (simp add: add_to_list_def get_head_valid [OF l] write_page_def pg)
    show "same_but_lists s ?t"
      using t(2,3) pg by (auto simp: same_but_lists_def bitmaps_def fun_eq_iff)
    show "nxt ?t = (nxt s)(p := p)" "prv ?t = (prv s)(p := p)" "lst ?t = (lst s)(p := Some l)"
      using t(3) by (auto simp: view_defs fun_eq_iff)
    show "head ?t = (head s)(l := p)" using t(4) by simp
  qed
qed

lemma add_to_list_effect:
  assumes "pages s p \<noteq> None" and l: "valid_ref s l" and h: "head s l = h" "h \<noteq> 0"
    and "pages s h \<noteq> None" and "pages s (prv s h) \<noteq> None" and "p \<noteq> h" and "p \<noteq> prv s h"
  obtains t where "add_to_list s l p = Inr t" and "same_but_lists s t"
    and "nxt t = (nxt s)(p := h, prv s h := p)" and "prv t = (prv s)(p := prv s h, h := p)"
    and "lst t = (lst s)(p := Some l)" and "head t = head s"
proof -
  obtain pg hg lg where pg: "pages s p = Some pg" "pages s h = Some hg" "pages s (prv s h) = Some lg"
    using assms by blast
  have prv: "bp_prev hg = prv s h" by (simp add: prv_def pg)
  let ?m1 = "(pages s)(p \<mapsto> pg\<lparr>bp_prev := prv s h, bp_next := h\<rparr>)"
  let ?m2 = "?m1(prv s h \<mapsto> lg\<lparr>bp_next := p\<rparr>)"
  let ?m3 = "?m2(h \<mapsto> (the (?m2 h))\<lparr>bp_prev := p\<rparr>)"
  let ?m4 = "?m3(p \<mapsto> pg\<lparr>bp_prev := prv s h, bp_next := h, bp_list := Some l\<rparr>)"
  let ?t = "s\<lparr>pages := ?m4\<rparr>"
  show thesis
  proof (rule that)
    show "add_to_list s l p = Inr ?t"
      using assms(7,8) h(2)
      by (auto simp: add_to_list_def get_head_valid [OF l] h(1) read_page_def write_page_def pg prv)
    show "same_but_lists s ?t"
      using pg assms(7,8) by (auto simp: same_but_lists_def bitmaps_def fun_eq_iff)
    show "nxt ?t = (nxt s)(p := h, prv s h := p)" "prv ?t = (prv s)(p := prv s h, h := p)"
      "lst ?t = (lst s)(p := Some l)"
      using pg assms(7,8) by (auto simp: view_defs fun_eq_iff)
    show "head ?t = head s" by simp
  qed
qed

lemma delete_last_effect:
  assumes "pages s p \<noteq> None" and "lst s p = Some l" and l: "valid_ref s l" and "nxt s p = prv s p"
  obtains t where "delete_from_list s p = Inr t" and "same_but_lists s t"
    and "nxt t = nxt s" and "prv t = prv s" and "lst t = (lst s)(p := None)"
    and "head t = (head s)(l := 0)"
proof -
  obtain pg where pg: "pages s p = Some pg" using assms(1) by blast
  from l obtain t where t: "set_head s l 0 = Inr t" "same_but_lists s t" "pages t = pages s"
    "head t = (head s)(l := 0)" by (rule set_head_effect)
  let ?t = "t\<lparr>pages := (pages t)(p \<mapsto> pg\<lparr>bp_list := None\<rparr>)\<rparr>"
  show thesis
  proof (rule that)
    show "delete_from_list s p = Inr ?t"
      using assms(2,4) t(1,3) pg
      by (simp add: delete_from_list_def read_page_def write_page_def nxt_def prv_def lst_def)
    show "same_but_lists s ?t" using t(2,3) pg by (auto simp: same_but_lists_def bitmaps_def fun_eq_iff)
    show "nxt ?t = nxt s" "prv ?t = prv s" "lst ?t = (lst s)(p := None)"
      using t(3) pg by (auto simp: view_defs fun_eq_iff)
    show "head ?t = (head s)(l := 0)" using t(4) by simp
  qed
qed

lemma delete_from_list_effect:
  assumes "pages s p \<noteq> None" and "lst s p = Some l" and l: "valid_ref s l" and ne: "nxt s p \<noteq> prv s p"
    and "pages s (nxt s p) \<noteq> None" and "pages s (prv s p) \<noteq> None" and "nxt s p \<noteq> p" and "prv s p \<noteq> p"
  obtains t where "delete_from_list s p = Inr t" and "same_but_lists s t"
    and "nxt t = (nxt s)(prv s p := nxt s p)" and "prv t = (prv s)(nxt s p := prv s p)"
    and "lst t = (lst s)(p := None)"
    and "head t = (if head s l = p then (head s)(l := nxt s p) else head s)"
proof -
  obtain pg ng vg where pg: "pages s p = Some pg" "pages s (nxt s p) = Some ng" "pages s (prv s p) = Some vg"
    using assms by blast
  have f: "bp_next pg = nxt s p" "bp_prev pg = prv s p" "bp_list pg = Some l"
    using assms(2) by (simp_all add: view_defs pg)
  have ng: "bp_next ng = nxt s (nxt s p)" "bp_list ng = lst s (nxt s p)"
    "bp_prev vg = prv s (prv s p)" "bp_list vg = lst s (prv s p)"
    by (simp_all add: nxt_def [of s "nxt s p"] lst_def [of s "nxt s p"] lst_def [of s "prv s p"]
        prv_def [of s "prv s p"] pg)
  obtain t where t: "(if head s l = p then set_head s l (nxt s p) else Inr s) = Inr t" "same_but_lists s t"
    "pages t = pages s" "head t = (if head s l = p then (head s)(l := nxt s p) else head s)"
    by (cases "head s l = p"; rule set_head_effect [OF l, of "nxt s p"]; rule that; simp)
  let ?m1 = "(pages s)(nxt s p \<mapsto> ng\<lparr>bp_prev := prv s p\<rparr>)"
  let ?m2 = "?m1(prv s p \<mapsto> vg\<lparr>bp_next := nxt s p\<rparr>)"
  let ?t = "t\<lparr>pages := ?m2(p \<mapsto> pg\<lparr>bp_list := None\<rparr>)\<rparr>"
  show thesis
  proof (rule that)
    have "prv s p \<noteq> nxt s p" "p \<noteq> nxt s p" "p \<noteq> prv s p" using assms(7,8) ne by simp_all
    note order = this
    have unlink: "bindE (write_page u (nxt s p) (\<lambda>n. n\<lparr>bp_prev := prv s p\<rparr>)) (\<lambda>s.
        bindE (read_page s p) (\<lambda>pg. write_page s (bp_prev pg) (\<lambda>n. n\<lparr>bp_next := bp_next pg\<rparr>))) =
      Inr (u\<lparr>pages := ?m2\<rparr>)" if "pages u = pages s" for u
      using order assms(7,8) ne by (simp add: read_page_def write_page_def that pg f)
    show "delete_from_list s p = Inr ?t"
    proof (cases "head s l = p")
      case True
      then have "set_head s l (nxt s p) = Inr t" using t(1) by simp
      with True ne order show ?thesis
        by (simp add: delete_from_list_def get_head_valid [OF l] read_page_def [of s] pg f
            unlink [OF t(3)]) (simp add: write_page_def pg)
    next
      case False
      then have "t = s" using t(1) by simp
      with False ne order show ?thesis
        by (simp add: delete_from_list_def get_head_valid [OF l] read_page_def [of s] pg f
            unlink [OF refl]) (simp add: write_page_def pg)
    qed
    show "same_but_lists s ?t"
      using t(2,3) pg assms(7,8) ne by (auto simp: same_but_lists_def bitmaps_def fun_eq_iff)
    show "nxt ?t = (nxt s)(prv s p := nxt s p)" "prv ?t = (prv s)(nxt s p := prv s p)"
      "lst ?t = (lst s)(p := None)"
      using ng order by (auto simp: view_upd view_same f fun_eq_iff)
    show "head ?t = (if head s l = p then (head s)(l := nxt s p) else head s)" using t(4) by simp
  qed
qed

subsection \<open>The ring invariant\<close>

text \<open>
  \<open>P\<close> is the set of pages on well-formed rings: the neighbours of such a page are on the same list
  and point back at it, and every non-empty head points into \<open>P\<close>. A page can also be listed outside
  \<open>P\<close>: \<open>delete_from_list\<close> takes a list of two pages for a list of one (both neighbours of the page
  are equal), empties the head and leaves the other page with a stale \<open>list\<close> and equal links. The
  invariant admits such pages, and every operation keeps it. The LRU slot holds at most one page.
\<close>

definition rings :: "pet \<Rightarrow> u64 set \<Rightarrow> bool" where
  "rings s P \<longleftrightarrow>
     pages s 0 = None \<and>
     (\<forall>p\<in>P. lst s p \<noteq> None \<and> nxt s p \<in> P \<and> prv s p \<in> P \<and> prv s (nxt s p) = p \<and>
        nxt s (prv s p) = p \<and> lst s (nxt s p) = lst s p) \<and>
     (\<forall>p. lst s p \<noteq> None \<longrightarrow> p \<notin> P \<longrightarrow> nxt s p = prv s p) \<and>
     (\<forall>p l. lst s p = Some l \<longrightarrow> valid_ref s l) \<and>
     (\<forall>l. head s l \<noteq> 0 \<longrightarrow> head s l \<in> P \<and> lst s (head s l) = Some l) \<and>
     (\<forall>p. lst s p = Some LRU \<longrightarrow> head s LRU = p \<and> nxt s p = p \<and> prv s p = p)"

lemma ringsD:
  assumes "rings s P"
  shows "pages s 0 = None"
    and "p \<in> P \<Longrightarrow> lst s p \<noteq> None" and "p \<in> P \<Longrightarrow> nxt s p \<in> P" and "p \<in> P \<Longrightarrow> prv s p \<in> P"
    and "p \<in> P \<Longrightarrow> prv s (nxt s p) = p" and "p \<in> P \<Longrightarrow> nxt s (prv s p) = p"
    and "p \<in> P \<Longrightarrow> lst s (nxt s p) = lst s p" and "p \<in> P \<Longrightarrow> lst s (prv s p) = lst s p"
    and "lst s p \<noteq> None \<Longrightarrow> p \<notin> P \<Longrightarrow> nxt s p = prv s p"
    and "lst s p = Some l \<Longrightarrow> valid_ref s l"
    and "head s l \<noteq> 0 \<Longrightarrow> head s l \<in> P" and "head s l \<noteq> 0 \<Longrightarrow> lst s (head s l) = Some l"
    and "lst s p = Some LRU \<Longrightarrow> head s LRU = p" and "lst s p = Some LRU \<Longrightarrow> nxt s p = p"
    and "lst s p = Some LRU \<Longrightarrow> prv s p = p"
  using assms unfolding rings_def by (blast, blast, blast, blast, blast, blast, blast, metis, blast+)

lemma lst_pages: "lst s p \<noteq> None \<Longrightarrow> pages s p \<noteq> None"
  by (auto simp: lst_def split: option.splits)

lemma same_but_lists_pages: "same_but_lists s t \<Longrightarrow> pages t p = None \<longleftrightarrow> pages s p = None"
  unfolding same_but_lists_def by (metis bitmaps_dom)

lemma add_to_list_rings:
  assumes R: "rings s P" and p: "pages s p \<noteq> None" "lst s p = None"
    and l: "valid_ref s l" "l \<noteq> LRU"
  obtains t where "add_to_list s l p = Inr t" and "same_but_lists s t" and "rings t (insert p P)"
    and "lst t = (lst s)(p := Some l)" and "\<forall>k. k \<noteq> l \<longrightarrow> head t k = head s k" and "head t l \<noteq> 0"
proof -
  note D = ringsD [OF R]
  have pP: "p \<notin> P" using D(2) p(2) by blast
  show thesis
  proof (cases "head s l = 0")
    case True
    from add_to_empty_list_effect [OF p(1) l(1) True] obtain t where t:
      "add_to_list s l p = Inr t" "same_but_lists s t" "nxt t = (nxt s)(p := p)" "prv t = (prv s)(p := p)"
      "lst t = (lst s)(p := Some l)" "head t = (head s)(l := p)" .
    have p0: "p \<noteq> 0" using D(1) p(1) by metis
    have "pages t 0 = None" using D(1) same_but_lists_pages [OF t(2), of 0] by simp
    moreover have "valid_ref t k" if "lst t q = Some k" for q k
      using that D(10) l(1) by (auto simp: t(5) same_but_lists_valid_ref [OF t(2)] split: if_splits)
    moreover have "\<forall>q\<in>insert p P. lst t q \<noteq> None \<and> nxt t q \<in> insert p P \<and> prv t q \<in> insert p P \<and>
        prv t (nxt t q) = q \<and> nxt t (prv t q) = q \<and> lst t (nxt t q) = lst t q"
      using D(2-7) pP by (auto simp: t)
    moreover have "\<forall>k. head t k \<noteq> 0 \<longrightarrow> head t k \<in> insert p P \<and> lst t (head t k) = Some k"
      using D(11,12) pP by (auto simp: t)
    ultimately have "rings t (insert p P)"
      unfolding rings_def using D(9,13-15) l(2) by (auto simp: t split: if_splits)
    then show thesis using that t p0 by auto
  next
    case False
    define h where "h = head s l"
    define v where "v = prv s h"
    have h: "h \<in> P" "lst s h = Some l" "h \<noteq> 0" using D(11,12) False by (auto simp: h_def)
    have v: "v \<in> P" "nxt s v = h" "lst s v = Some l" using D(4,6,8) h by (auto simp: v_def)
    have "pages s h \<noteq> None" "pages s v \<noteq> None" "p \<noteq> h" "p \<noteq> v"
      using h v pP lst_pages [of s h] lst_pages [of s v] by auto
    with add_to_list_effect [OF p(1) l(1) h_def [symmetric] h(3)] obtain t where t:
      "add_to_list s l p = Inr t" "same_but_lists s t" "nxt t = (nxt s)(p := h, v := p)"
      "prv t = (prv s)(p := v, h := p)" "lst t = (lst s)(p := Some l)" "head t = head s"
      unfolding v_def by blast
    have ne: "p \<noteq> h" "p \<noteq> v" using h v pP by auto
    have "pages t 0 = None" using D(1) same_but_lists_pages [OF t(2), of 0] by simp
    moreover have "valid_ref t k" if "lst t q = Some k" for q k
      using that D(10) l(1) by (auto simp: t(5) same_but_lists_valid_ref [OF t(2)] split: if_splits)
    moreover have "lst t q \<noteq> None \<and> nxt t q \<in> insert p P \<and> prv t q \<in> insert p P \<and>
        prv t (nxt t q) = q \<and> nxt t (prv t q) = q \<and> lst t (nxt t q) = lst t q" if "q \<in> insert p P" for q
    proof (cases "q = p")
      case True
      then show ?thesis using ne h v by (auto simp: t)
    next
      case False
      then have q: "q \<in> P" using that by simp
      have nb: "nxt s q \<in> P" "prv s q \<in> P" "nxt s q \<noteq> p" "prv s q \<noteq> p" using D(3,4) [OF q] pP by auto
      have hv: "nxt s q \<noteq> h" if "q \<noteq> v" using D(5) [OF q] that v_def by metis
      have vh: "prv s q \<noteq> v" if "q \<noteq> h" using D(6) [OF q] that v(2) by metis
      have "prv t (nxt t q) = q" using D(5) [OF q] False hv nb ne by (simp add: t)
      moreover have "nxt t (prv t q) = q" using D(6) [OF q] False vh nb ne by (simp add: t)
      moreover have "lst t (nxt t q) = lst t q" using D(7) [OF q] False nb v(3) by (simp add: t)
      moreover have "nxt t q \<in> insert p P" "prv t q \<in> insert p P" using nb False by (simp_all add: t)
      moreover have "lst t q \<noteq> None" using D(2) [OF q] by (simp add: t)
      ultimately show ?thesis by blast
    qed
    moreover have "\<forall>k. head t k \<noteq> 0 \<longrightarrow> head t k \<in> insert p P \<and> lst t (head t k) = Some k"
      using D(11,12) pP by (auto simp: t)
    moreover have "nxt t q = prv t q" if "lst t q \<noteq> None" "q \<notin> insert p P" for q
      using that D(9) h v by (auto simp: t)
    moreover have "head t LRU = q \<and> nxt t q = q \<and> prv t q = q" if "lst t q = Some LRU" for q
    proof -
      have "q \<noteq> p" "lst s q = Some LRU" using that l(2) by (auto simp: t split: if_splits)
      moreover have "q \<noteq> h" "q \<noteq> v" using calculation(2) h v l(2) by auto
      ultimately show ?thesis using D(13-15) by (auto simp: t)
    qed
    ultimately have "rings t (insert p P)" unfolding rings_def by blast
    then show thesis using that t False by simp
  qed
qed

lemma delete_from_list_rings:
  assumes R: "rings s P" and l: "lst s p = Some l"
  obtains t P' where "delete_from_list s p = Inr t" and "same_but_lists s t" and "rings t P'"
    and "lst t = (lst s)(p := None)" and "P' \<subseteq> P" and "\<forall>k. head t k = head s k \<or> k = l"
    and "l = LRU \<longrightarrow> head t LRU = 0"
proof -
  note D = ringsD [OF R]
  have p: "pages s p \<noteq> None" using l by (intro lst_pages) simp
  have vl: "valid_ref s l" using D(10) l by blast
  have p0: "p \<noteq> 0" using D(1) p by metis
  show thesis
  proof (cases "nxt s p = prv s p")
    case True
    from delete_last_effect [OF p l vl True] obtain t where t:
      "delete_from_list s p = Inr t" "same_but_lists s t" "nxt t = nxt s" "prv t = prv s"
      "lst t = (lst s)(p := None)" "head t = (head s)(l := 0)" .
    let ?P = "P - {p, nxt s p}"
    let ?P' = "if p \<in> P then ?P else P"
    have pair: "nxt s (nxt s p) = p" "prv s (nxt s p) = p" if "p \<in> P"
      using D(5,6) that True by metis+
    have "pages t 0 = None" using D(1) same_but_lists_pages [OF t(2), of 0] by simp
    moreover have "valid_ref t k" if "lst t q = Some k" for q k
      using that D(10) by (auto simp: t(5) same_but_lists_valid_ref [OF t(2)] split: if_splits)
    moreover have "lst t q \<noteq> None \<and> nxt t q \<in> ?P' \<and> prv t q \<in> ?P' \<and>
        prv t (nxt t q) = q \<and> nxt t (prv t q) = q \<and> lst t (nxt t q) = lst t q" if "q \<in> ?P'" for q
    proof -
      have q: "q \<in> P" "q \<noteq> p" using that by (auto split: if_splits)
      have qn: "p \<in> P \<Longrightarrow> q \<noteq> nxt s p" using that by auto
      have "nxt s q \<noteq> p" "prv s q \<noteq> p" using D(3-6) [OF q(1)] qn True by metis+
      moreover have "nxt s q \<noteq> nxt s p" "prv s q \<noteq> nxt s p" if "p \<in> P"
        using D(5,6) [OF q(1)] pair [OF that] q(2) by metis+
      ultimately have "nxt s q \<in> ?P'" "prv s q \<in> ?P'" using D(3,4) [OF q(1)] by auto
      then show ?thesis using D(2-7) [OF q(1)] q by (auto simp: t)
    qed
    moreover have "head t k \<in> ?P' \<and> lst t (head t k) = Some k" if "head t k \<noteq> 0" for k
    proof -
      have k: "k \<noteq> l" "head s k \<noteq> 0" using that by (auto simp: t split: if_splits)
      then have "head s k \<in> P" "lst s (head s k) = Some k" using D(11,12) by auto
      moreover have "head s k \<noteq> p" "p \<in> P \<Longrightarrow> head s k \<noteq> nxt s p"
        using calculation(2) k(1) l D(7) by auto
      ultimately show ?thesis using k by (auto simp: t)
    qed
    moreover have "nxt t q = prv t q" if "lst t q \<noteq> None" "q \<notin> ?P'" for q
      using that D(9) pair by (auto simp: t split: if_splits)
    moreover have "head t LRU = q \<and> nxt t q = q \<and> prv t q = q" if "lst t q = Some LRU" for q
    proof -
      have "q \<noteq> p" "lst s q = Some LRU" using that by (auto simp: t split: if_splits)
      then show ?thesis using D(13-15) l by (auto simp: t)
    qed
    ultimately have "rings t ?P'" unfolding rings_def by blast
    then show thesis by (rule that [OF t(1,2) _ t(5)]) (auto simp: t(6))
  next
    case False
    define n where "n = nxt s p"
    define v where "v = prv s p"
    have pP: "p \<in> P" using D(9) l False by blast
    have nv: "n \<in> P" "v \<in> P" "prv s n = p" "nxt s v = p" "lst s n = Some l" "lst s v = Some l"
      using D(3-8) [OF pP] l by (simp_all add: n_def v_def)
    have ne: "n \<noteq> v" "n \<noteq> p" "v \<noteq> p"
      using False nv n_def v_def by metis+
    have lru: "l \<noteq> LRU" using D(14) l ne n_def by metis
    have "pages s n \<noteq> None" "pages s v \<noteq> None"
      using nv lst_pages [of s n] lst_pages [of s v] by auto
    with delete_from_list_effect [OF p l vl False] ne obtain t where t:
      "delete_from_list s p = Inr t" "same_but_lists s t" "nxt t = (nxt s)(v := n)"
      "prv t = (prv s)(n := v)" "lst t = (lst s)(p := None)"
      "head t = (if head s l = p then (head s)(l := n) else head s)"
      unfolding n_def v_def by blast
    have "pages t 0 = None" using D(1) same_but_lists_pages [OF t(2), of 0] by simp
    moreover have "valid_ref t k" if "lst t q = Some k" for q k
      using that D(10) by (auto simp: t(5) same_but_lists_valid_ref [OF t(2)] split: if_splits)
    moreover have "lst t q \<noteq> None \<and> nxt t q \<in> P - {p} \<and> prv t q \<in> P - {p} \<and>
        prv t (nxt t q) = q \<and> nxt t (prv t q) = q \<and> lst t (nxt t q) = lst t q" if "q \<in> P - {p}" for q
    proof -
      have q: "q \<in> P" "q \<noteq> p" using that by auto
      have "nxt s q = p \<longleftrightarrow> q = v" "prv s q = p \<longleftrightarrow> q = n" "nxt s q = n \<longrightarrow> q = p" "prv s q = v \<longrightarrow> q = p"
        using D(5,6) [OF q(1)] D(5,6) [OF pP] nv n_def v_def by metis+
      then show ?thesis using D(2-7) [OF q(1)] q ne nv by (auto simp: t)
    qed
    moreover have "head t k \<in> P - {p} \<and> lst t (head t k) = Some k" if "head t k \<noteq> 0" for k
    proof (cases "head s l = p \<and> k = l")
      case True
      then show ?thesis using nv ne by (simp add: t)
    next
      case F: False
      then have hk: "head t k = head s k" by (auto simp: t)
      then have "head s k \<in> P" "lst s (head s k) = Some k" using D(11,12) that by auto
      then show ?thesis using F l hk by (auto simp: t)
    qed
    moreover have "nxt t q = prv t q" if "lst t q \<noteq> None" "q \<notin> P - {p}" for q
      using that D(9) nv by (auto simp: t split: if_splits)
    moreover have "head t LRU = q \<and> nxt t q = q \<and> prv t q = q" if "lst t q = Some LRU" for q
    proof -
      have "q \<noteq> p" "lst s q = Some LRU" using that by (auto simp: t split: if_splits)
      moreover have "q \<noteq> n" "q \<noteq> v" using calculation(2) nv lru by auto
      ultimately show ?thesis using D(13-15) lru by (auto simp: t)
    qed
    ultimately have "rings t (P - {p})" unfolding rings_def by blast
    then show thesis by (rule that [OF t(1,2) _ t(5)]) (auto simp: t(6) lru)
  qed
qed

end
