(* ===== verification/Pet_Memory.thy ===== *)
theory Pet_Memory
  imports Pet_Lists
begin

text \<open>
  Memory of the bitmap allocator: \<open>cleanse\<close> and the wrappers around \<open>mmap\<close>, \<open>munmap\<close> and \<open>mremap\<close>.
  The contents of the blocks are a byte store indexed by 64-bit addresses; \<open>mapped\<close> is the set of page
  addresses the allocator holds. The kernel is an argument: \<open>mm M size\<close> is the address that \<open>mmap\<close>
  returns for \<open>size\<close> bytes while the pages \<open>M\<close> are mapped, \<open>mr M addr old new\<close> that of \<open>mremap\<close>, and 0
  stands for \<open>MAP_FAILED\<close>. A new mapping does not change the store: its contents are arbitrary, as the
  code assumes. \<open>munmap\<close> of a mapped range succeeds.
\<close>

subsection \<open>Zeroing\<close>

fun zero_bytes :: "(u64 \<Rightarrow> u8) \<Rightarrow> u64 \<Rightarrow> nat \<Rightarrow> (u64 \<Rightarrow> u8)" where
  "zero_bytes m p 0 = m"
| "zero_bytes m p (Suc n) = zero_bytes (m(p := 0)) (p + 1) n"

function zero_words :: "(u64 \<Rightarrow> u8) \<Rightarrow> u64 \<Rightarrow> u32 \<Rightarrow> (u64 \<Rightarrow> u8) \<times> u64 \<times> u32" where
  "zero_words m p len =
     (if len \<ge> 8 then zero_words (zero_bytes m p 8) (p + 8) (len - 8) else (m, p, len))"
  by pat_completeness auto
termination
  by (relation "measure (\<lambda>(m, p, len). unat len)") (auto simp: word_le_nat_alt unat_sub_exact)

declare zero_words.simps [simp del]

definition cleanse :: "(u64 \<Rightarrow> u8) \<Rightarrow> u64 \<Rightarrow> u32 \<Rightarrow> u32 \<Rightarrow> (u64 \<Rightarrow> u8)" where
  "cleanse m addr start stop =
     (let len = stop - start;
          byteptr = addr + ucast start;
          nbytes = start AND (8 - 1);
          (m, byteptr, len) =
            (if nbytes \<noteq> 0
             then (let nbytes = 8 - nbytes;
                       nbytes = (if nbytes > len then len else nbytes)
                   in (zero_bytes m byteptr (unat nbytes), byteptr + ucast nbytes, len - nbytes))
             else (m, byteptr, len));
          (m, byteptr, len) = zero_words m byteptr len
      in if len \<noteq> 0 then zero_bytes m byteptr (unat len) else m)"

definition zero_range :: "(u64 \<Rightarrow> u8) \<Rightarrow> nat \<Rightarrow> nat \<Rightarrow> (u64 \<Rightarrow> u8)" where
  "zero_range m lo hi = (\<lambda>a. if lo \<le> unat a \<and> unat a < hi then 0 else m a)"

lemma zero_range_empty [simp]: "hi \<le> lo \<Longrightarrow> zero_range m lo hi = m"
  by (auto simp: zero_range_def fun_eq_iff)

lemma zero_range_join:
  "lo \<le> mid \<Longrightarrow> mid \<le> hi \<Longrightarrow> zero_range (zero_range m lo mid) mid hi = zero_range m lo hi"
  by (auto simp: zero_range_def fun_eq_iff)

lemma zero_bytes_eq:
  "unat p + n \<le> 2 ^ 64 \<Longrightarrow> zero_bytes m p n = zero_range m (unat p) (unat p + n)"
proof (induction m p n rule: zero_bytes.induct)
  case (1 m p)
  then show ?case by simp
next
  case (2 m p n)
  show ?case
  proof (cases "n = 0")
    case True
    then show ?thesis by (auto simp: zero_range_def fun_eq_iff word_unat_eq_iff)
  next
    case False
    then have p1: "unat (p + 1) = unat p + 1" using "2.prems" by (subst unat_add_exact) simp_all
    have "unat (p + 1) + n \<le> 2 ^ 64" using "2.prems" p1 by simp
    from "2.IH" [OF this]
    have "zero_bytes m p (Suc n) = zero_range (m(p := 0)) (unat p + 1) (unat p + 1 + n)"
      by (simp only: zero_bytes.simps p1)
    also have "m(p := 0) = zero_range m (unat p) (unat p + 1)"
      by (auto simp: zero_range_def fun_eq_iff word_unat_eq_iff)
    finally show ?thesis by (simp add: zero_range_join)
  qed
qed

lemma zero_words_0 [simp]: "zero_words m p 0 = (m, p, 0)"
  by (simp add: zero_words.simps)

lemma zero_words_eq:
  assumes "unat p + unat len \<le> 2 ^ 64"
  shows "\<exists>q r. zero_words m p len = (zero_range m (unat p) (unat p + unat len - unat r), q, r) \<and>
    (r \<noteq> 0 \<longrightarrow> unat q + unat r = unat p + unat len) \<and> unat r \<le> unat len"
  using assms
proof (induction m p len rule: zero_words.induct)
  case (1 m p len)
  show ?case
  proof (cases "len \<ge> 8")
    case False
    then show ?thesis by (auto simp: zero_words.simps [of m p len])
  next
    case True
    then have len: "8 \<le> unat len" by (simp add: word_le_nat_alt)
    have l8: "unat (len - 8) = unat len - 8" using len by (simp add: unat_sub_exact)
    have z: "zero_bytes m p 8 = zero_range m (unat p) (unat p + 8)"
      using "1.prems" len by (intro zero_bytes_eq) simp
    show ?thesis
    proof (cases "unat len = 8")
      case True
      then have "len - 8 = 0" by (simp add: unat_eq_0 [symmetric] l8)
      then have "zero_words m p len = (zero_range m (unat p) (unat p + 8), p + 8, 0)"
        using \<open>len \<ge> 8\<close> by (subst zero_words.simps) (simp add: z)
      then show ?thesis using True by simp
    next
      case False
      have p8: "unat (p + 8) = unat p + 8"
        using "1.prems" len False by (subst unat_add_exact) simp_all
      have "unat (p + 8) + unat (len - 8) \<le> 2 ^ 64" using "1.prems" len l8 p8 by simp
      from "1.IH" [OF True this] obtain q r where qr:
        "zero_words (zero_bytes m p 8) (p + 8) (len - 8) =
           (zero_range (zero_bytes m p 8) (unat (p + 8)) (unat (p + 8) + unat (len - 8) - unat r), q, r)"
        "r \<noteq> 0 \<longrightarrow> unat q + unat r = unat (p + 8) + unat (len - 8)" "unat r \<le> unat (len - 8)"
        by blast
      have "zero_range (zero_bytes m p 8) (unat (p + 8)) (unat (p + 8) + unat (len - 8) - unat r) =
        zero_range m (unat p) (unat p + unat len - unat r)"
        unfolding z p8 l8 using len qr(3) l8 by (subst zero_range_join) simp_all
      with qr show ?thesis using True len l8 p8
        by (auto simp: zero_words.simps [of m p len])
    qed
  qed
qed

lemma cleanse_eq:
  assumes "unat start \<le> unat stop" and "unat addr + unat stop \<le> 2 ^ 64"
  shows "cleanse m addr start stop = zero_range m (unat addr + unat start) (unat addr + unat stop)"
proof (cases "stop = start")
  case True
  have "(if 0 < x then 0 else x) = 0" for x :: u32 by (simp add: word_gt_0)
  with True show ?thesis by (simp add: cleanse_def Let_def)
next
  case False
  then have lt: "unat start < unat stop" using assms(1) by (metis le_neq_implies_less unat_eq_iff)
  let ?len = "stop - start" and ?p = "addr + ucast start"
  have len: "unat ?len = unat stop - unat start" using assms(1) by (rule unat_sub_exact)
  have p: "unat ?p = unat addr + unat start" using assms(2) lt by (subst unat_add_exact) simp_all
  have tail: "(let (m, byteptr, len) = zero_words m q l in if len \<noteq> 0 then zero_bytes m byteptr (unat len) else m) =
      zero_range m (unat q) (unat q + unat l)" if "unat q + unat l \<le> 2 ^ 64" for m q l
  proof -
    from zero_words_eq [OF that, of m] obtain q' r where qr:
      "zero_words m q l = (zero_range m (unat q) (unat q + unat l - unat r), q', r)"
      "r \<noteq> 0 \<longrightarrow> unat q' + unat r = unat q + unat l" "unat r \<le> unat l" by blast
    show ?thesis
    proof (cases "r = 0")
      case True
      then show ?thesis by (simp add: qr(1))
    next
      case False
      then have q': "unat q' = unat q + unat l - unat r" using qr(2) by simp
      have "zero_bytes (zero_range m (unat q) (unat q + unat l - unat r)) q' (unat r) =
        zero_range (zero_range m (unat q) (unat q')) (unat q') (unat q + unat l)"
        using False qr(2) that by (subst zero_bytes_eq) (simp_all add: q')
      also have "\<dots> = zero_range m (unat q) (unat q + unat l)"
        using q' qr(3) by (intro zero_range_join) simp_all
      finally show ?thesis using False by (simp add: qr(1))
    qed
  qed
  let ?n = "start AND (8 - 1)"
  show ?thesis
  proof (cases "?n = 0")
    case True
    then show ?thesis
      using tail [of ?p ?len m] assms(2) lt by (simp add: cleanse_def Let_def p len)
  next
    case False
    have n8: "unat ?n = unat start mod 8"
      using unat_and_mask [of start 3] by (simp add: mask_eq_exp_minus_1)
    define k where "k = (if 8 - ?n > ?len then ?len else 8 - ?n)"
    have k: "unat k \<le> unat ?len" by (auto simp: k_def word_less_nat_alt)
    have unf: "cleanse m addr start stop =
        (let (m, byteptr, len) = zero_words (zero_bytes m ?p (unat k)) (?p + ucast k) (?len - k)
         in if len \<noteq> 0 then zero_bytes m byteptr (unat len) else m)"
      using False by (simp add: cleanse_def Let_def k_def)
    show ?thesis
    proof (cases "unat k = unat ?len")
      case True
      then have "?len - k = 0" by (metis right_minus_eq unat_eq_iff)
      moreover have "zero_bytes m ?p (unat k) = zero_range m (unat addr + unat start) (unat addr + unat stop)"
        using assms(2) lt by (subst zero_bytes_eq) (simp_all add: True p len)
      ultimately show ?thesis by (simp only: unf) simp
    next
      case less: False
      have pk: "unat (?p + ucast k) = unat ?p + unat k"
        using k less p len lt assms(2) by (subst unat_add_exact) simp_all
      have lk: "unat (?len - k) = unat ?len - unat k" using k by (rule unat_sub_exact)
      have "cleanse m addr start stop =
          zero_range (zero_bytes m ?p (unat k)) (unat (?p + ucast k)) (unat (?p + ucast k) + unat (?len - k))"
        unfolding unf using k p pk lk len assms(2) lt by (intro tail) simp
      also have "zero_bytes m ?p (unat k) = zero_range m (unat ?p) (unat ?p + unat k)"
        using k p len assms(2) lt by (intro zero_bytes_eq) simp
      also have "zero_range (zero_range m (unat ?p) (unat ?p + unat k)) (unat (?p + ucast k))
          (unat (?p + ucast k) + unat (?len - k)) = zero_range m (unat ?p) (unat ?p + unat ?len)"
        using k by (simp add: pk lk zero_range_join)
      finally show ?thesis using p len lt by simp
    qed
  qed
qed

subsection \<open>Mappings\<close>

type_synonym mmap_fun = "u64 set \<Rightarrow> u32 \<Rightarrow> u64"
type_synonym mremap_fun = "u64 set \<Rightarrow> u64 \<Rightarrow> u32 \<Rightarrow> u32 \<Rightarrow> u64"

definition page_range :: "u32 \<Rightarrow> u64 \<Rightarrow> u32 \<Rightarrow> u64 set" where
  "page_range ps addr sz =
     set (map (\<lambda>i. addr + of_nat (i * unat ps)) [0..<(unat sz + unat ps - 1) div unat ps])"

definition call_mmap :: "mmap_fun \<Rightarrow> pet \<Rightarrow> u32 \<Rightarrow> bool \<Rightarrow> pet \<times> u64" where
  "call_mmap mm s sz clean =
     (let result = mm (mapped s) sz
      in if result = 0 then (s, 0)
         else (s\<lparr>mapped := mapped s \<union> page_range (sys_page_size s) result sz,
                 mem := (if clean then cleanse (mem s) result 0 sz else mem s)\<rparr>, result))"

definition call_munmap :: "pet \<Rightarrow> u64 \<Rightarrow> u32 \<Rightarrow> pet" where
  "call_munmap s addr sz =
     (let gone = page_range (sys_page_size s) addr sz
      in s\<lparr>mapped := mapped s - gone, pages := (\<lambda>p. if p \<in> gone then None else pages s p)\<rparr>)"

text \<open>
  \<open>mremap\<close> keeps the contents up to the smaller of the two sizes; a moved mapping is read at its new
  address.
\<close>

definition moved_mem :: "(u64 \<Rightarrow> u8) \<Rightarrow> u64 \<Rightarrow> u64 \<Rightarrow> u32 \<Rightarrow> (u64 \<Rightarrow> u8)" where
  "moved_mem m new old sz =
     (\<lambda>a. if unat new \<le> unat a \<and> unat a < unat new + unat sz then m (old + (a - new)) else m a)"

definition call_mremap ::
  "mremap_fun \<Rightarrow> pet \<Rightarrow> u64 \<Rightarrow> u32 \<Rightarrow> u32 \<Rightarrow> bool \<Rightarrow> pet \<times> u64" where
  "call_mremap mr s addr old_nbytes new_nbytes clean =
     (let old_size = align_unsigned_to_page (sys_page_size s) old_nbytes;
          new_size = align_unsigned_to_page (sys_page_size s) new_nbytes
      in if new_size = old_size
         then (if clean \<and> new_nbytes > old_nbytes
               then (s\<lparr>mem := cleanse (mem s) addr old_nbytes new_nbytes\<rparr>, addr)
               else (s, addr))
         else (let clean = (if new_size > old_size then clean else False);
                   new_addr = mr (mapped s) addr old_size new_size
               in if new_addr = 0
                  then (if new_size > old_size then (s, 0) else (s, addr))
                  else (let m = moved_mem (mem s) new_addr addr (min old_size new_size)
                        in (s\<lparr>mapped := (mapped s - page_range (sys_page_size s) addr old_size) \<union>
                                        page_range (sys_page_size s) new_addr new_size,
                              mem := (if clean then cleanse m new_addr old_nbytes new_nbytes else m)\<rparr>,
                            new_addr))))"

text \<open>
  What the code relies on: a mapping is aligned on a page boundary, does not wrap around the address
  space and shares no page with what is mapped already.
\<close>

definition mmap_ok :: "u32 \<Rightarrow> mmap_fun \<Rightarrow> bool" where
  "mmap_ok ps mm \<longleftrightarrow>
     (\<forall>M sz. mm M sz \<noteq> 0 \<longrightarrow>
        unat ps dvd unat (mm M sz) \<and> unat (mm M sz) + unat sz + unat ps \<le> 2 ^ 64 \<and>
        page_range ps (mm M sz) sz \<inter> M = {})"

lemma mmap_okD:
  assumes "mmap_ok ps mm" and "mm M sz \<noteq> 0"
  shows "unat ps dvd unat (mm M sz)" and "unat (mm M sz) + unat sz + unat ps \<le> 2 ^ 64"
    and "page_range ps (mm M sz) sz \<inter> M = {}"
  using assms unfolding mmap_ok_def by blast+

lemma page_range_one: "0 < unat ps \<Longrightarrow> page_range ps p ps = {p}"
proof -
  assume ps: "0 < unat ps"
  have "(unat ps + unat ps - 1) div unat ps = 1"
    using ps by (intro div_nat_eqI) simp_all
  then show ?thesis by (simp add: page_range_def)
qed

lemma page_range_self: "0 < unat ps \<Longrightarrow> 0 < unat sz \<Longrightarrow> addr \<in> page_range ps addr sz"
proof -
  assume "0 < unat ps" "0 < unat sz"
  then have "0 < (unat sz + unat ps - 1) div unat ps" by (simp add: div_greater_zero_iff)
  then show ?thesis unfolding page_range_def by (auto intro!: image_eqI [of _ _ 0])
qed

end
