(* ===== verification/Pet_Pages.thy ===== *)
theory Pet_Pages
  imports Pet_Memory
begin

text \<open>
  The bitmap sub-allocator of \<^verbatim>\<open>src/allocator_pet.c\<close>: finding a page with room, taking a page out of
  its list to work on it and handing it back, and the four operations on blocks of units. Here an
  operation runs alone, so a page that is in no list while it is wanted stays so, and \<open>grab_page\<close> waits
  for ever; \<open>Pet_Threads\<close> has the mutex and several threads.
\<close>

definition UNIT_SIZE :: nat where "UNIT_SIZE = 16"

definition bytes_to_units :: "u32 \<Rightarrow> u32" where
  "bytes_to_units nbytes = align_unsigned nbytes 16 div 16"

definition bm_page_by_addr :: "pet \<Rightarrow> u64 \<Rightarrow> u64" where
  "bm_page_by_addr s addr = addr AND NOT (ucast (sys_page_size s) - 1)"

definition ptrdiff_to_units :: "u64 \<Rightarrow> u64 \<Rightarrow> u32" where
  "ptrdiff_to_units addr bm_page = ucast ((addr - bm_page) div 16)"

definition page_free_block :: "pet \<Rightarrow> u64 \<Rightarrow> u32 \<Rightarrow> u32 res" where
  "page_free_block s p block_size =
     bindE (read_page s p) (\<lambda>pg.
     or_fail Bad_Access
       (find_free_block (units_per_page s) (bm_page_header_size_in_units s) (bp_bitmap pg) block_size))"

definition page_longest_free_block :: "pet \<Rightarrow> u64 \<Rightarrow> u32 res" where
  "page_longest_free_block s p =
     bindE (read_page s p) (\<lambda>pg.
     or_fail Bad_Access
       (find_longest_free_block (units_per_page s) (bm_page_header_size_in_units s) (max_data_units s)
          (bp_bitmap pg)))"

definition change_bits ::
  "(u64 list \<Rightarrow> u32 \<Rightarrow> u32 \<Rightarrow> u64 list option) \<Rightarrow> pet \<Rightarrow> u64 \<Rightarrow> u32 \<Rightarrow> u32 \<Rightarrow> pet res" where
  "change_bits f s p offset len =
     bindE (read_page s p) (\<lambda>pg.
     bindE (or_fail Bad_Access (f (bp_bitmap pg) offset len)) (\<lambda>bm.
     write_page s p (\<lambda>pg. pg\<lparr>bp_bitmap := bm\<rparr>)))"

subsection \<open>Lists and pages in hand\<close>

definition add_to_superblock_entry :: "pet \<Rightarrow> u64 \<Rightarrow> u32 \<Rightarrow> pet res" where
  "add_to_superblock_entry s bm_page lfb = add_to_list s (SB lfb) bm_page"

definition unhand_page :: "pet \<Rightarrow> u64 \<Rightarrow> pet res" where
  "unhand_page s bm_page =
     bindE (if lru_page s \<noteq> 0
            then bindE (page_longest_free_block s (lru_page s)) (\<lambda>lfb.
                 if lfb < max_data_units s
                 then bindE (add_to_list s (SB lfb) (lru_page s)) (\<lambda>s. Inr (s, 0))
                 else Inr (s, lru_page s))
            else Inr (s, 0)) (\<lambda>(s, page_to_reclaim).
     bindE (write_page s bm_page (\<lambda>pg. pg\<lparr>bp_list := Some LRU\<rparr>)) (\<lambda>s.
     bindE (write_page s bm_page (\<lambda>pg. pg\<lparr>bp_prev := bm_page, bp_next := bm_page\<rparr>)) (\<lambda>s.
     let s = s\<lparr>lru_page := bm_page\<rparr>
     in if page_to_reclaim \<noteq> 0
        then (let s = call_munmap s page_to_reclaim (sys_page_size s)
              in Inr (s\<lparr>num_bm_pages := num_bm_pages s - 1\<rparr>))
        else Inr s)))"

definition grab_page :: "pet \<Rightarrow> u64 \<Rightarrow> pet res" where
  "grab_page s bm_page =
     bindE (read_page s bm_page) (\<lambda>pg.
     if bp_list pg = None then Inl Does_Not_Return else delete_from_list s bm_page)"

function search_superblock ::
  "pet \<Rightarrow> u32 \<Rightarrow> nat \<Rightarrow> u32 \<Rightarrow> (pet \<times> (u64 \<times> u32) option) res" where
  "search_superblock s num_units list lfb =
     (if lfb \<le> max_data_units s
      then (if list < length (superblock s)
            then (let bm_page = superblock s ! list
                  in if bm_page \<noteq> 0
                     then bindE (delete_from_list s bm_page) (\<lambda>s.
                          bindE (page_free_block s bm_page num_units) (\<lambda>offset.
                          if offset = 0 then Inl Abort else Inr (s, Some (bm_page, offset))))
                     else search_superblock s num_units (Suc list) (lfb + 1))
            else Inl Bad_Access)
      else Inr (s, None))"
  by pat_completeness auto
termination
  by (relation "measure (\<lambda>(s, num_units, list, lfb). length (superblock s) - list)") auto

declare search_superblock.simps [simp del]

definition find_available_page :: "pet \<Rightarrow> u32 \<Rightarrow> (pet \<times> (u64 \<times> u32) option) res" where
  "find_available_page s num_units =
     bindE (if lru_page s \<noteq> 0
            then (let bm_page = lru_page s
                  in bindE (delete_from_list s bm_page) (\<lambda>s.
                     bindE (page_free_block s bm_page num_units) (\<lambda>offset.
                     if offset \<noteq> 0 then Inr (s, Some (bm_page, offset))
                     else bindE (page_longest_free_block s bm_page) (\<lambda>lfb.
                          bindE (add_to_superblock_entry s bm_page lfb) (\<lambda>s. Inr (s, None))))))
            else Inr (s, None)) (\<lambda>(s, found).
     case found of Some x \<Rightarrow> Inr (s, Some x)
     | None \<Rightarrow> search_superblock s num_units (unat num_units) num_units)"

subsection \<open>Blocks of units\<close>

text \<open>The code after the label \<open>out\<close> of \<open>bm_allocate\<close>.\<close>

definition bm_allocate_out :: "u32 \<Rightarrow> bool \<Rightarrow> pet \<times> u64 \<Rightarrow> pet \<times> u64" where
  "bm_allocate_out num_units clean = (\<lambda>(s, result).
     let s = (if result \<noteq> 0 then s\<lparr>blocks_allocated := blocks_allocated s + 1\<rparr> else s)
     in (if result \<noteq> 0 \<and> clean then s\<lparr>mem := cleanse (mem s) result 0 (num_units * 16)\<rparr> else s, result))"

definition bm_allocate :: "mmap_fun \<Rightarrow> pet \<Rightarrow> u32 \<Rightarrow> bool \<Rightarrow> (pet \<times> u64) res" where
  "bm_allocate mm s num_units clean =
     bindE (find_available_page s num_units) (\<lambda>(s, found).
     bindE (case found of
              Some (bm_page, offset) \<Rightarrow>
                bindE (change_bits set_bits s bm_page offset num_units) (\<lambda>s.
                bindE (unhand_page s bm_page) (\<lambda>s.
                Inr (s, bm_page + ucast (offset * 16))))
            | None \<Rightarrow>
                (let (s, bm_page) = call_mmap mm s (sys_page_size s) False
                 in if bm_page = 0 then Inr (s, 0)
                    else (let bitmap = replicate (unat (units_per_page s div WORD_WIDTH)) 0;
                              s = s\<lparr>pages := (pages s)(bm_page \<mapsto>
                                       \<lparr>bp_list = None, bp_next = 0, bp_prev = 0, bp_bitmap = bitmap\<rparr>)\<rparr>
                          in bindE (change_bits set_bits s bm_page 0
                                      (bm_page_header_size_in_units s + num_units)) (\<lambda>s.
                             bindE (unhand_page s bm_page) (\<lambda>s.
                             Inr (s\<lparr>num_bm_pages := num_bm_pages s + 1\<rparr>,
                                  bm_page + ucast (bm_page_header_size_in_units s * 16)))))))
       (\<lambda>r. Inr (bm_allocate_out num_units clean r)))"

definition bm_shrink :: "pet \<Rightarrow> u64 \<Rightarrow> u32 \<Rightarrow> u32 \<Rightarrow> u32 \<Rightarrow> pet res" where
  "bm_shrink s bm_page offset old_num_units new_num_units =
     bindE (grab_page s bm_page) (\<lambda>s.
     let tail_units = old_num_units - new_num_units
     in bindE (change_bits clear_bits s bm_page (offset + new_num_units) tail_units) (\<lambda>s.
        unhand_page s bm_page))"

definition bm_grow :: "pet \<Rightarrow> u64 \<Rightarrow> u32 \<Rightarrow> u32 \<Rightarrow> u32 \<Rightarrow> (pet \<times> bool) res" where
  "bm_grow s bm_page offset old_num_units new_num_units =
     bindE (grab_page s bm_page) (\<lambda>s.
     let increment = new_num_units - old_num_units
     in bindE (read_page s bm_page) (\<lambda>pg.
        bindE (or_fail Bad_Access
                 (count_zero_bits (units_per_page s) (bp_bitmap pg) (offset + old_num_units) increment))
          (\<lambda>len.
        if len < increment then bindE (unhand_page s bm_page) (\<lambda>s. Inr (s, False))
        else bindE (change_bits set_bits s bm_page (offset + old_num_units) increment) (\<lambda>s.
             bindE (unhand_page s bm_page) (\<lambda>s. Inr (s, True))))))"

definition bm_release :: "pet \<Rightarrow> u64 \<Rightarrow> u32 \<Rightarrow> u32 \<Rightarrow> pet res" where
  "bm_release s bm_page offset num_units =
     bindE (grab_page s bm_page) (\<lambda>s.
     bindE (change_bits clear_bits s bm_page offset num_units) (\<lambda>s.
     bindE (unhand_page s bm_page) (\<lambda>s.
     Inr (s\<lparr>blocks_allocated := blocks_allocated s - 1\<rparr>))))"

end
