(* ===== verification/Pet_Invariant.thy ===== *)
theory Pet_Invariant
  imports Pet_Pages
begin

text \<open>
  The invariant of the bitmap sub-allocator and the proof that every operation on pages keeps it. An
  operation takes a page in hand (out of every list), changes its bitmap and hands it back;
  \<open>pet_core s P A\<close> is the invariant while the pages \<open>A\<close> are in hand.
\<close>

definition geometry :: "pet \<Rightarrow> bool" where
  "geometry s \<longleftrightarrow>
     (\<exists>k. 10 \<le> k \<and> k \<le> 31 \<and> unat (sys_page_size s) = 2 ^ k) \<and>
     unat (units_per_page s) = unat (sys_page_size s) div 16 \<and>
     unat (bm_page_header_size_in_units s) = (39 + unat (units_per_page s) div 8) div 16 \<and>
     max_data_units s = units_per_page s - bm_page_header_size_in_units s"

definition page_at :: "pet \<Rightarrow> u64 \<Rightarrow> bool" where
  "page_at s p \<longleftrightarrow>
     unat (sys_page_size s) dvd unat p \<and> unat p + unat (sys_page_size s) \<le> 2 ^ 64 \<and> p \<in> mapped s"

definition pages_ok :: "pet \<Rightarrow> bool" where
  "pages_ok s \<longleftrightarrow>
     (\<forall>p bm. bitmaps s p = Some bm \<longrightarrow>
        page_ok (units_per_page s) (bm_page_header_size_in_units s) bm \<and> page_at s p)"

definition longest :: "pet \<Rightarrow> u64 list \<Rightarrow> u32 option" where
  "longest s bm =
     find_longest_free_block (units_per_page s) (bm_page_header_size_in_units s) (max_data_units s) bm"

definition labels_ok :: "pet \<Rightarrow> bool" where
  "labels_ok s \<longleftrightarrow>
     (\<forall>p i bm. lst s p = Some (SB i) \<longrightarrow> bitmaps s p = Some bm \<longrightarrow>
        longest s bm = Some i \<and> i < max_data_units s)"

definition pet_core :: "pet \<Rightarrow> u64 set \<Rightarrow> u64 set \<Rightarrow> bool" where
  "pet_core s P A \<longleftrightarrow>
     geometry s \<and> rings s P \<and> pages_ok s \<and> labels_ok s \<and>
     (\<forall>p. pages s p \<noteq> None \<longrightarrow> (lst s p = None \<longleftrightarrow> p \<in> A)) \<and>
     unat (units_per_page s) \<le> length (superblock s)"

definition pet_inv :: "pet \<Rightarrow> bool" where
  "pet_inv s \<longleftrightarrow> (\<exists>P. pet_core s P {})"

text \<open>The units in use by blocks: the abstract state of the sub-allocator.\<close>

definition used :: "pet \<Rightarrow> (u64 \<times> nat) set" where
  "used s = {(p, i). \<exists>bm. bitmaps s p = Some bm \<and> unat (bm_page_header_size_in_units s) \<le> i \<and> bit_at bm i}"

definition block_units :: "u64 \<Rightarrow> nat \<Rightarrow> nat \<Rightarrow> (u64 \<times> nat) set" where
  "block_units p offset n = {p} \<times> {offset ..< offset + n}"

subsection \<open>Geometry\<close>

lemma geometry_bounds:
  assumes "geometry s"
  shows "64 dvd unat (units_per_page s)" and "unat (sys_page_size s) = 16 * unat (units_per_page s)"
    and "unat (units_per_page s) < 2 ^ 31" and "0 < unat (bm_page_header_size_in_units s)"
    and "unat (bm_page_header_size_in_units s) < unat (units_per_page s)"
    and "unat (max_data_units s) = unat (units_per_page s) - unat (bm_page_header_size_in_units s)"
    and "2 \<le> unat (bm_page_header_size_in_units s)"
proof -
  obtain k where k: "10 \<le> k" "k \<le> 31" "unat (sys_page_size s) = 2 ^ k"
    and u: "unat (units_per_page s) = unat (sys_page_size s) div 16"
    and h: "unat (bm_page_header_size_in_units s) = (39 + unat (units_per_page s) div 8) div 16"
    and m: "max_data_units s = units_per_page s - bm_page_header_size_in_units s"
    using assms unfolding geometry_def by blast
  obtain j where j: "k = j + 10" using k(1) by (metis add.commute le_Suc_ex)
  have ps: "unat (sys_page_size s) = 1024 * 2 ^ j" by (simp add: k(3) j power_add)
  have upp: "unat (units_per_page s) = 64 * 2 ^ j" by (simp add: u ps)
  have hd: "unat (bm_page_header_size_in_units s) = (39 + 8 * 2 ^ j) div 16" by (simp add: h upp)
  have one: "(1::nat) \<le> 2 ^ j" by simp
  show "64 dvd unat (units_per_page s)" by (simp add: upp)
  show "unat (sys_page_size s) = 16 * unat (units_per_page s)" by (simp add: ps upp)
  show "unat (units_per_page s) < 2 ^ 31"
    using unat_u32_bound [of "sys_page_size s"] by (simp add: ps upp)
  show "0 < unat (bm_page_header_size_in_units s)" "2 \<le> unat (bm_page_header_size_in_units s)"
    using one unfolding hd by linarith+
  show lt: "unat (bm_page_header_size_in_units s) < unat (units_per_page s)"
    using one unfolding hd upp by linarith
  show "unat (max_data_units s) = unat (units_per_page s) - unat (bm_page_header_size_in_units s)"
    unfolding m using lt by (intro unat_sub_exact) simp
qed

lemma same_but_lists_inv:
  assumes "same_but_lists s t"
  shows "geometry t = geometry s" and "pages_ok t = pages_ok s" and "longest t = longest s"
    and "used t = used s" and "page_at t = page_at s"
  using assms unfolding same_but_lists_def geometry_def pages_ok_def page_at_def longest_def used_def
  by (simp_all add: fun_eq_iff)

lemma pet_coreD:
  assumes "pet_core s P A"
  shows "geometry s" and "rings s P" and "pages_ok s" and "labels_ok s"
    and "pages s p \<noteq> None \<Longrightarrow> lst s p = None \<longleftrightarrow> p \<in> A"
    and "unat (units_per_page s) \<le> length (superblock s)"
  using assms unfolding pet_core_def by blast+

lemma page_bitmap_of:
  assumes "pages_ok s" and "pages s p \<noteq> None"
  obtains pg where "pages s p = Some pg"
    and "page_ok (units_per_page s) (bm_page_header_size_in_units s) (bp_bitmap pg)" and "page_at s p"
  using assms by (auto simp: pages_ok_def bitmaps_def)

lemma page_longest_free_block_ok:
  assumes "geometry s" and "pages_ok s" and "pages s p \<noteq> None"
  obtains bm r where "bitmaps s p = Some bm" and "page_longest_free_block s p = Inr r"
    and "longest s bm = Some r"
    and "\<And>n. has_block bm (unat (bm_page_header_size_in_units s)) (unat (units_per_page s)) n \<longleftrightarrow> n \<le> unat r"
proof -
  obtain pg where pg: "pages s p = Some pg"
    "page_ok (units_per_page s) (bm_page_header_size_in_units s) (bp_bitmap pg)"
    using page_bitmap_of [OF assms(2,3)] by blast
  have "max_data_units s = units_per_page s - bm_page_header_size_in_units s"
    using assms(1) by (simp add: geometry_def)
  from find_longest_free_block_spec [OF pg(2) this] obtain r where r:
    "find_longest_free_block (units_per_page s) (bm_page_header_size_in_units s) (max_data_units s) (bp_bitmap pg) = Some r"
    "\<And>n. has_block (bp_bitmap pg) (unat (bm_page_header_size_in_units s)) (unat (units_per_page s)) n \<longleftrightarrow> n \<le> unat r"
    by blast
  show thesis
    by (rule that [of "bp_bitmap pg" r])
       (use pg r in \<open>simp_all add: bitmaps_def page_longest_free_block_def read_page_def longest_def\<close>)
qed

lemma page_free_block_ok:
  assumes "pages_ok s" and "pages s p \<noteq> None" and "0 < unat n"
  obtains bm r where "bitmaps s p = Some bm" and "page_free_block s p n = Inr r"
    and "r = 0 \<longleftrightarrow> \<not> has_block bm (unat (bm_page_header_size_in_units s)) (unat (units_per_page s)) (unat n)"
    and "r \<noteq> 0 \<Longrightarrow> unat (bm_page_header_size_in_units s) \<le> unat r \<and>
           free_from bm (unat (units_per_page s)) (unat r) (unat n)"
proof -
  obtain pg where pg: "pages s p = Some pg"
    "page_ok (units_per_page s) (bm_page_header_size_in_units s) (bp_bitmap pg)"
    using page_bitmap_of [OF assms(1,2)] by blast
  from find_free_block_spec [OF pg(2) assms(3)] obtain r where r:
    "find_free_block (units_per_page s) (bm_page_header_size_in_units s) (bp_bitmap pg) n = Some r"
    "r = 0 \<longleftrightarrow> \<not> has_block (bp_bitmap pg) (unat (bm_page_header_size_in_units s)) (unat (units_per_page s)) (unat n)"
    "r \<noteq> 0 \<Longrightarrow> unat (bm_page_header_size_in_units s) \<le> unat r \<and>
       free_from (bp_bitmap pg) (unat (units_per_page s)) (unat r) (unat n)"
    by blast
  show thesis
    by (rule that [of "bp_bitmap pg" r]) (use pg r in \<open>simp_all add: bitmaps_def page_free_block_def read_page_def\<close>)
qed

subsection \<open>Taking a page in hand and putting it on a superblock list\<close>

lemma delete_core:
  assumes C: "pet_core s P A" and l: "lst s p = Some l"
  obtains t P' where "delete_from_list s p = Inr t" and "same_but_lists s t" and "pet_core t P' (insert p A)"
    and "lst t = (lst s)(p := None)" and "l = LRU \<Longrightarrow> lru_page t = 0" and "l \<noteq> LRU \<Longrightarrow> lru_page t = lru_page s"
proof -
  note D = pet_coreD [OF C]
  from delete_from_list_rings [OF D(2) l] obtain t P' where t: "delete_from_list s p = Inr t"
    "same_but_lists s t" "rings t P'" "lst t = (lst s)(p := None)" "P' \<subseteq> P"
    "\<forall>k. head t k = head s k \<or> k = l" "l = LRU \<longrightarrow> head t LRU = 0" .
  note I = same_but_lists_inv [OF t(2)]
  have "labels_ok t"
    using D(4) t(2,4) unfolding labels_ok_def I(3) by (auto simp: same_but_lists_def split: if_splits)
  moreover have "\<forall>q. pages t q \<noteq> None \<longrightarrow> (lst t q = None \<longleftrightarrow> q \<in> insert p A)"
    using D(5) same_but_lists_pages [OF t(2)] by (auto simp: t(4))
  ultimately have "pet_core t P' (insert p A)"
    using D t(3) t(2) I unfolding pet_core_def by (simp add: same_but_lists_def)
  then show thesis using that [OF t(1,2) _ t(4)] spec [OF t(6), of LRU] t(7) by auto
qed

lemma add_core:
  assumes C: "pet_core s P A" and p: "p \<in> A" "bitmaps s p = Some bm"
    and i: "longest s bm = Some i" "i < max_data_units s"
  obtains t P' where "add_to_list s (SB i) p = Inr t" and "same_but_lists s t" and "pet_core t P' (A - {p})"
    and "lst t = (lst s)(p := Some (SB i))" and "lru_page t = lru_page s"
proof -
  note D = pet_coreD [OF C]
  have pp: "pages s p \<noteq> None" using p(2) by (metis bitmaps_dom option.distinct(1))
  have lp: "lst s p = None" using D(5) [OF pp] p(1) by simp
  have "unat i < unat (units_per_page s)"
    using i(2) geometry_bounds(6) [OF D(1)] by (simp add: word_less_nat_alt)
  then have "valid_ref s (SB i)" using D(6) by (simp add: valid_ref_def)
  from add_to_list_rings [OF D(2) pp lp this list_ref.distinct(2)] obtain t where t: "add_to_list s (SB i) p = Inr t"
    "same_but_lists s t" "rings t (insert p P)" "lst t = (lst s)(p := Some (SB i))"
    "\<forall>k. k \<noteq> SB i \<longrightarrow> head t k = head s k" "head t (SB i) \<noteq> 0" .
  note I = same_but_lists_inv [OF t(2)]
  have "labels_ok t"
    using D(4) t(2,4) p(2) i unfolding labels_ok_def I(3) by (auto simp: same_but_lists_def split: if_splits)
  moreover have "\<forall>q. pages t q \<noteq> None \<longrightarrow> (lst t q = None \<longleftrightarrow> q \<in> A - {p})"
    using D(5) same_but_lists_pages [OF t(2)] by (auto simp: t(4))
  ultimately have "pet_core t (insert p P) (A - {p})"
    using D t(3) t(2) I unfolding pet_core_def by (simp add: same_but_lists_def)
  then show thesis using that [OF t(1,2) _ t(4)] spec [OF t(5), of LRU] by auto
qed

subsection \<open>Handing a page back\<close>

lemma rings_cong:
  assumes "rings s P" and "pages t 0 = None" and "nxt t = nxt s" and "prv t = prv s" and "lst t = lst s"
    and "head t = head s" and "length (superblock t) = length (superblock s)"
  shows "rings t P"
proof -
  have "valid_ref t = valid_ref s"
    by (rule ext) (simp add: valid_ref_def assms(7) split: list_ref.split)
  with assms show ?thesis unfolding rings_def by simp
qed

lemma rings_forget:
  assumes R: "rings s P" and "lst s q = None"
  shows "rings (s\<lparr>pages := (pages s)(q := None)\<rparr>) P"
proof -
  note D = ringsD [OF R]
  let ?t = "s\<lparr>pages := (pages s)(q := None)\<rparr>"
  have v: "nxt ?t = (nxt s)(q := 0)" "prv ?t = (prv s)(q := 0)" "lst ?t = lst s"
    using assms(2) by (auto simp: view_defs fun_eq_iff split: option.splits)
  have "q \<notin> P" using D(2) assms(2) by blast
  then have "\<forall>p\<in>P. p \<noteq> q \<and> nxt s p \<noteq> q \<and> prv s p \<noteq> q" using D(3,4) by metis
  then show ?thesis
    unfolding rings_def using R assms(2) D(1) by (auto simp: v rings_def simp del: head.simps)
qed

lemma rings_put_lru:
  assumes R: "rings s P" and p: "pages s p \<noteq> None" "lst s p = None" and "lru_page s = 0"
    and t: "pages t 0 = None" "nxt t = (nxt s)(p := p)" "prv t = (prv s)(p := p)"
      "lst t = (lst s)(p := Some LRU)" "head t = (head s)(LRU := p)"
      "length (superblock t) = length (superblock s)"
  shows "rings t (insert p P)"
proof -
  note D = ringsD [OF R]
  have pP: "p \<notin> P" using D(2) p(2) by blast
  have none: "lst s q \<noteq> Some LRU" for q
    using D(13) [of q] D(1) assms(4) lst_pages [of s q] by auto
  have vt: "valid_ref t k = valid_ref s k" for k
    by (simp add: valid_ref_def t(6) split: list_ref.split)
  have "\<forall>q\<in>insert p P. lst t q \<noteq> None \<and> nxt t q \<in> insert p P \<and> prv t q \<in> insert p P \<and>
      prv t (nxt t q) = q \<and> nxt t (prv t q) = q \<and> lst t (nxt t q) = lst t q"
    using D(2-7) pP by (auto simp: t)
  moreover have "\<forall>q. lst t q \<noteq> None \<longrightarrow> q \<notin> insert p P \<longrightarrow> nxt t q = prv t q"
    using D(9) by (auto simp: t)
  moreover have "\<forall>q l. lst t q = Some l \<longrightarrow> valid_ref t l"
    using D(10) by (auto simp: t vt) (simp add: valid_ref_def)
  moreover have "\<forall>l. head t l \<noteq> 0 \<longrightarrow> head t l \<in> insert p P \<and> lst t (head t l) = Some l"
    using D(11,12) pP by (auto simp: t(4,5))
  moreover have "\<forall>q. lst t q = Some LRU \<longrightarrow> head t LRU = q \<and> nxt t q = q \<and> prv t q = q"
    using none by (auto simp: t)
  ultimately show ?thesis using t(1) unfolding rings_def by blast
qed

lemma add_to_list_views:
  assumes "pages s p \<noteq> None" and "valid_ref s l"
    and "head s l \<noteq> 0 \<Longrightarrow> pages s (head s l) \<noteq> None \<and> pages s (prv s (head s l)) \<noteq> None \<and>
           p \<noteq> head s l \<and> p \<noteq> prv s (head s l)"
  shows "\<exists>t. add_to_list s l p = Inr t \<and> same_but_lists s t \<and>
    nxt t = (if head s l = 0 then (nxt s)(p := p) else (nxt s)(p := head s l, prv s (head s l) := p)) \<and>
    prv t = (if head s l = 0 then (prv s)(p := p) else (prv s)(p := prv s (head s l), head s l := p)) \<and>
    lst t = (lst s)(p := Some l) \<and> head t = (if head s l = 0 then (head s)(l := p) else head s)"
proof (cases "head s l = 0")
  case True
  show ?thesis by (rule add_to_empty_list_effect [OF assms(1,2) True]) (simp add: True)
next
  case False
  with assms(3) have h: "pages s (head s l) \<noteq> None" "pages s (prv s (head s l)) \<noteq> None"
    "p \<noteq> head s l" "p \<noteq> prv s (head s l)" by blast+
  show ?thesis by (rule add_to_list_effect [OF assms(1,2) refl False h]) (simp add: False)
qed

definition same_params :: "pet \<Rightarrow> pet \<Rightarrow> bool" where
  "same_params s t \<longleftrightarrow>
     sys_page_size t = sys_page_size s \<and> units_per_page t = units_per_page s \<and>
     bm_page_header_size_in_units t = bm_page_header_size_in_units s \<and>
     max_data_units t = max_data_units s \<and> length (superblock t) = length (superblock s)"

text \<open>Pages that are mapped but carry no bitmap: blocks allocated directly with \<open>mmap\<close>.\<close>

definition direct_pages :: "pet \<Rightarrow> u64 set" where
  "direct_pages s = {p \<in> mapped s. pages s p = None}"

lemma same_but_lists_params: "same_but_lists s t \<Longrightarrow> same_params s t"
  by (simp add: same_but_lists_def same_params_def)

lemma same_params_trans: "same_params s t \<Longrightarrow> same_params t u \<Longrightarrow> same_params s u"
  by (simp add: same_params_def)

lemma same_params_eqs:
  assumes "same_params s t"
  shows "geometry t = geometry s" and "longest t = longest s" and "valid_ref t = valid_ref s"
proof -
  show "geometry t = geometry s" "longest t = longest s"
    using assms by (simp_all add: same_params_def geometry_def longest_def fun_eq_iff)
  show "valid_ref t = valid_ref s"
    using assms by (auto simp: same_params_def valid_ref_def fun_eq_iff split: list_ref.split)
qed

definition put_lru :: "pet \<Rightarrow> u64 \<Rightarrow> bm_page \<Rightarrow> pet" where
  "put_lru s p pg = s\<lparr>pages := (pages s)(p \<mapsto> pg\<lparr>bp_list := Some LRU, bp_prev := p, bp_next := p\<rparr>), lru_page := p\<rparr>"

lemma put_lru_views:
  assumes "pages s p = Some pg"
  shows "nxt (put_lru s p pg) = (nxt s)(p := p)" and "prv (put_lru s p pg) = (prv s)(p := p)"
    and "lst (put_lru s p pg) = (lst s)(p := Some LRU)" and "head (put_lru s p pg) = (head s)(LRU := p)"
    and "bitmaps (put_lru s p pg) = bitmaps s" and "mapped (put_lru s p pg) = mapped s"
    and "same_params s (put_lru s p pg)" and "mem (put_lru s p pg) = mem s"
    and "blocks_allocated (put_lru s p pg) = blocks_allocated s"
    and "pages (put_lru s p pg) q = None \<longleftrightarrow> pages s q = None"
proof -
  show "nxt (put_lru s p pg) = (nxt s)(p := p)" "prv (put_lru s p pg) = (prv s)(p := p)"
    "lst (put_lru s p pg) = (lst s)(p := Some LRU)" "bitmaps (put_lru s p pg) = bitmaps s"
    using assms by (auto simp: put_lru_def view_defs fun_eq_iff)
  show "head (put_lru s p pg) = (head s)(LRU := p)"
    by (rule ext, rename_tac l, case_tac l) (simp_all add: put_lru_def)
qed (use assms in \<open>simp_all add: put_lru_def same_params_def\<close>)

lemma put_lru_core:
  assumes C: "pet_core s P A" and "p \<in> A" and p: "pages s p = Some pg" and "lru_page s = 0"
  shows "pet_core (put_lru s p pg) (insert p P) (A - {p})"
proof -
  note D = pet_coreD [OF C]
  note V = put_lru_views [OF p]
  let ?t = "put_lru s p pg"
  have lp: "lst s p = None" using D(5) p assms(2) by blast
  have "length (superblock ?t) = length (superblock s)" using V(7) by (simp add: same_params_def)
  moreover have "pages ?t 0 = None" using V(10) ringsD(1) [OF D(2)] by blast
  moreover have "pages s p \<noteq> None" using p by simp
  ultimately have "rings ?t (insert p P)"
    by (intro rings_put_lru [OF D(2) _ lp assms(4) _ V(1-4)])
  moreover have "pages_ok ?t" using D(3) V(5-7) by (simp add: pages_ok_def page_at_def same_params_def)
  moreover have "labels_ok ?t"
    using D(4) V(3,5,7) unfolding labels_ok_def same_params_eqs(2) [OF V(7)]
    by (auto simp: same_params_def split: if_splits)
  moreover have "pages ?t q \<noteq> None \<Longrightarrow> lst ?t q = None \<longleftrightarrow> q \<in> A - {p}" for q
    using D(5) [of q] by (auto simp: V(3,10))
  ultimately show ?thesis
    using D(1,6) V(7) by (simp add: pet_core_def same_params_eqs(1) [OF V(7)] same_params_def)
qed

lemma pet_core_cong:
  assumes C: "pet_core s P A" and par: "same_params s t"
    and v: "nxt t = nxt s" "prv t = prv s" "lst t = lst s" "bitmaps t = bitmaps s" "head t = head s"
      "mapped t = mapped s"
  shows "pet_core t P A"
proof -
  note D = pet_coreD [OF C]
  have pg: "pages t q = None \<longleftrightarrow> pages s q = None" for q
    by (metis bitmaps_dom v(4))
  have "rings t P"
    using rings_cong [OF D(2) _ v(1-3,5)] par pg ringsD(1) [OF D(2)] by (simp add: same_params_def)
  moreover have "pages_ok t" using D(3) par v by (simp add: pages_ok_def page_at_def same_params_def)
  moreover have "labels_ok t"
    using D(4) par v unfolding labels_ok_def same_params_eqs(2) [OF par] by (simp add: same_params_def)
  ultimately show ?thesis
    using D(1,5,6) par v(3) pg by (simp add: pet_core_def same_params_eqs(1) [OF par] same_params_def)
qed

text \<open>Mappings may come and go next to the pages with a header.\<close>

lemma pet_core_mapped:
  assumes C: "pet_core s P A" and M: "\<And>p. pages s p \<noteq> None \<Longrightarrow> p \<in> M"
  shows "pet_core (s\<lparr>mapped := M\<rparr>) P A"
proof -
  let ?t = "s\<lparr>mapped := M\<rparr>"
  note D = pet_coreD [OF C]
  have par: "same_params s ?t" by (simp add: same_params_def)
  have v: "nxt ?t = nxt s" "prv ?t = prv s" "lst ?t = lst s" "bitmaps ?t = bitmaps s"
    by (simp_all add: view_defs fun_eq_iff)
  have h: "head ?t = head s" by (rule ext, rename_tac l, case_tac l) simp_all
  have "rings ?t P" by (rule rings_cong [OF D(2) _ v(1-3) h]) (use ringsD(1) [OF D(2)] in simp_all)
  moreover have "pages_ok ?t"
    unfolding pages_ok_def v(4)
  proof (intro allI impI)
    fix p bm assume b: "bitmaps s p = Some bm"
    then have "p \<in> M" using M bitmaps_dom [of s p] by simp
    then show "page_ok (units_per_page ?t) (bm_page_header_size_in_units ?t) bm \<and> page_at ?t p"
      using D(3) b by (simp add: pages_ok_def page_at_def)
  qed
  moreover have "labels_ok ?t" using D(4) unfolding labels_ok_def same_params_eqs(2) [OF par] by (simp add: v)
  ultimately show ?thesis
    using D(1,5,6) unfolding pet_core_def same_params_eqs(1) [OF par] v by simp
qed

lemma ring_head_ok:
  assumes R: "rings s P" and "lst s p = None" and "head s l \<noteq> 0"
  shows "pages s (head s l) \<noteq> None \<and> pages s (prv s (head s l)) \<noteq> None \<and>
    p \<noteq> head s l \<and> p \<noteq> prv s (head s l)"
proof -
  note D = ringsD [OF R]
  have "head s l \<in> P" "prv s (head s l) \<in> P" using D(4,11) assms(3) by blast+
  then have "lst s (head s l) \<noteq> None" "lst s (prv s (head s l)) \<noteq> None" using D(2) by blast+
  then show ?thesis using assms(2) lst_pages by metis
qed

lemma used_eq:
  assumes "same_params s t" and "bitmaps t = bitmaps s"
  shows "used t = used s"
  using assms by (simp add: used_def same_params_def)

lemma direct_pages_eq:
  assumes "mapped t = mapped s" and "bitmaps t = bitmaps s"
  shows "direct_pages t = direct_pages s"
proof -
  have "pages t q = None \<longleftrightarrow> pages s q = None" for q by (metis assms(2) bitmaps_dom)
  then show ?thesis by (simp add: direct_pages_def assms(1))
qed

lemma unhand_tail:
  assumes "pages s p = Some pg"
  shows "bindE (write_page s p (\<lambda>pg. pg\<lparr>bp_list := Some LRU\<rparr>)) (\<lambda>s.
     bindE (write_page s p (\<lambda>pg. pg\<lparr>bp_prev := p, bp_next := p\<rparr>)) (\<lambda>s.
     let s = s\<lparr>lru_page := p\<rparr>
     in if r \<noteq> 0
        then (let s = call_munmap s r (sys_page_size s)
              in Inr (s\<lparr>num_bm_pages := num_bm_pages s - 1\<rparr>))
        else Inr s)) =
    Inr (if r \<noteq> 0
         then (let s = call_munmap (put_lru s p pg) r (sys_page_size s)
               in s\<lparr>num_bm_pages := num_bm_pages s - 1\<rparr>)
         else put_lru s p pg)"
  by (simp add: write_page_def assms put_lru_def Let_def)

text \<open>
  What \<open>unhand_page\<close> achieves while the pages \<open>A\<close> are in hand: the page goes back to a list as it was, the
  other pages in hand stay, and the blocks are untouched. A page that was in the LRU slot may have been
  given back to the system; it held no block.
\<close>

definition handed_back :: "pet \<Rightarrow> u64 set \<Rightarrow> u64 \<Rightarrow> pet \<Rightarrow> bool" where
  "handed_back s A p t \<longleftrightarrow>
     (\<exists>P. pet_core t P (A - {p})) \<and> same_params s t \<and> used t = used s \<and> direct_pages t = direct_pages s \<and>
     mem t = mem s \<and> blocks_allocated t = blocks_allocated s \<and> (\<forall>q\<in>A. bitmaps t q = bitmaps s q) \<and>
     (\<forall>q. bitmaps t q = bitmaps s q \<or> bitmaps t q = None)"

lemma handed_backI:
  assumes "pet_core t P (A - {p})" and "same_params s t" and "bitmaps t = bitmaps s" and "mapped t = mapped s"
    and "mem t = mem s" and "blocks_allocated t = blocks_allocated s"
  shows "handed_back s A p t"
  using assms used_eq [OF assms(2,3)] direct_pages_eq [OF assms(4,3)]
  by (auto simp: handed_back_def)

text \<open>One page in hand.\<close>

lemma handed_back_alone:
  assumes "handed_back s {p} p t"
  shows "pet_inv t" and "same_params s t" and "used t = used s" and "direct_pages t = direct_pages s"
    and "mem t = mem s" and "blocks_allocated t = blocks_allocated s" and "bitmaps t p = bitmaps s p"
  using assms by (simp_all add: handed_back_def pet_inv_def)

lemma unhand_no_lru:
  assumes C: "pet_core s P A" and A: "p \<in> A" and p: "pages s p \<noteq> None" and "lru_page s = 0"
  shows "\<exists>t. unhand_page s p = Inr t \<and> handed_back s A p t"
proof -
  obtain pg where pg: "pages s p = Some pg" using p by blast
  note V = put_lru_views [OF pg]
  have "unhand_page s p = Inr (put_lru s p pg)"
    by (simp add: unhand_page_def assms(4) unhand_tail [OF pg])
  moreover have "handed_back s A p (put_lru s p pg)"
    by (rule handed_backI [OF put_lru_core [OF C A pg assms(4)] V(7,5,6,8,9)])
  ultimately show ?thesis by blast
qed

text \<open>The occupied LRU slot, as its page is about to leave it.\<close>

lemma lru_slot:
  assumes C: "pet_core s P A" and h: "lru_page s = h" "h \<noteq> 0"
  obtains s0 P0 where "lst s h = Some LRU" and "pages s h \<noteq> None" and "delete_from_list s h = Inr s0"
    and "same_but_lists s s0" and "pet_core s0 P0 (insert h A)" and "lru_page s0 = 0"
    and "nxt s0 = nxt s" and "prv s0 = prv s" and "lst s0 = (lst s)(h := None)"
    and "head s0 = (head s)(LRU := 0)"
proof -
  note D = pet_coreD [OF C]
  note R = ringsD [OF D(2)]
  have l: "lst s h = Some LRU" using R(12) [of LRU] h by simp
  then have p: "pages s h \<noteq> None" using lst_pages [of s h] by simp
  have eq: "nxt s h = prv s h" using R(14,15) [OF l] by simp
  obtain s0 where s0: "delete_from_list s h = Inr s0" "same_but_lists s s0" "nxt s0 = nxt s" "prv s0 = prv s"
    "lst s0 = (lst s)(h := None)" "head s0 = (head s)(LRU := 0)"
    by (rule delete_last_effect [OF p l R(10) [OF l] eq])
  obtain t P0 where "delete_from_list s h = Inr t" "pet_core t P0 (insert h A)"
    by (rule delete_core [OF C l])
  then have "pet_core s0 P0 (insert h A)" using s0(1) by simp
  moreover have "lru_page s0 = 0" using fun_cong [OF s0(6), of LRU] by simp
  ultimately show thesis using that [OF l p s0(1,2) _ _ s0(3-6)] by blast
qed

lemma unhand_to_superblock:
  assumes C: "pet_core s P A" and A: "p \<in> A" and p: "pages s p \<noteq> None" and h: "lru_page s = h" "h \<noteq> 0"
    and lfb: "page_longest_free_block s h = Inr i" "bitmaps s h = Some bm" "longest s bm = Some i"
      "i < max_data_units s"
  shows "\<exists>t. unhand_page s p = Inr t \<and> handed_back s A p t"
proof -
  obtain s0 P0 where s0: "lst s h = Some LRU" "pages s h \<noteq> None" "delete_from_list s h = Inr s0"
    "same_but_lists s s0" "pet_core s0 P0 (insert h A)" "lru_page s0 = 0" "nxt s0 = nxt s"
    "prv s0 = prv s" "lst s0 = (lst s)(h := None)" "head s0 = (head s)(LRU := 0)"
    by (rule lru_slot [OF C h])
  have hA: "h \<notin> A" using pet_coreD(5) [OF C s0(2)] s0(1) by auto
  then have "p \<noteq> h" using A by auto
  have b0: "bitmaps s0 = bitmaps s" "max_data_units s0 = max_data_units s" "longest s0 = longest s"
    using s0(4) same_but_lists_inv(3) [OF s0(4)] by (simp_all add: same_but_lists_def)
  obtain s2 P2 where s2: "add_to_list s0 (SB i) h = Inr s2" "same_but_lists s0 s2"
    "pet_core s2 P2 (insert h A - {h})" "lst s2 = (lst s0)(h := Some (SB i))" "lru_page s2 = lru_page s0"
    by (rule add_core [OF s0(5), of h bm i]) (use lfb b0 in simp_all)
  have hd: "head s0 (SB i) = head s (SB i)" by (simp add: s0(10) del: head.simps)
  have "valid_ref s (SB i)"
    using lfb(4) geometry_bounds(6) [OF pet_coreD(1) [OF C]] pet_coreD(6) [OF C]
    by (simp add: valid_ref_def word_less_nat_alt)
  then have vr: "valid_ref s0 (SB i)" "valid_ref s (SB i)"
    by (simp_all only: same_but_lists_valid_ref [OF s0(4)])
  have ok0: "head s0 (SB i) \<noteq> 0 \<Longrightarrow> pages s0 (head s0 (SB i)) \<noteq> None \<and>
      pages s0 (prv s0 (head s0 (SB i))) \<noteq> None \<and> h \<noteq> head s0 (SB i) \<and> h \<noteq> prv s0 (head s0 (SB i))"
    using ring_head_ok [OF pet_coreD(2) [OF s0(5)], of h "SB i"] s0(9) by simp
  have ph0: "pages s0 h \<noteq> None" using s0(2) same_but_lists_pages [OF s0(4), of h] by simp
  from add_to_list_views [OF ph0 vr(1) ok0] s2(1)
  have v2: "nxt s2 = (if head s0 (SB i) = 0 then (nxt s0)(h := h) else (nxt s0)(h := head s0 (SB i), prv s0 (head s0 (SB i)) := h))"
    "prv s2 = (if head s0 (SB i) = 0 then (prv s0)(h := h) else (prv s0)(h := prv s0 (head s0 (SB i)), head s0 (SB i) := h))"
    "head s2 = (if head s0 (SB i) = 0 then (head s0)(SB i := h) else head s0)"
    by (auto simp del: head.simps)
  have ok: "head s (SB i) \<noteq> 0 \<Longrightarrow> pages s (head s (SB i)) \<noteq> None \<and>
      pages s (prv s (head s (SB i))) \<noteq> None \<and> h \<noteq> head s (SB i) \<and> h \<noteq> prv s (head s (SB i))"
    using ok0 unfolding hd s0(8) same_but_lists_pages [OF s0(4)] .
  from add_to_list_views [OF s0(2) vr(2) ok] obtain t1 where t1: "add_to_list s (SB i) h = Inr t1"
    "same_but_lists s t1"
    "nxt t1 = (if head s (SB i) = 0 then (nxt s)(h := h) else (nxt s)(h := head s (SB i), prv s (head s (SB i)) := h))"
    "prv t1 = (if head s (SB i) = 0 then (prv s)(h := h) else (prv s)(h := prv s (head s (SB i)), head s (SB i) := h))"
    "lst t1 = (lst s)(h := Some (SB i))" "head t1 = (if head s (SB i) = 0 then (head s)(SB i := h) else head s)"
    by blast
  have p1: "pages t1 p \<noteq> None" and p2: "pages s2 p \<noteq> None"
    using p same_but_lists_pages [OF t1(2), of p] same_but_lists_pages [OF s0(4), of p]
      same_but_lists_pages [OF s2(2), of p] by simp_all
  then obtain g1 g2 where g: "pages t1 p = Some g1" "pages s2 p = Some g2" by blast
  note V1 = put_lru_views [OF g(1)] and V2 = put_lru_views [OF g(2)]
  have "insert h A - {h} = A" using hA by auto
  then have "pet_core (put_lru s2 p g2) (insert p P2) (A - {p})"
    using put_lru_core [OF _ A g(2)] s2(3,5) s0(6) by simp
  then have "pet_core (put_lru t1 p g1) (insert p P2) (A - {p})"
  proof (rule pet_core_cong)
    show "same_params (put_lru s2 p g2) (put_lru t1 p g1)"
      using V1(7) V2(7) t1(2) s0(4) s2(2) by (simp add: same_params_def same_but_lists_def)
    show "mapped (put_lru t1 p g1) = mapped (put_lru s2 p g2)"
      "bitmaps (put_lru t1 p g1) = bitmaps (put_lru s2 p g2)"
      using t1(2) s0(4) s2(2) by (simp_all add: V1 V2 same_but_lists_def)
    show "nxt (put_lru t1 p g1) = nxt (put_lru s2 p g2)" "prv (put_lru t1 p g1) = prv (put_lru s2 p g2)"
      "lst (put_lru t1 p g1) = lst (put_lru s2 p g2)"
      by (simp_all only: V1 V2 v2 t1(3-5) s0(7-9) hd s2(4)) simp_all
    show "head (put_lru t1 p g1) = head (put_lru s2 p g2)"
      by (auto simp: V1 V2 v2 t1(6) s0(10) fun_eq_iff simp del: head.simps)
  qed
  moreover have "unhand_page s p = Inr (put_lru t1 p g1)"
    using lfb(1,4) h t1(1) by (simp add: unhand_page_def unhand_tail [OF g(1)])
  moreover have "bitmaps (put_lru t1 p g1) = bitmaps s" "mapped (put_lru t1 p g1) = mapped s"
    "mem (put_lru t1 p g1) = mem s" "blocks_allocated (put_lru t1 p g1) = blocks_allocated s"
    "same_params s (put_lru t1 p g1)"
    using V1(7) t1(2) by (simp_all add: V1 same_but_lists_def same_params_def)
  ultimately show ?thesis using handed_backI by metis
qed

lemma call_munmap_page:
  assumes "0 < unat (sys_page_size s)"
  shows "call_munmap s q (sys_page_size s) = s\<lparr>mapped := mapped s - {q}, pages := (pages s)(q := None)\<rparr>"
  by (auto simp: call_munmap_def page_range_one [OF assms] Let_def fun_eq_iff)

text \<open>Removing a page that is in no list from the mapping.\<close>

definition drop_page :: "pet \<Rightarrow> u64 \<Rightarrow> pet" where
  "drop_page s q = s\<lparr>mapped := mapped s - {q}, pages := (pages s)(q := None)\<rparr>"

lemma drop_page_views:
  "nxt (drop_page s q) = (nxt s)(q := 0)" "prv (drop_page s q) = (prv s)(q := 0)"
  "lst (drop_page s q) = (lst s)(q := None)" "bitmaps (drop_page s q) = (bitmaps s)(q := None)"
  "head (drop_page s q) = head s" "mapped (drop_page s q) = mapped s - {q}" "same_params s (drop_page s q)"
  "lru_page (drop_page s q) = lru_page s" "mem (drop_page s q) = mem s"
  "blocks_allocated (drop_page s q) = blocks_allocated s"
proof -
  show "head (drop_page s q) = head s"
    by (rule ext, rename_tac l, case_tac l) (simp_all add: drop_page_def)
qed (auto simp: drop_page_def view_defs fun_eq_iff same_params_def)

lemma drop_page_core:
  assumes C: "pet_core s P A" and "lst s q = None"
  shows "pet_core (drop_page s q) P (A - {q})"
proof -
  note D = pet_coreD [OF C]
  note V = drop_page_views [of s q]
  let ?m = "s\<lparr>pages := (pages s)(q := None)\<rparr>"
  have R: "rings ?m P" by (rule rings_forget [OF D(2) assms(2)])
  have z: "pages (drop_page s q) 0 = None" using ringsD(1) [OF D(2)] by (simp add: drop_page_def)
  have m: "nxt ?m = (nxt s)(q := 0)" "prv ?m = (prv s)(q := 0)" "lst ?m = (lst s)(q := None)"
    by (auto simp: view_defs fun_eq_iff)
  have sb: "length (superblock (drop_page s q)) = length (superblock ?m)" by (simp add: drop_page_def)
  have "rings (drop_page s q) P"
    by (rule rings_cong [OF R z _ _ _ _ sb]) (simp_all only: m V head_pages_update)
  moreover have "pages_ok (drop_page s q)"
    using D(3) V(7) by (auto simp: pages_ok_def page_at_def V same_params_def)
  moreover have "labels_ok (drop_page s q)"
    using D(4) V(7) unfolding labels_ok_def same_params_eqs(2) [OF V(7)] by (auto simp: V same_params_def)
  moreover have "lst (drop_page s q) x = None \<longleftrightarrow> x \<in> A - {q}" if "pages (drop_page s q) x \<noteq> None" for x
  proof -
    have "x \<noteq> q" "pages s x \<noteq> None" using that by (auto simp: drop_page_def split: if_splits)
    then show ?thesis using D(5) [of x] by (simp add: V)
  qed
  ultimately show ?thesis
    using D(1,6) V(7) by (simp add: pet_core_def same_params_eqs(1) [OF V(7)] same_params_def)
qed

lemma used_drop_page:
  assumes "bitmaps s q = Some bm" and "page_ok (units_per_page s) (bm_page_header_size_in_units s) bm"
    and "has_block bm (unat (bm_page_header_size_in_units s)) (unat (units_per_page s))
           (unat (units_per_page s) - unat (bm_page_header_size_in_units s))"
  shows "used (drop_page s q) = used s"
proof -
  let ?h = "unat (bm_page_header_size_in_units s)" and ?u = "unat (units_per_page s)"
  have h: "?h < ?u" "64 * length bm = ?u" using assms(2) by (simp_all add: page_ok_def page_bitmap_def)
  obtain i where i: "?h \<le> i" "i + (?u - ?h) \<le> ?u" "zero_run bm i (?u - ?h)"
    using assms(3) by (auto simp: has_block_def free_from_def)
  then have "i = ?h" using h by linarith
  then have "\<not> bit_at bm j" if "?h \<le> j" for j
    using i(3) that h bit_at_less [of bm j] by (auto simp: zero_run_def)
  then show ?thesis
    using assms(1) drop_page_views(7) [of s q]
    by (auto simp: used_def drop_page_views same_params_def split: if_splits)
qed

lemma unhand_reclaim:
  assumes C: "pet_core s P A" and A: "p \<in> A" and p: "pages s p \<noteq> None" and h: "lru_page s = h" "h \<noteq> 0"
    and lfb: "page_longest_free_block s h = Inr i" "bitmaps s h = Some bm" "\<not> i < max_data_units s"
      "has_block bm (unat (bm_page_header_size_in_units s)) (unat (units_per_page s)) (unat i)"
  shows "\<exists>t. unhand_page s p = Inr t \<and> handed_back s A p t"
proof -
  note G = geometry_bounds [OF pet_coreD(1) [OF C]]
  obtain s0 P0 where s0: "lst s h = Some LRU" "pages s h \<noteq> None" "delete_from_list s h = Inr s0"
    "same_but_lists s s0" "pet_core s0 P0 (insert h A)" "lru_page s0 = 0" "nxt s0 = nxt s"
    "prv s0 = prv s" "lst s0 = (lst s)(h := None)" "head s0 = (head s)(LRU := 0)"
    by (rule lru_slot [OF C h])
  have hA: "h \<notin> A" using pet_coreD(5) [OF C s0(2)] s0(1) by auto
  then have ph: "p \<noteq> h" using A by auto
  let ?d = "drop_page s0 h"
  have "lst s0 h = None" by (simp add: s0(9))
  moreover have "insert h A - {h} = A" using hA by auto
  ultimately have dc: "pet_core ?d P0 A" using drop_page_core [OF s0(5), of h] by simp
  have pd: "pages ?d p \<noteq> None" using p ph same_but_lists_pages [OF s0(4), of p] by (simp add: drop_page_def)
  then obtain g2 g1 where g: "pages ?d p = Some g2" "pages s p = Some g1" using p by blast
  note V1 = put_lru_views [OF g(2)] and V2 = put_lru_views [OF g(1)]
  let ?t = "(drop_page (put_lru s p g1) h)\<lparr>num_bm_pages := num_bm_pages s - 1\<rparr>"
  have par: "same_params s ?t"
    using V1(7) drop_page_views(7) [of "put_lru s p g1" h] by (simp add: same_params_def)
  have hd: "head ?t = head (drop_page (put_lru s p g1) h)"
    by (rule ext, rename_tac l, case_tac l) simp_all
  have vw: "nxt ?t = nxt (drop_page (put_lru s p g1) h)" "prv ?t = prv (drop_page (put_lru s p g1) h)"
    "lst ?t = lst (drop_page (put_lru s p g1) h)" "bitmaps ?t = bitmaps (drop_page (put_lru s p g1) h)"
    by (simp_all add: view_defs fun_eq_iff)
  have "pet_core (put_lru ?d p g2) (insert p P0) (A - {p})"
    using put_lru_core [OF dc A g(1)] s0(6) by (simp add: drop_page_views)
  then have core: "pet_core ?t (insert p P0) (A - {p})"
  proof (rule pet_core_cong)
    show "same_params (put_lru ?d p g2) ?t"
      using V2(7) drop_page_views(7) [of s0 h] s0(4) par by (simp add: same_params_def same_but_lists_def)
    show "nxt ?t = nxt (put_lru ?d p g2)" "prv ?t = prv (put_lru ?d p g2)" "lst ?t = lst (put_lru ?d p g2)"
      using ph by (simp_all add: vw V1 V2 drop_page_views s0(7-9) fun_upd_twist)
    show "bitmaps ?t = bitmaps (put_lru ?d p g2)" "mapped ?t = mapped (put_lru ?d p g2)"
      using s0(4) by (simp_all add: vw V1 V2 drop_page_views same_but_lists_def)
    show "head ?t = head (put_lru ?d p g2)"
      by (simp only: hd drop_page_views V1 V2 s0(10)) (simp add: fun_upd_def fun_eq_iff)
  qed
  have ok: "page_ok (units_per_page s) (bm_page_header_size_in_units s) bm" "page_at s h"
    using pet_coreD(3) [OF C] lfb(2) by (auto simp: pages_ok_def)
  have "unat (units_per_page s) - unat (bm_page_header_size_in_units s) \<le> unat i"
    using lfb(3) G(6) by (simp add: word_less_nat_alt)
  then have "used (drop_page s h) = used s"
    using used_drop_page [OF lfb(2) ok(1) has_block_le [OF lfb(4)]] by simp
  moreover have "used ?t = used (drop_page s h)"
    using par drop_page_views(7) [of s h] by (simp add: used_def vw V1 drop_page_views same_params_def)
  moreover have "direct_pages ?t = direct_pages s"
    using s0(2) V1(10) by (auto simp: direct_pages_def drop_page_def V1(6))
  moreover have pos: "0 < unat (sys_page_size (put_lru s p g1))"
    using G(2,5) by (simp add: put_lru_def)
  have gone: "call_munmap (put_lru s p g1) h (sys_page_size s) = drop_page (put_lru s p g1) h"
    using call_munmap_page [OF pos, of h] V1(7) by (simp add: drop_page_def same_params_def)
  have "unhand_page s p = Inr ?t"
    unfolding unhand_page_def h(1) lfb(1)
    by (simp only: bindE_simps prod.case h(2) lfb(3) if_False if_True simp_thms unhand_tail [OF g(2)])
       (simp add: gone Let_def, simp add: put_lru_def drop_page_def)
  moreover have "mem ?t = mem s" "blocks_allocated ?t = blocks_allocated s" by (simp_all add: V1 drop_page_views)
  moreover have "\<forall>q\<in>A. bitmaps ?t q = bitmaps s q" "\<forall>q. bitmaps ?t q = bitmaps s q \<or> bitmaps ?t q = None"
    using hA by (auto simp: vw V1 drop_page_views)
  ultimately show ?thesis using core par unfolding handed_back_def by metis
qed

lemma unhand_page_ok:
  assumes C: "pet_core s P A" and A: "p \<in> A" and p: "pages s p \<noteq> None"
  obtains t where "unhand_page s p = Inr t" and "handed_back s A p t"
proof -
  have "\<exists>t. unhand_page s p = Inr t \<and> handed_back s A p t"
  proof (cases "lru_page s = 0")
    case True
    then show ?thesis by (rule unhand_no_lru [OF C A p])
  next
    case False
    let ?h = "lru_page s"
    have "lst s ?h = Some LRU" using ringsD(12) [OF pet_coreD(2) [OF C], of LRU] False by simp
    then have "pages s ?h \<noteq> None" using lst_pages [of s ?h] by simp
    then obtain bm r where r: "bitmaps s ?h = Some bm" "page_longest_free_block s ?h = Inr r"
      "longest s bm = Some r"
      "\<And>n. has_block bm (unat (bm_page_header_size_in_units s)) (unat (units_per_page s)) n \<longleftrightarrow> n \<le> unat r"
      using page_longest_free_block_ok [OF pet_coreD(1,3) [OF C]] by metis
    show ?thesis
    proof (cases "r < max_data_units s")
      case True
      then show ?thesis using unhand_to_superblock [OF C A p refl False r(2,1,3)] by blast
    next
      case F: False
      have "has_block bm (unat (bm_page_header_size_in_units s)) (unat (units_per_page s)) (unat r)"
        by (simp add: r(4))
      then show ?thesis using unhand_reclaim [OF C A p refl False r(2,1) F] by blast
    qed
  qed
  then show thesis using that by blast
qed

end
