(* ===== verification/Pet_Blocks.thy ===== *)
theory Pet_Blocks
  imports Pet_Invariant
begin

text \<open>
  The operations on blocks of units, against their abstract effect on the set \<open>used\<close> of units in use:
  finding a page never aborts, an allocation takes units that were free and only those, a release, a
  shrink and a grow change the units of their block and no other.
\<close>

subsection \<open>Taking and changing a page\<close>

lemma pet_inv_geometry: "pet_inv s \<Longrightarrow> geometry s"
  by (auto simp: pet_inv_def pet_core_def)

lemma grab_page_ok:
  assumes "pet_inv s" and "pages s p \<noteq> None"
  obtains t P where "grab_page s p = Inr t" and "same_but_lists s t" and "pet_core t P {p}"
    and "pages t p \<noteq> None"
proof -
  obtain P where C: "pet_core s P {}" using assms(1) by (auto simp: pet_inv_def)
  obtain pg where pg: "pages s p = Some pg" using assms(2) by blast
  have "lst s p \<noteq> None" using pet_coreD(5) [OF C assms(2)] by simp
  then obtain l where l: "lst s p = Some l" by blast
  then have "bp_list pg = Some l" by (simp add: lst_def pg)
  then have g: "grab_page s p = delete_from_list s p" by (simp add: grab_page_def read_page_def pg)
  show thesis
  proof (rule delete_core [OF C l])
    fix t P' assume "delete_from_list s p = Inr t" "same_but_lists s t" "pet_core t P' {p}"
    then show thesis using that [of t P'] g same_but_lists_pages [of s t p] pg by simp
  qed
qed

lemma change_bits_ok:
  assumes C: "pet_core s P A" and A: "p \<in> A" and b: "bitmaps s p = Some bm" "f bm offset len = Some bm'"
    and ok: "page_ok (units_per_page s) (bm_page_header_size_in_units s) bm'"
  obtains t where "change_bits f s p offset len = Inr t" and "pet_core t P A" and "same_params s t"
    and "bitmaps t = (bitmaps s)(p := Some bm')" and "mapped t = mapped s" and "mem t = mem s"
    and "blocks_allocated t = blocks_allocated s" and "pages t p \<noteq> None"
proof -
  note D = pet_coreD [OF C]
  obtain pg where pg: "pages s p = Some pg" "bp_bitmap pg = bm" using b(1) by (auto simp: bitmaps_def)
  let ?t = "s\<lparr>pages := (pages s)(p \<mapsto> pg\<lparr>bp_bitmap := bm'\<rparr>)\<rparr>"
  have par: "same_params s ?t" by (simp add: same_params_def)
  have v: "nxt ?t = nxt s" "prv ?t = prv s" "lst ?t = lst s" "bitmaps ?t = (bitmaps s)(p := Some bm')"
    using pg by (auto simp: view_defs fun_eq_iff)
  have lp: "lst s p = None" using D(5) [of p] pg(1) A by blast
  have pn: "pages ?t q = None \<longleftrightarrow> pages s q = None" for q using pg by simp
  have "rings ?t P"
    by (rule rings_cong [OF D(2) _ v(1-3) head_pages_update]) (use ringsD(1) [OF D(2)] pg in auto)
  moreover have "page_at s p" using D(3) b(1) by (auto simp: pages_ok_def)
  then have "pages_ok ?t" using D(3) ok by (auto simp: pages_ok_def v(4) page_at_def)
  moreover have "labels_ok ?t"
    using D(4) lp unfolding labels_ok_def same_params_eqs(2) [OF par] by (auto simp: v(3,4))
  ultimately have "pet_core ?t P A"
    using D(1,5,6) pn unfolding pet_core_def same_params_eqs(1) [OF par] v(3) by simp
  moreover have "change_bits f s p offset len = Inr ?t"
    using b(2) pg by (simp add: change_bits_def read_page_def write_page_def)
  ultimately show thesis using that par v(4) by simp
qed

text \<open>The three steps every operation on a block ends with: change the bitmap, hand the page back.\<close>

lemma change_unhand:
  assumes C: "pet_core s P {p}" and b: "bitmaps s p = Some bm" "f bm offset len = Some bm'"
    and ok: "page_ok (units_per_page s) (bm_page_header_size_in_units s) bm'"
  obtains t u where "change_bits f s p offset len = Inr t" and "unhand_page t p = Inr u"
    and "pet_inv u" and "same_params s u" and "direct_pages u = direct_pages s" and "mem u = mem s"
    and "blocks_allocated u = blocks_allocated s"
    and "used u = {(q, i) \<in> used s. q \<noteq> p} \<union>
           {p} \<times> {i. unat (bm_page_header_size_in_units s) \<le> i \<and> bit_at bm' i}"
    and "bitmaps u p = Some bm'" and "pet_core t P {p}"
proof -
  obtain t where t: "change_bits f s p offset len = Inr t" "pet_core t P {p}" "same_params s t"
    "bitmaps t = (bitmaps s)(p := Some bm')" "mapped t = mapped s" "mem t = mem s"
    "blocks_allocated t = blocks_allocated s" "pages t p \<noteq> None"
    by (rule change_bits_ok [where f = f and offset = offset and len = len, OF C singletonI b ok])
  obtain u where u: "unhand_page t p = Inr u" "handed_back t {p} p u"
    by (rule unhand_page_ok [OF t(2) singletonI t(8)])
  have "pages t q = None \<longleftrightarrow> pages s q = None" for q
    using b(1) unfolding bitmaps_None [symmetric] by (simp add: t(4))
  then have "direct_pages t = direct_pages s" by (simp add: direct_pages_def t(5))
  moreover have "used t = {(q, i) \<in> used s. q \<noteq> p} \<union>
      {p} \<times> {i. unat (bm_page_header_size_in_units s) \<le> i \<and> bit_at bm' i}"
    using t(3) by (auto simp: used_def t(4) same_params_def split: if_splits)
  ultimately show thesis
    using that [OF t(1) u(1)] handed_back_alone [OF u(2)] t by (simp add: same_params_def)
qed

lemma used_page:
  "bitmaps s p = Some bm \<Longrightarrow>
   used s = {(q, i) \<in> used s. q \<noteq> p} \<union> {p} \<times> {i. unat (bm_page_header_size_in_units s) \<le> i \<and> bit_at bm i}"
  by (auto simp: used_def)

lemma change_set_bits:
  assumes C: "pet_core s P {p}" and b: "bitmaps s p = Some bm"
    and range: "unat (bm_page_header_size_in_units s) \<le> unat offset"
      "unat offset + unat len \<le> unat (units_per_page s)"
  obtains t u where "change_bits set_bits s p offset len = Inr t" and "unhand_page t p = Inr u"
    and "pet_inv u" and "same_params s u" and "direct_pages u = direct_pages s" and "mem u = mem s"
    and "blocks_allocated u = blocks_allocated s"
    and "used u = used s \<union> block_units p (unat offset) (unat len)" and "bitmaps u p \<noteq> None"
proof -
  have ok: "page_ok (units_per_page s) (bm_page_header_size_in_units s) bm"
    using pet_coreD(3) [OF C] b by (simp add: pages_ok_def)
  from bm.mark_law [OF ok range(2)] obtain bm' where bm': "set_bits bm offset len = Some bm'"
    "page_ok (units_per_page s) (bm_page_header_size_in_units s) bm'"
    "\<forall>i. bit_at bm' i \<longleftrightarrow> bit_at bm i \<or> (unat offset \<le> i \<and> i < unat offset + unat len)" by blast
  show thesis
  proof (rule change_unhand [where f = set_bits and offset = offset and len = len, OF C b bm'(1,2)], rule that)
    fix t u
    assume u: "used u = {(q, i) \<in> used s. q \<noteq> p} \<union>
       {p} \<times> {i. unat (bm_page_header_size_in_units s) \<le> i \<and> bit_at bm' i}"
    show "used u = used s \<union> block_units p (unat offset) (unat len)"
      using used_page [OF b] range(1) bm'(3) unfolding u block_units_def by auto
  qed simp_all
qed

lemma change_clear_bits:
  assumes C: "pet_core s P {p}" and b: "bitmaps s p = Some bm"
    and range: "unat (bm_page_header_size_in_units s) \<le> unat offset"
      "unat offset + unat len \<le> unat (units_per_page s)"
  obtains t u where "change_bits clear_bits s p offset len = Inr t" and "unhand_page t p = Inr u"
    and "pet_inv u" and "same_params s u" and "direct_pages u = direct_pages s" and "mem u = mem s"
    and "blocks_allocated u = blocks_allocated s"
    and "used u = used s - block_units p (unat offset) (unat len)" and "bitmaps u p \<noteq> None"
proof -
  have ok: "page_ok (units_per_page s) (bm_page_header_size_in_units s) bm"
    using pet_coreD(3) [OF C] b by (simp add: pages_ok_def)
  from bm.unmark_law [OF ok range] obtain bm' where bm': "clear_bits bm offset len = Some bm'"
    "page_ok (units_per_page s) (bm_page_header_size_in_units s) bm'"
    "\<forall>i. bit_at bm' i \<longleftrightarrow> bit_at bm i \<and> \<not> (unat offset \<le> i \<and> i < unat offset + unat len)" by blast
  show thesis
  proof (rule change_unhand [where f = clear_bits and offset = offset and len = len, OF C b bm'(1,2)], rule that)
    fix t u
    assume u: "used u = {(q, i) \<in> used s. q \<noteq> p} \<union>
       {p} \<times> {i. unat (bm_page_header_size_in_units s) \<le> i \<and> bit_at bm' i}"
    show "used u = used s - block_units p (unat offset) (unat len)"
      using used_page [OF b] bm'(3) unfolding u block_units_def by auto
  qed simp_all
qed

subsection \<open>Finding a page with room\<close>

text \<open>
  A page taken in hand for \<open>n\<close> units, with the first offset where they fit. The offset is past the
  page header, the units are inside the page, and none of them is in use.
\<close>

definition offers_in :: "u64 set \<Rightarrow> pet \<Rightarrow> u32 \<Rightarrow> pet \<Rightarrow> u64 \<Rightarrow> u32 \<Rightarrow> bool" where
  "offers_in A s n t p offset \<longleftrightarrow>
     same_but_lists s t \<and> p \<notin> A \<and> (\<exists>P. pet_core t P (insert p A)) \<and> pages t p \<noteq> None \<and>
     unat (bm_page_header_size_in_units s) \<le> unat offset \<and>
     (\<exists>bm. bitmaps s p = Some bm \<and> free_from bm (unat (units_per_page s)) (unat offset) (unat n))"

abbreviation offers :: "pet \<Rightarrow> u32 \<Rightarrow> pet \<Rightarrow> u64 \<Rightarrow> u32 \<Rightarrow> bool" where
  "offers \<equiv> offers_in {}"

lemmas offers_def = offers_in_def [of "{}"]

lemma take_page_with_room:
  assumes C: "pet_core s P A" and l: "lst s p = Some l" and n: "0 < unat n"
    and room: "bitmaps s p = Some bm"
      "has_block bm (unat (bm_page_header_size_in_units s)) (unat (units_per_page s)) (unat n)"
  obtains t offset where "delete_from_list s p = Inr t" and "page_free_block t p n = Inr offset"
    and "offset \<noteq> 0" and "offers_in A s n t p offset"
proof -
  obtain t P' where t: "delete_from_list s p = Inr t" "same_but_lists s t" "pet_core t P' (insert p A)"
    by (rule delete_core [OF C l])
  have par: "units_per_page t = units_per_page s" "bm_page_header_size_in_units t = bm_page_header_size_in_units s"
    "bitmaps t = bitmaps s" using t(2) by (simp_all add: same_but_lists_def)
  have pp: "pages t p \<noteq> None" using room(1) par(3) by (metis bitmaps_dom option.distinct(1))
  obtain bm' r where r: "bitmaps t p = Some bm'" "page_free_block t p n = Inr r"
    "r = 0 \<longleftrightarrow> \<not> has_block bm' (unat (bm_page_header_size_in_units t)) (unat (units_per_page t)) (unat n)"
    "r \<noteq> 0 \<Longrightarrow> unat (bm_page_header_size_in_units t) \<le> unat r \<and>
       free_from bm' (unat (units_per_page t)) (unat r) (unat n)"
    using page_free_block_ok [OF pet_coreD(3) [OF t(3)] pp n] by blast
  have "p \<notin> A" using pet_coreD(5) [OF C, of p] l lst_pages [of s p] by auto
  moreover have "bm' = bm" using r(1) room(1) par(3) by simp
  moreover from this have "r \<noteq> 0" using r(3) room(2) par by simp
  ultimately show thesis using that [OF t(1) r(2)] r(4) t pp room(1) par by (auto simp: offers_in_def)
qed

text \<open>
  The search in the superblock. The list of index \<open>i\<close> holds pages whose longest free block is exactly
  \<open>i\<close>, so the first page found has room and the program error in the code is not reached.
\<close>

lemma search_superblock_ok:
  assumes "pet_core s P A" and "0 < unat n" and "n \<le> lfb" and "idx = unat lfb"
  shows "(search_superblock s n idx lfb = Inr (s, None) \<and>
      (\<forall>i. unat lfb \<le> unat i \<and> i \<le> max_data_units s \<longrightarrow> head s (SB i) = 0)) \<or>
    (\<exists>t p offset. search_superblock s n idx lfb = Inr (t, Some (p, offset)) \<and> offers_in A s n t p offset)"
  using assms
proof (induction s n idx lfb rule: search_superblock.induct)
  case (1 s n idx lfb)
  note D = pet_coreD [OF "1.prems"(1)]
  note G = geometry_bounds [OF D(1)]
  show ?case
  proof (cases "lfb \<le> max_data_units s")
    case False
    then have "\<forall>i. unat lfb \<le> unat i \<and> i \<le> max_data_units s \<longrightarrow> head s (SB i) = 0"
      by (auto simp: word_le_nat_alt)
    then show ?thesis using False by (simp add: search_superblock.simps [of s n idx lfb])
  next
    case True
    then have len: "idx < length (superblock s)" "unat lfb < 2 ^ 31"
      using "1.prems"(4) D(6) G by (simp_all add: word_le_nat_alt)
    show ?thesis
    proof (cases "superblock s ! idx = 0")
      case z: True
      have l1: "unat (lfb + 1) = Suc (unat lfb)" using len(2) by (subst unat_add_exact) simp_all
      then have "n \<le> lfb + 1" using "1.prems"(3) by (simp add: word_le_nat_alt)
      from "1.IH" [OF True len(1) refl _ "1.prems"(1,2) this] z l1 "1.prems"(4)
      have IH: "(search_superblock s n (Suc idx) (lfb + 1) = Inr (s, None) \<and>
          (\<forall>i. unat (lfb + 1) \<le> unat i \<and> i \<le> max_data_units s \<longrightarrow> head s (SB i) = 0)) \<or>
        (\<exists>t p offset. search_superblock s n (Suc idx) (lfb + 1) = Inr (t, Some (p, offset)) \<and>
           offers_in A s n t p offset)" by simp
      have eq: "search_superblock s n idx lfb = search_superblock s n (Suc idx) (lfb + 1)"
        using True len(1) z by (simp add: search_superblock.simps [of s n idx lfb])
      have "head s (SB i) = 0" if "unat i = unat lfb" for i
        using z "1.prems"(4) that by simp
      then show ?thesis using IH unfolding eq l1 by (metis Suc_leI le_neq_implies_less)
    next
      case False
      let ?p = "superblock s ! idx"
      have h: "head s (SB lfb) = ?p" using "1.prems"(4) len(1) by simp
      have l: "lst s ?p = Some (SB lfb)" using ringsD(12) [OF D(2), of "SB lfb"] h False by simp
      then have "pages s ?p \<noteq> None" using lst_pages [of s ?p] by simp
      then obtain bm r where bm: "bitmaps s ?p = Some bm" "longest s bm = Some r"
        "\<And>n. has_block bm (unat (bm_page_header_size_in_units s)) (unat (units_per_page s)) n \<longleftrightarrow> n \<le> unat r"
        using page_longest_free_block_ok [OF D(1,3)] by metis
      have "r = lfb" using D(4) l bm(1,2) by (auto simp: labels_ok_def)
      then have "has_block bm (unat (bm_page_header_size_in_units s)) (unat (units_per_page s)) (unat n)"
        using bm(3) "1.prems"(3) by (simp add: word_le_nat_alt)
      from take_page_with_room [OF "1.prems"(1) l "1.prems"(2) bm(1) this] obtain t offset where
        "delete_from_list s ?p = Inr t" "page_free_block t ?p n = Inr offset" "offset \<noteq> 0"
        "offers_in A s n t ?p offset" .
      then show ?thesis using True len(1) False
        by (simp add: search_superblock.simps [of s n idx lfb])
    qed
  qed
qed

text \<open>
  The whole search, the LRU slot first. Either a page is in hand with room for the units, or the page
  at the head of every list is too full for them; then at most the page of the LRU slot has moved to
  the superblock. (A page can be in no list any more: see \<open>delete_from_list\<close> on a list of two.)
\<close>

definition no_room :: "pet \<Rightarrow> u32 \<Rightarrow> bool" where
  "no_room s n \<longleftrightarrow>
     (\<forall>l bm. head s l \<noteq> 0 \<longrightarrow> bitmaps s (head s l) = Some bm \<longrightarrow>
        \<not> has_block bm (unat (bm_page_header_size_in_units s)) (unat (units_per_page s)) (unat n))"

lemma offers_trans:
  assumes "same_but_lists s s'" and "offers_in A s' n t p offset"
  shows "offers_in A s n t p offset"
  using assms same_but_lists_trans [OF assms(1)] by (auto simp: offers_in_def same_but_lists_def)

lemma search_none_no_room:
  assumes C: "pet_core s P A" and "lru_page s = 0"
    and none: "\<forall>i. unat n \<le> unat i \<and> i \<le> max_data_units s \<longrightarrow> head s (SB i) = 0"
  shows "no_room s n"
  unfolding no_room_def
proof (intro allI impI notI)
  fix l bm
  assume h: "head s l \<noteq> 0" and b: "bitmaps s (head s l) = Some bm"
    and room: "has_block bm (unat (bm_page_header_size_in_units s)) (unat (units_per_page s)) (unat n)"
  note D = pet_coreD [OF C]
  have l: "lst s (head s l) = Some l" by (rule ringsD(12) [OF D(2) h])
  have pp: "pages s (head s l) \<noteq> None" using lst_pages [of s "head s l"] l by simp
  obtain r where r: "longest s bm = Some r" "unat n \<le> unat r"
    using page_longest_free_block_ok [OF D(1,3) pp] b room by (metis option.inject)
  show False
  proof (cases l)
    case LRU
    then show False using h assms(2) by simp
  next
    case (SB i)
    then have "i = r" "i < max_data_units s" using D(4) l b r(1) by (auto simp: labels_ok_def)
    then show False using none h SB r(2) by auto
  qed
qed

lemma find_available_page_ok:
  assumes "pet_inv s" and n: "0 < unat n" "n \<le> max_data_units s"
  shows "(\<exists>t. find_available_page s n = Inr (t, None) \<and> same_but_lists s t \<and> pet_inv t \<and> no_room t n) \<or>
    (\<exists>t p offset. find_available_page s n = Inr (t, Some (p, offset)) \<and> offers s n t p offset)"
proof -
  obtain P where C: "pet_core s P {}" using assms(1) by (auto simp: pet_inv_def)
  note D = pet_coreD [OF C]
  show ?thesis
  proof (cases "lru_page s = 0")
    case True
    then have eq: "find_available_page s n = search_superblock s n (unat n) n"
      by (simp add: find_available_page_def)
    show ?thesis
      using search_superblock_ok [OF C n(1) order_refl refl] search_none_no_room [OF C True] assms(1)
      unfolding eq by auto
  next
    case False
    let ?p = "lru_page s"
    have l: "lst s ?p = Some LRU" using ringsD(12) [OF D(2), of LRU] False by simp
    have pp: "pages s ?p \<noteq> None" using lst_pages [of s ?p] l by simp
    show ?thesis
    proof (cases "\<exists>bm. bitmaps s ?p = Some bm \<and>
        has_block bm (unat (bm_page_header_size_in_units s)) (unat (units_per_page s)) (unat n)")
      case True
      then obtain t offset where "delete_from_list s ?p = Inr t" "page_free_block t ?p n = Inr offset"
        "offset \<noteq> 0" "offers s n t ?p offset"
        using take_page_with_room [OF C l n(1)] by blast
      then show ?thesis using False by (auto simp: find_available_page_def Let_def)
    next
      case F: False
      obtain t1 P1 where t1: "delete_from_list s ?p = Inr t1" "same_but_lists s t1" "pet_core t1 P1 {?p}"
        "lru_page t1 = 0"
        by (rule delete_core [OF C l]) blast
      have par: "units_per_page t1 = units_per_page s" "max_data_units t1 = max_data_units s"
        "bm_page_header_size_in_units t1 = bm_page_header_size_in_units s" "bitmaps t1 = bitmaps s"
        using t1(2) by (simp_all add: same_but_lists_def)
      have p1: "pages t1 ?p \<noteq> None" using pp same_but_lists_pages [OF t1(2)] by simp
      note D1 = pet_coreD [OF t1(3)]
      obtain bm where bm: "bitmaps t1 ?p = Some bm" "page_free_block t1 ?p n = Inr 0"
        using page_free_block_ok [OF D1(3) p1 n(1)] F par by metis
      obtain r where r: "page_longest_free_block t1 ?p = Inr r" "longest t1 bm = Some r"
        "\<And>n. has_block bm (unat (bm_page_header_size_in_units s)) (unat (units_per_page s)) n \<longleftrightarrow> n \<le> unat r"
        using page_longest_free_block_ok [OF D1(1,3) p1] bm(1) par by (metis option.inject)
      have "unat r < unat n" using F bm(1) r(3) [of "unat n"] par(4) by auto
      then have "r < max_data_units t1" using n(2) by (simp add: par word_less_nat_alt word_le_nat_alt)
      then obtain t2 P2 where t2: "add_to_list t1 (SB r) ?p = Inr t2" "same_but_lists t1 t2"
        "pet_core t2 P2 {}" "lru_page t2 = lru_page t1"
        using add_core [OF t1(3) _ bm(1) r(2)] by (metis Diff_cancel singletonI)
      have st: "same_but_lists s t2" by (rule same_but_lists_trans [OF t1(2) t2(2)])
      have eq: "find_available_page s n = search_superblock t2 n (unat n) n"
        using False by (simp add: find_available_page_def Let_def t1(1) bm(2) r(1) add_to_superblock_entry_def t2(1))
      have l2: "lru_page t2 = 0" using t2(4) t1(4) by simp
      show ?thesis
        using search_superblock_ok [OF t2(3) n(1) order_refl refl] search_none_no_room [OF t2(3) l2]
          offers_trans [OF st] st t2(3)
        unfolding eq pet_inv_def by blast
    qed
  qed
qed

subsection \<open>Release, shrink and grow\<close>

lemma counters_views [simp]:
  "used (s\<lparr>blocks_allocated := x\<rparr>) = used s" "used (s\<lparr>num_bm_pages := x\<rparr>) = used s"
  "used (s\<lparr>mem := m\<rparr>) = used s"
  "direct_pages (s\<lparr>blocks_allocated := x\<rparr>) = direct_pages s"
  "direct_pages (s\<lparr>num_bm_pages := x\<rparr>) = direct_pages s" "direct_pages (s\<lparr>mem := m\<rparr>) = direct_pages s"
  by (simp_all add: used_def direct_pages_def view_defs)

lemma same_params_counters [simp]:
  "same_params s (t\<lparr>blocks_allocated := x\<rparr>) = same_params s t"
  "same_params s (t\<lparr>num_bm_pages := x\<rparr>) = same_params s t" "same_params s (t\<lparr>mem := m\<rparr>) = same_params s t"
  by (simp_all add: same_params_def)

lemma same_params_refl: "same_params s s"
  by (simp add: same_params_def)

lemma pet_inv_cong:
  assumes "pet_inv s" and "same_params s t" and "pages t = pages s" and "lru_page t = lru_page s"
    and "superblock t = superblock s" and "mapped t = mapped s"
  shows "pet_inv t"
proof -
  have "head t = head s"
    by (rule ext, rename_tac l, case_tac l) (simp_all add: assms)
  moreover have "nxt t = nxt s" "prv t = prv s" "lst t = lst s" "bitmaps t = bitmaps s"
    by (simp_all add: view_defs assms(3) fun_eq_iff)
  ultimately show ?thesis
    using assms(1) pet_core_cong [OF _ assms(2) _ _ _ _ _ assms(6), of _ "{}"]
    unfolding pet_inv_def by blast
qed

lemma pet_inv_counters [simp]:
  "pet_inv s \<Longrightarrow> pet_inv (s\<lparr>blocks_allocated := x\<rparr>)" "pet_inv s \<Longrightarrow> pet_inv (s\<lparr>num_bm_pages := y\<rparr>)"
  "pet_inv s \<Longrightarrow> pet_inv (s\<lparr>mem := m\<rparr>)"
  by (erule pet_inv_cong; simp add: same_params_refl)+

text \<open>What an operation on a block changes: the invariant holds again and the units in use are \<open>U\<close>.\<close>

definition moves_to :: "pet \<Rightarrow> pet \<Rightarrow> (u64 \<times> nat) set \<Rightarrow> bool" where
  "moves_to s t U \<longleftrightarrow>
     pet_inv t \<and> same_params s t \<and> used t = U \<and> direct_pages t = direct_pages s \<and> mem t = mem s"

lemma moves_toI:
  assumes "same_but_lists s s1" and "pet_inv t" and "same_params s1 t" and "direct_pages t = direct_pages s1"
    and "mem t = mem s1" and "used t = U"
  shows "moves_to s t U"
  using assms same_params_trans [OF same_but_lists_params [OF assms(1)]] direct_pages_eq [of s1 s]
  by (simp add: moves_to_def same_but_lists_def)

lemma grab_clear_unhand:
  assumes "pet_inv s" and "pages s p \<noteq> None"
    and range: "unat (bm_page_header_size_in_units s) \<le> unat offset"
      "unat offset + unat len \<le> unat (units_per_page s)"
  obtains s1 s2 t where "grab_page s p = Inr s1" and "change_bits clear_bits s1 p offset len = Inr s2"
    and "unhand_page s2 p = Inr t" and "moves_to s t (used s - block_units p (unat offset) (unat len))"
    and "blocks_allocated t = blocks_allocated s" and "bitmaps t p \<noteq> None"
proof (rule grab_page_ok [OF assms(1,2)])
  fix s1 P assume s1: "grab_page s p = Inr s1" "same_but_lists s s1" "pet_core s1 P {p}" "pages s1 p \<noteq> None"
  obtain bm where bm: "bitmaps s1 p = Some bm" using s1(4) by (auto simp: bitmaps_def)
  have r: "unat (bm_page_header_size_in_units s1) \<le> unat offset"
    "unat offset + unat len \<le> unat (units_per_page s1)"
    using range s1(2) by (simp_all add: same_but_lists_def)
  show thesis
  proof (rule change_clear_bits [OF s1(3) bm r])
    fix s2 t
    assume s2: "change_bits clear_bits s1 p offset len = Inr s2" "unhand_page s2 p = Inr t" "pet_inv t"
      "same_params s1 t" "direct_pages t = direct_pages s1" "mem t = mem s1"
      "blocks_allocated t = blocks_allocated s1"
      "used t = used s1 - block_units p (unat offset) (unat len)" "bitmaps t p \<noteq> None"
    show thesis
      by (rule that [OF s1(1) s2(1,2) moves_toI [OF s1(2) s2(3-6)]])
        (use s1(2) s2(7-9) same_but_lists_inv(4) [OF s1(2)] in \<open>simp_all add: same_but_lists_def\<close>)
  qed
qed

lemma bm_release_ok:
  assumes "pet_inv s" and "pages s p \<noteq> None"
    and "unat (bm_page_header_size_in_units s) \<le> unat offset"
    and "unat offset + unat n \<le> unat (units_per_page s)"
  obtains t where "bm_release s p offset n = Inr t"
    and "moves_to s t (used s - block_units p (unat offset) (unat n))"
    and "blocks_allocated t = blocks_allocated s - 1"
proof (rule grab_clear_unhand [OF assms])
  fix s1 s2 t
  assume "grab_page s p = Inr s1" "change_bits clear_bits s1 p offset n = Inr s2"
    "unhand_page s2 p = Inr t" "moves_to s t (used s - block_units p (unat offset) (unat n))"
    "blocks_allocated t = blocks_allocated s"
  then show thesis
    by (intro that [of "t\<lparr>blocks_allocated := blocks_allocated t - 1\<rparr>"]) (simp_all add: bm_release_def moves_to_def)
qed

lemma bm_shrink_ok:
  assumes "pet_inv s" and "pages s p \<noteq> None"
    and "unat (bm_page_header_size_in_units s) \<le> unat offset"
    and "unat offset + unat old \<le> unat (units_per_page s)" and "unat new \<le> unat old"
  obtains t where "bm_shrink s p offset old new = Inr t"
    and "moves_to s t (used s - block_units p (unat offset + unat new) (unat old - unat new))"
    and "blocks_allocated t = blocks_allocated s"
proof -
  have tail: "unat (old - new) = unat old - unat new" using assms(5) by (rule unat_sub_exact)
  have o: "unat (offset + new) = unat offset + unat new"
    using assms(4,5) geometry_bounds(3) [OF pet_inv_geometry [OF assms(1)]] by (subst unat_add_exact) simp_all
  have r: "unat (bm_page_header_size_in_units s) \<le> unat (offset + new)"
    "unat (offset + new) + unat (old - new) \<le> unat (units_per_page s)"
    using assms(3-5) by (simp_all add: o tail)
  show thesis
  proof (rule grab_clear_unhand [OF assms(1,2) r])
    fix s1 s2 t
    assume "grab_page s p = Inr s1" "change_bits clear_bits s1 p (offset + new) (old - new) = Inr s2"
      "unhand_page s2 p = Inr t"
      "moves_to s t (used s - block_units p (unat (offset + new)) (unat (old - new)))"
      "blocks_allocated t = blocks_allocated s"
    then show thesis by (intro that [of t]) (simp_all add: bm_shrink_def o tail)
  qed
qed

text \<open>
  A block grows in place exactly when the units behind it are in the page and free; otherwise nothing
  changes but the place of its page in the lists.
\<close>

definition can_grow :: "pet \<Rightarrow> u64 \<Rightarrow> nat \<Rightarrow> nat \<Rightarrow> bool" where
  "can_grow s p first n \<longleftrightarrow>
     first + n \<le> unat (units_per_page s) \<and> used s \<inter> block_units p first n = {}"

lemma used_iff:
  "bitmaps s p = Some bm \<Longrightarrow>
   (p, i) \<in> used s \<longleftrightarrow> unat (bm_page_header_size_in_units s) \<le> i \<and> bit_at bm i"
  by (simp add: used_def)

lemma disjoint_block_iff: "U \<inter> block_units p first n = {} \<longleftrightarrow> (\<forall>i. first \<le> i \<and> i < first + n \<longrightarrow> (p, i) \<notin> U)"
  by (auto simp: block_units_def)

lemma can_grow_run:
  assumes "bitmaps s p = Some bm" and "unat (bm_page_header_size_in_units s) \<le> first"
  shows "can_grow s p first n \<longleftrightarrow> first + n \<le> unat (units_per_page s) \<and> zero_run bm first n"
  using assms(2) unfolding can_grow_def disjoint_block_iff used_iff [OF assms(1)] zero_run_def by fastforce

lemma count_can_grow:
  assumes b: "bitmaps s p = Some bm" "page_bitmap (units_per_page s) bm"
    and "unat (bm_page_header_size_in_units s) \<le> unat offset"
    and "unat offset + unat old \<le> unat (units_per_page s)" and "unat old \<le> unat new"
    and u: "unat (units_per_page s) < 2 ^ 31"
  obtains c where "count_zero_bits (units_per_page s) bm (offset + old) (new - old) = Some c"
    and "c < new - old \<longleftrightarrow> \<not> can_grow s p (unat offset + unat old) (unat new - unat old)"
proof -
  let ?first = "unat offset + unat old" and ?n = "unat new - unat old"
  have inc: "unat (new - old) = ?n" using assms(5) by (rule unat_sub_exact)
  have o: "unat (offset + old) = ?first" using assms(4) u by (subst unat_add_exact) simp_all
  have h: "unat (bm_page_header_size_in_units s) \<le> ?first" using assms(3) by simp
  obtain c where c: "count_zero_bits (units_per_page s) bm (offset + old) (new - old) = Some c"
    "?first + unat c \<le> unat (units_per_page s)" "zero_run bm ?first (unat c)"
    "unat c < ?n \<Longrightarrow> ?first + unat c = unat (units_per_page s) \<or> bit_at bm (?first + unat c)"
    using count_zero_bits_spec [OF b(2), of "offset + old" "new - old"] assms(4) unfolding o inc by metis
  have g: "can_grow s p ?first ?n \<longleftrightarrow> ?first + ?n \<le> unat (units_per_page s) \<and> zero_run bm ?first ?n"
    using can_grow_run [OF b(1) h] .
  have "can_grow s p ?first ?n \<longleftrightarrow> ?n \<le> unat c"
  proof
    assume "?n \<le> unat c"
    then show "can_grow s p ?first ?n" using c(2) zero_run_le [OF c(3)] unfolding g by simp
  next
    assume "can_grow s p ?first ?n"
    then have "?first + ?n \<le> unat (units_per_page s)" "zero_run bm ?first ?n" by (simp_all only: g)
    then show "?n \<le> unat c" using c(4) by (cases "unat c < ?n") (auto simp: zero_run_def)
  qed
  then show thesis by (intro that [OF c(1)]) (simp add: word_less_nat_alt inc not_le)
qed

lemma bm_grow_ok:
  assumes "pet_inv s" and "pages s p \<noteq> None"
    and "unat (bm_page_header_size_in_units s) \<le> unat offset"
    and "unat offset + unat old \<le> unat (units_per_page s)" and "unat old \<le> unat new"
  obtains t where "bm_grow s p offset old new = Inr (t, can_grow s p (unat offset + unat old) (unat new - unat old))"
    and "moves_to s t (used s \<union> (if can_grow s p (unat offset + unat old) (unat new - unat old)
                                then block_units p (unat offset + unat old) (unat new - unat old) else {}))"
    and "blocks_allocated t = blocks_allocated s"
proof (rule grab_page_ok [OF assms(1,2)])
  fix s1 P assume s1: "grab_page s p = Inr s1" "same_but_lists s s1" "pet_core s1 P {p}" "pages s1 p \<noteq> None"
  let ?first = "unat offset + unat old" and ?n = "unat new - unat old"
  have par: "units_per_page s1 = units_per_page s" "blocks_allocated s1 = blocks_allocated s"
    "bm_page_header_size_in_units s1 = bm_page_header_size_in_units s" "bitmaps s1 = bitmaps s"
    using s1(2) by (simp_all add: same_but_lists_def)
  obtain pg where pg: "pages s1 p = Some pg" using s1(4) by blast
  then have bm: "bitmaps s1 p = Some (bp_bitmap pg)" by (simp add: bitmaps_def)
  have inc: "unat (new - old) = ?n" using assms(5) by (rule unat_sub_exact)
  have o: "unat (offset + old) = ?first"
    using assms(4) geometry_bounds(3) [OF pet_inv_geometry [OF assms(1)]] by (subst unat_add_exact) simp_all
  have ok: "page_bitmap (units_per_page s) (bp_bitmap pg)"
    using pet_coreD(3) [OF s1(3)] bm par by (auto simp: pages_ok_def page_ok_def)
  obtain c where c: "count_zero_bits (units_per_page s) (bp_bitmap pg) (offset + old) (new - old) = Some c"
    and count: "c < new - old \<longleftrightarrow> \<not> can_grow s p ?first ?n"
    by (rule count_can_grow [OF _ ok assms(3-5) geometry_bounds(3) [OF pet_inv_geometry [OF assms(1)]], of p])
      (use bm par(4) in simp_all)
  show thesis
  proof (cases "can_grow s p ?first ?n")
    case False
    obtain t where t: "unhand_page s1 p = Inr t" "handed_back s1 {p} p t"
      by (rule unhand_page_ok [OF s1(3) singletonI s1(4)])
    note t = t(1) handed_back_alone [OF t(2)]
    have m: "moves_to s t (used s)"
      using t same_but_lists_inv(4) [OF s1(2)] by (intro moves_toI [OF s1(2)]) simp_all
    show thesis
      by (rule that [of t]) (use m t False in
        \<open>simp_all add: bm_grow_def s1(1) read_page_def pg par c count\<close>)
  next
    case True
    have r: "unat (bm_page_header_size_in_units s1) \<le> unat (offset + old)"
      "unat (offset + old) + unat (new - old) \<le> unat (units_per_page s1)"
      using True assms(3) unfolding o inc par by (simp_all add: can_grow_def)
    show thesis
    proof (rule change_set_bits [OF s1(3) bm r])
      fix s2 t
      assume s2: "change_bits set_bits s1 p (offset + old) (new - old) = Inr s2" "unhand_page s2 p = Inr t"
        "pet_inv t" "same_params s1 t" "direct_pages t = direct_pages s1" "mem t = mem s1"
        "blocks_allocated t = blocks_allocated s1"
        "used t = used s1 \<union> block_units p (unat (offset + old)) (unat (new - old))"
      have m: "moves_to s t (used s \<union> block_units p ?first ?n)"
        using s2(8) same_but_lists_inv(4) [OF s1(2)] unfolding o inc
        by (intro moves_toI [OF s1(2) s2(3-6)]) simp
      show thesis
        by (rule that [of t]) (use m s2 True in
          \<open>simp_all add: bm_grow_def s1(1) read_page_def pg par c count\<close>)
    qed
  qed
qed

subsection \<open>Addresses of blocks\<close>

lemma bm_page_by_addr_eq:
  assumes "geometry s"
  shows "unat (bm_page_by_addr s addr) = unat addr div unat (sys_page_size s) * unat (sys_page_size s)"
proof -
  obtain k where k: "k \<le> 31" "unat (sys_page_size s) = 2 ^ k"
    using assms unfolding geometry_def by blast
  have "ucast (sys_page_size s) - 1 = (mask k :: u64)"
    by (rule pow2_minus_1_eq_mask) (use k in simp_all)
  then show ?thesis by (simp add: bm_page_by_addr_def unat_and_not_mask k(2))
qed

text \<open>The block that starts at a unit of a page: its address leads back to the page and to the unit.\<close>

definition unit_addr :: "u64 \<Rightarrow> u32 \<Rightarrow> u64" where
  "unit_addr p offset = p + ucast (offset * 16)"

lemma unit_addr_facts:
  assumes g: "geometry s" and p: "page_at s p" and o: "unat offset < unat (units_per_page s)"
  shows "unat (unit_addr p offset) = unat p + 16 * unat offset"
    and "bm_page_by_addr s (unit_addr p offset) = p"
    and "ptrdiff_to_units (unit_addr p offset) p = offset"
    and "0 < unat offset \<Longrightarrow> unit_addr p offset \<noteq> 0" and "0 < unat offset \<Longrightarrow> unit_addr p offset \<noteq> p"
proof -
  note G = geometry_bounds [OF g]
  have o16: "unat (offset * 16) = 16 * unat offset"
    using o G(2) unat_u32_bound [of "sys_page_size s"] by (subst unat_mult_exact) simp_all
  have lt: "16 * unat offset < unat (sys_page_size s)" using o G(2) by simp
  obtain q where q: "unat p = unat (sys_page_size s) * q" and
    b: "unat p + unat (sys_page_size s) \<le> 2 ^ 64"
    using p by (auto simp: page_at_def)
  show a: "unat (unit_addr p offset) = unat p + 16 * unat offset"
    using b lt unfolding unit_addr_def by (subst unat_add_exact) (simp_all add: o16)
  have "(unat p + 16 * unat offset) div unat (sys_page_size s) = q"
    unfolding q using lt by (intro div_nat_eqI) simp_all
  then have "unat (bm_page_by_addr s (unit_addr p offset)) = unat p"
    by (simp add: bm_page_by_addr_eq [OF g] a q)
  then show "bm_page_by_addr s (unit_addr p offset) = p" by (simp add: unat_eq_iff)
  have "unat (unit_addr p offset - p) = 16 * unat offset"
    by (subst unat_sub_exact) (simp_all add: a)
  then have "unat ((unit_addr p offset - p) div 16) = unat offset" by (simp add: unat_div)
  then have "(unit_addr p offset - p) div 16 = ucast offset" by (simp add: unat_eq_iff)
  then show "ptrdiff_to_units (unit_addr p offset) p = offset"
    using unat_u32_bound [of offset] by (simp add: ptrdiff_to_units_def unat_eq_iff unsigned_ucast_eq take_bit_nat_eq_self)
  show "unit_addr p offset \<noteq> 0" "unit_addr p offset \<noteq> p" if "0 < unat offset"
    using a that by (auto simp: unat_eq_iff)
qed

subsection \<open>Allocation\<close>

lemma take_found:
  assumes "offers s n s1 p offset"
  obtains s2 t where "change_bits set_bits s1 p offset n = Inr s2" and "unhand_page s2 p = Inr t"
    and "moves_to s t (used s \<union> block_units p (unat offset) (unat n))"
    and "blocks_allocated t = blocks_allocated s" and "bitmaps t p \<noteq> None" and "page_at s p"
    and "unat (bm_page_header_size_in_units s) \<le> unat offset"
    and "can_grow s p (unat offset) (unat n)"
proof -
  obtain P bm where o: "same_but_lists s s1" "pet_core s1 P {p}"
    "unat (bm_page_header_size_in_units s) \<le> unat offset" "bitmaps s p = Some bm"
    "free_from bm (unat (units_per_page s)) (unat offset) (unat n)"
    using assms by (auto simp: offers_def)
  have par: "units_per_page s1 = units_per_page s" "blocks_allocated s1 = blocks_allocated s"
    "bm_page_header_size_in_units s1 = bm_page_header_size_in_units s" "bitmaps s1 = bitmaps s"
    using o(1) by (simp_all add: same_but_lists_def)
  have cg: "can_grow s p (unat offset) (unat n)"
    using o(5) by (simp add: can_grow_run [OF o(4,3)] free_from_def)
  have bm: "bitmaps s1 p = Some bm" using o(4) by (simp add: par)
  have at: "page_at s p"
    using pet_coreD(3) [OF o(2)] bm same_but_lists_inv(5) [OF o(1)] by (auto simp: pages_ok_def)
  have r: "unat (bm_page_header_size_in_units s1) \<le> unat offset"
    "unat offset + unat n \<le> unat (units_per_page s1)"
    using o(3) cg by (simp_all add: par can_grow_def)
  show thesis
  proof (rule change_set_bits [OF o(2) bm r])
    fix s2 t
    assume s2: "change_bits set_bits s1 p offset n = Inr s2" "unhand_page s2 p = Inr t" "pet_inv t"
      "same_params s1 t" "direct_pages t = direct_pages s1" "mem t = mem s1"
      "blocks_allocated t = blocks_allocated s1"
      "used t = used s1 \<union> block_units p (unat offset) (unat n)" "bitmaps t p \<noteq> None"
    have "moves_to s t (used s \<union> block_units p (unat offset) (unat n))"
      using s2(8) same_but_lists_inv(4) [OF o(1)] by (intro moves_toI [OF o(1) s2(3-6)]) simp
    then show thesis using that [OF s2(1,2)] s2(7,9) at o(3) cg by (simp add: par)
  qed
qed

text \<open>A page that was just mapped: its bitmap is zero, the header and the block are then marked.\<close>

lemma new_page_core:
  assumes C: "pet_core s P A" and A: "p \<notin> A" and p: "pages s p = None" "p \<noteq> 0" "page_at t p"
    and bm: "page_ok (units_per_page s) (bm_page_header_size_in_units s) bm"
    and t: "t = s\<lparr>mapped := insert p (mapped s),
                 pages := (pages s)(p \<mapsto> \<lparr>bp_list = None, bp_next = 0, bp_prev = 0, bp_bitmap = bm\<rparr>)\<rparr>"
  shows "pet_core t P (insert p A)" and "same_params s t"
    and "used t = used s \<union> {p} \<times> {i. unat (bm_page_header_size_in_units s) \<le> i \<and> bit_at bm i}"
proof -
  note D = pet_coreD [OF C]
  show par: "same_params s t" by (simp add: t same_params_def)
  have mp: "mapped t = insert p (mapped s)" "sys_page_size t = sys_page_size s"
    "units_per_page t = units_per_page s" "bm_page_header_size_in_units t = bm_page_header_size_in_units s"
    by (simp_all add: t)
  have v: "nxt t = nxt s" "prv t = prv s" "lst t = lst s" "bitmaps t = (bitmaps s)(p := Some bm)"
    using p(1) by (auto simp: t view_defs fun_eq_iff)
  have "head t = head s" by (rule ext, rename_tac l, case_tac l) (simp_all add: t)
  then have "rings t P" using ringsD(1) [OF D(2)] p(2) by (intro rings_cong [OF D(2) _ v(1-3)]) (simp_all add: t)
  moreover have "pages_ok t"
    using D(3) bm p(3) mp by (auto simp: pages_ok_def v(4) page_at_def split: if_splits)
  moreover have lp: "lst s p = None" using p(1) by (simp add: lst_def)
  then have "labels_ok t"
    using D(4) par unfolding labels_ok_def same_params_eqs(2) [OF par]
    by (auto simp: v same_params_def split: if_splits)
  moreover have "pages t q \<noteq> None \<Longrightarrow> lst t q = None \<longleftrightarrow> q \<in> insert p A" for q
    using D(5) [of q] lp by (cases "q = p") (simp_all add: v, simp add: t)
  ultimately show "pet_core t P (insert p A)"
    using D(1,6) par by (simp add: pet_core_def same_params_eqs(1) [OF par] same_params_def)
  have "bitmaps s p = None" using p(1) by (simp add: bitmaps_def)
  then show "used t = used s \<union> {p} \<times> {i. unat (bm_page_header_size_in_units s) \<le> i \<and> bit_at bm i}"
    using par by (auto simp: used_def v(4) same_params_def split: if_splits)
qed

lemma bit_at_replicate_0 [simp]: "\<not> bit_at (replicate m 0) i"
  by (simp add: bit_at_def)

lemma new_page_bitmap:
  assumes g: "geometry s" and n: "unat n \<le> unat (max_data_units s)"
  obtains bm where
    "set_bits (replicate (unat (units_per_page s div WORD_WIDTH)) 0) 0 (bm_page_header_size_in_units s + n) = Some bm"
    and "page_ok (units_per_page s) (bm_page_header_size_in_units s) bm"
    and "\<And>i. bit_at bm i \<longleftrightarrow> i < unat (bm_page_header_size_in_units s) + unat n"
proof -
  note G = geometry_bounds [OF g]
  let ?z = "replicate (unat (units_per_page s div WORD_WIDTH)) 0 :: u64 list"
  have len: "64 * length ?z = unat (units_per_page s)" using G(1) by simp
  have hn: "unat (bm_page_header_size_in_units s + n) = unat (bm_page_header_size_in_units s) + unat n"
    using n G(3,5,6) by (subst unat_add_exact) simp_all
  have le: "unat (0::u32) + unat (bm_page_header_size_in_units s + n) \<le> 64 * length ?z"
    unfolding len hn using n G(5,6) by simp
  show thesis
  proof (rule set_bits_spec [OF le])
    fix bm assume "set_bits ?z 0 (bm_page_header_size_in_units s + n) = Some bm" "length bm = length ?z"
      "\<And>i. bit_at bm i \<longleftrightarrow> bit_at ?z i \<or> (unat (0::u32) \<le> i \<and>
         i < unat (0::u32) + unat (bm_page_header_size_in_units s + n))"
    then show thesis using that [of bm] G(3-5) len by (simp add: page_ok_def page_bitmap_def hn)
  qed
qed

lemma map_new_page:
  assumes C: "pet_core s P {}" and p: "p \<notin> mapped s" "p \<noteq> 0" "unat (sys_page_size s) dvd unat p"
      "unat p + unat (sys_page_size s) \<le> 2 ^ 64"
    and n: "unat n \<le> unat (max_data_units s)"
    and t: "t = s\<lparr>mapped := insert p (mapped s), pages := (pages s)(p \<mapsto>
                 \<lparr>bp_list = None, bp_next = 0, bp_prev = 0,
                  bp_bitmap = replicate (unat (units_per_page s div WORD_WIDTH)) 0\<rparr>)\<rparr>"
  obtains t1 u where "change_bits set_bits t p 0 (bm_page_header_size_in_units s + n) = Inr t1"
    and "unhand_page t1 p = Inr u"
    and "moves_to s u (used s \<union> block_units p (unat (bm_page_header_size_in_units s)) (unat n))"
    and "blocks_allocated u = blocks_allocated s" and "bitmaps u p \<noteq> None" and "bitmaps s p = None"
proof -
  note D = pet_coreD [OF C]
  have np: "pages s p = None"
    using D(3) p(1) by (cases "pages s p") (auto simp: pages_ok_def page_at_def bitmaps_def)
  obtain bm where bm:
    "set_bits (replicate (unat (units_per_page s div WORD_WIDTH)) 0) 0 (bm_page_header_size_in_units s + n) = Some bm"
    "page_ok (units_per_page s) (bm_page_header_size_in_units s) bm"
    "\<And>i. bit_at bm i \<longleftrightarrow> i < unat (bm_page_header_size_in_units s) + unat n"
    by (rule new_page_bitmap [OF D(1) n]) blast
  let ?t1 = "s\<lparr>mapped := insert p (mapped s),
               pages := (pages s)(p \<mapsto> \<lparr>bp_list = None, bp_next = 0, bp_prev = 0, bp_bitmap = bm\<rparr>)\<rparr>"
  have at: "page_at ?t1 p" using p by (simp add: page_at_def)
  have "p \<notin> {}" by simp
  note N = new_page_core [OF C this np p(2) at bm(2) refl]
  have pp: "pages ?t1 p \<noteq> None" by simp
  obtain u where u: "unhand_page ?t1 p = Inr u" "handed_back ?t1 {p} p u"
    by (rule unhand_page_ok [OF N(1) singletonI pp])
  have "change_bits set_bits t p 0 (bm_page_header_size_in_units s + n) = Inr ?t1"
    by (simp add: t change_bits_def read_page_def write_page_def bm(1) del: unat_div_WORD_WIDTH)
  moreover have "used ?t1 = used s \<union> block_units p (unat (bm_page_header_size_in_units s)) (unat n)"
    unfolding N(3) block_units_def by (auto simp: bm(3))
  moreover have "direct_pages ?t1 = direct_pages s" using p(1) by (auto simp: direct_pages_def)
  moreover have "bitmaps ?t1 p \<noteq> None" by (simp add: bitmaps_def)
  moreover have "bitmaps s p = None" using np by (simp add: bitmaps_def)
  ultimately show thesis
    using that [OF _ u(1)] handed_back_alone [OF u(2)] same_params_trans [OF N(2)] by (simp add: moves_to_def)
qed

text \<open>What a successful allocation delivers: units that were free, now in use, zeroed on request.\<close>

definition gets_block :: "pet \<Rightarrow> u32 \<Rightarrow> bool \<Rightarrow> pet \<Rightarrow> u64 \<Rightarrow> bool" where
  "gets_block s n clean t addr \<longleftrightarrow>
     (\<exists>p offset. addr = unit_addr p offset \<and> page_at t p \<and> bitmaps t p \<noteq> None \<and>
        unat (bm_page_header_size_in_units s) \<le> unat offset \<and> can_grow s p (unat offset) (unat n) \<and>
        used t = used s \<union> block_units p (unat offset) (unat n)) \<and>
     pet_inv t \<and> same_params s t \<and> direct_pages t = direct_pages s \<and>
     blocks_allocated t = blocks_allocated s + 1 \<and>
     mem t = (if clean then zero_range (mem s) (unat addr) (unat addr + 16 * unat n) else mem s)"

lemma pet_inv_page_at:
  assumes "pet_inv s" and "bitmaps s p \<noteq> None"
  shows "page_at s p"
  using assms by (auto simp: pet_inv_def pet_core_def pages_ok_def)

lemma finish_allocation:
  assumes m: "moves_to s u (used s \<union> block_units p (unat offset) (unat n))"
    and b: "blocks_allocated u = blocks_allocated s" "bitmaps u p \<noteq> None"
    and o: "unat (bm_page_header_size_in_units s) \<le> unat offset" "can_grow s p (unat offset) (unat n)"
    and n: "unat offset < unat (units_per_page s)"
    and t: "bm_allocate_out n clean (u, unit_addr p offset) = (t, addr)"
  shows "addr = unit_addr p offset" and "gets_block s n clean t addr" and "addr \<noteq> 0"
proof -
  have u: "pet_inv u" "same_params s u" "used u = used s \<union> block_units p (unat offset) (unat n)"
    "direct_pages u = direct_pages s" "mem u = mem s"
    using m by (simp_all add: moves_to_def)
  have par: "units_per_page u = units_per_page s" "bm_page_header_size_in_units u = bm_page_header_size_in_units s"
    using u(2) by (simp_all add: same_params_def)
  note G = geometry_bounds [OF pet_inv_geometry [OF u(1)]]
  have at: "page_at u p" by (rule pet_inv_page_at [OF u(1) b(2)])
  have off: "unat offset < unat (units_per_page u)" "0 < unat offset"
    using o n G(4) by (simp_all add: par)
  note A = unit_addr_facts [OF pet_inv_geometry [OF u(1)] at off(1)]
  have nz: "unit_addr p offset \<noteq> 0" by (rule A(4) [OF off(2)])
  show ad: "addr = unit_addr p offset" using t by (simp add: bm_allocate_out_def Let_def)
  then show "addr \<noteq> 0" using nz by simp
  have n16: "unat (n * 16) = 16 * unat n"
    using o(2) G(2) unat_u32_bound [of "sys_page_size u"] unfolding can_grow_def par
    by (subst unat_mult_exact) simp_all
  have "16 * unat offset + 16 * unat n \<le> unat (sys_page_size u)"
    using o(2) unfolding can_grow_def G(2) par by simp
  then have "unat (unit_addr p offset) + 16 * unat n \<le> 2 ^ 64"
    using at unfolding A(1) by (simp add: page_at_def)
  then have c: "cleanse (mem u) (unit_addr p offset) 0 (n * 16) =
      zero_range (mem u) (unat (unit_addr p offset)) (unat (unit_addr p offset) + 16 * unat n)"
    by (subst cleanse_eq) (simp_all add: n16)
  have te: "t = u\<lparr>blocks_allocated := blocks_allocated u + 1,
      mem := (if clean then cleanse (mem u) (unit_addr p offset) 0 (n * 16) else mem u)\<rparr>"
    using nz t by (cases u) (auto simp: bm_allocate_out_def Let_def)
  have v: "bitmaps t = bitmaps u" "page_at t = page_at u" "used t = used u" "direct_pages t = direct_pages u"
    "pet_inv t" "same_params s t"
    using u(1,2) by (simp_all add: te page_at_def fun_eq_iff view_defs)
  moreover have "blocks_allocated t = blocks_allocated s + 1" by (simp add: te b(1))
  moreover have "mem t = (if clean then zero_range (mem s) (unat (unit_addr p offset))
      (unat (unit_addr p offset) + 16 * unat n) else mem s)"
    by (simp add: te u(5) c [unfolded u(5)])
  ultimately show "gets_block s n clean t addr"
    using ad u at b(2) o unfolding gets_block_def v(1-4) by blast
qed

lemma gets_block_trans:
  assumes "same_but_lists s s1" and "gets_block s1 n clean t addr"
  shows "gets_block s n clean t addr"
proof -
  have par: "bm_page_header_size_in_units s1 = bm_page_header_size_in_units s"
    "blocks_allocated s1 = blocks_allocated s" "mem s1 = mem s" "direct_pages s1 = direct_pages s"
    using assms(1) direct_pages_eq [of s1 s] by (simp_all add: same_but_lists_def)
  have u: "used s1 = used s" "can_grow s1 = can_grow s"
    using same_but_lists_inv(4) [OF assms(1)] assms(1) by (simp_all add: can_grow_def same_but_lists_def fun_eq_iff)
  show ?thesis
    using assms(2) same_params_trans [OF same_but_lists_params [OF assms(1)]]
    unfolding gets_block_def par u by blast
qed

lemma allocate_new_page:
  assumes mm: "mmap_ok (sys_page_size s) mm" and n: "n \<le> max_data_units s"
    and f: "find_available_page s n = Inr (s1, None)" and s1: "same_but_lists s s1" "pet_inv s1"
    and nz: "mm (mapped s) (sys_page_size s) \<noteq> 0"
  shows "\<exists>t addr. bm_allocate mm s n clean = Inr (t, addr) \<and> addr \<noteq> 0 \<and> gets_block s n clean t addr"
proof -
  have par: "sys_page_size s1 = sys_page_size s" "mapped s1 = mapped s" "max_data_units s1 = max_data_units s"
    "bm_page_header_size_in_units s1 = bm_page_header_size_in_units s" "units_per_page s1 = units_per_page s"
    using s1(1) by (simp_all add: same_but_lists_def)
  let ?p = "mm (mapped s) (sys_page_size s)"
  note M = mmap_okD [OF mm nz]
  obtain P where C: "pet_core s1 P {}" using s1(2) by (auto simp: pet_inv_def)
  note G = geometry_bounds [OF pet_inv_geometry [OF s1(2)], unfolded par]
  have ps: "0 < unat (sys_page_size s)" using G(2,5) by simp
  have np: "?p \<notin> mapped s1" using M(3) page_range_self [OF ps ps, of ?p] by (auto simp: par)
  have al: "unat (sys_page_size s1) dvd unat ?p" "unat ?p + unat (sys_page_size s1) \<le> 2 ^ 64"
    using M(1,2) by (simp_all add: par)
  have nl: "unat n \<le> unat (max_data_units s1)" using n by (simp add: par word_le_nat_alt)
  show ?thesis
  proof (rule map_new_page [OF C np nz al nl refl])
    let ?t0 = "s1\<lparr>mapped := insert ?p (mapped s1), pages := (pages s1)(?p \<mapsto>
               \<lparr>bp_list = None, bp_next = 0, bp_prev = 0,
                bp_bitmap = replicate (unat (units_per_page s1 div WORD_WIDTH)) 0\<rparr>)\<rparr>"
    fix t1 u
    assume t1: "change_bits set_bits ?t0 ?p 0 (bm_page_header_size_in_units s1 + n) = Inr t1"
      "unhand_page t1 ?p = Inr u"
      "moves_to s1 u (used s1 \<union> block_units ?p (unat (bm_page_header_size_in_units s1)) (unat n))"
      "blocks_allocated u = blocks_allocated s1" "bitmaps u ?p \<noteq> None" "bitmaps s1 ?p = None"
    let ?u = "u\<lparr>num_bm_pages := num_bm_pages u + 1\<rparr>" and ?h = "bm_page_header_size_in_units s1"
    have call: "call_mmap mm s1 (sys_page_size s1) False = (s1\<lparr>mapped := insert ?p (mapped s1)\<rparr>, ?p)"
      using nz by (simp add: call_mmap_def par page_range_one [OF ps] Let_def)
    have m: "moves_to s1 ?u (used s1 \<union> block_units ?p (unat ?h) (unat n))"
      using t1(3) by (simp add: moves_to_def)
    have b: "blocks_allocated ?u = blocks_allocated s1" "bitmaps ?u ?p \<noteq> None"
      using t1(4,5) by (simp_all add: bitmaps_def)
    have cg: "can_grow s1 ?p (unat ?h) (unat n)"
      using t1(6) nl geometry_bounds(5,6) [OF pet_inv_geometry [OF s1(2)]]
      by (auto simp: can_grow_def used_def block_units_def)
    have hu: "unat ?h < unat (units_per_page s1)" by (rule geometry_bounds(5) [OF pet_inv_geometry [OF s1(2)]])
    obtain t addr where out: "bm_allocate_out n clean (?u, unit_addr ?p ?h) = (t, addr)"
      by (cases "bm_allocate_out n clean (?u, unit_addr ?p ?h)")
    note F = finish_allocation [OF m b order_refl cg hu out]
    have "bm_page_header_size_in_units u = ?h" using t1(3) by (simp add: moves_to_def same_params_def)
    then have "bm_allocate mm s n clean = Inr (t, addr)"
      using nz t1(1) out unfolding bm_allocate_def f bindE_simps prod.case option.case call Let_def
      by (simp add: t1(2) unit_addr_def)
    then show ?thesis using F(3) gets_block_trans [OF s1(1) F(2)] by blast
  qed
qed

lemma bm_allocate_ok:
  assumes "pet_inv s" and mm: "mmap_ok (sys_page_size s) mm" and n: "0 < unat n" "n \<le> max_data_units s"
  shows "(\<exists>t. bm_allocate mm s n clean = Inr (t, 0) \<and> moves_to s t (used s) \<and>
      blocks_allocated t = blocks_allocated s \<and> mm (mapped s) (sys_page_size s) = 0 \<and> no_room t n) \<or>
    (\<exists>t addr. bm_allocate mm s n clean = Inr (t, addr) \<and> addr \<noteq> 0 \<and> gets_block s n clean t addr)"
  using find_available_page_ok [OF assms(1) n]
proof (elim disjE exE conjE)
  fix s1 p offset
  assume f: "find_available_page s n = Inr (s1, Some (p, offset))" and o: "offers s n s1 p offset"
  show ?thesis
  proof (rule take_found [OF o])
    fix s2 u
    assume s2: "change_bits set_bits s1 p offset n = Inr s2" "unhand_page s2 p = Inr u"
      "moves_to s u (used s \<union> block_units p (unat offset) (unat n))" "blocks_allocated u = blocks_allocated s"
      "bitmaps u p \<noteq> None" "unat (bm_page_header_size_in_units s) \<le> unat offset"
      "can_grow s p (unat offset) (unat n)"
    have lt: "unat offset < unat (units_per_page s)" using s2(7) n(1) by (simp add: can_grow_def)
    show ?thesis
      using finish_allocation [OF s2(3-7) lt, of clean]
      by (cases "bm_allocate_out n clean (u, unit_addr p offset)")
         (simp add: bm_allocate_def f s2(1,2) unit_addr_def [symmetric])
  qed
next
  fix s1
  assume f: "find_available_page s n = Inr (s1, None)" and s1: "same_but_lists s s1" "pet_inv s1" "no_room s1 n"
  have par: "sys_page_size s1 = sys_page_size s" "mapped s1 = mapped s" "max_data_units s1 = max_data_units s"
    "bm_page_header_size_in_units s1 = bm_page_header_size_in_units s" "blocks_allocated s1 = blocks_allocated s"
    using s1(1) by (simp_all add: same_but_lists_def)
  let ?p = "mm (mapped s) (sys_page_size s)"
  show ?thesis
  proof (cases "?p = 0")
    case True
    then have "bm_allocate mm s n clean = Inr (s1, 0)" by (simp add: bm_allocate_def f call_mmap_def par bm_allocate_out_def)
    moreover have "moves_to s s1 (used s)"
      using s1 same_but_lists_inv(4) [OF s1(1)] by (intro moves_toI [OF s1(1)]) (simp_all add: same_params_refl)
    ultimately show ?thesis using True s1(3) par(5) by blast
  next
    case False
    then show ?thesis using allocate_new_page [OF mm n(2) f s1(1,2)] by blast
  qed
qed

end
