(* ===== verification/Pet_Allocator.thy ===== *)
theory Pet_Allocator
  imports Pet_Blocks
begin

text \<open>
  The operations that \<^verbatim>\<open>src/allocator_pet.c\<close> exports in \<open>pet_allocator\<close>: small blocks go to the bitmap
  sub-allocator, larger ones are mapped directly. A block that is mapped directly is told from the
  others by its address, which is on a page boundary.

  Static variables start as zero. The superblock is a page of 8-byte pointers; it is mapped clean, so it
  starts as null pointers.
\<close>

definition static_state :: "u32 \<Rightarrow> (u64 \<Rightarrow> u8) \<Rightarrow> pet" where
  "static_state page_size memory =
     \<lparr>sys_page_size = page_size, units_per_page = 0, bm_page_header_size_in_units = 0, max_data_units = 0,
      lru_page = 0, superblock = [], num_bm_pages = 0, blocks_allocated = 0, pages = (\<lambda>p. None),
      mapped = {}, mem = memory\<rparr>"

definition pet_init :: "mmap_fun \<Rightarrow> pet \<Rightarrow> pet res" where
  "pet_init mm s =
     (let s = s\<lparr>units_per_page := sys_page_size s div 16\<rparr>;
          s = s\<lparr>bm_page_header_size_in_units := (24 + units_per_page s div 8 + 16 - 1) div 16\<rparr>;
          s = s\<lparr>max_data_units := units_per_page s - bm_page_header_size_in_units s\<rparr>;
          (s, sb) = call_mmap mm s (sys_page_size s) True
      in if sb = 0 then Inl Abort
         else Inr (s\<lparr>superblock := replicate (unat (sys_page_size s) div 8) 0\<rparr>))"

definition pet_allocate :: "mmap_fun \<Rightarrow> pet \<Rightarrow> u32 \<Rightarrow> bool \<Rightarrow> (pet \<times> u64) res" where
  "pet_allocate mm s nbytes clean =
     (if nbytes = 0 then Inr (s, 0)
      else (let num_units = bytes_to_units nbytes
            in if num_units < max_data_units s then bm_allocate mm s num_units clean
               else (let (s, result) = call_mmap mm s (align_unsigned_to_page (sys_page_size s) nbytes) clean
                     in Inr (if result \<noteq> 0 then s\<lparr>blocks_allocated := blocks_allocated s + 1\<rparr> else s,
                             result))))"

text \<open>The address is passed by reference; the result is the state and the new value of the pointer.\<close>

definition pet_release :: "pet \<Rightarrow> u64 \<Rightarrow> u32 \<Rightarrow> (pet \<times> u64) res" where
  "pet_release s addr nbytes =
     (if addr = 0 then Inr (s, addr)
      else if nbytes = 0 then Inl Abort
      else (let bm_page = bm_page_by_addr s addr
            in bindE (if addr = bm_page
                      then (let s = call_munmap s addr (align_unsigned_to_page (sys_page_size s) nbytes)
                            in Inr (s\<lparr>blocks_allocated := blocks_allocated s - 1\<rparr>))
                      else bm_release s bm_page (ptrdiff_to_units addr bm_page) (bytes_to_units nbytes))
                 (\<lambda>s. Inr (s, 0))))"

text \<open>
  The result of \<open>pet_reallocate\<close>: the state, the new value of the pointer, what is stored in
  \<open>addr_changed\<close>, and the value returned. \<open>copy\<close> is the \<open>memcpy\<close> between blocks.
\<close>

definition copy :: "pet \<Rightarrow> u64 \<Rightarrow> u64 \<Rightarrow> u32 \<Rightarrow> pet" where
  "copy s dst src nbytes = s\<lparr>mem := moved_mem (mem s) dst src nbytes\<rparr>"

definition pet_remap :: "mremap_fun \<Rightarrow> pet \<Rightarrow> u64 \<Rightarrow> u32 \<Rightarrow> u32 \<Rightarrow> (pet \<times> u64 \<times> bool \<times> bool) res" where
  "pet_remap mr s addr old_nbytes new_nbytes =
     (let (s, _) = call_mremap mr s addr old_nbytes new_nbytes False in Inr (s, addr, False, True))"

definition pet_shrink ::
  "mmap_fun \<Rightarrow> mremap_fun \<Rightarrow> pet \<Rightarrow> u64 \<Rightarrow> u32 \<Rightarrow> u32 \<Rightarrow> (pet \<times> u64 \<times> bool \<times> bool) res" where
  "pet_shrink mm mr s addr old_nbytes new_nbytes =
     (let new_num_units = bytes_to_units new_nbytes; old_num_units = bytes_to_units old_nbytes;
          bm_page = bm_page_by_addr s addr
      in if new_num_units < max_data_units s
         then (if old_num_units < max_data_units s
               then (if addr = bm_page then Inl Abort
                     else bindE (bm_shrink s bm_page (ptrdiff_to_units addr bm_page) old_num_units new_num_units)
                            (\<lambda>s. Inr (s, addr, False, True)))
               else if addr \<noteq> bm_page then Inl Abort
               else bindE (bm_allocate mm s new_num_units False) (\<lambda>(s, new_block).
                    if new_block = 0 then pet_remap mr s addr old_nbytes new_nbytes
                    else (let s = copy s new_block addr new_nbytes
                          in bindE (bm_release s bm_page (ptrdiff_to_units addr bm_page) new_num_units)
                               (\<lambda>s. Inr (s, new_block, True, True)))))
         else if addr \<noteq> bm_page then Inl Abort
         else pet_remap mr s addr old_nbytes new_nbytes)"

definition pet_move ::
  "mmap_fun \<Rightarrow> pet \<Rightarrow> u64 \<Rightarrow> u32 \<Rightarrow> u32 \<Rightarrow> bool \<Rightarrow> (pet \<times> u64 \<times> bool \<times> bool) res" where
  "pet_move mm s addr old_nbytes new_nbytes clean =
     bindE (pet_allocate mm s new_nbytes False) (\<lambda>(s, new_block).
     if new_block = 0 then Inr (s, addr, False, False)
     else (let s = copy s new_block addr old_nbytes
           in bindE (pet_release s addr old_nbytes) (\<lambda>(s, addr).
              let s = (if clean then s\<lparr>mem := cleanse (mem s) new_block old_nbytes new_nbytes\<rparr> else s)
              in Inr (s, new_block, new_block \<noteq> addr, True))))"

definition pet_grow ::
  "mmap_fun \<Rightarrow> mremap_fun \<Rightarrow> pet \<Rightarrow> u64 \<Rightarrow> u32 \<Rightarrow> u32 \<Rightarrow> bool \<Rightarrow> (pet \<times> u64 \<times> bool \<times> bool) res" where
  "pet_grow mm mr s addr old_nbytes new_nbytes clean =
     (let new_num_units = bytes_to_units new_nbytes; old_num_units = bytes_to_units old_nbytes;
          bm_page = bm_page_by_addr s addr
      in if old_num_units < max_data_units s
         then (if new_num_units < max_data_units s
               then (if addr = bm_page then Inl Abort
                     else bindE (bm_grow s bm_page (ptrdiff_to_units addr bm_page) old_num_units new_num_units)
                            (\<lambda>(s, grown).
                          if grown
                          then Inr (if clean then s\<lparr>mem := cleanse (mem s) addr old_nbytes new_nbytes\<rparr> else s,
                                    addr, False, True)
                          else pet_move mm s addr old_nbytes new_nbytes clean))
               else pet_move mm s addr old_nbytes new_nbytes clean)
         else if addr \<noteq> bm_page then Inl Abort
         else (let (s, new_addr) = call_mremap mr s addr old_nbytes new_nbytes clean
               in if new_addr = 0 then Inr (s, addr, False, False)
                  else Inr (s, new_addr, new_addr \<noteq> addr, True)))"

definition pet_reallocate ::
  "mmap_fun \<Rightarrow> mremap_fun \<Rightarrow> pet \<Rightarrow> u64 \<Rightarrow> u32 \<Rightarrow> u32 \<Rightarrow> bool \<Rightarrow> (pet \<times> u64 \<times> bool \<times> bool) res" where
  "pet_reallocate mm mr s addr old_nbytes new_nbytes clean =
     (if old_nbytes = new_nbytes then Inr (s, addr, False, True)
      else if addr = 0
      then (if old_nbytes \<noteq> 0 then Inr (s, addr, False, False)
            else bindE (pet_allocate mm s new_nbytes clean) (\<lambda>(s, new_addr).
                 if new_addr = 0 then Inr (s, addr, False, False) else Inr (s, new_addr, True, True)))
      else if old_nbytes OR new_nbytes = 0 then Inr (s, addr, False, False)
      else (let new_num_units = bytes_to_units new_nbytes; old_num_units = bytes_to_units old_nbytes
            in if new_num_units = old_num_units
               then Inr (if clean \<and> new_nbytes > old_nbytes
                         then s\<lparr>mem := cleanse (mem s) addr old_nbytes new_nbytes\<rparr> else s, addr, False, True)
               else if new_num_units < old_num_units
               then pet_shrink mm mr s addr old_nbytes new_nbytes
               else pet_grow mm mr s addr old_nbytes new_nbytes clean))"

end
