(* ===== verification/Alloc_Interface.thy ===== *)
theory Alloc_Interface
  imports Pussy_Prelude
begin

text \<open>
  The interface of an allocator, as \<^verbatim>\<open>include/allocator.h\<close> declares it in the structure \<open>Allocator\<close>: the
  caller keeps the size of every block. The contract is over the set of live blocks; \<open>inv s B\<close> says that
  the state carries exactly the blocks \<open>B\<close>. The consequences are proved once here, for any allocator that
  keeps the contract.
\<close>

type_synonym block = "u64 \<times> u32"

definition block_bytes :: "block \<Rightarrow> u64 set" where
  "block_bytes b = {x. unat (fst b) \<le> unat x \<and> unat x < unat (fst b) + unat (snd b)}"

lemma block_bytes_range: "x \<in> block_bytes (a, n) \<longleftrightarrow> unat a \<le> unat x \<and> unat x < unat a + unat n"
  by (simp add: block_bytes_def)

subsection \<open>Sequences of calls\<close>

text \<open>
  A program of calls on the functions of an allocator. The second component of the state is what the caller
  holds. \<open>allowed\<close> are the calls of the contract: sizes that are valid, blocks that are held, resizes in the
  cases \<open>can\<close>; a call that is not allowed is not made. \<open>target\<close> is the block that a call gives away.
\<close>

datatype alloc_call = Allocating u32 bool | Releasing u64 u32 | Reallocating u64 u32 u32 bool

fun allowed :: "(u32 \<Rightarrow> bool) \<Rightarrow> (u32 \<Rightarrow> u32 \<Rightarrow> bool) \<Rightarrow> block set \<Rightarrow> alloc_call \<Rightarrow> bool" where
  "allowed valid can B (Allocating n clean) \<longleftrightarrow> valid n"
| "allowed valid can B (Releasing a n) \<longleftrightarrow> (a, n) \<in> B"
| "allowed valid can B (Reallocating a old new clean) \<longleftrightarrow> (a, old) \<in> B \<and> valid new \<and> can old new"

fun target :: "alloc_call \<Rightarrow> block option" where
  "target (Allocating n clean) = None"
| "target (Releasing a n) = Some (a, n)"
| "target (Reallocating a old new clean) = Some (a, old)"

fun make_call ::
  "('s \<Rightarrow> u32 \<Rightarrow> bool \<Rightarrow> ('s \<times> u64) res) \<Rightarrow> ('s \<Rightarrow> u64 \<Rightarrow> u32 \<Rightarrow> ('s \<times> u64) res) \<Rightarrow>
   ('s \<Rightarrow> u64 \<Rightarrow> u32 \<Rightarrow> u32 \<Rightarrow> bool \<Rightarrow> ('s \<times> u64 \<times> bool \<times> bool) res) \<Rightarrow> 's \<Rightarrow> block set \<Rightarrow> alloc_call \<Rightarrow>
   ('s \<times> block set) res" where
  "make_call alloc free resize s B (Allocating n clean) =
     bindE (alloc s n clean) (\<lambda>(t, a). Inr (t, if a = 0 then B else insert (a, n) B))"
| "make_call alloc free resize s B (Releasing a n) = bindE (free s a n) (\<lambda>(t, p). Inr (t, B - {(a, n)}))"
| "make_call alloc free resize s B (Reallocating a old new clean) =
     bindE (resize s a old new clean)
       (\<lambda>(t, a', changed, ok). Inr (t, if ok then insert (a', new) (B - {(a, old)}) else B))"

fun make_calls ::
  "('s \<Rightarrow> u32 \<Rightarrow> bool \<Rightarrow> ('s \<times> u64) res) \<Rightarrow> ('s \<Rightarrow> u64 \<Rightarrow> u32 \<Rightarrow> ('s \<times> u64) res) \<Rightarrow>
   ('s \<Rightarrow> u64 \<Rightarrow> u32 \<Rightarrow> u32 \<Rightarrow> bool \<Rightarrow> ('s \<times> u64 \<times> bool \<times> bool) res) \<Rightarrow> (u32 \<Rightarrow> bool) \<Rightarrow> (u32 \<Rightarrow> u32 \<Rightarrow> bool) \<Rightarrow>
   's \<Rightarrow> block set \<Rightarrow> alloc_call list \<Rightarrow> ('s \<times> block set) res" where
  "make_calls alloc free resize valid can s B [] = Inr (s, B)"
| "make_calls alloc free resize valid can s B (c # cs) =
     (if allowed valid can B c
      then bindE (make_call alloc free resize s B c) (\<lambda>(t, C). make_calls alloc free resize valid can t C cs)
      else make_calls alloc free resize valid can s B cs)"

subsection \<open>The contract\<close>

locale allocator =
  fixes inv :: "'s \<Rightarrow> block set \<Rightarrow> bool" and bytes :: "'s \<Rightarrow> u64 \<Rightarrow> u8" and valid :: "u32 \<Rightarrow> bool"
    and alloc :: "'s \<Rightarrow> u32 \<Rightarrow> bool \<Rightarrow> ('s \<times> u64) res" and free :: "'s \<Rightarrow> u64 \<Rightarrow> u32 \<Rightarrow> ('s \<times> u64) res"
  assumes separate: "inv s B \<Longrightarrow> b \<in> B \<Longrightarrow> c \<in> B \<Longrightarrow> b \<noteq> c \<Longrightarrow> block_bytes b \<inter> block_bytes c = {}"
    and alloc_law: "inv s B \<Longrightarrow> valid n \<Longrightarrow>
      \<exists>t a. alloc s n clean = Inr (t, a) \<and>
        (\<forall>b\<in>B. \<forall>x\<in>block_bytes b. bytes t x = bytes s x) \<and>
        (if a = 0 then inv t B
         else (a, n) \<notin> B \<and> inv t (insert (a, n) B) \<and>
           (clean \<longrightarrow> (\<forall>x\<in>block_bytes (a, n). bytes t x = 0)))"
    and free_law: "inv s B \<Longrightarrow> (a, n) \<in> B \<Longrightarrow>
      \<exists>t. free s a n = Inr (t, 0) \<and> inv t (B - {(a, n)}) \<and>
        (\<forall>b\<in>B. \<forall>x\<in>block_bytes b. bytes t x = bytes s x)"
begin

text \<open>Two blocks allocated one after the other do not overlap, and the second leaves the first as it was.\<close>

lemma alloc_twice:
  assumes "inv s B" and "valid n" "valid m"
    and "alloc s n c = Inr (t, a)" "a \<noteq> 0" and "alloc t m d = Inr (u, b)" "b \<noteq> 0"
  shows "block_bytes (a, n) \<inter> block_bytes (b, m) = {} \<and> inv u (insert (b, m) (insert (a, n) B)) \<and>
    (\<forall>x\<in>block_bytes (a, n). bytes u x = bytes t x)"
proof -
  have t: "inv t (insert (a, n) B)"
    using alloc_law [OF assms(1,2), of c] assms(4,5) by auto
  have u: "(b, m) \<notin> insert (a, n) B" "inv u (insert (b, m) (insert (a, n) B))"
    "\<forall>x\<in>block_bytes (a, n). bytes u x = bytes t x"
    using alloc_law [OF t assms(3), of d] assms(6,7) by auto
  moreover have "block_bytes (a, n) \<inter> block_bytes (b, m) = {}"
    by (rule separate [OF u(2)]) (use u(1) in auto)
  ultimately show ?thesis by blast
qed

text \<open>A block that is released right after it was allocated leaves no trace in the live blocks.\<close>

lemma alloc_free:
  assumes "inv s B" and "valid n" and "alloc s n c = Inr (t, a)" "a \<noteq> 0"
  shows "\<exists>u. free t a n = Inr (u, 0) \<and> inv u B \<and> (\<forall>b\<in>B. \<forall>x\<in>block_bytes b. bytes u x = bytes s x)"
proof -
  have t: "(a, n) \<notin> B" "inv t (insert (a, n) B)" "\<forall>b\<in>B. \<forall>x\<in>block_bytes b. bytes t x = bytes s x"
    using alloc_law [OF assms(1,2), of c] assms(3,4) by auto
  from free_law [OF t(2), of a n] obtain u where "free t a n = Inr (u, 0)"
    "inv u (insert (a, n) B - {(a, n)})" "\<forall>b\<in>insert (a, n) B. \<forall>x\<in>block_bytes b. bytes u x = bytes t x"
    by auto
  then show ?thesis using t by auto
qed

end

text \<open>An allocator that can also resize a block in the cases \<open>can\<close>.\<close>

locale resizing_allocator = allocator +
  fixes can :: "u32 \<Rightarrow> u32 \<Rightarrow> bool"
    and resize :: "'a \<Rightarrow> u64 \<Rightarrow> u32 \<Rightarrow> u32 \<Rightarrow> bool \<Rightarrow> ('a \<times> u64 \<times> bool \<times> bool) res"
  assumes resize_law: "inv s B \<Longrightarrow> (a, old) \<in> B \<Longrightarrow> valid new \<Longrightarrow> can old new \<Longrightarrow>
      \<exists>t a' changed ok. resize s a old new clean = Inr (t, a', changed, ok) \<and> changed = (a' \<noteq> a) \<and>
        (\<forall>b\<in>B - {(a, old)}. \<forall>x\<in>block_bytes b. bytes t x = bytes s x) \<and>
        (if ok then a' \<noteq> 0 \<and> inv t (insert (a', new) (B - {(a, old)})) \<and>
           (\<forall>i < min (unat old) (unat new). bytes t (a' + of_nat i) = bytes s (a + of_nat i)) \<and>
           (clean \<longrightarrow> (\<forall>i. unat old \<le> i \<and> i < unat new \<longrightarrow> bytes t (a' + of_nat i) = 0))
         else a' = a \<and> inv t B \<and> (\<forall>x\<in>block_bytes (a, old). bytes t x = bytes s x))"
begin

text \<open>A block that is resized twice keeps its contents up to the smallest of the three sizes.\<close>

lemma resize_twice:
  assumes "inv s B" and "(a, n) \<in> B" and "valid m" "valid k" "can n m" "can m k"
    and "resize s a n m c = Inr (t, a', ch, True)" and "resize t a' m k d = Inr (u, a'', ch', True)"
    and "i < min (unat n) (min (unat m) (unat k))"
  shows "inv u (insert (a'', k) (insert (a', m) (B - {(a, n)}) - {(a', m)})) \<and>
    bytes u (a'' + of_nat i) = bytes s (a + of_nat i)"
proof -
  have t: "inv t (insert (a', m) (B - {(a, n)}))" "bytes t (a' + of_nat i) = bytes s (a + of_nat i)"
    using resize_law [OF assms(1,2,3,5), of c] assms(7,9) by auto
  have "(a', m) \<in> insert (a', m) (B - {(a, n)})" by simp
  from resize_law [OF t(1) this assms(4,6), of d] assms(8,9) t(2) show ?thesis by auto
qed

text \<open>
  A program never runs into a failure of the allocator: a sequence of allowed calls ends in a state of the
  contract, and a block that no call gives away keeps its bytes.
\<close>

lemma make_call_ok:
  assumes "inv s B" and "allowed valid can B c"
  shows "\<exists>t C. make_call alloc free resize s B c = Inr (t, C) \<and> inv t C \<and>
    (\<forall>b\<in>B. target c \<noteq> Some b \<longrightarrow> b \<in> C \<and> (\<forall>x\<in>block_bytes b. bytes t x = bytes s x))"
proof (cases c)
  case (Allocating n clean)
  then show ?thesis using alloc_law [OF assms(1), of n clean] assms(2) by (auto split: if_splits)
next
  case (Releasing a n)
  then show ?thesis using free_law [OF assms(1), of a n] assms(2) by auto
next
  case (Reallocating a old new clean)
  then have "(a, old) \<in> B" "valid new" "can old new" using assms(2) by simp_all
  from resize_law [OF assms(1) this, of clean] obtain t a' changed ok where
    t: "resize s a old new clean = Inr (t, a', changed, ok)"
    "\<forall>b\<in>B - {(a, old)}. \<forall>x\<in>block_bytes b. bytes t x = bytes s x"
    "if ok then a' \<noteq> 0 \<and> inv t (insert (a', new) (B - {(a, old)})) \<and>
       (\<forall>i < min (unat old) (unat new). bytes t (a' + of_nat i) = bytes s (a + of_nat i)) \<and>
       (clean \<longrightarrow> (\<forall>i. unat old \<le> i \<and> i < unat new \<longrightarrow> bytes t (a' + of_nat i) = 0))
     else a' = a \<and> inv t B \<and> (\<forall>x\<in>block_bytes (a, old). bytes t x = bytes s x)" by blast
  have "inv t (if ok then insert (a', new) (B - {(a, old)}) else B)" using t(3) by (simp split: if_splits)
  moreover have "b \<in> (if ok then insert (a', new) (B - {(a, old)}) else B) \<and> (\<forall>x\<in>block_bytes b. bytes t x = bytes s x)"
    if "b \<in> B" "target c \<noteq> Some b" for b
  proof -
    have "b \<in> B - {(a, old)}" using that Reallocating by auto
    then show ?thesis using t(2) by simp
  qed
  ultimately show ?thesis using t(1) by (simp add: Reallocating)
qed

lemma make_calls_ok:
  assumes "inv s B"
  shows "\<exists>t C. make_calls alloc free resize valid can s B cs = Inr (t, C) \<and> inv t C \<and>
    (\<forall>b\<in>B. (\<forall>c\<in>set cs. target c \<noteq> Some b) \<longrightarrow> b \<in> C \<and> (\<forall>x\<in>block_bytes b. bytes t x = bytes s x))"
  using assms
proof (induction cs arbitrary: s B)
  case (Cons c cs)
  show ?case
  proof (cases "allowed valid can B c")
    case True
    from make_call_ok [OF Cons.prems True] obtain t C where t: "make_call alloc free resize s B c = Inr (t, C)" "inv t C"
      "\<forall>b\<in>B. target c \<noteq> Some b \<longrightarrow> b \<in> C \<and> (\<forall>x\<in>block_bytes b. bytes t x = bytes s x)" by blast
    from Cons.IH [OF t(2)] obtain u D where u: "make_calls alloc free resize valid can t C cs = Inr (u, D)" "inv u D"
      "\<forall>b\<in>C. (\<forall>c\<in>set cs. target c \<noteq> Some b) \<longrightarrow> b \<in> D \<and> (\<forall>x\<in>block_bytes b. bytes u x = bytes t x)" by blast
    have "b \<in> D \<and> (\<forall>x\<in>block_bytes b. bytes u x = bytes s x)"
      if b: "b \<in> B" "\<forall>c'\<in>set (c # cs). target c' \<noteq> Some b" for b
    proof -
      have "b \<in> C" "\<forall>x\<in>block_bytes b. bytes t x = bytes s x" using t(3) b by simp_all
      moreover from this have "b \<in> D" "\<forall>x\<in>block_bytes b. bytes u x = bytes t x" using u(3) b(2) by simp_all
      ultimately show ?thesis by simp
    qed
    then show ?thesis using True t(1) u(1,2) by simp
  next
    case False
    with Cons.IH [OF Cons.prems] show ?thesis by (simp, blast)
  qed
qed simp

end

end
