(* ===== verification/Pet_Heap.thy ===== *)
theory Pet_Heap
  imports Pet_Allocator Alloc_Interface
begin

text \<open>
  The allocator against its contract: a set of live blocks, each an address and the size it was
  allocated with. \<open>heap_ok s B\<close> says that the state \<open>s\<close> carries exactly the blocks \<open>B\<close>: the units in
  use are those of the small blocks, the large blocks own mapped pages, and no two blocks share a unit or
  a page. Sizes are those for which rounding up to a page does not wrap around.
\<close>

definition small :: "pet \<Rightarrow> u32 \<Rightarrow> bool" where
  "small s n \<longleftrightarrow> bytes_to_units n < max_data_units s"

definition sized :: "pet \<Rightarrow> u32 \<Rightarrow> bool" where
  "sized s n \<longleftrightarrow> n \<noteq> 0 \<and> unat n + unat (sys_page_size s) \<le> 2 ^ 32"

definition page_size_of :: "pet \<Rightarrow> u32 \<Rightarrow> u32" where
  "page_size_of s n = align_unsigned_to_page (sys_page_size s) n"

fun units_of :: "pet \<Rightarrow> block \<Rightarrow> (u64 \<times> nat) set" where
  "units_of s (a, n) =
     (if small s n
      then block_units (bm_page_by_addr s a) (unat (ptrdiff_to_units a (bm_page_by_addr s a)))
             (unat (bytes_to_units n))
      else {})"

fun pages_of :: "pet \<Rightarrow> block \<Rightarrow> u64 set" where
  "pages_of s (a, n) = (if small s n then {} else page_range (sys_page_size s) a (page_size_of s n))"

fun shape :: "pet \<Rightarrow> block \<Rightarrow> bool" where
  "shape s (a, n) \<longleftrightarrow> sized s n \<and>
     (if small s n
      then (\<exists>p offset. a = unit_addr p offset \<and> unat (sys_page_size s) dvd unat p \<and>
              unat p + unat (sys_page_size s) \<le> 2 ^ 64 \<and>
              unat (bm_page_header_size_in_units s) \<le> unat offset \<and>
              unat offset + unat (bytes_to_units n) \<le> unat (units_per_page s))
      else a \<noteq> 0 \<and> unat (sys_page_size s) dvd unat a \<and> unat a + unat (page_size_of s n) \<le> 2 ^ 64)"

definition heap_ok :: "pet \<Rightarrow> block set \<Rightarrow> bool" where
  "heap_ok s B \<longleftrightarrow>
     pet_inv s \<and> (\<forall>b\<in>B. shape s b \<and> pages_of s b \<subseteq> direct_pages s) \<and>
     used s = (\<Union>b\<in>B. units_of s b) \<and>
     (\<forall>b\<in>B. \<forall>c\<in>B. b \<noteq> c \<longrightarrow> units_of s b \<inter> units_of s c = {} \<and> pages_of s b \<inter> pages_of s c = {})"

subsection \<open>Sizes\<close>

lemma bytes_to_units_eq:
  assumes "unat n + 16 \<le> 2 ^ 32"
  shows "unat (bytes_to_units n) = (unat n + 15) div 16"
proof -
  have "unat (align_unsigned n 16) = round_up 4 (unat n)"
    by (rule align_unsigned_pow2) (use assms in simp_all)
  then show ?thesis by (simp add: bytes_to_units_def unat_div round_up_def)
qed

lemma geometry_page_size:
  assumes "geometry s"
  obtains k where "unat (sys_page_size s) = 2 ^ k" and "1024 \<le> unat (sys_page_size s)" and "10 \<le> k"
proof -
  obtain k where k: "10 \<le> k" "unat (sys_page_size s) = 2 ^ k"
    using assms unfolding geometry_def by blast
  then have "(2::nat) ^ 10 \<le> unat (sys_page_size s)" by (simp only: power_increasing_iff)
  then show thesis using that k by simp
qed

lemma sized_units:
  assumes "geometry s" and "sized s n"
  shows "unat (bytes_to_units n) = (unat n + 15) div 16" and "0 < unat (bytes_to_units n)"
    and "unat n \<le> 16 * unat (bytes_to_units n)"
proof -
  obtain k where "1024 \<le> unat (sys_page_size s)" by (rule geometry_page_size [OF assms(1)])
  then show e: "unat (bytes_to_units n) = (unat n + 15) div 16"
    using assms(2) by (intro bytes_to_units_eq) (simp add: sized_def)
  have "0 < unat n" using assms(2) by (simp add: sized_def unat_gt_0)
  then show "0 < unat (bytes_to_units n)" unfolding e by simp
  show "unat n \<le> 16 * unat (bytes_to_units n)" unfolding e by simp
qed

lemma sized_pages:
  assumes "geometry s" and "sized s n"
  shows "unat (sys_page_size s) dvd unat (page_size_of s n)" and "unat n \<le> unat (page_size_of s n)"
    and "0 < unat (page_size_of s n)"
proof -
  obtain k where k: "unat (sys_page_size s) = 2 ^ k" by (rule geometry_page_size [OF assms(1)])
  have e: "unat (page_size_of s n) = round_up k (unat n)"
    unfolding page_size_of_def align_unsigned_to_page_def
    by (rule align_unsigned_pow2) (use k assms(2) in \<open>simp_all add: sized_def\<close>)
  show "unat (sys_page_size s) dvd unat (page_size_of s n)" unfolding e k by (rule round_up_dvd)
  show le: "unat n \<le> unat (page_size_of s n)" unfolding e by (rule round_up_ge)
  show "0 < unat (page_size_of s n)" using assms(2) le by (simp add: sized_def unat_gt_0 [symmetric])
qed

subsection \<open>Blocks\<close>

lemma block_cong:
  assumes "same_params s t"
  shows "units_of t b = units_of s b" and "pages_of t b = pages_of s b" and "shape t b = shape s b"
    and "small t = small s" and "sized t = sized s" and "page_size_of t = page_size_of s"
  using assms by (cases b; simp add: same_params_def small_def sized_def page_size_of_def bm_page_by_addr_def fun_eq_iff)+

lemma small_block:
  assumes "geometry s" and "shape s (a, n)" and "small s n"
  obtains p offset where "a = unit_addr p offset" and "bm_page_by_addr s a = p"
    and "ptrdiff_to_units a p = offset" and "a \<noteq> p" and "a \<noteq> 0"
    and "units_of s (a, n) = block_units p (unat offset) (unat (bytes_to_units n))"
    and "unat (bm_page_header_size_in_units s) \<le> unat offset"
    and "unat offset + unat (bytes_to_units n) \<le> unat (units_per_page s)"
    and "unat a = unat p + 16 * unat offset" and "unat p + unat (sys_page_size s) \<le> 2 ^ 64"
    and "unat (sys_page_size s) dvd unat p" and "0 < unat (bytes_to_units n)"
proof -
  obtain p offset where p: "a = unit_addr p offset" "unat (sys_page_size s) dvd unat p"
    "unat p + unat (sys_page_size s) \<le> 2 ^ 64" "unat (bm_page_header_size_in_units s) \<le> unat offset"
    "unat offset + unat (bytes_to_units n) \<le> unat (units_per_page s)"
    using assms(2,3) by auto
  have n: "0 < unat (bytes_to_units n)" using sized_units(2) [OF assms(1)] assms(2) by simp
  have o: "unat offset < unat (units_per_page s)" "0 < unat offset"
    using p(4,5) n geometry_bounds(4) [OF assms(1)] by simp_all
  let ?s = "s\<lparr>mapped := insert p (mapped s)\<rparr>"
  have g: "geometry ?s" using assms(1) by (simp add: geometry_def)
  have at: "page_at ?s p" using p(2,3) by (simp add: page_at_def)
  have o': "unat offset < unat (units_per_page ?s)" using o(1) by simp
  note A = unit_addr_facts [OF g at o', folded p(1)]
  have b: "bm_page_by_addr s a = p" using A(2) by (simp add: bm_page_by_addr_def)
  show thesis
    by (rule that [OF p(1) b A(3) A(5) [OF o(2)] A(4) [OF o(2)] _ p(4,5) A(1) p(3,2) n])
       (simp add: assms(3) b A(3))
qed

lemma large_block:
  assumes "geometry s" and "shape s (a, n)" and "\<not> small s n"
  shows "bm_page_by_addr s a = a" and "a \<noteq> 0" and "pages_of s (a, n) = page_range (sys_page_size s) a (page_size_of s n)"
    and "units_of s (a, n) = {}" and "unat (sys_page_size s) dvd unat a"
    and "unat a + unat (page_size_of s n) \<le> 2 ^ 64"
proof -
  show a: "a \<noteq> 0" "unat (sys_page_size s) dvd unat a" "unat a + unat (page_size_of s n) \<le> 2 ^ 64"
    using assms(2,3) by simp_all
  then show "bm_page_by_addr s a = a"
    by (simp add: unat_eq_iff bm_page_by_addr_eq [OF assms(1)])
  show "pages_of s (a, n) = page_range (sys_page_size s) a (page_size_of s n)" "units_of s (a, n) = {}"
    using assms(3) by simp_all
qed

declare units_of.simps [simp del] pages_of.simps [simp del] shape.simps [simp del]

lemma heap_okD:
  assumes "heap_ok s B"
  shows "pet_inv s" and "geometry s" and "b \<in> B \<Longrightarrow> shape s b" and "b \<in> B \<Longrightarrow> pages_of s b \<subseteq> direct_pages s"
    and "used s = (\<Union>b\<in>B. units_of s b)" and "b \<in> B \<Longrightarrow> units_of s b \<subseteq> used s"
    and "b \<in> B \<Longrightarrow> c \<in> B \<Longrightarrow> b \<noteq> c \<Longrightarrow> units_of s b \<inter> units_of s c = {}"
    and "b \<in> B \<Longrightarrow> c \<in> B \<Longrightarrow> b \<noteq> c \<Longrightarrow> pages_of s b \<inter> pages_of s c = {}"
  using assms pet_inv_geometry unfolding heap_ok_def by auto

lemma disjoint_subsets: "A \<inter> B = {} \<Longrightarrow> C \<subseteq> A \<Longrightarrow> D \<subseteq> B \<Longrightarrow> C \<inter> D = {}"
  by blast

text \<open>
  All changes of the set of blocks are of one form: the blocks \<open>R\<close> give their units and pages back, and
  at most one block \<open>N\<close> takes units and pages that nobody has.
\<close>

lemma heap_ok_update:
  assumes H: "heap_ok s B" and R: "R \<subseteq> B" and "pet_inv t" and par: "same_params s t"
    and u: "used t = (used s - (\<Union>b\<in>R. units_of s b)) \<union> (\<Union>b\<in>N. units_of s b)"
      "(used s - (\<Union>b\<in>R. units_of s b)) \<inter> (\<Union>b\<in>N. units_of s b) = {}"
    and d: "direct_pages s - (\<Union>b\<in>R. pages_of s b) \<subseteq> direct_pages t" "(\<Union>b\<in>N. pages_of s b) \<subseteq> direct_pages t"
      "(direct_pages s - (\<Union>b\<in>R. pages_of s b)) \<inter> (\<Union>b\<in>N. pages_of s b) = {}"
    and N: "N = {} \<or> (\<exists>b. N = {b} \<and> shape s b)"
  shows "heap_ok t ((B - R) \<union> N)"
proof -
  note D = heap_okD [OF H]
  note P = block_cong [OF par]
  have old: "units_of s b \<subseteq> used s - (\<Union>b\<in>R. units_of s b)" "pages_of s b \<subseteq> direct_pages s - (\<Union>b\<in>R. pages_of s b)"
    if "b \<in> B - R" for b
    using that R D(4) [of b] D(6) [of b] D(7,8) [of b] by blast+
  have us: "used t = (\<Union>b\<in>(B - R) \<union> N. units_of t b)"
  proof -
    have "used s - (\<Union>b\<in>R. units_of s b) = (\<Union>b\<in>B - R. units_of s b)"
    proof (rule equalityI)
      show "used s - (\<Union>b\<in>R. units_of s b) \<subseteq> (\<Union>b\<in>B - R. units_of s b)" unfolding D(5) by blast
      show "(\<Union>b\<in>B - R. units_of s b) \<subseteq> used s - (\<Union>b\<in>R. units_of s b)" using old(1) by (rule UN_least)
    qed
    then show ?thesis by (simp only: u(1) P UN_Un)
  qed
  have sh: "shape t b \<and> pages_of t b \<subseteq> direct_pages t" if "b \<in> (B - R) \<union> N" for b
    using that
  proof
    assume b: "b \<in> B - R"
    then have "shape s b" using D(3) by blast
    then show ?thesis using order_trans [OF old(2) [OF b] d(1)] unfolding P by blast
  next
    assume "b \<in> N"
    then have "shape s b" "pages_of s b \<subseteq> direct_pages t" using N d(2) by blast+
    then show ?thesis unfolding P by blast
  qed
  have dj: "units_of t b \<inter> units_of t c = {} \<and> pages_of t b \<inter> pages_of t c = {}"
    if bc: "b \<in> (B - R) \<union> N" "c \<in> (B - R) \<union> N" "b \<noteq> c" for b c
  proof -
    have nn: "\<not> (b \<in> N \<and> c \<in> N)" using N bc(3) by blast
    have x: "units_of s b \<inter> units_of s c = {} \<and> pages_of s b \<inter> pages_of s c = {}" if "b \<in> B - R" "c \<in> N" for b c
    proof -
      have "units_of s c \<subseteq> (\<Union>b\<in>N. units_of s b)" "pages_of s c \<subseteq> (\<Union>b\<in>N. pages_of s b)"
        using that(2) by blast+
      then show ?thesis
        using disjoint_subsets [OF u(2) old(1) [OF that(1)]] disjoint_subsets [OF d(3) old(2) [OF that(1)]]
        by blast
    qed
    consider "b \<in> B - R" "c \<in> B - R" | "b \<in> B - R" "c \<in> N" | "b \<in> N" "c \<in> B - R"
      using bc(1,2) nn by blast
    then have "units_of s b \<inter> units_of s c = {} \<and> pages_of s b \<inter> pages_of s c = {}"
    proof cases
      case 1
      then show ?thesis using D(7,8) [OF _ _ bc(3)] by simp
    next
      case 2
      then show ?thesis by (rule x)
    next
      case 3
      then show ?thesis using x [of c b] by (simp add: Int_commute)
    qed
    then show ?thesis unfolding P .
  qed
  show ?thesis
    unfolding heap_ok_def by (intro conjI ballI impI assms(3) us; rule sh [THEN conjunct1] sh [THEN conjunct2]
        dj [THEN conjunct1] dj [THEN conjunct2]; assumption)
qed

lemma heap_ok_moves:
  assumes "heap_ok s B" and "moves_to s t (used s)"
  shows "heap_ok t B"
  using heap_ok_update [of s B "{}" t "{}"] assms by (simp add: moves_to_def)

lemma heap_ok_counters [simp]:
  assumes "heap_ok s B"
  shows "heap_ok (s\<lparr>blocks_allocated := x\<rparr>) B" and "heap_ok (s\<lparr>mem := m\<rparr>) B"
  using heap_ok_update [of s B "{}" _ "{}"] assms heap_okD(1) [OF assms] by (simp_all add: same_params_refl)

subsection \<open>Bytes\<close>

definition unit_of :: "pet \<Rightarrow> u64 \<Rightarrow> u64 \<times> nat" where
  "unit_of s x = (bm_page_by_addr s x, unat x mod unat (sys_page_size s) div 16)"

definition block_region :: "pet \<Rightarrow> block \<Rightarrow> u64 set" where
  "block_region s b = {x. unit_of s x \<in> units_of s b \<or> bm_page_by_addr s x \<in> pages_of s b}"

lemma region_cong:
  assumes "same_params s t"
  shows "block_region t b = block_region s b"
  using assms unfolding block_region_def block_cong(1,2) [OF assms]
  by (simp add: unit_of_def same_params_def bm_page_by_addr_def)

lemma shape_sized: "shape s (a, n) \<Longrightarrow> sized s n"
  by (simp add: shape.simps)

text \<open>The unit of a byte in a range of units of a page.\<close>

lemma unit_range:
  assumes g: "geometry s" and p: "unat (sys_page_size s) dvd unat p" and n: "k + n \<le> unat (units_per_page s)"
    and x: "unat p + 16 * k \<le> unat x" "unat x < unat p + 16 * (k + n)"
  shows "bm_page_by_addr s x = p" and "unit_of s x \<in> block_units p k n"
proof -
  let ?ps = "unat (sys_page_size s)"
  obtain q where q: "unat p = ?ps * q" using p by blast
  have ps: "?ps = 16 * unat (units_per_page s)" by (rule geometry_bounds(2) [OF g])
  define r where "r = unat x - unat p"
  have r: "unat x = ?ps * q + r" "16 * k \<le> r" "r < 16 * (k + n)" using x q by (simp_all add: r_def)
  have lt: "r < ?ps" using r(3) mult_le_mono2 [OF n, of 16] unfolding ps by (rule less_le_trans)
  have dm: "unat x div ?ps = q" "unat x mod ?ps = r" using lt unfolding r(1) by simp_all
  have "unat (bm_page_by_addr s x) = unat p"
    by (simp add: bm_page_by_addr_eq [OF g] dm(1) q)
  then show b: "bm_page_by_addr s x = p" by (simp add: unat_eq_iff)
  have "k \<le> r div 16" "r div 16 < k + n"
    using r(2,3) by (simp_all add: less_eq_div_iff_mult_less_eq div_less_iff_less_mult mult.commute)
  then show "unit_of s x \<in> block_units p k n" by (simp add: unit_of_def b dm(2) block_units_def)
qed

lemma small_region:
  assumes g: "geometry s" and b: "shape s (a, n)" "small s n"
    and x: "unat a \<le> unat x" "unat x < unat a + 16 * unat (bytes_to_units n)"
  shows "x \<in> block_region s (a, n)"
proof -
  obtain p and offset :: u32 where p: "units_of s (a, n) = block_units p (unat offset) (unat (bytes_to_units n))"
    "unat offset + unat (bytes_to_units n) \<le> unat (units_per_page s)"
    "unat a = unat p + 16 * unat offset" "unat (sys_page_size s) dvd unat p"
    by (rule small_block [OF g b], rule that)
  have "unit_of s x \<in> units_of s (a, n)"
    unfolding p(1) by (rule unit_range(2) [OF g p(4,2)]) (use x p(3) in simp_all)
  then show ?thesis by (simp add: block_region_def)
qed

lemma page_of_range:
  assumes g: "geometry s" and a: "unat (sys_page_size s) dvd unat a" "unat a + unat sz \<le> 2 ^ 64"
    and x: "unat a \<le> unat x" "unat x < unat a + unat sz"
  shows "bm_page_by_addr s x \<in> page_range (sys_page_size s) a sz"
proof -
  let ?ps = "unat (sys_page_size s)"
  have ps: "0 < ?ps" using geometry_bounds(2,5) [OF g] by simp
  obtain q where q: "unat a = ?ps * q" using a(1) by blast
  define i where "i = (unat x - unat a) div ?ps"
  have "unat x = ?ps * q + (unat x - unat a)" using x(1) q by simp
  then have "unat x div ?ps = q + i" unfolding i_def by (metis div_mult_self4 ps less_not_refl)
  then have e: "unat (bm_page_by_addr s x) = unat a + i * ?ps"
    by (simp add: bm_page_by_addr_eq [OF g] q algebra_simps)
  have "bm_page_by_addr s x = of_nat (unat (bm_page_by_addr s x))" by simp
  also have "\<dots> = of_nat (unat a) + of_nat (i * ?ps)" by (simp only: e of_nat_add)
  also have "of_nat (unat a) = a" by simp
  finally have "bm_page_by_addr s x = a + of_nat (i * ?ps)" .
  moreover have "i < (unat sz + ?ps - 1) div ?ps"
  proof -
    have "i * ?ps \<le> unat x - unat a" by (simp add: i_def)
    then have "Suc i * ?ps \<le> unat sz + ?ps - 1" using x by simp
    then have "Suc i \<le> (unat sz + ?ps - 1) div ?ps" using ps by (simp only: less_eq_div_iff_mult_less_eq)
    then show ?thesis by simp
  qed
  ultimately show ?thesis unfolding page_range_def by auto
qed

lemma large_region:
  assumes g: "geometry s" and b: "shape s (a, n)" "\<not> small s n"
    and x: "unat a \<le> unat x" "unat x < unat a + unat (page_size_of s n)"
  shows "x \<in> block_region s (a, n)"
  using page_of_range [OF g _ _ x] large_block [OF g b] by (simp add: block_region_def)

lemma block_bytes_region:
  assumes "geometry s" and "shape s b"
  shows "block_bytes b \<subseteq> block_region s b"
proof (cases b)
  case (Pair a n)
  then have b: "shape s (a, n)" "sized s n" using assms(2) shape_sized by blast+
  show ?thesis
  proof (cases "small s n")
    case True
    show ?thesis
      unfolding Pair block_bytes_def
      using small_region [OF assms(1) b(1) True] sized_units(3) [OF assms(1) b(2)] by auto
  next
    case False
    show ?thesis
      unfolding Pair block_bytes_def
      using large_region [OF assms(1) b(1) False] sized_pages(2) [OF assms(1) b(2)] by auto
  qed
qed

lemma regions_disjoint:
  assumes H: "heap_ok s B" and "b \<in> B" "c \<in> B" "b \<noteq> c"
  shows "block_region s b \<inter> block_region s c = {}"
proof -
  note D = heap_okD [OF H]
  have x: "\<not> (unit_of s x \<in> units_of s b \<and> bm_page_by_addr s x \<in> pages_of s c)" if "b \<in> B" "c \<in> B" for b c x
  proof
    assume "unit_of s x \<in> units_of s b \<and> bm_page_by_addr s x \<in> pages_of s c"
    then have "unit_of s x \<in> used s" "bm_page_by_addr s x \<in> direct_pages s"
      using D(6) [OF that(1)] D(4) [OF that(2)] by blast+
    then show False by (auto simp: used_def unit_of_def direct_pages_def bitmaps_def)
  qed
  show ?thesis
    using x [OF assms(2,3)] x [OF assms(3,2)] D(7,8) [OF assms(2-4)] unfolding block_region_def by blast
qed

subsection \<open>Allocation\<close>

lemma pet_inv_mapped:
  assumes "pet_inv s" and "\<And>p. pages s p \<noteq> None \<Longrightarrow> p \<in> M"
  shows "pet_inv (s\<lparr>mapped := M\<rparr>)"
  using assms pet_core_mapped unfolding pet_inv_def by blast

text \<open>The outcome of an allocation: a block that shares nothing with the blocks there are.\<close>

definition new_block :: "pet \<Rightarrow> block set \<Rightarrow> u32 \<Rightarrow> bool \<Rightarrow> pet \<Rightarrow> u64 \<Rightarrow> bool" where
  "new_block s B n clean t a \<longleftrightarrow>
     a \<noteq> 0 \<and> (a, n) \<notin> B \<and> heap_ok t (insert (a, n) B) \<and> same_params s t \<and>
     (\<forall>x. x \<notin> block_region s (a, n) \<or> \<not> clean \<longrightarrow> mem t x = mem s x) \<and>
     (clean \<longrightarrow> (\<forall>x\<in>block_bytes (a, n). mem t x = 0))"

lemma gets_block_new:
  assumes H: "heap_ok s B" and n: "sized s n" "small s n"
    and g: "gets_block s (bytes_to_units n) clean t a" "a \<noteq> 0"
  shows "new_block s B n clean t a"
proof -
  note D = heap_okD [OF H]
  note G = geometry_bounds [OF D(2)]
  note U = sized_units [OF D(2) n(1)]
  obtain p offset where p: "a = unit_addr p offset" "page_at t p"
    "unat (bm_page_header_size_in_units s) \<le> unat offset" "can_grow s p (unat offset) (unat (bytes_to_units n))"
    "used t = used s \<union> block_units p (unat offset) (unat (bytes_to_units n))"
    and t: "pet_inv t" "same_params s t" "direct_pages t = direct_pages s"
    "mem t = (if clean then zero_range (mem s) (unat a) (unat a + 16 * unat (bytes_to_units n)) else mem s)"
    using g(1) unfolding gets_block_def by blast
  have par: "sys_page_size t = sys_page_size s" using t(2) by (simp add: same_params_def)
  have sh: "shape s (a, n)"
    using p(1-4) n by (auto simp: shape.simps page_at_def par can_grow_def)
  obtain p' and offset' :: u32 where p': "a = unit_addr p' offset'" "bm_page_by_addr s a = p'" "ptrdiff_to_units a p' = offset'"
    "units_of s (a, n) = block_units p' (unat offset') (unat (bytes_to_units n))"
    by (rule small_block [OF D(2) sh n(2)], rule that)
  have o: "unat offset < unat (units_per_page t)"
    using p(4) U(2) t(2) by (simp add: can_grow_def same_params_def)
  have "bm_page_by_addr s a = p" "ptrdiff_to_units a p = offset"
    using unit_addr_facts(2,3) [OF pet_inv_geometry [OF t(1)] p(2) o] par by (simp_all add: p(1) bm_page_by_addr_def)
  then have u: "units_of s (a, n) = block_units p (unat offset) (unat (bytes_to_units n))" using p'(2-4) by simp
  have free: "used s \<inter> units_of s (a, n) = {}" using p(4) by (simp add: u can_grow_def)
  have "units_of s (a, n) \<noteq> {}" using U(2) by (simp add: u block_units_def)
  then have "(a, n) \<notin> B" using D(6) [of "(a, n)"] free by blast
  moreover have "pages_of s (a, n) = {}" using n(2) by (simp add: pages_of.simps)
  then have "heap_ok t ((B - {}) \<union> {(a, n)})"
    using free sh t(3) p(5) by (intro heap_ok_update [OF H _ t(1,2)]) (simp_all add: u [symmetric])
  moreover have "mem t x = mem s x" if "x \<notin> block_region s (a, n) \<or> \<not> clean" for x
    using that small_region [OF D(2) sh n(2), of x] by (auto simp: t(4) zero_range_def)
  moreover have "clean \<Longrightarrow> x \<in> block_bytes (a, n) \<Longrightarrow> mem t x = 0" for x
    using U(3) by (simp add: t(4) zero_range_def block_bytes_def)
  ultimately show ?thesis using g(2) t(2) by (simp add: new_block_def)
qed

lemma header_mapped: "pet_inv s \<Longrightarrow> pages s p \<noteq> None \<Longrightarrow> p \<in> mapped s"
  using pet_inv_page_at [of s p] by (simp add: bitmaps_def page_at_def)

lemma map_large:
  assumes H: "heap_ok s B" and n: "sized s n" "\<not> small s n"
    and a: "a \<noteq> 0" "unat (sys_page_size s) dvd unat a" "unat a + unat (page_size_of s n) \<le> 2 ^ 64"
      "page_range (sys_page_size s) a (page_size_of s n) \<inter> mapped s = {}"
    and t: "t = s\<lparr>mapped := mapped s \<union> page_range (sys_page_size s) a (page_size_of s n), mem := m\<rparr>"
  shows "(a, n) \<notin> B" and "heap_ok t (insert (a, n) B)" and "shape s (a, n)" and "same_params s t"
proof -
  note D = heap_okD [OF H]
  let ?R = "page_range (sys_page_size s) a (page_size_of s n)"
  show sh: "shape s (a, n)" using n a by (simp add: shape.simps)
  have pg: "pages_of s (a, n) = ?R" "units_of s (a, n) = {}" using n(2) by (simp_all add: pages_of.simps units_of.simps)
  show par: "same_params s t" by (simp add: t same_params_def)
  have "pet_inv (s\<lparr>mapped := mapped s \<union> ?R\<rparr>)"
    using header_mapped [OF D(1)] by (intro pet_inv_mapped [OF D(1)]) blast
  then have inv: "pet_inv t" unfolding t by (rule pet_inv_counters(3))
  have u: "used t = used s" by (rule used_eq [OF par]) (simp add: t bitmaps_def fun_eq_iff)
  have d: "direct_pages t = direct_pages s \<union> ?R"
    using a(4) header_mapped [OF D(1)] by (auto simp: direct_pages_def t)
  have fresh: "direct_pages s \<inter> ?R = {}" using a(4) by (auto simp: direct_pages_def)
  have "a \<in> ?R"
    using geometry_bounds(2,5) [OF D(2)] sized_pages(3) [OF D(2) n(1)] by (intro page_range_self) simp_all
  then show "(a, n) \<notin> B" using D(4) [of "(a, n)"] fresh pg(1) by blast
  have "heap_ok t ((B - {}) \<union> {(a, n)})"
    using sh u d fresh by (intro heap_ok_update [OF H _ inv par]) (simp_all add: pg)
  then show "heap_ok t (insert (a, n) B)" by simp
qed

lemma pet_allocate_ok:
  assumes H: "heap_ok s B" and mm: "mmap_ok (sys_page_size s) mm" and n: "sized s n"
  shows "(\<exists>t. pet_allocate mm s n clean = Inr (t, 0) \<and> heap_ok t B \<and> same_params s t \<and> mem t = mem s \<and>
       blocks_allocated t = blocks_allocated s \<and>
       mm (mapped s) (if small s n then sys_page_size s else page_size_of s n) = 0) \<or>
    (\<exists>t a. pet_allocate mm s n clean = Inr (t, a) \<and> new_block s B n clean t a \<and>
       blocks_allocated t = blocks_allocated s + 1)"
proof -
  note D = heap_okD [OF H]
  have n0: "n \<noteq> 0" using n by (simp add: sized_def)
  show ?thesis
  proof (cases "small s n")
    case True
    then have lt: "bytes_to_units n < max_data_units s" by (simp add: small_def)
    then have le: "bytes_to_units n \<le> max_data_units s" by simp
    have eq: "pet_allocate mm s n clean = bm_allocate mm s (bytes_to_units n) clean"
      using lt n0 by (simp add: pet_allocate_def)
    from bm_allocate_ok [OF D(1) mm sized_units(2) [OF D(2) n] le, of clean] show ?thesis
    proof (elim disjE exE conjE)
      fix t assume "bm_allocate mm s (bytes_to_units n) clean = Inr (t, 0)" "moves_to s t (used s)"
        "blocks_allocated t = blocks_allocated s" "mm (mapped s) (sys_page_size s) = 0"
      then show ?thesis using heap_ok_moves [OF H] True by (simp add: eq moves_to_def)
    next
      fix t a assume t: "bm_allocate mm s (bytes_to_units n) clean = Inr (t, a)" "a \<noteq> 0"
        "gets_block s (bytes_to_units n) clean t a"
      then have "blocks_allocated t = blocks_allocated s + 1" by (simp add: gets_block_def)
      with t(1) gets_block_new [OF H n True t(3,2)] show ?thesis by (simp add: eq)
    qed
  next
    case False
    then have ge: "\<not> bytes_to_units n < max_data_units s" by (simp add: small_def)
    let ?sz = "page_size_of s n"
    let ?a = "mm (mapped s) ?sz"
    have eq: "pet_allocate mm s n clean = (let (s, result) = call_mmap mm s ?sz clean
        in Inr (if result \<noteq> 0 then s\<lparr>blocks_allocated := blocks_allocated s + 1\<rparr> else s, result))"
      using ge n0 by (simp add: pet_allocate_def page_size_of_def)
    show ?thesis
    proof (cases "?a = 0")
      case True
      then show ?thesis using H False by (simp add: eq call_mmap_def same_params_refl)
    next
      case nz: False
      note M = mmap_okD [OF mm nz]
      let ?m = "if clean then cleanse (mem s) ?a 0 ?sz else mem s"
      let ?t = "s\<lparr>mapped := mapped s \<union> page_range (sys_page_size s) ?a ?sz, mem := ?m\<rparr>"
      have a64: "unat ?a + unat ?sz \<le> 2 ^ 64" using M(2) by simp
      have t: "?t = s\<lparr>mapped := mapped s \<union> page_range (sys_page_size s) ?a ?sz, mem := ?m\<rparr>" ..
      note L = map_large [OF H n False nz M(1) a64 M(3) t]
      have c: "cleanse (mem s) ?a 0 ?sz = zero_range (mem s) (unat ?a) (unat ?a + unat ?sz)"
        using a64 by (simp add: cleanse_eq)
      have "mem ?t x = mem s x" if "x \<notin> block_region s (?a, n) \<or> \<not> clean" for x
        using that large_region [OF D(2) L(3) False, of x] by (auto simp: c zero_range_def)
      moreover have "clean \<Longrightarrow> x \<in> block_bytes (?a, n) \<Longrightarrow> mem ?t x = 0" for x
        using sized_pages(2) [OF D(2) n] by (simp add: c zero_range_def block_bytes_def)
      ultimately have "new_block s B n clean (?t\<lparr>blocks_allocated := blocks_allocated s + 1\<rparr>) ?a"
        using nz L(1,4) heap_ok_counters(1) [OF L(2)] by (simp add: new_block_def)
      then show ?thesis using nz by (simp add: eq call_mmap_def Let_def)
    qed
  qed
qed

subsection \<open>Release\<close>

lemma block_in_heap:
  assumes H: "heap_ok s B" and b: "(a, n) \<in> B" "small s n"
  obtains p and offset :: u32 where "a \<noteq> 0" and "a \<noteq> p" and "bm_page_by_addr s a = p" and "ptrdiff_to_units a p = offset"
    and "units_of s (a, n) = block_units p (unat offset) (unat (bytes_to_units n))"
    and "pages s p \<noteq> None" and "unat (bm_page_header_size_in_units s) \<le> unat offset"
    and "unat offset + unat (bytes_to_units n) \<le> unat (units_per_page s)"
    and "unat a = unat p + 16 * unat offset" and "unat p + unat (sys_page_size s) \<le> 2 ^ 64"
    and "a = unit_addr p offset" and "unat (sys_page_size s) dvd unat p"
proof (rule small_block [OF heap_okD(2,3) [OF H] b(2)])
  show "(a, n) \<in> B" by (rule b(1))
next
  fix p and offset :: u32
  assume p: "a = unit_addr p offset" "bm_page_by_addr s a = p" "ptrdiff_to_units a p = offset" "a \<noteq> p" "a \<noteq> 0"
    "units_of s (a, n) = block_units p (unat offset) (unat (bytes_to_units n))"
    "unat (bm_page_header_size_in_units s) \<le> unat offset"
    "unat offset + unat (bytes_to_units n) \<le> unat (units_per_page s)"
    "unat a = unat p + 16 * unat offset" "unat p + unat (sys_page_size s) \<le> 2 ^ 64"
    "unat (sys_page_size s) dvd unat p" "0 < unat (bytes_to_units n)"
  have "(p, unat offset) \<in> used s"
    using heap_okD(6) [OF H b(1)] p(6,12) by (auto simp: block_units_def)
  then have "pages s p \<noteq> None" by (auto simp: used_def bitmaps_def)
  then show thesis using that p by simp
qed

lemma unmap_large:
  assumes H: "heap_ok s B" and b: "(a, n) \<in> B" "\<not> small s n"
  shows "heap_ok (call_munmap s a (page_size_of s n)) (B - {(a, n)})"
    and "same_params s (call_munmap s a (page_size_of s n))"
    and "mem (call_munmap s a (page_size_of s n)) = mem s"
    and "blocks_allocated (call_munmap s a (page_size_of s n)) = blocks_allocated s"
proof -
  note D = heap_okD [OF H]
  let ?R = "page_range (sys_page_size s) a (page_size_of s n)"
  note L = large_block [OF D(2) D(3) [OF b(1)] b(2)]
  have R: "?R \<subseteq> direct_pages s" using D(4) [OF b(1)] by (simp add: L(3))
  then have "pages s = (\<lambda>p. if p \<in> ?R then None else pages s p)"
    by (auto simp: direct_pages_def fun_eq_iff)
  then have t: "call_munmap s a (page_size_of s n) = s\<lparr>mapped := mapped s - ?R\<rparr>"
    unfolding call_munmap_def Let_def by (cases s) simp
  show par: "same_params s (call_munmap s a (page_size_of s n))"
    "mem (call_munmap s a (page_size_of s n)) = mem s"
    "blocks_allocated (call_munmap s a (page_size_of s n)) = blocks_allocated s"
    by (simp_all add: t same_params_def)
  have "pet_inv (s\<lparr>mapped := mapped s - ?R\<rparr>)"
    using header_mapped [OF D(1)] R by (intro pet_inv_mapped [OF D(1)]) (auto simp: direct_pages_def)
  moreover have "used (s\<lparr>mapped := mapped s - ?R\<rparr>) = used s" by (simp add: used_def bitmaps_def)
  moreover have "direct_pages (s\<lparr>mapped := mapped s - ?R\<rparr>) = direct_pages s - ?R" by (auto simp: direct_pages_def)
  ultimately have "heap_ok (s\<lparr>mapped := mapped s - ?R\<rparr>) ((B - {(a, n)}) \<union> {})"
    using b(1) par(1) unfolding t by (intro heap_ok_update [OF H]) (simp_all add: L(3,4))
  then show "heap_ok (call_munmap s a (page_size_of s n)) (B - {(a, n)})" by (simp add: t)
qed

lemma pet_release_ok:
  assumes H: "heap_ok s B" and b: "(a, n) \<in> B"
  obtains t where "pet_release s a n = Inr (t, 0)" and "heap_ok t (B - {(a, n)})" and "mem t = mem s"
    and "same_params s t" and "blocks_allocated t = blocks_allocated s - 1"
proof -
  note D = heap_okD [OF H]
  have n: "sized s n" "n \<noteq> 0" using shape_sized [OF D(3) [OF b]] by (simp_all add: sized_def)
  show thesis
  proof (cases "small s n")
    case False
    note L = large_block [OF D(2) D(3) [OF b] False]
    note U = unmap_large [OF H b False]
    let ?u = "call_munmap s a (page_size_of s n)"
    show thesis
      by (rule that [of "?u\<lparr>blocks_allocated := blocks_allocated ?u - 1\<rparr>"])
        (use L(1,2) n(2) U in \<open>simp_all add: pet_release_def page_size_of_def Let_def\<close>)
  next
    case True
    show thesis
    proof (rule block_in_heap [OF H b True])
      fix p and offset :: u32
      assume p: "a \<noteq> 0" "a \<noteq> p" "bm_page_by_addr s a = p" "ptrdiff_to_units a p = offset"
        "units_of s (a, n) = block_units p (unat offset) (unat (bytes_to_units n))" "pages s p \<noteq> None"
        "unat (bm_page_header_size_in_units s) \<le> unat offset"
        "unat offset + unat (bytes_to_units n) \<le> unat (units_per_page s)"
      show thesis
      proof (rule bm_release_ok [OF D(1) p(6-8)])
        fix t assume t: "bm_release s p offset (bytes_to_units n) = Inr t"
          "moves_to s t (used s - block_units p (unat offset) (unat (bytes_to_units n)))"
          "blocks_allocated t = blocks_allocated s - 1"
        have "pages_of s (a, n) = {}" using True by (simp add: pages_of.simps)
        then have "heap_ok t ((B - {(a, n)}) \<union> {})"
          using t(2) b by (intro heap_ok_update [OF H]) (simp_all add: moves_to_def p(5))
        then show thesis
          using that [of t] t p(1-4) n(2) by (simp add: pet_release_def moves_to_def)
      qed
    qed
  qed
qed

end
