(* ===== verification/Pet_Realloc.thy ===== *)
theory Pet_Realloc
  imports Pet_Heap
begin

text \<open>
  Initialisation, and resizing a block against the contract: the block keeps its contents up to the
  smaller size, the rest is zeroed on request, and the other blocks are untouched. Shrinking a block that
  was mapped directly to a size of the sub-allocator is the one case that is not covered here: the code
  does not do it right.
\<close>

subsection \<open>Initialisation\<close>

lemma pet_init_ok:
  assumes ps: "unat ps = 2 ^ k" "10 \<le> k" "k \<le> 31" and a: "mm {} ps \<noteq> 0"
  obtains t where "pet_init mm (static_state ps m) = Inr t" and "heap_ok t {}" and "used t = {}"
    and "blocks_allocated t = 0" and "sys_page_size t = ps" and "mapped t = page_range ps (mm {} ps) ps"
    and "pages t = (\<lambda>p. None)"
proof -
  let ?upp = "ps div 16"
  let ?hdr = "(24 + ?upp div 8 + 16 - 1) div 16 :: u32"
  define t where "t = (static_state ps m)\<lparr>units_per_page := ?upp, bm_page_header_size_in_units := ?hdr,
      max_data_units := ?upp - ?hdr, mapped := page_range ps (mm {} ps) ps,
      mem := cleanse m (mm {} ps) 0 ps, superblock := replicate (unat ps div 8) 0\<rparr>"
  have init: "pet_init mm (static_state ps m) = Inr t"
    using a by (simp add: pet_init_def call_mmap_def static_state_def Let_def t_def)
  have upp: "unat ?upp = unat ps div 16" by (simp add: unat_div)
  have d: "unat (x div 8) = unat x div 8" "unat (x div 16) = unat x div 16" for x :: u32
    by (simp_all add: unat_div)
  have "unat (39 + ?upp div 8) = 39 + unat ?upp div 8"
    using unat_u32_bound [of ps] by (subst unat_add_exact) (simp_all add: d)
  moreover have "?hdr = (39 + ?upp div 8) div 16" by (simp add: algebra_simps)
  ultimately have "unat ?hdr = (39 + unat ?upp div 8) div 16" by (simp only: d)
  then have g: "geometry t"
    using ps upp by (auto simp: geometry_def t_def static_state_def)
  have v: "pages t p = None" "lst t p = None" "bitmaps t p = None" "nxt t p = 0" "prv t p = 0" for p
    by (simp_all add: t_def static_state_def view_defs)
  have h: "head t l = 0" for l by (cases l) (simp_all add: t_def static_state_def)
  have "rings t {}" by (simp add: rings_def v h)
  then have "pet_core t {} {}"
    using g upp by (simp add: pet_core_def pages_ok_def labels_ok_def v) (simp add: t_def)
  then have inv: "pet_inv t" unfolding pet_inv_def by blast
  have u: "used t = {}" by (simp add: used_def v)
  then have "heap_ok t {}" using inv by (simp add: heap_ok_def)
  then show thesis using that [OF init] u by (simp add: t_def static_state_def)
qed

lemma pet_init_abort: "mm {} ps = 0 \<Longrightarrow> pet_init mm (static_state ps m) = Inl Abort"
  by (simp add: pet_init_def call_mmap_def static_state_def Let_def)

subsection \<open>Resizing\<close>

definition same_bytes :: "pet \<Rightarrow> pet \<Rightarrow> block set \<Rightarrow> bool" where
  "same_bytes s t B \<longleftrightarrow> (\<forall>b\<in>B. \<forall>x\<in>block_bytes b. mem t x = mem s x)"

definition resized :: "pet \<Rightarrow> block set \<Rightarrow> u64 \<Rightarrow> u32 \<Rightarrow> u32 \<Rightarrow> bool \<Rightarrow> pet \<Rightarrow> u64 \<Rightarrow> bool" where
  "resized s B a old new clean t a' \<longleftrightarrow>
     a' \<noteq> 0 \<and> heap_ok t (insert (a', new) (B - {(a, old)})) \<and> same_params s t \<and>
     same_bytes s t (B - {(a, old)}) \<and>
     (\<forall>i < min (unat old) (unat new). mem t (a' + of_nat i) = mem s (a + of_nat i)) \<and>
     (clean \<longrightarrow> (\<forall>i. unat old \<le> i \<and> i < unat new \<longrightarrow> mem t (a' + of_nat i) = 0))"

text \<open>
  What the code relies on for \<open>mremap\<close>: a grown block is at an address on a page boundary where nothing
  else is mapped, and a block that shrinks stays where it is.
\<close>

definition mremap_ok :: "u32 \<Rightarrow> mremap_fun \<Rightarrow> bool" where
  "mremap_ok ps mr \<longleftrightarrow>
     (\<forall>M a old new. mr M a old new \<noteq> 0 \<longrightarrow>
        unat ps dvd unat (mr M a old new) \<and> unat (mr M a old new) + unat new + unat ps \<le> 2 ^ 64 \<and>
        page_range ps (mr M a old new) new \<inter> (M - page_range ps a old) = {} \<and>
        (new < old \<longrightarrow> mr M a old new = a))"

lemma same_bytes_refl: "mem t = mem s \<Longrightarrow> same_bytes s t B"
  by (simp add: same_bytes_def)

lemma same_bytes_trans: "same_bytes s t B \<Longrightarrow> same_bytes t u B \<Longrightarrow> same_bytes s u B"
  by (simp add: same_bytes_def)

lemma same_bytes_outside:
  assumes "heap_ok s B" and "b \<in> B" and "\<And>x. x \<notin> block_region s b \<Longrightarrow> mem t x = mem s x"
  shows "same_bytes s t (B - {b})"
proof -
  have "mem t x = mem s x" if c: "c \<in> B" "c \<noteq> b" "x \<in> block_bytes c" for c x
  proof -
    have "x \<in> block_region s c"
      using block_bytes_region [OF heap_okD(2,3) [OF assms(1)]] c by blast
    then have "x \<notin> block_region s b" using regions_disjoint [OF assms(1) c(1) assms(2) c(2)] by blast
    then show ?thesis by (rule assms(3))
  qed
  then show ?thesis unfolding same_bytes_def by blast
qed

lemma block_end:
  assumes "geometry s" and "shape s (a, n)"
  shows "unat a + unat n \<le> 2 ^ 64"
proof -
  have n: "sized s n" by (rule shape_sized [OF assms(2)])
  show ?thesis
  proof (cases "small s n")
    case False
    show ?thesis using large_block(6) [OF assms False] sized_pages(2) [OF assms(1) n] by linarith
  next
    case True
    obtain p :: u64 and offset :: u32 where p: "unat offset + unat (bytes_to_units n) \<le> unat (units_per_page s)"
      "unat a = unat p + 16 * unat offset" "unat p + unat (sys_page_size s) \<le> 2 ^ 64"
      by (rule small_block [OF assms True], rule that)
    have "16 * unat offset + 16 * unat (bytes_to_units n) \<le> unat (sys_page_size s)"
      using p(1) geometry_bounds(2) [OF assms(1)] by simp
    then show ?thesis using p(2,3) sized_units(3) [OF assms(1) n] by linarith
  qed
qed

lemma byte_addr:
  assumes "unat a + unat n \<le> 2 ^ 64" and "i < unat n"
  shows "unat (a + of_nat i) = unat a + i" and "a + of_nat i \<in> block_bytes (a, n)"
proof -
  have "i < 2 ^ 64" using assms unat_u32_bound [of n] by simp
  then have "unat (of_nat i :: u64) = i" by (simp add: unsigned_of_nat take_bit_nat_eq_self)
  then show "unat (a + of_nat i) = unat a + i" using assms by (subst unat_add_exact) simp_all
  then show "a + of_nat i \<in> block_bytes (a, n)" using assms(2) by (simp add: block_bytes_def)
qed

text \<open>
  Zeroing the tail of a block after a resize in place: the resized block as it must be, nothing else.
\<close>

definition zero_tail :: "pet \<Rightarrow> u64 \<Rightarrow> u32 \<Rightarrow> u32 \<Rightarrow> bool \<Rightarrow> pet" where
  "zero_tail s a old new clean =
     (if clean then s\<lparr>mem := zero_range (mem s) (unat a + unat old) (unat a + unat new)\<rparr> else s)"

lemma cleanse_tail:
  assumes "unat a + unat new \<le> 2 ^ 64" and "unat old \<le> unat new"
  shows "(if clean then s\<lparr>mem := cleanse (mem s) a old new\<rparr> else s) = zero_tail s a old new clean"
  using assms by (simp add: zero_tail_def cleanse_eq)

lemma resized_in_place:
  assumes H: "heap_ok s B" "(a, old) \<in> B" and t: "heap_ok t (insert (a, new) (B - {(a, old)}))"
      "same_params s t" "mem t = mem s" "(a, new) \<notin> B - {(a, old)}"
  shows "resized s B a old new clean (zero_tail t a old new clean) a"
proof -
  note D = heap_okD [OF t(1)]
  let ?u = "zero_tail t a old new clean"
  have sh: "shape t (a, new)" using D(3) by blast
  have e: "unat a + unat new \<le> 2 ^ 64" by (rule block_end [OF D(2) sh])
  have m: "mem ?u x = mem s x" if "x \<notin> block_bytes (a, new) \<or> unat x < unat a + unat old \<or> \<not> clean" for x
    using that by (auto simp: zero_tail_def zero_range_def block_bytes_def t(3))
  have "same_bytes t ?u (insert (a, new) (B - {(a, old)}) - {(a, new)})"
    using m block_bytes_region [OF D(2) sh] by (intro same_bytes_outside [OF t(1)]) (auto simp: t(3))
  then have "same_bytes s ?u (B - {(a, old)})"
    using t(3,4) by (simp add: same_bytes_def)
  moreover have "mem ?u (a + of_nat i) = mem s (a + of_nat i)" if "i < min (unat old) (unat new)" for i
    using that byte_addr(1) [OF e, of i] by (intro m) simp
  moreover have "mem ?u (a + of_nat i) = 0" if "clean" "unat old \<le> i" "i < unat new" for i
    using that byte_addr(1) [OF e, of i] by (simp add: zero_tail_def zero_range_def)
  moreover have "heap_ok ?u (insert (a, new) (B - {(a, old)}))" "same_params s ?u"
    using heap_ok_counters(2) [OF t(1)] t(1,2) by (simp_all add: zero_tail_def)
  moreover have "a \<noteq> 0"
    using small_block [OF D(2) sh] large_block(2) [OF D(2) sh] by blast
  ultimately show ?thesis by (simp add: resized_def)
qed

lemma other_size_new:
  assumes H: "heap_ok s B" "(a, old) \<in> B" and "(a, new) \<in> B - {(a, old)}"
  shows False
proof -
  have "(a, new) \<in> B" "(a, new) \<noteq> (a, old)" using assms(3) by blast+
  moreover have "a \<in> block_bytes (a, n)" if "(a, n) \<in> B" for n
    using shape_sized [OF heap_okD(3) [OF H(1) that]] by (simp add: block_bytes_def sized_def unat_gt_0)
  ultimately show False
    using regions_disjoint [OF H(1) _ H(2)] block_bytes_region [OF heap_okD(2,3) [OF H(1)]] H(2) by blast
qed

subsection \<open>Small blocks that stay where they are\<close>

lemma resize_small:
  assumes H: "heap_ok s B" "(a, old) \<in> B" and n: "small s old" "sized s new" "small s new"
    and p: "bm_page_by_addr s a = p" "ptrdiff_to_units a p = offset" "a = unit_addr p offset"
      "unat (sys_page_size s) dvd unat p" "unat p + unat (sys_page_size s) \<le> 2 ^ 64"
      "unat (bm_page_header_size_in_units s) \<le> unat offset"
    and fit: "unat offset + unat (bytes_to_units new) \<le> unat (units_per_page s)"
      "(used s - units_of s (a, old)) \<inter> block_units p (unat offset) (unat (bytes_to_units new)) = {}"
    and t: "moves_to s t ((used s - units_of s (a, old)) \<union> block_units p (unat offset) (unat (bytes_to_units new)))"
  shows "resized s B a old new clean (zero_tail t a old new clean) a"
proof -
  have u: "units_of s (a, new) = block_units p (unat offset) (unat (bytes_to_units new))"
    using n(3) by (simp add: units_of.simps p(1,2))
  have pg: "pages_of s (a, old) = {}" "pages_of s (a, new) = {}" using n by (simp_all add: pages_of.simps)
  have sh: "shape s (a, new)" using n(2,3) p(3-6) fit(1) by (auto simp: shape.simps)
  have T: "pet_inv t" "same_params s t" "direct_pages t = direct_pages s" "mem t = mem s"
    "used t = (used s - units_of s (a, old)) \<union> units_of s (a, new)"
    using t by (simp_all add: moves_to_def u)
  have "heap_ok t ((B - {(a, old)}) \<union> {(a, new)})"
    using H(2) T fit(2) sh by (intro heap_ok_update [OF H(1)]) (simp_all add: u pg)
  then show ?thesis
    using T other_size_new [OF H] by (intro resized_in_place [OF H]) auto
qed

lemma same_units_pages:
  assumes g: "geometry s" and n: "sized s old" "sized s new" and u: "bytes_to_units new = bytes_to_units old"
  shows "page_size_of s new = page_size_of s old"
proof -
  obtain k where k: "unat (sys_page_size s) = 2 ^ k" "10 \<le> k" by (rule geometry_page_size [OF g])
  have le: "round_up k (unat x) \<le> round_up k (unat y)"
    if "sized s x" "sized s y" "bytes_to_units x = bytes_to_units y" for x y
  proof (rule round_up_least)
    have "unat x \<le> 16 * unat (bytes_to_units y)" using sized_units(3) [OF g that(1)] that(3) by simp
    also have "\<dots> = round_up 4 (unat y)" by (simp add: sized_units(1) [OF g that(2)] round_up_def)
    also have "\<dots> \<le> round_up k (unat y)"
    proof (rule round_up_least)
      show "unat y \<le> round_up k (unat y)" by (rule round_up_ge)
      have "(2::nat) ^ 4 dvd 2 ^ k" using k(2) by (intro le_imp_power_dvd) simp
      then show "2 ^ 4 dvd round_up k (unat y)" using round_up_dvd by (rule dvd_trans)
    qed
    finally show "unat x \<le> round_up k (unat y)" .
    show "2 ^ k dvd round_up k (unat y)" by (rule round_up_dvd)
  qed
  have e: "unat (page_size_of s x) = round_up k (unat x)" if "sized s x" for x
    unfolding page_size_of_def align_unsigned_to_page_def
    by (rule align_unsigned_pow2) (use k that in \<open>simp_all add: sized_def\<close>)
  show ?thesis
    using le [OF n(2,1) u] le [OF n u [symmetric]] by (simp add: unat_eq_iff e n)
qed

lemma resize_same_extent:
  assumes H: "heap_ok s B" "(a, old) \<in> B" and sh: "shape s (a, new)"
    and eq: "units_of s (a, new) = units_of s (a, old)" "pages_of s (a, new) \<subseteq> pages_of s (a, old)"
  shows "heap_ok s (insert (a, new) (B - {(a, old)}))"
    and "resized s B a old new clean (zero_tail s a old new clean) a"
proof -
  note D = heap_okD [OF H(1)]
  have "heap_ok s ((B - {(a, old)}) \<union> {(a, new)})"
  proof (rule heap_ok_update [OF H(1) _ D(1) same_params_refl])
    show "used s = used s - (\<Union>b\<in>{(a, old)}. units_of s b) \<union> (\<Union>b\<in>{(a, new)}. units_of s b)"
      using D(6) [OF H(2)] by (auto simp: eq(1))
  qed (use H(2) D(4) [OF H(2)] sh eq(2) in \<open>auto simp: eq(1)\<close>)
  then show h: "heap_ok s (insert (a, new) (B - {(a, old)}))" by simp
  show "resized s B a old new clean (zero_tail s a old new clean) a"
    using other_size_new [OF H] same_params_refl by (intro resized_in_place [OF H h]) auto
qed

lemma realloc_same_units:
  assumes H: "heap_ok s B" "(a, old) \<in> B" and n: "sized s new" "bytes_to_units new = bytes_to_units old"
  shows "resized s B a old new clean (zero_tail s a old new clean) a"
proof -
  note D = heap_okD [OF H(1)]
  have old: "sized s old" by (rule shape_sized [OF D(3) [OF H(2)]])
  have sm: "small s new = small s old" by (simp add: small_def n(2))
  have pz: "page_size_of s new = page_size_of s old" by (rule same_units_pages [OF D(2) old n])
  have eq: "units_of s (a, new) = units_of s (a, old)" "pages_of s (a, new) \<subseteq> pages_of s (a, old)"
    by (simp_all add: units_of.simps pages_of.simps sm pz n(2))
  have "shape s (a, new)"
    using D(3) [OF H(2)] n(1) unfolding shape.simps sm pz n(2) by blast
  then show ?thesis by (rule resize_same_extent(2) [OF H _ eq])
qed

lemma block_units_split:
  "n \<le> m \<Longrightarrow> block_units p off m = block_units p off n \<union> block_units p (off + n) (m - n)"
  by (auto simp: block_units_def)

lemma block_units_disjoint: "block_units p off n \<inter> block_units p (off + n) m = {}"
  by (auto simp: block_units_def)

lemma realloc_shrink_small:
  assumes H: "heap_ok s B" "(a, old) \<in> B" and n: "sized s new" "small s new" "small s old"
    "bytes_to_units new < bytes_to_units old" and a: "a \<noteq> 0"
  obtains t where "pet_shrink mm mr s a old new = Inr (t, a, False, True)" and "resized s B a old new False t a"
    and "blocks_allocated t = blocks_allocated s"
proof (rule block_in_heap [OF H n(3)])
  note D = heap_okD [OF H(1)]
  fix p and offset :: u32
  assume p: "a \<noteq> p" "bm_page_by_addr s a = p" "ptrdiff_to_units a p = offset"
    "units_of s (a, old) = block_units p (unat offset) (unat (bytes_to_units old))" "pages s p \<noteq> None"
    "unat (bm_page_header_size_in_units s) \<le> unat offset"
    "unat offset + unat (bytes_to_units old) \<le> unat (units_per_page s)"
    "unat p + unat (sys_page_size s) \<le> 2 ^ 64" "a = unit_addr p offset" "unat (sys_page_size s) dvd unat p"
  have le: "unat (bytes_to_units new) \<le> unat (bytes_to_units old)" using n(4) by (simp add: word_less_nat_alt)
  note S = block_units_split [OF le, of p "unat offset"] block_units_disjoint [of p "unat offset" "unat (bytes_to_units new)"]
  have U: "units_of s (a, old) \<subseteq> used s" by (rule D(6) [OF H(2)])
  show thesis
  proof (rule bm_shrink_ok [OF D(1) p(5-7) le])
    fix t assume t: "bm_shrink s p offset (bytes_to_units old) (bytes_to_units new) = Inr t"
      "moves_to s t (used s - block_units p (unat offset + unat (bytes_to_units new))
        (unat (bytes_to_units old) - unat (bytes_to_units new)))"
      "blocks_allocated t = blocks_allocated s"
    have "used s - block_units p (unat offset + unat (bytes_to_units new))
        (unat (bytes_to_units old) - unat (bytes_to_units new)) =
      (used s - units_of s (a, old)) \<union> block_units p (unat offset) (unat (bytes_to_units new))"
      using U S unfolding p(4) by blast
    with t(2) have m: "moves_to s t
        ((used s - units_of s (a, old)) \<union> block_units p (unat offset) (unat (bytes_to_units new)))" by simp
    have "(used s - units_of s (a, old)) \<inter> block_units p (unat offset) (unat (bytes_to_units new)) = {}"
      unfolding p(4) S(1) by blast
    from resize_small [OF H n(3,1,2) p(2,3,9,10,8,6) _ this m, of False] p(7) le
    have "resized s B a old new False t a" by (simp add: zero_tail_def)
    moreover have "pet_shrink mm mr s a old new = Inr (t, a, False, True)"
      using n(2,3) p(1-3) t(1) by (simp add: pet_shrink_def small_def)
    ultimately show thesis using that t(3) by blast
  qed
qed

subsection \<open>Moving a block\<close>

text \<open>The two outcomes of a resize. A resize that fails leaves every block as it is.\<close>

definition resize_outcome ::
  "pet \<Rightarrow> block set \<Rightarrow> u64 \<Rightarrow> u32 \<Rightarrow> u32 \<Rightarrow> bool \<Rightarrow> pet \<times> u64 \<times> bool \<times> bool \<Rightarrow> bool" where
  "resize_outcome s B a old new clean r \<longleftrightarrow>
     (case r of (t, a', changed, ok) \<Rightarrow>
        changed = (a' \<noteq> a) \<and> blocks_allocated t = blocks_allocated s \<and>
        (if ok then resized s B a old new clean t a'
         else a' = a \<and> heap_ok t B \<and> same_params s t \<and> same_bytes s t B))"

lemma resize_outcome_trans:
  assumes "heap_ok s B" and m: "same_params s s1" "same_bytes s s1 B" "blocks_allocated s1 = blocks_allocated s"
    and b: "(a, old) \<in> B" and r: "resize_outcome s1 B a old new clean r"
  shows "resize_outcome s B a old new clean r"
proof -
  obtain t a' changed ok where e: "r = (t, a', changed, ok)" by (cases r) auto
  have sb: "same_bytes s s1 (B - {(a, old)})" using m(2) unfolding same_bytes_def by blast
  note D = heap_okD [OF assms(1)]
  have "mem s1 (a + of_nat i) = mem s (a + of_nat i)" if "i < unat old" for i
    using byte_addr(2) [OF block_end [OF D(2) D(3) [OF b]] that] m(2) b by (auto simp: same_bytes_def)
  then have "resized s1 B a old new clean t a' \<Longrightarrow> resized s B a old new clean t a'"
    using same_params_trans [OF m(1), of t] same_bytes_trans [OF sb, of t] by (simp add: resized_def)
  then show ?thesis
    using r same_params_trans [OF m(1), of t] same_bytes_trans [OF m(2), of t] m(3)
    by (auto simp: resize_outcome_def e)
qed

lemma copied_bytes:
  assumes "unat a' + unat n \<le> 2 ^ 64" and "i < unat n"
  shows "moved_mem m a' a n (a' + of_nat i) = m (a + of_nat i)"
  using assms byte_addr(1) [OF assms] by (simp add: moved_mem_def)

lemma pet_move_ok:
  assumes H: "heap_ok s B" "(a, old) \<in> B" and mm: "mmap_ok (sys_page_size s) mm"
    and n: "sized s new" "unat old \<le> unat new" and a: "a \<noteq> 0"
  obtains r where "pet_move mm s a old new clean = Inr r" and "resize_outcome s B a old new clean r"
  using pet_allocate_ok [OF H(1) mm n(1), of False]
proof (elim disjE exE conjE)
  fix t assume "pet_allocate mm s new False = Inr (t, 0)" "heap_ok t B" "same_params s t" "mem t = mem s"
    "blocks_allocated t = blocks_allocated s"
  then show thesis
    using that [of "(t, a, False, False)"] by (simp add: pet_move_def resize_outcome_def same_bytes_refl)
next
  fix t1 a' assume t1: "pet_allocate mm s new False = Inr (t1, a')" "new_block s B new False t1 a'"
    and ba: "blocks_allocated t1 = blocks_allocated s + 1"
  have N: "a' \<noteq> 0" "(a', new) \<notin> B" "heap_ok t1 (insert (a', new) B)" "same_params s t1" "mem t1 = mem s"
    using t1(2) by (simp_all add: new_block_def fun_eq_iff)
  note D1 = heap_okD [OF N(3)]
  have sh: "shape t1 (a', new)" by (rule D1(3)) simp
  have e: "unat a' + unat new \<le> 2 ^ 64" by (rule block_end [OF D1(2) sh])
  let ?s2 = "copy t1 a' a old"
  have H2: "heap_ok ?s2 (insert (a', new) B)" "(a, old) \<in> insert (a', new) B"
    using heap_ok_counters(2) [OF N(3)] H(2) by (simp_all add: copy_def)
  have other: "insert (a', new) B - {(a, old)} = insert (a', new) (B - {(a, old)})" using N(2) H(2) by auto
  show thesis
  proof (rule pet_release_ok [OF H2])
    fix t3 assume t3: "pet_release ?s2 a old = Inr (t3, 0)" "heap_ok t3 (insert (a', new) B - {(a, old)})"
      "mem t3 = mem ?s2" "same_params ?s2 t3" "blocks_allocated t3 = blocks_allocated ?s2 - 1"
    let ?u = "zero_tail t3 a' old new clean"
    have "mem ?u x = mem t1 x" if "x \<notin> block_bytes (a', new)" for x
      using that n(2) by (auto simp: zero_tail_def zero_range_def block_bytes_def t3(3) copy_def moved_mem_def)
    then have "same_bytes t1 ?u (insert (a', new) B - {(a', new)})"
      using block_bytes_region [OF D1(2) sh] by (intro same_bytes_outside [OF N(3)]) auto
    then have sb: "same_bytes s ?u (B - {(a, old)})" using N(2,5) by (auto simp: same_bytes_def)
    have e2: "unat a' + unat old \<le> 2 ^ 64" using e n(2) by simp
    have old: "mem ?u (a' + of_nat i) = mem s (a + of_nat i)" if "i < unat old" for i
      using copied_bytes [OF e2 that, of "mem t1" a] byte_addr(1) [OF e2 that] that
      by (simp add: zero_tail_def zero_range_def t3(3) copy_def N(5))
    have new: "mem ?u (a' + of_nat i) = 0" if "clean" "unat old \<le> i" "i < unat new" for i
      using that byte_addr(1) [OF e, of i] by (simp add: zero_tail_def zero_range_def)
    have par: "same_params s ?u"
      using same_params_trans [OF N(4)] t3(4) by (simp add: zero_tail_def copy_def same_params_def)
    have hk: "heap_ok ?u (insert (a', new) (B - {(a, old)}))"
      using t3(2) heap_ok_counters(2) [OF t3(2)] unfolding other by (simp add: zero_tail_def)
    have "a' \<noteq> a"
    proof
      assume "a' = a"
      then have "(a, new) \<in> insert (a, new) B - {(a, old)}" using N(2) H(2) by auto
      then show False
        using other_size_new [OF N(3) [unfolded \<open>a' = a\<close>]] H(2) by blast
    qed
    then have "resize_outcome s B a old new clean (?u, a', True, True)"
      using N(1) hk par sb old new t3(5) ba
      by (auto simp: resize_outcome_def resized_def) (simp_all add: zero_tail_def copy_def)
    moreover have "pet_move mm s a old new clean = Inr (?u, a', True, True)"
      using N(1) t3(1) cleanse_tail [OF e n(2), of clean t3] by (simp add: pet_move_def t1(1) Let_def)
    ultimately show thesis using that by blast
  qed
qed

lemma realloc_grow_small:
  assumes H: "heap_ok s B" "(a, old) \<in> B" and n: "sized s new" "small s new" "small s old"
    "bytes_to_units old < bytes_to_units new" "unat old \<le> unat new" and a: "a \<noteq> 0"
    and mm: "mmap_ok (sys_page_size s) mm"
  obtains r where "pet_grow mm mr s a old new clean = Inr r" and "resize_outcome s B a old new clean r"
proof (rule block_in_heap [OF H n(3)])
  note D = heap_okD [OF H(1)]
  fix p and offset :: u32
  assume p: "a \<noteq> p" "bm_page_by_addr s a = p" "ptrdiff_to_units a p = offset"
    "units_of s (a, old) = block_units p (unat offset) (unat (bytes_to_units old))" "pages s p \<noteq> None"
    "unat (bm_page_header_size_in_units s) \<le> unat offset"
    "unat offset + unat (bytes_to_units old) \<le> unat (units_per_page s)"
    "unat p + unat (sys_page_size s) \<le> 2 ^ 64" "a = unit_addr p offset" "unat (sys_page_size s) dvd unat p"
  have le: "unat (bytes_to_units old) \<le> unat (bytes_to_units new)" using n(4) by (simp add: word_less_nat_alt)
  let ?first = "unat offset + unat (bytes_to_units old)"
  let ?k = "unat (bytes_to_units new) - unat (bytes_to_units old)"
  note S = block_units_split [OF le, of p "unat offset"]
  have U: "units_of s (a, old) \<subseteq> used s" by (rule D(6) [OF H(2)])
  show thesis
  proof (rule bm_grow_ok [OF D(1) p(5-7) le])
    fix t assume t: "bm_grow s p offset (bytes_to_units old) (bytes_to_units new) = Inr (t, can_grow s p ?first ?k)"
      "moves_to s t (used s \<union> (if can_grow s p ?first ?k then block_units p ?first ?k else {}))"
      "blocks_allocated t = blocks_allocated s"
    show thesis
    proof (cases "can_grow s p ?first ?k")
      case True
      have "used s \<union> block_units p ?first ?k =
          (used s - units_of s (a, old)) \<union> block_units p (unat offset) (unat (bytes_to_units new))"
        using U S unfolding p(4) by blast
      with t(2) True have m: "moves_to s t
          ((used s - units_of s (a, old)) \<union> block_units p (unat offset) (unat (bytes_to_units new)))" by simp
      have "used s \<inter> block_units p ?first ?k = {}" using True by (simp add: can_grow_def)
      then have dj: "(used s - units_of s (a, old)) \<inter> block_units p (unat offset) (unat (bytes_to_units new)) = {}"
        unfolding p(4) S by blast
      have fit: "unat offset + unat (bytes_to_units new) \<le> unat (units_per_page s)"
        using True le by (simp add: can_grow_def)
      note R = resize_small [OF H n(3,1,2) p(2,3,9,10,8,6) fit dj m, of clean]
      have "unat a + unat new \<le> 2 ^ 64"
        using heap_okD(2,3) [of _ "insert (a, new) (B - {(a, old)})"] R block_end by (metis insertI1 resized_def)
      then have "pet_grow mm mr s a old new clean = Inr (zero_tail t a old new clean, a, False, True)"
        using n(2,3) p(1-3) t(1) True cleanse_tail [of a new old clean t] n(5)
        by (simp add: pet_grow_def small_def Let_def)
      moreover have "resize_outcome s B a old new clean (zero_tail t a old new clean, a, False, True)"
        using R t(3) by (simp add: resize_outcome_def zero_tail_def)
      ultimately show thesis by (rule that)
    next
      case False
      then have m: "moves_to s t (used s)" using t(2) by simp
      then have T: "heap_ok t B" "same_params s t" "mem t = mem s"
        using heap_ok_moves [OF H(1)] by (simp_all add: moves_to_def)
      have mt: "mmap_ok (sys_page_size t) mm" "sized t new"
        using mm n(1) T(2) block_cong(5) [OF T(2)] by (simp_all add: same_params_def)
      show thesis
      proof (rule pet_move_ok [OF T(1) H(2) mt n(5) a])
        fix r assume r: "pet_move mm t a old new clean = Inr r" "resize_outcome t B a old new clean r"
        have "pet_grow mm mr s a old new clean = Inr r"
          using n(2,3) p(1-3) t(1) False r(1) by (simp add: pet_grow_def small_def Let_def)
        moreover have "resize_outcome s B a old new clean r"
          by (rule resize_outcome_trans [OF H(1) T(2) same_bytes_refl [OF T(3)] t(3) H(2) r(2)])
        ultimately show thesis by (rule that)
      qed
    qed
  qed
qed

subsection \<open>Blocks that are mapped directly\<close>

lemma page_range_mono: "unat sz \<le> unat sz' \<Longrightarrow> page_range ps a sz \<subseteq> page_range ps a sz'"
proof -
  assume "unat sz \<le> unat sz'"
  then have "(unat sz + unat ps - 1) div unat ps \<le> (unat sz' + unat ps - 1) div unat ps"
    by (intro div_le_mono) simp
  then show ?thesis unfolding page_range_def set_map by (intro image_mono) auto
qed

lemma remap_large:
  assumes H: "heap_ok s B" "(a, old) \<in> B" and n: "\<not> small s old" "sized s new" "\<not> small s new"
    and a': "a' \<noteq> 0" "unat (sys_page_size s) dvd unat a'" "unat a' + unat (page_size_of s new) \<le> 2 ^ 64"
      "page_range (sys_page_size s) a' (page_size_of s new) \<inter>
        (mapped s - page_range (sys_page_size s) a (page_size_of s old)) = {}"
    and t: "t = s\<lparr>mapped := (mapped s - page_range (sys_page_size s) a (page_size_of s old)) \<union>
                  page_range (sys_page_size s) a' (page_size_of s new), mem := m\<rparr>"
  shows "heap_ok t (insert (a', new) (B - {(a, old)}))" and "same_params s t"
proof -
  note D = heap_okD [OF H(1)]
  let ?O = "page_range (sys_page_size s) a (page_size_of s old)"
  let ?N = "page_range (sys_page_size s) a' (page_size_of s new)"
  note L = large_block [OF D(2) D(3) [OF H(2)] n(1)]
  have O: "?O \<subseteq> direct_pages s" using D(4) [OF H(2)] by (simp add: L(3))
  have N: "?N \<inter> (direct_pages s - ?O) = {}" using a'(4) by (auto simp: direct_pages_def)
  show par: "same_params s t" by (simp add: t same_params_def)
  have sh: "shape s (a', new)" using n a' by (simp add: shape.simps)
  have np: "pages s p = None" if "p \<in> ?N" for p
  proof (rule ccontr)
    assume p: "pages s p \<noteq> None"
    then have "p \<in> ?O" using that a'(4) header_mapped [OF D(1)] by blast
    then show False using p O by (auto simp: direct_pages_def)
  qed
  have "pet_inv (s\<lparr>mapped := (mapped s - ?O) \<union> ?N\<rparr>)"
    using header_mapped [OF D(1)] O by (intro pet_inv_mapped [OF D(1)]) (auto simp: direct_pages_def)
  then have inv: "pet_inv t" unfolding t by (rule pet_inv_counters(3))
  have u: "used t = used s" by (rule used_eq [OF par]) (simp add: t bitmaps_def fun_eq_iff)
  have d: "direct_pages t = (direct_pages s - ?O) \<union> ?N"
    using np by (auto simp: direct_pages_def t)
  have pg: "pages_of s (a', new) = ?N" "units_of s (a', new) = {}"
    using n(3) by (simp_all add: pages_of.simps units_of.simps)
  have "heap_ok t ((B - {(a, old)}) \<union> {(a', new)})"
    by (rule heap_ok_update [OF H(1) _ inv par]) (use H(2) u d N sh in \<open>auto simp: L(3,4) pg\<close>)
  then show "heap_ok t (insert (a', new) (B - {(a, old)}))" by simp
qed

lemma resized_remap:
  assumes H: "heap_ok s B" "(a, old) \<in> B"
    and t: "heap_ok t (insert (a', new) (B - {(a, old)}))" "same_params s t" "(a', new) \<notin> B - {(a, old)}"
    and m: "mem t = moved_mem (mem s) a' a k" and k: "min (unat old) (unat new) \<le> unat k"
      "unat k \<le> unat (page_size_of s new)" "\<not> small s new" and le: "unat old \<le> unat new \<or> \<not> clean"
  shows "resized s B a old new clean (zero_tail t a' old new clean) a'"
proof -
  note D = heap_okD [OF t(1)]
  let ?u = "zero_tail t a' old new clean"
  have sh: "shape t (a', new)" using D(3) by blast
  have lt: "\<not> small t new" "page_size_of t new = page_size_of s new"
    using k(3) block_cong(4,6) [OF t(2)] by simp_all
  note L = large_block [OF D(2) sh lt(1)]
  have e: "unat a' + unat new \<le> 2 ^ 64" by (rule block_end [OF D(2) sh])
  have ek: "unat a' + unat k \<le> 2 ^ 64" using L(6) k(2) lt(2) by simp
  have out: "mem ?u x = mem s x" if "x \<notin> block_region t (a', new)" for x
  proof -
    have "\<not> (unat a' \<le> unat x \<and> unat x < unat a' + unat k)"
      using that large_region [OF D(2) sh lt(1), of x] k(2) lt(2) by fastforce
    moreover have "x \<notin> block_bytes (a', new)" using that block_bytes_region [OF D(2) sh] by blast
    then have "\<not> (unat a' + unat old \<le> unat x \<and> unat x < unat a' + unat new)"
      by (simp add: block_bytes_def)
    ultimately show ?thesis by (auto simp: zero_tail_def zero_range_def m moved_mem_def)
  qed
  have "block_region (t\<lparr>mem := mem s\<rparr>) (a', new) = block_region t (a', new)"
    by (rule region_cong) (simp add: same_params_refl)
  then have "same_bytes (t\<lparr>mem := mem s\<rparr>) ?u (insert (a', new) (B - {(a, old)}) - {(a', new)})"
    using out heap_ok_counters(2) [OF t(1), of "mem s"]
    by (intro same_bytes_outside) simp_all
  then have sb: "same_bytes s ?u (B - {(a, old)})"
    using t(3) by (simp add: same_bytes_def)
  have "mem ?u (a' + of_nat i) = mem s (a + of_nat i)" if "i < min (unat old) (unat new)" for i
  proof -
    have ik: "i < unat k" using that k(1) by (rule order_less_le_trans)
    have "unat (a' + of_nat i) < unat a' + unat old" using byte_addr(1) [OF ek ik] that by simp
    then show ?thesis using copied_bytes [OF ek ik] by (simp add: zero_tail_def zero_range_def m)
  qed
  moreover have "mem ?u (a' + of_nat i) = 0" if "clean" "unat old \<le> i" "i < unat new" for i
    using that byte_addr(1) [OF e, of i] by (simp add: zero_tail_def zero_range_def)
  moreover have "heap_ok ?u (insert (a', new) (B - {(a, old)}))" "same_params s ?u"
    using heap_ok_counters(2) [OF t(1)] t(1,2) by (simp_all add: zero_tail_def)
  ultimately show ?thesis using sb L(2) by (simp add: resized_def)
qed

lemma call_mremap_grow:
  assumes H: "heap_ok s B" "(a, old) \<in> B" and n: "\<not> small s old" "sized s new" "\<not> small s new"
    "unat old \<le> unat new" and mr: "mremap_ok (sys_page_size s) mr"
  shows "(\<exists>t. call_mremap mr s a old new clean = (t, 0) \<and> t = s) \<or>
    (\<exists>t a'. call_mremap mr s a old new clean = (t, a') \<and> a' \<noteq> 0 \<and> resized s B a old new clean t a' \<and>
       blocks_allocated t = blocks_allocated s)"
proof -
  note D = heap_okD [OF H(1)]
  note L = large_block [OF D(2) D(3) [OF H(2)] n(1)]
  have so: "sized s old" by (rule shape_sized [OF D(3) [OF H(2)]])
  let ?o = "page_size_of s old" and ?n = "page_size_of s new"
  have sz: "align_unsigned_to_page (sys_page_size s) old = ?o" "align_unsigned_to_page (sys_page_size s) new = ?n"
    by (simp_all add: page_size_of_def)
  obtain k where k: "unat (sys_page_size s) = 2 ^ k" by (rule geometry_page_size [OF D(2)])
  have e: "unat (page_size_of s x) = round_up k (unat x)" if "sized s x" for x
    unfolding page_size_of_def align_unsigned_to_page_def
    by (rule align_unsigned_pow2) (use k that in \<open>simp_all add: sized_def\<close>)
  have le: "unat ?o \<le> unat ?n"
    unfolding e [OF so] e [OF n(2)]
    by (rule round_up_least [OF order_trans [OF n(4) round_up_ge] round_up_dvd])
  show ?thesis
  proof (cases "?n = ?o")
    case True
    have sh: "shape s (a, new)" using n(2,3) L(2,5,6) by (simp add: shape.simps True)
    have eq: "units_of s (a, new) = units_of s (a, old)" "pages_of s (a, new) \<subseteq> pages_of s (a, old)"
      using n(1,3) by (simp_all add: units_of.simps pages_of.simps True)
    have a64: "unat a + unat new \<le> 2 ^ 64" by (rule block_end [OF D(2) sh])
    have "call_mremap mr s a old new clean = (zero_tail s a old new clean, a)"
      using True n(4) cleanse_eq [OF n(4) a64]
      by (cases "unat old = unat new")
         (auto simp: call_mremap_def sz Let_def zero_tail_def word_less_nat_alt)
    then show ?thesis
      using resize_same_extent(2) [OF H sh eq] L(2) by (simp add: zero_tail_def)
  next
    case False
    then have gt: "?n > ?o" using le by (simp add: word_less_nat_alt unat_eq_iff)
    let ?a = "mr (mapped s) a ?o ?n"
    show ?thesis
    proof (cases "?a = 0")
      case True
      then show ?thesis using False gt by (simp add: call_mremap_def sz Let_def)
    next
      case nz: False
      have M: "unat (sys_page_size s) dvd unat ?a" "unat ?a + unat ?n \<le> 2 ^ 64"
        "page_range (sys_page_size s) ?a ?n \<inter> (mapped s - page_range (sys_page_size s) a ?o) = {}"
        using mr nz unfolding mremap_ok_def by (force, fastforce, blast)
      let ?m = "moved_mem (mem s) ?a a (min ?o ?n)"
      let ?t = "s\<lparr>mapped := (mapped s - page_range (sys_page_size s) a ?o) \<union> page_range (sys_page_size s) ?a ?n,
                  mem := ?m\<rparr>"
      have t: "?t = s\<lparr>mapped := (mapped s - page_range (sys_page_size s) a ?o) \<union>
          page_range (sys_page_size s) ?a ?n, mem := ?m\<rparr>" ..
      note R = remap_large [OF H n(1-3) nz M t]
      have other: "(?a, new) \<notin> B - {(a, old)}"
      proof
        assume "(?a, new) \<in> B - {(a, old)}"
        then have c: "(?a, new) \<in> B" "(?a, new) \<noteq> (a, old)" by auto
        note LC = large_block [OF D(2) D(3) [OF c(1)] n(3)]
        have "?a \<in> page_range (sys_page_size s) ?a ?n"
          using geometry_bounds(2,5) [OF D(2)] sized_pages(3) [OF D(2) n(2)] by (intro page_range_self) simp_all
        then show False
          using D(4) [OF c(1)] D(8) [OF c(1) H(2) c(2)] M(3) unfolding LC(3) L(3) direct_pages_def by blast
      qed
      have a64: "unat ?a + unat new \<le> 2 ^ 64" using M(2) sized_pages(2) [OF D(2) n(2)] by simp
      have c: "(if clean then ?t\<lparr>mem := cleanse (mem ?t) ?a old new\<rparr> else ?t) = zero_tail ?t ?a old new clean"
        by (rule cleanse_tail [OF a64 n(4)])
      have mn: "min ?o ?n = ?o" using less_imp_le [OF gt] by (rule min_absorb1)
      have "resized s B a old new clean (zero_tail ?t ?a old new clean) ?a"
        using sized_pages(2) [OF D(2) so] le n(3,4)
        by (intro resized_remap [OF H R other, where k = "min ?o ?n"]) (simp_all add: mn)
      moreover have "call_mremap mr s a old new clean = (zero_tail ?t ?a old new clean, ?a)"
        using False gt nz unfolding c [symmetric] by (simp add: call_mremap_def sz Let_def)
      ultimately show ?thesis using nz by (simp add: zero_tail_def)
    qed
  qed
qed

lemma moved_mem_same [simp]: "moved_mem m a a n = m"
  by (auto simp: moved_mem_def fun_eq_iff)

lemma realloc_shrink_large:
  assumes H: "heap_ok s B" "(a, old) \<in> B" and n: "\<not> small s old" "sized s new" "\<not> small s new"
    "unat new \<le> unat old" and mr: "mremap_ok (sys_page_size s) mr"
  obtains t where "pet_remap mr s a old new = Inr (t, a, False, True)" and "resized s B a old new False t a"
    and "blocks_allocated t = blocks_allocated s"
proof -
  note D = heap_okD [OF H(1)]
  note L = large_block [OF D(2) D(3) [OF H(2)] n(1)]
  let ?o = "page_size_of s old" and ?n = "page_size_of s new"
  have so: "sized s old" by (rule shape_sized [OF D(3) [OF H(2)]])
  have sz: "align_unsigned_to_page (sys_page_size s) old = ?o" "align_unsigned_to_page (sys_page_size s) new = ?n"
    by (simp_all add: page_size_of_def)
  obtain k where k: "unat (sys_page_size s) = 2 ^ k" by (rule geometry_page_size [OF D(2)])
  have e: "unat (page_size_of s x) = round_up k (unat x)" if "sized s x" for x
    unfolding page_size_of_def align_unsigned_to_page_def
    by (rule align_unsigned_pow2) (use k that in \<open>simp_all add: sized_def\<close>)
  have le: "unat ?n \<le> unat ?o"
    unfolding e [OF so] e [OF n(2)]
    by (rule round_up_least [OF order_trans [OF n(4) round_up_ge] round_up_dvd])
  have a64: "unat a + unat ?n \<le> 2 ^ 64" using L(6) le by simp
  have sh: "shape s (a, new)" using n(2,3) L(2,5) a64 by (simp add: shape.simps)
  have sub: "page_range (sys_page_size s) a ?n \<subseteq> page_range (sys_page_size s) a ?o" by (rule page_range_mono [OF le])
  have eq: "units_of s (a, new) = units_of s (a, old)" "pages_of s (a, new) \<subseteq> pages_of s (a, old)"
    using n(1,3) sub by (simp_all add: units_of.simps pages_of.simps)
  have stay: "resized s B a old new False s a"
    using resize_same_extent(2) [OF H sh eq, of False] by (simp add: zero_tail_def)
  show thesis
  proof (cases "?n = ?o \<or> mr (mapped s) a ?o ?n = 0")
    case True
    then have "pet_remap mr s a old new = Inr (s, a, False, True)"
      using le by (auto simp: pet_remap_def call_mremap_def sz Let_def word_less_nat_alt)
    then show thesis using that stay by blast
  next
    case False
    then have lt: "?n < ?o" and nz: "mr (mapped s) a ?o ?n \<noteq> 0"
      using le by (auto simp: word_less_nat_alt unat_eq_iff)
    then have a: "mr (mapped s) a ?o ?n = a" using mr by (auto simp: mremap_ok_def)
    let ?t = "s\<lparr>mapped := (mapped s - page_range (sys_page_size s) a ?o) \<union> page_range (sys_page_size s) a ?n,
                mem := mem s\<rparr>"
    have t: "?t = s\<lparr>mapped := (mapped s - page_range (sys_page_size s) a ?o) \<union>
        page_range (sys_page_size s) a ?n, mem := mem s\<rparr>" ..
    have dj: "page_range (sys_page_size s) a ?n \<inter> (mapped s - page_range (sys_page_size s) a ?o) = {}"
      using sub by blast
    note R = remap_large [OF H n(1-3) L(2,5) a64 dj t]
    have "resized s B a old new False (zero_tail ?t a old new False) a"
      using R other_size_new [OF H] by (intro resized_in_place [OF H]) auto
    moreover have "pet_remap mr s a old new = Inr (?t, a, False, True)"
      using lt False a L(2) by (simp add: pet_remap_def call_mremap_def sz Let_def)
    ultimately show thesis using that by (simp add: zero_tail_def)
  qed
qed

text \<open>The whole of \<open>pet_reallocate\<close> on a live block.\<close>

definition covered :: "pet \<Rightarrow> u32 \<Rightarrow> u32 \<Rightarrow> bool" where
  "covered s old new \<longleftrightarrow> (small s new \<longrightarrow> small s old)"

lemma units_less:
  assumes "geometry s" and "sized s x" "sized s y" and "bytes_to_units x < bytes_to_units y"
  shows "unat x \<le> unat y"
  using assms(4) sized_units(1) [OF assms(1)] assms(2,3) div_le_mono [of "unat y + 15" "unat x + 15" 16]
  by (simp add: word_less_nat_alt)

lemma reallocate_ok:
  assumes H: "heap_ok s B" "(a, old) \<in> B" and n: "sized s new" "covered s old new"
    and mm: "mmap_ok (sys_page_size s) mm" and mr: "mremap_ok (sys_page_size s) mr"
  obtains r where "pet_reallocate mm mr s a old new clean = Inr r" and "resize_outcome s B a old new clean r"
proof (cases "old = new")
  case True
  have "a \<noteq> 0"
    using small_block [OF heap_okD(2,3) [OF H(1)]] large_block(2) [OF heap_okD(2,3) [OF H(1)]] H(2) by metis
  moreover have "insert (a, new) (B - {(a, new)}) = B" using H(2) True by auto
  ultimately have "resize_outcome s B a old new clean (s, a, False, True)"
    using H True by (auto simp: resize_outcome_def resized_def same_params_refl same_bytes_def)
  then show thesis using that True by (simp add: pet_reallocate_def)
next
  case False
  note D = heap_okD [OF H(1)]
  have old: "sized s old" by (rule shape_sized [OF D(3) [OF H(2)]])
  have nz: "old OR new \<noteq> 0"
  proof
    assume z: "old OR new = 0"
    have "bit old j = False" for j using arg_cong [OF z, of "\<lambda>w. bit w j"] by (simp add: bit_simps)
    then have "old = 0" by (intro bit_word_eqI) simp
    then show False using old by (simp add: sized_def)
  qed
  have a: "a \<noteq> 0"
    using small_block [OF D(2) D(3) [OF H(2)]] large_block(2) [OF D(2) D(3) [OF H(2)]] by metis
  let ?u = "bytes_to_units old" and ?v = "bytes_to_units new"
  have any: "resized s B a old new False t a \<Longrightarrow> unat new \<le> unat old \<Longrightarrow> resized s B a old new clean t a" for t
    by (auto simp: resized_def)
  consider (same) "?v = ?u" | (shrink) "?v < ?u" | (grow) "?u < ?v" by (meson linorder_less_linear)
  then show thesis
  proof cases
    case same
    have R: "resized s B a old new clean' (zero_tail s a old new clean') a" for clean'
      by (rule realloc_same_units [OF H n(1) same])
    show thesis
    proof (cases "clean \<and> new > old")
      case True
      have "unat a + unat new \<le> 2 ^ 64"
        using heap_okD(2,3) [of _ "insert (a, new) (B - {(a, old)})"] R block_end by (metis insertI1 resized_def)
      then have "pet_reallocate mm mr s a old new clean = Inr (zero_tail s a old new clean, a, False, True)"
        using False a nz same True cleanse_tail [of a new old clean s]
        by (simp add: pet_reallocate_def Let_def word_less_nat_alt)
      then show thesis using that R by (simp add: resize_outcome_def zero_tail_def)
    next
      case F: False
      have "resized s B a old new clean s a"
        using R [of False] F any [of s] by (cases clean) (simp_all add: zero_tail_def word_less_nat_alt)
      moreover have "pet_reallocate mm mr s a old new clean = Inr (s, a, False, True)"
        using False a nz same F by (auto simp: pet_reallocate_def Let_def)
      ultimately show thesis using that by (simp add: resize_outcome_def)
    qed
  next
    case shrink
    have le: "unat new \<le> unat old" by (rule units_less [OF D(2) n(1) old shrink])
    have r: "pet_reallocate mm mr s a old new clean = pet_shrink mm mr s a old new"
      using False a nz shrink by (auto simp: pet_reallocate_def Let_def)
    show thesis
    proof (cases "small s new")
      case True
      then have "small s old" using n(2) by (simp add: covered_def)
      then obtain t where "pet_shrink mm mr s a old new = Inr (t, a, False, True)" "resized s B a old new False t a"
        "blocks_allocated t = blocks_allocated s"
        using realloc_shrink_small [OF H n(1) True _ shrink a] by metis
      then show thesis
        using that [of "(t, a, False, True)"] any [of t] le by (simp add: r resize_outcome_def)
    next
      case F: False
      then have Fo: "\<not> small s old" using shrink by (auto simp: small_def)
      have "pet_shrink mm mr s a old new = pet_remap mr s a old new"
        using F large_block(1) [OF D(2) D(3) [OF H(2)] Fo] by (simp add: pet_shrink_def small_def)
      moreover obtain t where "pet_remap mr s a old new = Inr (t, a, False, True)" "resized s B a old new False t a"
        "blocks_allocated t = blocks_allocated s"
        by (rule realloc_shrink_large [OF H Fo n(1) F le mr])
      ultimately show thesis
        using that [of "(t, a, False, True)"] any [of t] le by (simp add: r resize_outcome_def)
    qed
  next
    case grow
    have le: "unat old \<le> unat new" by (rule units_less [OF D(2) old n(1) grow])
    have r: "pet_reallocate mm mr s a old new clean = pet_grow mm mr s a old new clean"
      using False a nz grow by (auto simp: pet_reallocate_def Let_def)
    have "small s new \<Longrightarrow> small s old" using grow by (auto simp: small_def intro: order.strict_trans)
    then consider "small s new" "small s old" | "\<not> small s new" "small s old" | "\<not> small s new" "\<not> small s old"
      by blast
    then show thesis
    proof cases
      case 1
      then show thesis using realloc_grow_small [OF H n(1) _ _ grow le a mm] that unfolding r by blast
    next
      case 2
      then have "pet_grow mm mr s a old new clean = pet_move mm s a old new clean"
        by (simp add: pet_grow_def small_def)
      then show thesis using pet_move_ok [OF H mm n(1) le a] that unfolding r by metis
    next
      case 3
      have g: "pet_grow mm mr s a old new clean = (let (s, new_addr) = call_mremap mr s a old new clean
         in if new_addr = 0 then Inr (s, a, False, False) else Inr (s, new_addr, new_addr \<noteq> a, True))"
        using 3 large_block(1) [OF D(2) D(3) [OF H(2)] 3(2)] by (simp add: pet_grow_def small_def)
      from call_mremap_grow [OF H 3(2) n(1) 3(1) le mr, of clean] show thesis
      proof (elim disjE exE conjE)
        fix t assume "call_mremap mr s a old new clean = (t, 0)" "t = s"
        then show thesis
          using that [of "(s, a, False, False)"] H(1)
          by (simp add: r g resize_outcome_def same_params_refl same_bytes_refl)
      next
        fix t a' assume "call_mremap mr s a old new clean = (t, a')" "a' \<noteq> 0"
          "resized s B a old new clean t a'" "blocks_allocated t = blocks_allocated s"
        then show thesis
          using that [of "(t, a', a' \<noteq> a, True)"] by (simp add: r g resize_outcome_def)
      qed
    qed
  qed
qed

subsection \<open>The contract\<close>

text \<open>
  The allocator keeps the contract of \<open>Alloc_Interface\<close> on a page size \<open>ps\<close>, as long as the kernel keeps
  what the code relies on. Whether a size is small depends on the page size alone.
\<close>

definition max_units :: "u32 \<Rightarrow> nat" where
  "max_units ps = unat ps div 16 - (39 + unat ps div 16 div 8) div 16"

definition pet_contract :: "mmap_fun \<Rightarrow> mremap_fun \<Rightarrow> u32 \<Rightarrow> pet \<Rightarrow> block set \<Rightarrow> bool" where
  "pet_contract mm mr ps s B \<longleftrightarrow> heap_ok s B \<and> sys_page_size s = ps \<and> mmap_ok ps mm \<and> mremap_ok ps mr"

definition pet_valid :: "u32 \<Rightarrow> u32 \<Rightarrow> bool" where
  "pet_valid ps n \<longleftrightarrow> n \<noteq> 0 \<and> unat n + unat ps \<le> 2 ^ 32"

definition pet_can :: "u32 \<Rightarrow> u32 \<Rightarrow> u32 \<Rightarrow> bool" where
  "pet_can ps old new \<longleftrightarrow>
     (unat (bytes_to_units new) < max_units ps \<longrightarrow> unat (bytes_to_units old) < max_units ps)"

lemma small_max_units:
  assumes "geometry s"
  shows "small s n \<longleftrightarrow> unat (bytes_to_units n) < max_units (sys_page_size s)"
proof -
  have "unat (max_data_units s) = max_units (sys_page_size s)"
    using geometry_bounds(6) [OF assms] assms unfolding max_units_def geometry_def by auto
  then show ?thesis by (simp add: small_def word_less_nat_alt)
qed

lemma blocks_separate:
  assumes H: "heap_ok s B" and b: "b \<in> B" "c \<in> B" "b \<noteq> c"
  shows "block_bytes b \<inter> block_bytes c = {}"
  using regions_disjoint [OF H b] block_bytes_region [OF heap_okD(2) [OF H] heap_okD(3) [OF H b(1)]]
    block_bytes_region [OF heap_okD(2) [OF H] heap_okD(3) [OF H b(2)]]
  by (rule disjoint_subsets)

lemma new_block_others:
  assumes H: "heap_ok s B" and N: "new_block s B n clean t a"
  shows "same_bytes s t B"
proof -
  have t: "heap_ok t (insert (a, n) B)" "(a, n) \<notin> B" "same_params s t"
    "\<forall>x. x \<notin> block_region s (a, n) \<longrightarrow> mem t x = mem s x"
    using N by (simp_all add: new_block_def)
  have "same_bytes s t (insert (a, n) B - {(a, n)})"
  proof -
    have "mem t x = mem s x" if c: "c \<in> B" "x \<in> block_bytes c" for c x
    proof -
      have "c \<in> insert (a, n) B" "(a, n) \<in> insert (a, n) B" "c \<noteq> (a, n)" using c(1) t(2) by auto
      note R = regions_disjoint [OF t(1) this]
      have "x \<in> block_region t c"
        using block_bytes_region [OF heap_okD(2) [OF t(1)] heap_okD(3) [OF t(1) \<open>c \<in> insert (a, n) B\<close>]] c(2) by blast
      then have "x \<notin> block_region s (a, n)" using R region_cong [OF t(3)] by blast
      then show ?thesis using t(4) by blast
    qed
    then show ?thesis unfolding same_bytes_def by blast
  qed
  then show ?thesis using t(2) by simp
qed

interpretation pet: resizing_allocator "pet_contract mm mr ps" mem "pet_valid ps" "pet_allocate mm" pet_release
  "pet_can ps" "pet_reallocate mm mr"
  for mm :: mmap_fun and mr :: mremap_fun and ps :: u32
proof unfold_locales
  fix s B b c assume "pet_contract mm mr ps s B" "b \<in> B" "c \<in> B" "b \<noteq> c"
  then show "block_bytes b \<inter> block_bytes c = {}" using blocks_separate [of s B b c] by (simp add: pet_contract_def)
next
  fix s B n clean assume c: "pet_contract mm mr ps s B" and n: "pet_valid ps n"
  then have H: "heap_ok s B" "mmap_ok (sys_page_size s) mm" "sized s n"
    by (simp_all add: pet_contract_def pet_valid_def sized_def)
  from pet_allocate_ok [OF H, of clean] show "\<exists>t a. pet_allocate mm s n clean = Inr (t, a) \<and>
      (\<forall>b\<in>B. \<forall>x\<in>block_bytes b. mem t x = mem s x) \<and>
      (if a = 0 then pet_contract mm mr ps t B
       else (a, n) \<notin> B \<and> pet_contract mm mr ps t (insert (a, n) B) \<and>
         (clean \<longrightarrow> (\<forall>x\<in>block_bytes (a, n). mem t x = 0)))"
  proof (elim disjE exE conjE)
    fix t assume "pet_allocate mm s n clean = Inr (t, 0)" "heap_ok t B" "same_params s t" "mem t = mem s"
    then show ?thesis using c by (auto simp: pet_contract_def same_params_def)
  next
    fix t a assume t: "pet_allocate mm s n clean = Inr (t, a)" "new_block s B n clean t a"
    then show ?thesis
      using c new_block_others [OF H(1) t(2)]
      by (auto simp: pet_contract_def new_block_def same_params_def same_bytes_def)
  qed
next
  fix s B a n assume c: "pet_contract mm mr ps s B" and b: "(a, n) \<in> B"
  then have H: "heap_ok s B" by (simp add: pet_contract_def)
  show "\<exists>t. pet_release s a n = Inr (t, 0) \<and> pet_contract mm mr ps t (B - {(a, n)}) \<and>
      (\<forall>b\<in>B. \<forall>x\<in>block_bytes b. mem t x = mem s x)"
    by (rule pet_release_ok [OF H b]) (use c in \<open>auto simp: pet_contract_def same_params_def\<close>)
next
  fix s B a old new clean
  assume c: "pet_contract mm mr ps s B" and b: "(a, old) \<in> B" and n: "pet_valid ps new" "pet_can ps old new"
  then have H: "heap_ok s B" "mmap_ok (sys_page_size s) mm" "mremap_ok (sys_page_size s) mr" "sized s new"
    by (simp_all add: pet_contract_def pet_valid_def sized_def)
  have cov: "covered s old new"
    using n(2) c small_max_units [OF heap_okD(2) [OF H(1)]] by (simp add: covered_def pet_can_def pet_contract_def)
  from reallocate_ok [OF H(1) b H(4) cov H(2,3), of clean]
  obtain t a' changed ok where r: "pet_reallocate mm mr s a old new clean = Inr (t, a', changed, ok)"
    "resize_outcome s B a old new clean (t, a', changed, ok)" by (metis prod_cases4)
  have ps: "same_params s t" using r(2) by (auto simp: resize_outcome_def resized_def split: if_splits)
  have old: "\<not> ok \<Longrightarrow> \<forall>x\<in>block_bytes (a, old). mem t x = mem s x"
    using r(2) b by (auto simp: resize_outcome_def same_bytes_def)
  have "\<forall>b\<in>B - {(a, old)}. \<forall>x\<in>block_bytes b. mem t x = mem s x"
    using r(2) by (auto simp: resize_outcome_def resized_def same_bytes_def split: if_splits)
  then show "\<exists>t a' changed ok. pet_reallocate mm mr s a old new clean = Inr (t, a', changed, ok) \<and>
      changed = (a' \<noteq> a) \<and> (\<forall>b\<in>B - {(a, old)}. \<forall>x\<in>block_bytes b. mem t x = mem s x) \<and>
      (if ok then a' \<noteq> 0 \<and> pet_contract mm mr ps t (insert (a', new) (B - {(a, old)})) \<and>
         (\<forall>i < min (unat old) (unat new). mem t (a' + of_nat i) = mem s (a + of_nat i)) \<and>
         (clean \<longrightarrow> (\<forall>i. unat old \<le> i \<and> i < unat new \<longrightarrow> mem t (a' + of_nat i) = 0))
       else a' = a \<and> pet_contract mm mr ps t B \<and> (\<forall>x\<in>block_bytes (a, old). mem t x = mem s x))"
    using r c ps old by (intro exI conjI) (auto simp: resize_outcome_def resized_def pet_contract_def same_params_def)
qed

end
