(* ===== verification/Pet_Properties.thy ===== *)
theory Pet_Properties
  imports Pet_Realloc
begin

text \<open>
  The properties of the allocator. The witnesses run it from \<open>pet_init\<close> with a small model of the
  kernel, \<open>simple_mmap\<close> and \<open>simple_mremap\<close>, that hands out the first of four addresses where nothing is
  mapped and keeps what the code relies on.
\<close>

definition addresses :: "u64 list" where
  "addresses = [0x100000000, 0x200000000, 0x300000000, 0x400000000]"

definition simple_mmap :: mmap_fun where
  "simple_mmap M sz =
     (case find (\<lambda>a. page_range 4096 a sz \<inter> M = {}) addresses of None \<Rightarrow> 0 | Some a \<Rightarrow> a)"

definition simple_mremap :: mremap_fun where
  "simple_mremap M a old new =
     (case find (\<lambda>x. 4096 dvd unat x \<and> unat x + unat new + 4096 \<le> 2 ^ 64 \<and>
                   page_range 4096 x new \<inter> (M - page_range 4096 a old) = {})
            (if new < old then [a] else a # addresses) of None \<Rightarrow> 0 | Some x \<Rightarrow> x)"

lemma simple_mmap_ok: "mmap_ok 4096 simple_mmap"
  unfolding mmap_ok_def
proof (intro allI impI conjI)
  fix M sz assume "simple_mmap M sz \<noteq> 0"
  then obtain i where a: "page_range 4096 (simple_mmap M sz) sz \<inter> M = {}"
    "i < length addresses" "simple_mmap M sz = addresses ! i"
    by (auto simp: simple_mmap_def find_Some_iff split: option.splits)
  show "page_range 4096 (simple_mmap M sz) sz \<inter> M = {}" by (rule a(1))
  have "simple_mmap M sz \<in> set addresses" using a(2,3) by simp
  then show "unat (4096 :: u32) dvd unat (simple_mmap M sz)"
    "unat (simple_mmap M sz) + unat sz + unat (4096 :: u32) \<le> 2 ^ 64"
    using unat_u32_bound [of sz] by (auto simp: addresses_def)
qed

lemma simple_mremap_ok: "mremap_ok 4096 simple_mremap"
  unfolding mremap_ok_def
proof (intro allI impI)
  fix M a old new assume nz: "simple_mremap M a old new \<noteq> 0"
  let ?xs = "if new < old then [a] else a # addresses"
  from nz obtain i where r: "4096 dvd unat (simple_mremap M a old new)"
    "unat (simple_mremap M a old new) + unat new + 4096 \<le> 2 ^ 64"
    "page_range 4096 (simple_mremap M a old new) new \<inter> (M - page_range 4096 a old) = {}"
    "i < length ?xs" "simple_mremap M a old new = ?xs ! i"
    by (auto simp: simple_mremap_def find_Some_iff split: option.splits)
  then show "unat (4096 :: u32) dvd unat (simple_mremap M a old new) \<and>
      unat (simple_mremap M a old new) + unat new + unat (4096 :: u32) \<le> 2 ^ 64 \<and>
      page_range 4096 (simple_mremap M a old new) new \<inter> (M - page_range 4096 a old) = {} \<and>
      (new < old \<longrightarrow> simple_mremap M a old new = a)" by (cases "new < old") simp_all
qed

definition started :: "pet res" where
  "started = pet_init simple_mmap (static_state 4096 (\<lambda>a. 0))"

definition started_with :: "u32 \<Rightarrow> (pet \<times> u64) res" where
  "started_with n = bindE started (\<lambda>s. pet_allocate simple_mmap s n True)"

lemma started_ok:
  obtains s where "started = Inr s" and "heap_ok s {}" and "sys_page_size s = 4096"
    and "mapped s = {0x100000000}" and "pages s = (\<lambda>p. None)" and "used s = {}"
proof -
  have ps: "unat (4096 :: u32) = 2 ^ 12" by simp
  have mm: "simple_mmap {} 4096 = 0x100000000" by (simp add: simple_mmap_def addresses_def)
  obtain s where "pet_init simple_mmap (static_state 4096 (\<lambda>a. 0)) = Inr s" "heap_ok s {}" "used s = {}"
    "sys_page_size s = 4096" "mapped s = page_range 4096 (simple_mmap {} 4096) 4096" "pages s = (\<lambda>p. None)"
    by (rule pet_init_ok [OF ps, of simple_mmap "\<lambda>a. 0"]) (simp_all add: mm)
  moreover have "page_range 4096 0x100000000 4096 = {0x100000000}" by (intro page_range_one) simp
  ultimately show thesis using that [of s] by (simp add: started_def mm)
qed

lemma simple_mmap_started:
  assumes "unat sz \<le> 69632"
  shows "simple_mmap {0x100000000} sz \<noteq> 0"
proof -
  have "(unat sz + 4096 - 1) div 4096 \<le> 17" using assms by simp
  have "0x100000000 \<notin> page_range 4096 0x200000000 sz"
  proof
    assume "0x100000000 \<in> page_range 4096 0x200000000 sz"
    then obtain i where i: "i < (unat sz + 4096 - 1) div 4096" "(0x100000000 :: u64) = 0x200000000 + of_nat (i * 4096)"
      unfolding page_range_def set_map by (elim imageE) simp
    have i17: "i < 17" using i(1) assms by simp
    have un: "unat (of_nat m :: u64) = m" if "m < 2 ^ 64" for m
      using that by (simp add: unsigned_of_nat take_bit_nat_eq_self)
    have "unat (of_nat (i * 4096) :: u64) = i * 4096" using i17 by (intro un) simp
    then have "unat (0x200000000 + of_nat (i * 4096) :: u64) = 0x200000000 + i * 4096"
      using i17 by (subst unat_add_exact) simp_all
    then have "(0x100000000 :: nat) = 0x200000000 + i * 4096" unfolding i(2) [symmetric] by simp
    then show False by simp
  qed
  then show ?thesis by (simp add: simple_mmap_def addresses_def)
qed

lemma started_size:
  assumes "sys_page_size s = 4096" and "unat n \<le> 65536"
  shows "unat (if small s n then sys_page_size s else page_size_of s n) \<le> 69632"
proof (cases "small s n")
  case False
  have "unat n + unat (sys_page_size s) \<le> 2 ^ 32" using assms by simp
  then have "unat (page_size_of s n) < unat n + unat (sys_page_size s)"
    unfolding page_size_of_def align_unsigned_to_page_def using assms(1) by (intro align_unsigned_bounds) simp_all
  then show ?thesis using assms False by simp
qed (simp add: assms(1))

lemma started_with_ok:
  assumes "n \<noteq> 0" and "unat n \<le> 65536"
  obtains s a where "started_with n = Inr (s, a)" and "heap_ok s {(a, n)}" and "sys_page_size s = 4096"
    and "a \<noteq> 0"
proof -
  obtain s where s: "started = Inr s" "heap_ok s {}" "sys_page_size s = 4096" "mapped s = {0x100000000}"
    by (rule started_ok)
  have n: "sized s n" using assms s(3) by (simp add: sized_def)
  have m: "mmap_ok (sys_page_size s) simple_mmap" using simple_mmap_ok s(3) by simp
  have nz: "simple_mmap (mapped s) (if small s n then sys_page_size s else page_size_of s n) \<noteq> 0"
    unfolding s(4) by (rule simple_mmap_started, rule started_size [OF s(3) assms(2)])
  from pet_allocate_ok [OF s(2) m n, of True] nz obtain t a where
    "pet_allocate simple_mmap s n True = Inr (t, a)" "new_block s {} n True t a" by blast
  then have "started_with n = Inr (t, a)" "heap_ok t {(a, n)}" "sys_page_size t = 4096" "a \<noteq> 0"
    unfolding started_with_def s(1) bindE_simps using s(3) by (simp_all add: new_block_def same_params_def)
  then show thesis by (rule that)
qed

subsection \<open>The contract\<close>

text \<open>
  C13. \<open>cleanse\<close> zeroes the bytes from \<open>start\<close> up to \<open>stop\<close> and no other, whatever their alignment: the
  bytes up to a word boundary, the words, and the bytes that remain meet without a gap or an overlap.
\<close>

theorem cleanse_exact:
  assumes "unat start \<le> unat stop" and "unat addr + unat stop \<le> 2 ^ 64"
  shows "cleanse m addr start stop a =
    (if unat addr + unat start \<le> unat a \<and> unat a < unat addr + unat stop then 0 else m a)"
  unfolding cleanse_eq [OF assms] by (simp add: zero_range_def)

theorem cleanse_exact_witness:
  "cleanse (\<lambda>a. 7) 4096 3 21 4116 = 0 \<and> cleanse (\<lambda>a. 7) 4096 3 21 4117 = 7 \<and>
   cleanse (\<lambda>a. 7) 4096 3 21 4098 = 7 \<and> cleanse (\<lambda>a. 7) 4096 3 21 4099 = 0"
  using cleanse_exact [of 3 21 4096 "\<lambda>a. 7"] by simp

text \<open>
  C4. \<open>_init\<close> gives a state that carries no block, for every page size from 1 KiB to 2 GiB: the page
  parameters fit together and the superblock has an entry for every length of a free block.
\<close>

theorem init_establishes_contract:
  assumes "unat page_size = 2 ^ k" and "10 \<le> k" and "k \<le> 31"
  shows "if mm {} page_size = 0 then pet_init mm (static_state page_size m) = Inl Abort
    else \<exists>s. pet_init mm (static_state page_size m) = Inr s \<and> heap_ok s {} \<and> used s = {} \<and>
      blocks_allocated s = 0"
proof (cases "mm {} page_size = 0")
  case True
  then show ?thesis by (simp add: pet_init_abort)
next
  case False
  show ?thesis by (rule pet_init_ok [where mm = mm and m = m, OF assms False]) (simp add: False)
qed

theorem init_establishes_contract_witness:
  "\<exists>s. pet_init simple_mmap (static_state 4096 (\<lambda>a. 0)) = Inr s \<and> heap_ok s {}"
proof -
  have "simple_mmap {} 4096 \<noteq> 0" by (simp add: simple_mmap_def addresses_def)
  then show ?thesis using init_establishes_contract [of 4096 12 simple_mmap "\<lambda>a. 0"] by auto
qed

text \<open>
  C1. \<open>_allocate\<close> always returns. It delivers a block that shares no unit and no page with the blocks
  there are, zeroed on request, and changes no byte outside it; or it returns the null pointer, only when
  the kernel refuses memory, and then nothing has changed.
\<close>

theorem allocate_gives_fresh_block:
  assumes "heap_ok s B" and "mmap_ok (sys_page_size s) mm" and "sized s n"
  shows "(\<exists>t. pet_allocate mm s n clean = Inr (t, 0) \<and> heap_ok t B \<and> mem t = mem s \<and>
       blocks_allocated t = blocks_allocated s \<and>
       mm (mapped s) (if small s n then sys_page_size s else page_size_of s n) = 0) \<or>
    (\<exists>t a. pet_allocate mm s n clean = Inr (t, a) \<and> a \<noteq> 0 \<and> (a, n) \<notin> B \<and>
       heap_ok t (insert (a, n) B) \<and> blocks_allocated t = blocks_allocated s + 1 \<and>
       (\<forall>x. x \<notin> block_region s (a, n) \<or> \<not> clean \<longrightarrow> mem t x = mem s x) \<and>
       (clean \<longrightarrow> (\<forall>x\<in>block_bytes (a, n). mem t x = 0)))"
  using pet_allocate_ok [OF assms, of clean] unfolding new_block_def by blast

theorem allocate_gives_fresh_block_witness:
  "\<exists>s t a. started = Inr s \<and> pet_allocate simple_mmap s 100 True = Inr (t, a) \<and>
     a \<noteq> 0 \<and> heap_ok t {(a, 100)} \<and> (\<forall>x\<in>block_bytes (a, 100). mem t x = 0)"
proof -
  obtain s where s: "started = Inr s" "heap_ok s {}" "sys_page_size s = 4096" "mapped s = {0x100000000}"
    by (rule started_ok)
  have ok: "mmap_ok (sys_page_size s) simple_mmap" "sized s 100"
    using simple_mmap_ok s(3) by (simp_all add: sized_def)
  have "simple_mmap (mapped s) (if small s 100 then sys_page_size s else page_size_of s 100) \<noteq> 0"
    unfolding s(4) by (rule simple_mmap_started, rule started_size) (simp_all add: s(3))
  with allocate_gives_fresh_block [OF s(2) ok, of True] s(1) show ?thesis by auto
qed

text \<open>
  C2. \<open>_release\<close> of a live block always returns: the block is gone, the pointer is null, every other
  block and every byte is as it was. The page a unit belongs to and its offset are found from the address.
\<close>

theorem release_removes_block:
  assumes "heap_ok s B" and "(a, n) \<in> B"
  shows "\<exists>t. pet_release s a n = Inr (t, 0) \<and> heap_ok t (B - {(a, n)}) \<and> mem t = mem s \<and>
    blocks_allocated t = blocks_allocated s - 1"
  by (rule pet_release_ok [OF assms]) blast

theorem release_removes_block_witness:
  "\<exists>s a t. started_with 100 = Inr (s, a) \<and> a \<noteq> 0 \<and> pet_release s a 100 = Inr (t, 0) \<and> heap_ok t {}"
proof -
  obtain s a where s: "started_with 100 = Inr (s, a)" "heap_ok s {(a, 100)}" "a \<noteq> 0"
    by (rule started_with_ok [of 100]) simp_all
  then show ?thesis using release_removes_block [OF s(2), of a 100] by auto
qed

text \<open>
  C3. \<open>_reallocate\<close> of an allocated block to a size other than 0 whose rounding to pages does not wrap returns,
  on every branch but one: the block is at the address returned, has its contents up to the smaller size and
  zeroes behind it on request, and every other block is as it was; or the call fails and nothing has changed.
  \<open>addr_changed\<close> tells whether the block has moved. The branch that is left out takes a block mapped directly
  to a size of the sub-allocator. It breaks this: \<open>shrink_to_sub_allocator_fails\<close> in \<open>Pet_Defects\<close>; and so does
  the size 0: \<open>resize_to_zero_drops_block\<close>.
\<close>

theorem reallocate_keeps_contents:
  assumes "heap_ok s B" and "(a, old) \<in> B" and "sized s new" and "covered s old new"
    and "mmap_ok (sys_page_size s) mm" and "mremap_ok (sys_page_size s) mr"
  shows "\<exists>t a' changed ok. pet_reallocate mm mr s a old new clean = Inr (t, a', changed, ok) \<and>
    changed = (a' \<noteq> a) \<and> blocks_allocated t = blocks_allocated s \<and>
    (\<forall>b\<in>B - {(a, old)}. \<forall>x\<in>block_bytes b. mem t x = mem s x) \<and>
    (if ok
     then a' \<noteq> 0 \<and> heap_ok t (insert (a', new) (B - {(a, old)})) \<and>
       (\<forall>i < min (unat old) (unat new). mem t (a' + of_nat i) = mem s (a + of_nat i)) \<and>
       (clean \<longrightarrow> (\<forall>i. unat old \<le> i \<and> i < unat new \<longrightarrow> mem t (a' + of_nat i) = 0))
     else a' = a \<and> heap_ok t B \<and> (\<forall>x\<in>block_bytes (a, old). mem t x = mem s x))"
proof -
  obtain t a' changed ok where r: "pet_reallocate mm mr s a old new clean = Inr (t, a', changed, ok)"
    "resize_outcome s B a old new clean (t, a', changed, ok)"
    by (rule reallocate_ok [OF assms, of clean]) (metis prod_cases4)
  then have "same_bytes s t (B - {(a, old)})" "\<not> ok \<Longrightarrow> \<forall>x\<in>block_bytes (a, old). mem t x = mem s x"
    using assms(2) by (auto simp: resize_outcome_def resized_def same_bytes_def split: if_splits)
  then show ?thesis
    using r by (intro exI conjI) (auto simp: resize_outcome_def resized_def same_bytes_def)
qed

theorem reallocate_keeps_contents_witness:
  "\<exists>s a t a' changed ok. started_with 100 = Inr (s, a) \<and>
     pet_reallocate simple_mmap simple_mremap s a 100 5000 True = Inr (t, a', changed, ok) \<and>
     (ok \<longrightarrow> (\<forall>i<100. mem t (a' + of_nat i) = mem s (a + of_nat i)) \<and>
        (\<forall>i. 100 \<le> i \<and> i < 5000 \<longrightarrow> mem t (a' + of_nat i) = 0))"
proof -
  obtain s a where s: "started_with 100 = Inr (s, a)" "heap_ok s {(a, 100)}" "sys_page_size s = 4096"
    by (rule started_with_ok [of 100]) simp_all
  have e: "bytes_to_units 5000 = 313" "max_units 4096 = 252" by (code_simp, simp add: max_units_def)
  have "\<not> small s 5000" using small_max_units [OF heap_okD(2) [OF s(2)], of 5000] e s(3) by simp
  then have c: "covered s 100 5000" "sized s 5000" using s(3) by (simp_all add: covered_def sized_def)
  have m: "mmap_ok (sys_page_size s) simple_mmap" "mremap_ok (sys_page_size s) simple_mremap" "(a, 100) \<in> {(a, 100)}"
    using simple_mmap_ok simple_mremap_ok s(3) by simp_all
  obtain t a' changed ok where
    "pet_reallocate simple_mmap simple_mremap s a 100 5000 True = Inr (t, a', changed, ok)"
    "ok \<Longrightarrow> (\<forall>i<100. mem t (a' + of_nat i) = mem s (a + of_nat i)) \<and>
       (\<forall>i. 100 \<le> i \<and> i < 5000 \<longrightarrow> mem t (a' + of_nat i) = 0)"
    using reallocate_keeps_contents [OF s(2) m(3) c(2,1) m(1,2), of True] by (auto split: if_splits)
  then show ?thesis using s(1) by blast
qed

subsection \<open>Sequences of operations\<close>

lemma started_contract:
  obtains s where "started = Inr s" and "pet_contract simple_mmap simple_mremap 4096 s {}"
  using started_ok simple_mmap_ok simple_mremap_ok unfolding pet_contract_def by metis

text \<open>
  Two blocks allocated one after the other do not overlap, both stay live, and the second allocation
  leaves the contents of the first block alone, even when it is asked to zero its own.
\<close>

theorem successive_blocks_disjoint:
  assumes "pet_contract mm mr ps s B" and "pet_valid ps n" and "pet_valid ps m"
    and "pet_allocate mm s n clean = Inr (t, a)" and "a \<noteq> 0"
    and "pet_allocate mm t m clean' = Inr (u, b)" and "b \<noteq> 0"
  shows "block_bytes (a, n) \<inter> block_bytes (b, m) = {} \<and>
    pet_contract mm mr ps u (insert (b, m) (insert (a, n) B)) \<and>
    (\<forall>x\<in>block_bytes (a, n). mem u x = mem t x)"
  by (rule pet.alloc_twice [OF assms])

theorem successive_blocks_disjoint_witness:
  "\<exists>s t a r. started = Inr s \<and> pet_allocate simple_mmap s 100 True = Inr (t, a) \<and>
     pet_allocate simple_mmap t 3000 True = Inr r \<and>
     (a \<noteq> 0 \<and> snd r \<noteq> 0 \<longrightarrow> block_bytes (a, 100) \<inter> block_bytes (snd r, 3000) = {})"
proof -
  obtain s where s: "started = Inr s" "pet_contract simple_mmap simple_mremap 4096 s {}" by (rule started_contract)
  have v: "pet_valid 4096 100" "pet_valid 4096 3000" by (simp_all add: pet_valid_def)
  obtain t a where t: "pet_allocate simple_mmap s 100 True = Inr (t, a)"
    "\<exists>B. pet_contract simple_mmap simple_mremap 4096 t B"
    using pet.alloc_law [OF s(2) v(1), of True] by (metis (full_types))
  obtain u b where u: "pet_allocate simple_mmap t 3000 True = Inr (u, b)"
    using pet.alloc_law [OF _ v(2)] t(2) by blast
  show ?thesis
    using successive_blocks_disjoint [OF s(2) v t(1) _ u] s(1) t(1) u by (intro exI [of _ "(u, b)"] exI conjI) auto
qed

text \<open>
  A block that is released right after it was allocated leaves the set of live blocks and their
  contents as they were before.
\<close>

theorem allocate_release_round_trip:
  assumes "pet_contract mm mr ps s B" and "pet_valid ps n"
    and "pet_allocate mm s n clean = Inr (t, a)" and "a \<noteq> 0"
  shows "\<exists>u. pet_release t a n = Inr (u, 0) \<and> pet_contract mm mr ps u B \<and>
    (\<forall>b\<in>B. \<forall>x\<in>block_bytes b. mem u x = mem s x)"
  by (rule pet.alloc_free [OF assms])

theorem allocate_release_round_trip_witness:
  "\<exists>s t a u. started = Inr s \<and> pet_allocate simple_mmap s 5000 True = Inr (t, a) \<and> a \<noteq> 0 \<and>
     pet_release t a 5000 = Inr (u, 0) \<and> pet_contract simple_mmap simple_mremap 4096 u {}"
proof -
  obtain s where s: "started = Inr s" "pet_contract simple_mmap simple_mremap 4096 s {}" by (rule started_contract)
  obtain t a where "started_with 5000 = Inr (t, a)" "a \<noteq> 0" by (rule started_with_ok [of 5000]) simp_all
  then have t: "pet_allocate simple_mmap s 5000 True = Inr (t, a)" "a \<noteq> 0"
    unfolding started_with_def s(1) bindE_simps by simp_all
  have "pet_valid 4096 5000" by (simp add: pet_valid_def)
  from allocate_release_round_trip [OF s(2) this t] s(1) t show ?thesis by blast
qed

subsection \<open>Pages and units\<close>

text \<open>
  The address of a block determines its page and its first unit, so \<open>_release\<close> and \<open>_reallocate\<close>
  find the bits that \<open>_allocate\<close> set; and no block of the sub-allocator is on a page boundary, so the
  test for blocks that are mapped directly never takes one for the other.
\<close>

theorem block_address_round_trip:
  assumes "geometry s" and "page_at s p" and "unat (bm_page_header_size_in_units s) \<le> unat offset"
    and "unat offset < unat (units_per_page s)"
  shows "bm_page_by_addr s (p + ucast (offset * 16)) = p \<and>
    ptrdiff_to_units (p + ucast (offset * 16)) p = offset \<and>
    p + ucast (offset * 16) \<noteq> p \<and> p + ucast (offset * 16) \<noteq> 0 \<and> bm_page_by_addr s p = p"
proof -
  have "0 < unat offset" using geometry_bounds(4) [OF assms(1)] assms(3) by simp
  moreover have "unat (bm_page_by_addr s p) = unat p"
    using assms(2) by (simp add: bm_page_by_addr_eq [OF assms(1)] page_at_def)
  ultimately show ?thesis
    using unit_addr_facts [OF assms(1,2,4)] by (simp add: unit_addr_def unat_eq_iff)
qed

theorem block_address_round_trip_witness:
  "\<exists>s. started = Inr s \<and> bm_page_by_addr s (0x100000000 + ucast ((20 :: u32) * 16)) = 0x100000000 \<and>
     ptrdiff_to_units (0x100000000 + ucast ((20 :: u32) * 16)) 0x100000000 = 20"
proof -
  obtain s where s: "started = Inr s" "heap_ok s {}" "sys_page_size s = 4096" "mapped s = {0x100000000}"
    by (rule started_ok)
  have g: "geometry s" by (rule heap_okD(2) [OF s(2)])
  have u: "unat (units_per_page s) = 256" "unat (bm_page_header_size_in_units s) = 4"
    using g s(3) by (auto simp: geometry_def)
  have "page_at s 0x100000000" by (simp add: page_at_def s(3,4))
  from block_address_round_trip [OF g this, of 20] u s(1) show ?thesis by auto
qed

text \<open>
  The search for a page with room for \<open>n\<close> units always returns. The page it takes in hand has the
  units free, so the program error in the code is never reached; when it finds none, the page at the head
  of every list is too full.
\<close>

theorem search_never_aborts:
  assumes "pet_inv s" and "0 < n" and "n \<le> max_data_units s"
  shows "(\<exists>t. find_available_page s n = Inr (t, None) \<and> pet_inv t \<and> used t = used s \<and> no_room t n) \<or>
    (\<exists>t p offset. find_available_page s n = Inr (t, Some (p, offset)) \<and> used t = used s \<and>
       can_grow s p (unat offset) (unat n))"
proof -
  have n: "0 < unat n" using assms(2) by (simp add: word_less_nat_alt)
  from find_available_page_ok [OF assms(1) n assms(3)] show ?thesis
  proof (elim disjE exE conjE)
    fix t assume "find_available_page s n = Inr (t, None)" "same_but_lists s t" "pet_inv t" "no_room t n"
    then show ?thesis using same_but_lists_inv(4) by blast
  next
    fix t p offset assume f: "find_available_page s n = Inr (t, Some (p, offset))" and o: "offers s n t p offset"
    then have "used t = used s" using same_but_lists_inv(4) by (auto simp: offers_def)
    moreover have "can_grow s p (unat offset) (unat n)" by (rule take_found [OF o])
    ultimately show ?thesis using f by blast
  qed
qed

theorem search_never_aborts_witness:
  "\<exists>s a t r. started_with 100 = Inr (s, a) \<and> find_available_page s 30 = Inr (t, r) \<and> used t = used s"
proof -
  obtain s a where s: "started_with 100 = Inr (s, a)" "heap_ok s {(a, 100)}" "sys_page_size s = 4096"
    by (rule started_with_ok [of 100]) simp_all
  have "unat (max_data_units s) = 252"
    using geometry_bounds(6) [OF heap_okD(2) [OF s(2)]] heap_okD(2) [OF s(2)] s(3) by (auto simp: geometry_def)
  then have "30 \<le> max_data_units s" by (simp add: word_le_nat_alt)
  from search_never_aborts [OF heap_okD(1) [OF s(2)] _ this] s(1) show ?thesis by auto
qed

text \<open>
  C12. \<open>bm_grow\<close> answers exactly whether the units behind the block are in the page and free. It then
  takes those units and no other; otherwise it changes no unit.
\<close>

theorem grow_in_place_exact:
  assumes "pet_inv s" and "pages s p \<noteq> None" and "bm_page_header_size_in_units s \<le> offset"
    and "unat offset + unat old \<le> unat (units_per_page s)" and "old \<le> new"
  shows "\<exists>t. bm_grow s p offset old new = Inr (t, can_grow s p (unat offset + unat old) (unat new - unat old)) \<and>
    pet_inv t \<and> mem t = mem s \<and>
    used t = (if can_grow s p (unat offset + unat old) (unat new - unat old)
              then used s \<union> block_units p (unat offset + unat old) (unat new - unat old) else used s)"
proof -
  have "unat (bm_page_header_size_in_units s) \<le> unat offset" "unat old \<le> unat new"
    using assms(3,5) by (simp_all add: word_le_nat_alt)
  note le = this
  show ?thesis
  proof (rule bm_grow_ok [OF assms(1,2) le(1) assms(4) le(2)])
    fix t assume t: "bm_grow s p offset old new = Inr (t, can_grow s p (unat offset + unat old) (unat new - unat old))"
      "moves_to s t (used s \<union> (if can_grow s p (unat offset + unat old) (unat new - unat old)
         then block_units p (unat offset + unat old) (unat new - unat old) else {}))"
    show ?thesis
      by (rule exI [of _ t], cases "can_grow s p (unat offset + unat old) (unat new - unat old)")
         (use t in \<open>simp_all add: moves_to_def\<close>)
  qed
qed

theorem grow_in_place_exact_witness:
  "\<exists>s a p offset t. started_with 100 = Inr (s, a) \<and> bm_page_by_addr s a = p \<and> ptrdiff_to_units a p = offset \<and>
     bm_grow s p offset 7 9 = Inr (t, can_grow s p (unat offset + 7) 2) \<and> pet_inv t"
proof -
  obtain s a where s: "started_with 100 = Inr (s, a)" "heap_ok s {(a, 100)}" "sys_page_size s = 4096"
    by (rule started_with_ok [of 100]) simp_all
  have e: "bytes_to_units 100 = 7" "max_units 4096 = 252" by (code_simp, simp add: max_units_def)
  have sm: "small s 100" using small_max_units [OF heap_okD(2) [OF s(2)], of 100] e s(3) by simp
  have m: "(a, 100) \<in> {(a, 100)}" by simp
  show ?thesis
  proof (rule block_in_heap [OF s(2) m sm])
    fix p and offset :: u32
    assume p: "bm_page_by_addr s a = p" "ptrdiff_to_units a p = offset" "pages s p \<noteq> None"
      "unat (bm_page_header_size_in_units s) \<le> unat offset"
      "unat offset + unat (bytes_to_units 100) \<le> unat (units_per_page s)"
    have "bm_page_header_size_in_units s \<le> offset" "unat offset + unat (7 :: u32) \<le> unat (units_per_page s)"
      using p(4,5) by (simp_all add: word_le_nat_alt e(1))
    from grow_in_place_exact [OF heap_okD(1) [OF s(2)] p(3) this, of 9] p(1,2) s(1) show ?thesis by auto
  qed
qed

end
