(* ===== verification/Pet_Defects.thy ===== *)
theory Pet_Defects
  imports Pet_Properties
begin

text \<open>
  Where the allocator does not do what it means to: a list of two pages that loses one, sizes that wrap
  around to nothing, and the branch of \<open>_reallocate\<close> that takes a block mapped directly to the
  sub-allocator.
\<close>

subsection \<open>A list of two pages\<close>

text \<open>
  \<open>delete_from_list\<close> takes \<open>next == prev\<close> as the sign of the last page, which also holds in a list of
  two. Deleting one of two pages empties the list: the other page keeps the list in its header, but no
  list head leads to it, so no search finds it, however much room it has.
\<close>

theorem list_of_two_loses_a_page:
  assumes "rings s P" and "p \<in> P" and "nxt s p = q" and "prv s p = q" and "q \<noteq> p"
  shows "\<exists>t l. delete_from_list s p = Inr t \<and> lst s p = Some l \<and> head t l = 0 \<and>
    lst t q = Some l \<and> pages t q \<noteq> None \<and> (\<forall>k. head t k \<noteq> q)"
proof -
  note D = ringsD [OF assms(1)]
  obtain l where l: "lst s p = Some l" using D(2) [OF assms(2)] by blast
  have q: "lst s q = Some l" using D(7) [OF assms(2)] l assms(3) by simp
  have p: "pages s p \<noteq> None" and pq: "pages s q \<noteq> None"
    using lst_pages [of s p] lst_pages [of s q] l q by simp_all
  have eq: "nxt s p = prv s p" using assms(3,4) by simp
  obtain t where t: "delete_from_list s p = Inr t" "same_but_lists s t" "lst t = (lst s)(p := None)"
    "head t = (head s)(l := 0)"
    by (rule delete_last_effect [OF p l D(10) [OF l] eq])
  have "head t k \<noteq> q" for k
  proof (cases "k = l")
    case True
    then show ?thesis using pq D(1) by (auto simp: t(4))
  next
    case False
    have "head s k = q \<Longrightarrow> q \<noteq> 0 \<Longrightarrow> lst s q = Some k" using D(12) [of k] by auto
    moreover have "q \<noteq> 0" using pq D(1) by auto
    ultimately show ?thesis using q False by (auto simp: t(4))
  qed
  then show ?thesis
    using t l q pq assms(5) same_but_lists_pages [OF t(2), of q] by auto
qed

definition two_pages :: pet where
  "two_pages = (static_state 4096 (\<lambda>a. 0))\<lparr>superblock := [0, 0, 4096],
     pages := [4096 \<mapsto> \<lparr>bp_list = Some (SB 2), bp_next = 8192, bp_prev = 8192, bp_bitmap = []\<rparr>,
               8192 \<mapsto> \<lparr>bp_list = Some (SB 2), bp_next = 4096, bp_prev = 4096, bp_bitmap = []\<rparr>]\<rparr>"

theorem list_of_two_loses_a_page_witness:
  "\<exists>t l. delete_from_list two_pages 4096 = Inr t \<and> head t l = 0 \<and> lst t 8192 = Some l \<and>
     (\<forall>k. head t k \<noteq> 8192)"
proof -
  have v: "nxt two_pages p = (if p = 4096 then 8192 else if p = 8192 then 4096 else 0)"
    "prv two_pages p = (if p = 4096 then 8192 else if p = 8192 then 4096 else 0)"
    "lst two_pages p = (if p = 4096 \<or> p = 8192 then Some (SB 2) else None)"
    "pages two_pages 0 = None" for p
    by (simp_all add: two_pages_def view_defs)
  have h: "head two_pages l = (if l = SB 2 then 4096 else 0)" for l
    by (cases l) (auto simp: two_pages_def static_state_def unat_eq_iff less_Suc_eq nth_Cons split: nat.splits)
  have "rings two_pages {4096, 8192}"
    unfolding rings_def v h by (auto simp: valid_ref_def two_pages_def)
  from list_of_two_loses_a_page [OF this, of 4096 8192] show ?thesis by (auto simp: v)
qed

subsection \<open>Sizes that wrap around\<close>

lemma search_superblock_empty:
  assumes "\<And>i. i \<le> unat (max_data_units s) \<Longrightarrow> superblock s ! i = 0"
    and "unat (max_data_units s) < length (superblock s)" and "unat (max_data_units s) < 2 ^ 31" and "idx = unat lfb"
  shows "search_superblock s n idx lfb = Inr (s, None)"
  using assms
proof (induction s n idx lfb rule: search_superblock.induct)
  case (1 s n idx lfb)
  show ?case
  proof (cases "lfb \<le> max_data_units s")
    case True
    then have le: "unat lfb \<le> unat (max_data_units s)" by (simp add: word_le_nat_alt)
    then have "unat (lfb + 1) = Suc (unat lfb)" using "1.prems"(3) by (subst unat_add_exact) simp_all
    then show ?thesis
      using 1 True le by (subst search_superblock.simps) (simp add: Let_def)
  qed (simp add: search_superblock.simps [of s n idx lfb])
qed

lemma bytes_to_units_wraps: "2 ^ 32 < unat n + 16 \<Longrightarrow> bytes_to_units n = 0"
  using align_unsigned_wraps [of 16 4 n] by (simp add: bytes_to_units_def)

text \<open>
  A request for the last 15 sizes below 4 GiB rounds up to no unit at all. On a fresh allocator the
  call succeeds: it returns a pointer, and no unit is in use. The caller's first write is out of bounds.
\<close>

theorem huge_request_gets_no_unit:
  assumes "pet_contract mm mr ps s {}" and "pages s = (\<lambda>p. None)" and "mm (mapped s) ps \<noteq> 0"
    and "2 ^ 32 < unat n + 16"
  shows "\<exists>t a. pet_allocate mm s n False = Inr (t, a) \<and> a \<noteq> 0 \<and> used t = {} \<and>
    blocks_allocated t = blocks_allocated s + 1"
proof -
  have H: "heap_ok s {}" "sys_page_size s = ps" "mmap_ok ps mm" using assms(1) by (simp_all add: pet_contract_def)
  note D = heap_okD [OF H(1)]
  obtain P where C: "pet_core s P {}" using D(1) by (auto simp: pet_inv_def)
  note G = geometry_bounds [OF D(2)]
  have n0: "n \<noteq> 0" and u0: "bytes_to_units n = 0" using assms(4) by (auto intro: bytes_to_units_wraps)
  have lt: "bytes_to_units n < max_data_units s" using G(5,6) by (simp add: u0 word_less_nat_alt)
  have hd: "head s l = 0" for l
  proof (rule ccontr)
    assume "head s l \<noteq> 0"
    then have "lst s (head s l) = Some l" by (rule ringsD(12) [OF pet_coreD(2) [OF C]])
    then show False using lst_pages [of s "head s l"] assms(2) by simp
  qed
  have max: "unat (max_data_units s) < 2 ^ 31" "unat (max_data_units s) < length (superblock s)"
    using G(3,4,5,6) pet_coreD(6) [OF C] by linarith+
  have sb: "superblock s ! i = 0" if "i \<le> unat (max_data_units s)" for i
    using hd [of "SB (of_nat i)"] that max by (simp add: unsigned_of_nat take_bit_nat_eq_self)
  have "lru_page s = 0" using hd [of LRU] by simp
  then have f: "find_available_page s 0 = Inr (s, None)"
    using search_superblock_empty [OF sb max(2,1), of 0 0] by (simp add: find_available_page_def)
  have m: "mmap_ok (sys_page_size s) mm" "mm (mapped s) (sys_page_size s) \<noteq> 0" using H assms(3) by simp_all
  from allocate_new_page [OF m(1) _ f same_but_lists_refl D(1) m(2), of False] obtain t a where
    t: "bm_allocate mm s 0 False = Inr (t, a)" "a \<noteq> 0" "gets_block s 0 False t a" by auto
  have "used s = {}" using D(5) by simp
  then have "used t = {}" "blocks_allocated t = blocks_allocated s + 1"
    using t(3) by (auto simp: gets_block_def block_units_def)
  moreover have "pet_allocate mm s n False = Inr (t, a)" using n0 lt t(1) by (simp add: pet_allocate_def u0)
  ultimately show ?thesis using t(2) by blast
qed

theorem huge_request_gets_no_unit_witness:
  "\<exists>s t a. started = Inr s \<and> pet_allocate simple_mmap s 0xFFFFFFF8 False = Inr (t, a) \<and> a \<noteq> 0 \<and> used t = {}"
proof -
  obtain s where s: "started = Inr s" "heap_ok s {}" "sys_page_size s = 4096" "mapped s = {0x100000000}"
    "pages s = (\<lambda>p. None)"
    by (rule started_ok)
  have c: "pet_contract simple_mmap simple_mremap 4096 s {}"
    using s(2,3) simple_mmap_ok simple_mremap_ok by (simp add: pet_contract_def)
  have "page_range 4096 0x200000000 4096 = {0x200000000}" by (intro page_range_one) simp
  moreover have "page_range 4096 0x100000000 4096 = {0x100000000}" by (intro page_range_one) simp
  ultimately have m: "simple_mmap (mapped s) 4096 \<noteq> 0"
    by (simp add: simple_mmap_def addresses_def s(4))
  have "2 ^ 32 < unat (0xFFFFFFF8 :: u32) + 16" by simp
  from huge_request_gets_no_unit [OF c s(5) m this] s(1) show ?thesis by auto
qed

subsection \<open>Shrinking a block that was mapped directly\<close>

lemma pages_none_direct: "p \<in> direct_pages s \<Longrightarrow> pages s p = None"
  by (simp add: direct_pages_def)

lemma large_start_direct:
  assumes H: "heap_ok s B" "(a, n) \<in> B" and n: "\<not> small s n"
  shows "a \<in> direct_pages s"
proof -
  note D = heap_okD [OF H(1)]
  have "sized s n" by (rule shape_sized [OF D(3) [OF H(2)]])
  then have "a \<in> page_range (sys_page_size s) a (page_size_of s n)"
    using geometry_bounds(2,5) [OF D(2)] sized_pages(3) [OF D(2)] by (intro page_range_self) simp_all
  then show ?thesis using D(4) [OF H(2)] large_block(3) [OF D(2) D(3) [OF H(2)] n] by blast
qed

text \<open>
  \<open>_reallocate\<close> of a block that was mapped directly to a size of the sub-allocator copies the block
  and then calls \<open>bm_release\<close> on the old one, which has no page header. The code takes the bytes of the
  block for one: in the model, where a header that is not there cannot be read, the call never returns
  when the copy was allocated.
\<close>

theorem shrink_to_sub_allocator_fails:
  assumes "heap_ok s B" and "(a, old) \<in> B" and "\<not> small s old" and "sized s new" and "small s new"
    and "mmap_ok (sys_page_size s) mm" and "mm (mapped s) (sys_page_size s) \<noteq> 0"
  shows "pet_reallocate mm mr s a old new clean = Inl Bad_Access"
proof -
  note D = heap_okD [OF assms(1)]
  note L = large_block [OF D(2) D(3) [OF assms(2)] assms(3)]
  have lt: "bytes_to_units new < max_data_units s" "\<not> bytes_to_units old < max_data_units s"
    using assms(3,5) by (simp_all add: small_def)
  then have lt3: "bytes_to_units new < bytes_to_units old" "bytes_to_units new \<le> max_data_units s"
    by (auto simp: word_less_nat_alt word_le_nat_alt)
  have u: "0 < unat (bytes_to_units new)" by (rule sized_units(2) [OF D(2) assms(4)])
  from bm_allocate_ok [OF D(1) assms(6) u lt3(2), of False] assms(7) obtain t b where
    t: "bm_allocate mm s (bytes_to_units new) False = Inr (t, b)" "b \<noteq> 0"
      "gets_block s (bytes_to_units new) False t b" by auto
  have "direct_pages t = direct_pages s" using t(3) by (simp add: gets_block_def)
  then have "pages t a = None" using large_start_direct [OF assms(1-3)] pages_none_direct by blast
  then have "bm_release (copy t b a new) a offset k = Inl Bad_Access" for offset k
    by (simp add: bm_release_def grab_page_def read_page_def copy_def)
  then have "pet_shrink mm mr s a old new = Inl Bad_Access"
    using lt t(1,2) L(1) by (simp add: pet_shrink_def Let_def)
  moreover have "old \<noteq> new" using lt by auto
  moreover have "old OR new \<noteq> 0"
  proof
    assume z: "old OR new = 0"
    have "bit new j = False" for j using arg_cong [OF z, of "\<lambda>w. bit w j"] by (simp add: bit_simps)
    then have "new = 0" by (intro bit_word_eqI) simp
    then show False using assms(4) by (simp add: sized_def)
  qed
  ultimately show ?thesis using L(2) lt3(1) by (auto simp: pet_reallocate_def Let_def)
qed

lemma started_large:
  obtains s a where "started_with 10000 = Inr (s, a)" and "heap_ok s {(a, 10000)}" and "sys_page_size s = 4096"
    and "a \<noteq> 0" and "simple_mmap (mapped s) 4096 \<noteq> 0" and "pages s = (\<lambda>p. None)" and "\<not> small s 10000"
    and "small s 100" and "small s 40"
proof -
  obtain s where s: "started = Inr s" "heap_ok s {}" "sys_page_size s = 4096" "mapped s = {0x100000000}"
    "pages s = (\<lambda>p. None)"
    by (rule started_ok)
  obtain t a where t: "started_with 10000 = Inr (t, a)" "heap_ok t {(a, 10000)}" "sys_page_size t = 4096" "a \<noteq> 0"
    by (rule started_with_ok [of 10000]) simp_all
  have e: "bytes_to_units 10000 = 625" "bytes_to_units 100 = 7" "bytes_to_units 40 = 3" "max_units 4096 = 252"
    by (code_simp, code_simp, code_simp, simp add: max_units_def)
  have sm: "\<not> small r 10000" "small r 100" "small r 40" if "heap_ok r B" "sys_page_size r = 4096" for r B
    using small_max_units [OF heap_okD(2) [OF that(1)]] e that(2) by simp_all
  have al: "align_unsigned_to_page 4096 10000 = 12288" by code_simp
  have one: "page_range 4096 x 4096 = {x}" for x by (intro page_range_one) simp
  have three: "page_range 4096 x 12288 = {x, x + 4096, x + 8192}" for x
  proof -
    have "{0..<3} = {0, 1, 2 :: nat}" by auto
    then show ?thesis by (simp add: page_range_def)
  qed
  have mm: "simple_mmap {0x100000000} 12288 = 0x200000000"
    by (simp add: simple_mmap_def addresses_def three)
  have al2: "pet_allocate simple_mmap s 10000 True = Inr (t, a)" using t(1) unfolding started_with_def s(1) bindE_simps .
  let ?m = "s\<lparr>mapped := {0x100000000} \<union> {0x200000000, 0x200001000, 0x200002000},
              mem := cleanse (mem s) 0x200000000 0 12288\<rparr>"
  have c: "call_mmap simple_mmap s 12288 True = (?m, 0x200000000)"
    by (simp add: call_mmap_def s(3,4) mm three)
  have "\<not> bytes_to_units 10000 < max_data_units s" using sm(1) [OF s(2,3)] by (simp add: small_def)
  then have "pet_allocate simple_mmap s 10000 True = Inr (?m\<lparr>blocks_allocated := blocks_allocated ?m + 1\<rparr>, 0x200000000)"
    by (simp only: pet_allocate_def Let_def s(3) al c prod.case if_False) simp
  then have "t = ?m\<lparr>blocks_allocated := blocks_allocated ?m + 1\<rparr>" using al2 by simp
  then have m: "mapped t = {0x100000000} \<union> {0x200000000, 0x200001000, 0x200002000}" "pages t = (\<lambda>p. None)"
    using s(5) by simp_all
  have "simple_mmap (mapped t) 4096 \<noteq> 0"
    by (simp add: simple_mmap_def addresses_def one m(1))
  then show thesis using that t m(2) sm [OF t(2,3)] by blast
qed

theorem shrink_to_sub_allocator_fails_witness:
  "\<exists>s a. started_with 10000 = Inr (s, a) \<and>
     pet_reallocate simple_mmap simple_mremap s a 10000 100 False = Inl Bad_Access"
proof -
  obtain s a where s: "started_with 10000 = Inr (s, a)" "heap_ok s {(a, 10000)}" "sys_page_size s = 4096"
    "simple_mmap (mapped s) 4096 \<noteq> 0" "\<not> small s 10000" "small s 100"
    by (rule started_large)
  have m: "(a, 10000) \<in> {(a, 10000)}" "sized s 100" "mmap_ok (sys_page_size s) simple_mmap"
    "simple_mmap (mapped s) (sys_page_size s) \<noteq> 0"
    using s(3,4) simple_mmap_ok by (simp_all add: sized_def)
  from shrink_to_sub_allocator_fails [OF s(2) m(1) s(5) m(2) s(6) m(3,4)] s(1) show ?thesis by blast
qed

text \<open>
  When the kernel has no memory for the copy, the same branch remaps the block to one page instead and
  reports success. The block then has a size of the sub-allocator at an address on a page boundary, and the
  next resize to another such size aborts the program.
\<close>

theorem remapped_small_block_aborts:
  assumes "heap_ok s B" and "(a, old) \<in> B" and "\<not> small s old" and "new \<noteq> 0" and "small s new"
    and "bm_allocate mm s (bytes_to_units new) False = Inr (s1, 0)" and "moves_to s s1 (used s)"
    and "small s k" and "bytes_to_units k \<noteq> bytes_to_units new"
  shows "\<exists>t. pet_reallocate mm mr s a old new clean = Inr (t, a, False, True) \<and>
    pet_reallocate mm' mr' t a new k clean' = Inl Abort"
proof -
  note D = heap_okD [OF assms(1)]
  note L = large_block [OF D(2) D(3) [OF assms(2)] assms(3)]
  have lt: "bytes_to_units new < max_data_units s" "\<not> bytes_to_units old < max_data_units s"
    using assms(3,5) by (simp_all add: small_def)
  then have lt3: "bytes_to_units new < bytes_to_units old" by (auto simp: word_less_nat_alt)
  have nz: "x OR y \<noteq> 0" if "x \<noteq> 0" for x y :: u32
  proof
    assume z: "x OR y = 0"
    have "bit x j = False" for j using arg_cong [OF z, of "\<lambda>w. bit w j"] by (simp add: bit_simps)
    then have "x = 0" by (intro bit_word_eqI) simp
    then show False using that by simp
  qed
  have "old OR new \<noteq> 0" using nz [OF assms(4), of old] by (simp add: or.commute)
  obtain t r where t: "call_mremap mr s1 a old new False = (t, r)" by (cases "call_mremap mr s1 a old new False")
  have s1: "sys_page_size s1 = sys_page_size s" "max_data_units s1 = max_data_units s"
    using assms(7) by (simp_all add: moves_to_def same_params_def)
  have par: "sys_page_size t = sys_page_size s \<and> max_data_units t = max_data_units s"
    using t s1 by (auto simp: call_mremap_def Let_def split: if_splits)
  have "pet_shrink mm mr s a old new = Inr (t, a, False, True)"
    using lt assms(6) L(1) t by (simp add: pet_shrink_def pet_remap_def Let_def)
  then have first: "pet_reallocate mm mr s a old new clean = Inr (t, a, False, True)"
    using lt3 L(2) \<open>old OR new \<noteq> 0\<close> by (auto simp: pet_reallocate_def Let_def)
  have pg: "bm_page_by_addr t a = a" using L(1) par by (simp add: bm_page_by_addr_def)
  have sm: "bytes_to_units new < max_data_units t" "bytes_to_units k < max_data_units t"
    using assms(5,8) par by (simp_all add: small_def)
  have "pet_reallocate mm' mr' t a new k clean' = Inl Abort"
  proof (cases "bytes_to_units k < bytes_to_units new")
    case True
    then show ?thesis
      using L(2) nz [OF assms(4), of k] sm pg assms(9) by (auto simp: pet_reallocate_def pet_shrink_def Let_def)
  next
    case False
    then show ?thesis
      using L(2) nz [OF assms(4), of k] sm pg assms(9) by (auto simp: pet_reallocate_def pet_grow_def Let_def)
  qed
  then show ?thesis using first by blast
qed

theorem remapped_small_block_aborts_witness:
  "\<exists>s a t. started_with 10000 = Inr (s, a) \<and>
     pet_reallocate (\<lambda>M sz. 0) simple_mremap s a 10000 100 False = Inr (t, a, False, True) \<and>
     pet_reallocate simple_mmap simple_mremap t a 100 40 False = Inl Abort"
proof -
  obtain s a where s: "started_with 10000 = Inr (s, a)" "heap_ok s {(a, 10000)}" "sys_page_size s = 4096"
    "pages s = (\<lambda>p. None)" "\<not> small s 10000" "small s 100" "small s 40"
    by (rule started_large)
  have e: "bytes_to_units 100 = 7" "bytes_to_units 40 = 3" by code_simp+
  have m: "(a, 10000) \<in> {(a, 10000)}" "mmap_ok (sys_page_size s) (\<lambda>M sz. 0)" by (simp_all add: mmap_ok_def)
  have le: "0 < unat (7 :: u32)" "7 \<le> max_data_units s" using s(6) by (simp_all add: small_def e)
  have "\<not> gets_block s 7 False t b" if "bm_allocate (\<lambda>M sz. 0) s 7 False = Inr (t, b)" "b \<noteq> 0" for t b
    using find_available_page_ok [OF heap_okD(1) [OF s(2)] le] that
    by (auto simp: bm_allocate_def call_mmap_def bm_allocate_out_def offers_def bitmaps_def s(4))
  then obtain s1 where s1: "bm_allocate (\<lambda>M sz. 0) s 7 False = Inr (s1, 0)" "moves_to s s1 (used s)"
    using bm_allocate_ok [OF heap_okD(1) [OF s(2)] m(2) le, of False] by blast
  from remapped_small_block_aborts [OF s(2) m(1) s(5) _ s(6) _ s1(2) s(7), of "\<lambda>M sz. 0" simple_mremap False]
    s1(1) s(1) show ?thesis by (simp add: e)
qed

text \<open>
  A new size of zero is not rejected: the check for zero sizes needs both to be zero, and equal sizes
  have returned before. A small block that is resized to zero bytes loses all its units, while the caller
  is told that it still has a block at the old address; releasing it aborts the program.
\<close>

theorem resize_to_zero_drops_block:
  assumes "heap_ok s B" and "(a, old) \<in> B" and "small s old"
  shows "\<exists>t. pet_reallocate mm mr s a old 0 clean = Inr (t, a, False, True) \<and> a \<noteq> 0 \<and>
    heap_ok t (B - {(a, old)}) \<and> blocks_allocated t = blocks_allocated s \<and> pet_release t a 0 = Inl Abort"
proof -
  note D = heap_okD [OF assms(1)]
  have old: "sized s old" by (rule shape_sized [OF D(3) [OF assms(2)]])
  have z: "bytes_to_units 0 = 0" by code_simp
  have u: "0 < unat (bytes_to_units old)" by (rule sized_units(2) [OF D(2) old])
  have mx: "max_data_units s \<noteq> 0" using assms(3) by (auto simp: small_def)
  show ?thesis
  proof (rule block_in_heap [OF assms])
    fix p and offset :: u32
    assume p: "a \<noteq> 0" "a \<noteq> p" "bm_page_by_addr s a = p" "ptrdiff_to_units a p = offset"
      "units_of s (a, old) = block_units p (unat offset) (unat (bytes_to_units old))" "pages s p \<noteq> None"
      "unat (bm_page_header_size_in_units s) \<le> unat offset"
      "unat offset + unat (bytes_to_units old) \<le> unat (units_per_page s)"
    have le: "unat (0 :: u32) \<le> unat (bytes_to_units old)" by simp
    show ?thesis
    proof (rule bm_shrink_ok [OF D(1) p(6-8) le])
      fix t assume t: "bm_shrink s p offset (bytes_to_units old) 0 = Inr t"
        "moves_to s t (used s - block_units p (unat offset + unat (0 :: u32)) (unat (bytes_to_units old) - unat (0 :: u32)))"
        "blocks_allocated t = blocks_allocated s"
      have "pages_of s (a, old) = {}" using assms(3) by (simp add: pages_of.simps)
      then have "heap_ok t ((B - {(a, old)}) \<union> {})"
        using t(2) assms(2) by (intro heap_ok_update [OF assms(1)]) (simp_all add: moves_to_def p(5))
      moreover have "pet_reallocate mm mr s a old 0 clean = Inr (t, a, False, True)"
        using old assms(3) p(1-4) t(1) u mx
        by (simp add: pet_reallocate_def pet_shrink_def Let_def z small_def sized_def unat_gt_0 word_gt_0 order.strict_trans1)
      ultimately show ?thesis using t(3) p(1) by (simp add: pet_release_def)
    qed
  qed
qed

theorem resize_to_zero_drops_block_witness:
  "\<exists>s a t. started_with 100 = Inr (s, a) \<and>
     pet_reallocate simple_mmap simple_mremap s a 100 0 False = Inr (t, a, False, True) \<and> a \<noteq> 0 \<and> heap_ok t {}"
proof -
  obtain s a where s: "started_with 100 = Inr (s, a)" "heap_ok s {(a, 100)}" "sys_page_size s = 4096"
    by (rule started_with_ok [of 100]) simp_all
  have e: "bytes_to_units 100 = 7" "max_units 4096 = 252" by (code_simp, simp add: max_units_def)
  have sm: "small s 100" using small_max_units [OF heap_okD(2) [OF s(2)], of 100] e s(3) by simp
  from resize_to_zero_drops_block [OF s(2) _ sm, of a simple_mmap simple_mremap False] s(1) show ?thesis by auto
qed

end
