(* ===== verification/Queue_Interface.thy ===== *)
theory Queue_Interface
  imports Pussy_Prelude
begin

text \<open>
  The interface of a bounded queue of bytes, as \<^verbatim>\<open>include/ringbuffer.h\<close> describes it: a write stores all
  of its bytes or none, a read takes bytes from the front. A sink takes writes; a queue can be read as
  well, in the states \<open>can_get\<close>.
\<close>

locale byte_sink =
  fixes inv :: "'s \<Rightarrow> bool" and contents :: "'s \<Rightarrow> u8 list" and room :: "'s \<Rightarrow> nat"
    and put :: "'s \<Rightarrow> u8 list \<Rightarrow> ('s \<times> bool) res"
  assumes put_law: "inv s \<Longrightarrow> length xs < 2 ^ 32 \<Longrightarrow>
    \<exists>t. put s xs = Inr (t, length xs \<le> room s) \<and>
      (if length xs \<le> room s
       then inv t \<and> contents t = contents s @ xs \<and> room t = room s - length xs else t = s)"
begin

text \<open>A list of writes that fits as a whole: every write is accepted, and the bytes come in order.\<close>

fun put_all :: "'s \<Rightarrow> u8 list list \<Rightarrow> ('s \<times> bool list) res" where
  "put_all s [] = Inr (s, [])"
| "put_all s (xs # xss) =
     bindE (put s xs) (\<lambda>(t, ok). bindE (put_all t xss) (\<lambda>(u, oks). Inr (u, ok # oks)))"

lemma put_all_fits:
  assumes "inv s" and "length (concat xss) \<le> room s" and "\<forall>xs\<in>set xss. length xs < 2 ^ 32"
  shows "\<exists>t. put_all s xss = Inr (t, map (\<lambda>_. True) xss) \<and> inv t \<and>
    contents t = contents s @ concat xss \<and> room t = room s - length (concat xss)"
  using assms
proof (induction xss arbitrary: s)
  case Nil
  then show ?case by simp
next
  case (Cons xs xss)
  then obtain t where t: "put s xs = Inr (t, True)" "inv t" "contents t = contents s @ xs"
    "room t = room s - length xs"
    using put_law [of s xs] by auto
  moreover have "length (concat xss) \<le> room t" using Cons.prems t(4) by simp
  ultimately show ?case using Cons.IH [of t] Cons.prems(3) by auto
qed

text \<open>Whatever the writes, the bytes of the accepted ones come in order and none is lost.\<close>

lemma put_all_keeps:
  assumes "inv s" and "\<forall>xs\<in>set xss. length xs < 2 ^ 32"
  shows "\<exists>t oks. put_all s xss = Inr (t, oks) \<and> length oks = length xss \<and> inv t \<and>
    contents t = contents s @ concat (map fst (filter snd (zip xss oks)))"
  using assms
proof (induction xss arbitrary: s)
  case Nil
  then show ?case by simp
next
  case (Cons xs xss)
  from put_law [OF Cons.prems(1), of xs] Cons.prems(2) obtain t where
    t: "put s xs = Inr (t, length xs \<le> room s)" "inv t"
      "contents t = (if length xs \<le> room s then contents s @ xs else contents s)"
    using Cons.prems(1) by (auto split: if_splits)
  moreover have "\<forall>xs\<in>set xss. length xs < 2 ^ 32" using Cons.prems(2) by simp
  ultimately show ?case using Cons.IH [of t] by (auto split: if_splits)
qed

end

locale byte_queue = byte_sink +
  fixes can_get :: "'a \<Rightarrow> bool" and get :: "'a \<Rightarrow> u32 \<Rightarrow> ('a \<times> u8 list) res"
  assumes get_law: "inv s \<Longrightarrow> can_get s \<Longrightarrow>
    \<exists>t. get s n = Inr (t, take (unat n) (contents s)) \<and> inv t \<and> can_get t \<and>
      contents t = drop (unat n) (contents s)"
begin

text \<open>First in, first out: after the writes, two reads give the front of all bytes and what follows it.\<close>

lemma fifo:
  assumes "inv s" and "length (concat xss) \<le> room s" and "\<forall>xs\<in>set xss. length xs < 2 ^ 32"
    and "put_all s xss = Inr (t, oks)" and "can_get t"
  shows "\<exists>u v. get t n = Inr (u, take (unat n) (contents s @ concat xss)) \<and>
    get u m = Inr (v, take (unat m) (drop (unat n) (contents s @ concat xss)))"
proof -
  have t: "inv t" "contents t = contents s @ concat xss"
    using put_all_fits [OF assms(1-3)] assms(4) by auto
  then obtain u where u: "get t n = Inr (u, take (unat n) (contents s @ concat xss))" "inv u" "can_get u"
    "contents u = drop (unat n) (contents s @ concat xss)"
    using get_law [OF t(1) assms(5)] by metis
  then show ?thesis using get_law [OF u(2,3), of m] by auto
qed

end

end
