(* ===== verification/Ring_Buffer.thy ===== *)
theory Ring_Buffer
  imports Alignment Queue_Interface
begin

text \<open>
  The ring buffer of \<^verbatim>\<open>src/ringbuffer_base.c\<close>. Its field \<open>data\<close> is the null pointer, \<open>MAP_FAILED\<close>, or a
  mapping; the address of the mapping does not matter to the code, so a mapping is its bytes. The kernel is
  an argument: \<open>km n\<close> is what \<open>mmap\<close> gives for \<open>n\<close> bytes, \<open>kr d n\<close> what \<open>mremap\<close> makes of the mapping \<open>d\<close>,
  and \<open>None\<close> stands for \<open>MAP_FAILED\<close>. An access outside the mapping is \<open>Bad_Access\<close>.
\<close>

datatype mapping = Null | Map_Failed | Mapped "u8 list"

record ring_buffer =
  rb_data :: mapping
  rb_size :: u32
  rb_head :: u32
  rb_tail :: u32

type_synonym kernel_map = "u32 \<Rightarrow> u8 list option"
type_synonym kernel_remap = "u8 list \<Rightarrow> u32 \<Rightarrow> u8 list option"

fun remap_data :: "kernel_remap \<Rightarrow> mapping \<Rightarrow> u32 \<Rightarrow> mapping option" where
  "remap_data kr (Mapped d) n = map_option Mapped (kr d n)"
| "remap_data kr _ n = None"

definition bytes_of :: "ring_buffer \<Rightarrow> u8 list option" where
  "bytes_of rb = (case rb_data rb of Mapped d \<Rightarrow> Some d | _ \<Rightarrow> None)"

text \<open>\<open>memcpy\<close> into the mapping, out of it, and \<open>memmove\<close> within it.\<close>

definition copy_in :: "ring_buffer \<Rightarrow> nat \<Rightarrow> u8 list \<Rightarrow> nat \<Rightarrow> u32 \<Rightarrow> ring_buffer res" where
  "copy_in rb dst src i n = or_fail Bad_Access
     (do { d \<leftarrow> bytes_of rb; xs \<leftarrow> load_bytes src i (unat n); d \<leftarrow> store_bytes d dst xs;
           Some (rb\<lparr>rb_data := Mapped d\<rparr>) })"

definition copy_out :: "ring_buffer \<Rightarrow> nat \<Rightarrow> u8 list \<Rightarrow> nat \<Rightarrow> u32 \<Rightarrow> u8 list res" where
  "copy_out rb src dst i n = or_fail Bad_Access
     (do { d \<leftarrow> bytes_of rb; xs \<leftarrow> load_bytes d src (unat n); store_bytes dst i xs })"

definition move_within :: "ring_buffer \<Rightarrow> nat \<Rightarrow> nat \<Rightarrow> u32 \<Rightarrow> ring_buffer res" where
  "move_within rb dst src n = or_fail Bad_Access
     (do { d \<leftarrow> bytes_of rb; d \<leftarrow> move_bytes d dst src (unat n); Some (rb\<lparr>rb_data := Mapped d\<rparr>) })"

subsection \<open>Creation and resizing\<close>

text \<open>
  \<open>maps\<close> is the number of mappings that ring buffers have from the kernel: \<open>mmap\<close> makes one more, \<open>munmap\<close>
  of a whole mapping one less, and \<open>mremap\<close> leaves it as it is. To unmap another size than that of the
  mapping leaves a mapping behind, and \<open>MAP_FAILED\<close> is not one.
\<close>

fun unmap_data :: "nat \<Rightarrow> mapping \<Rightarrow> u32 \<Rightarrow> nat" where
  "unmap_data maps (Mapped d) n = (if length d = unat n then maps - 1 else maps)"
| "unmap_data maps _ n = maps"

definition init_ringbuffer ::
  "u32 \<Rightarrow> kernel_map \<Rightarrow> nat \<Rightarrow> ring_buffer \<Rightarrow> u32 \<Rightarrow> nat \<times> ring_buffer \<times> bool" where
  "init_ringbuffer ps km maps rb nbytes =
     (let rb = rb\<lparr>rb_size := align_unsigned nbytes ps\<rparr>;
          rb = (if rb_size rb = 0 then rb\<lparr>rb_size := ps\<rparr> else rb)
      in case km (rb_size rb) of
           None \<Rightarrow> (maps, rb\<lparr>rb_data := Map_Failed\<rparr>, False)
         | Some d \<Rightarrow> (maps + 1, rb\<lparr>rb_data := Mapped d, rb_head := 0, rb_tail := 0\<rparr>, True))"

definition fini_ringbuffer :: "nat \<Rightarrow> ring_buffer \<Rightarrow> nat \<times> ring_buffer" where
  "fini_ringbuffer maps rb =
     (if rb_data rb \<noteq> Null then (unmap_data maps (rb_data rb) (rb_size rb), rb\<lparr>rb_data := Null\<rparr>) else (maps, rb))"

definition grow_ringbuffer :: "u32 \<Rightarrow> kernel_remap \<Rightarrow> ring_buffer \<Rightarrow> u32 \<Rightarrow> (ring_buffer \<times> bool) res" where
  "grow_ringbuffer ps kr rb new_size =
     (let new_size = align_unsigned new_size ps;
          new_size = (if new_size = 0 then ps else new_size)
      in if new_size \<le> rb_size rb then Inr (rb, True)
         else (case remap_data kr (rb_data rb) new_size of
                 None \<Rightarrow> Inr (rb, False)
               | Some new_addr \<Rightarrow>
                   (let rb = rb\<lparr>rb_data := new_addr\<rparr>
                    in bindE (if rb_head rb > rb_tail rb
                              then (let upper_data_size = rb_size rb - rb_head rb;
                                        offset = new_size - rb_size rb
                                    in bindE (move_within rb (unat (rb_head rb) + unat offset) (unat (rb_head rb))
                                                upper_data_size)
                                         (\<lambda>rb. Inr (rb\<lparr>rb_head := rb_head rb + offset\<rparr>)))
                              else Inr rb)
                         (\<lambda>rb. Inr (rb\<lparr>rb_size := new_size\<rparr>, True)))))"

text \<open>
  In \<open>shrink_ringbuffer\<close> the branches before the resizing return early when there is nothing to give
  back; \<open>None\<close> in the second component says that. \<open>shrink_data\<close> is this part.
\<close>

definition shrink_data :: "u32 \<Rightarrow> ring_buffer \<Rightarrow> (ring_buffer \<times> u32 option) res" where
  "shrink_data ps rb =
     (if rb_head rb = rb_tail rb
      then (let rb = rb\<lparr>rb_head := 0, rb_tail := 0\<rparr>; shrinkable_bytes = rb_size rb - ps
            in Inr (rb, if shrinkable_bytes = 0 then None else Some shrinkable_bytes))
      else if rb_head rb > rb_tail rb
      then (let shrinkable_bytes = (rb_head rb - rb_tail rb - 1) AND NOT (ps - 1)
            in if shrinkable_bytes = 0 then Inr (rb, None)
               else (let upper_data_size = rb_size rb - rb_head rb
                     in bindE (move_within rb (unat (rb_head rb) - unat shrinkable_bytes) (unat (rb_head rb))
                                 upper_data_size)
                          (\<lambda>rb. Inr (rb\<lparr>rb_head := rb_head rb - shrinkable_bytes\<rparr>, Some shrinkable_bytes))))
      else (let shrinkable_bytes = (rb_head rb + rb_size rb - rb_tail rb - 1) AND NOT (ps - 1)
            in if shrinkable_bytes = 0 then Inr (rb, None)
               else if rb_head rb \<noteq> 0
               then bindE (move_within rb 0 (unat (rb_head rb)) (rb_tail rb - rb_head rb))
                      (\<lambda>rb. Inr (rb\<lparr>rb_tail := rb_tail rb - rb_head rb, rb_head := 0\<rparr>, Some shrinkable_bytes))
               else Inr (rb, Some shrinkable_bytes)))"

definition shrink_ringbuffer :: "u32 \<Rightarrow> kernel_remap \<Rightarrow> ring_buffer \<Rightarrow> u32 \<Rightarrow> ring_buffer res" where
  "shrink_ringbuffer ps kr rb new_size =
     (let new_size = align_unsigned new_size ps;
          new_size = (if new_size = 0 then ps else new_size)
      in if new_size \<ge> rb_size rb then Inr rb
         else bindE (shrink_data ps rb) (\<lambda>(rb, shrinkable).
              case shrinkable of None \<Rightarrow> Inr rb
              | Some shrinkable_bytes \<Rightarrow>
                  (let new_size = (if new_size < rb_size rb - shrinkable_bytes
                                   then rb_size rb - shrinkable_bytes else new_size)
                   in case remap_data kr (rb_data rb) new_size of
                        None \<Rightarrow> Inl Abort
                      | Some new_addr \<Rightarrow> Inr (rb\<lparr>rb_data := new_addr, rb_size := new_size\<rparr>))))"

subsection \<open>Writing and reading\<close>

definition write_ringbuffer :: "ring_buffer \<Rightarrow> u8 list \<Rightarrow> u32 \<Rightarrow> (ring_buffer \<times> bool) res" where
  "write_ringbuffer rb data nbytes =
     (let (tail_len, bytes_avail) =
            (if rb_head rb > rb_tail rb
             then (rb_head rb - rb_tail rb, rb_head rb - rb_tail rb)
             else (rb_size rb - rb_tail rb, rb_head rb + (rb_size rb - rb_tail rb)))
      in if nbytes \<ge> bytes_avail then Inr (rb, False)
         else if nbytes < tail_len
         then bindE (copy_in rb (unat (rb_tail rb)) data 0 nbytes) (\<lambda>rb.
              Inr (rb\<lparr>rb_tail := rb_tail rb + nbytes\<rparr>, True))
         else bindE (copy_in rb (unat (rb_tail rb)) data 0 tail_len) (\<lambda>rb.
              let head_len = nbytes - tail_len
              in bindE (if head_len \<noteq> 0 then copy_in rb 0 data (unat tail_len) head_len else Inr rb) (\<lambda>rb.
                 Inr (rb\<lparr>rb_tail := head_len\<rparr>, True))))"

text \<open>The result of a read: the ring buffer, the caller's buffer, and the number returned.\<close>

definition read_ringbuffer :: "ring_buffer \<Rightarrow> u8 list \<Rightarrow> u32 \<Rightarrow> (ring_buffer \<times> u8 list \<times> u32) res" where
  "read_ringbuffer rb buffer buffer_size =
     (if rb_head rb = rb_tail rb then Inr (rb, buffer, 0)
      else if rb_head rb < rb_tail rb
      then (let data_size = rb_tail rb - rb_head rb;
                len = (if data_size \<le> buffer_size then data_size else buffer_size)
            in bindE (copy_out rb (unat (rb_head rb)) buffer 0 len) (\<lambda>buffer.
               Inr (rb\<lparr>rb_head := rb_head rb + len\<rparr>, buffer, len)))
      else (let upper_len = rb_size rb - rb_tail rb
            in if buffer_size \<le> upper_len
               then bindE (copy_out rb (unat (rb_head rb)) buffer 0 buffer_size) (\<lambda>buffer.
                    Inr (if buffer_size = upper_len then rb\<lparr>rb_head := 0\<rparr>
                         else rb\<lparr>rb_head := rb_head rb + upper_len\<rparr>, buffer, buffer_size))
               else bindE (copy_out rb (unat (rb_head rb)) buffer 0 upper_len) (\<lambda>buffer.
                    let buffer_size = buffer_size - upper_len;
                        lower_len = (if rb_tail rb < buffer_size then rb_tail rb else buffer_size)
                    in bindE (copy_out rb 0 buffer (unat upper_len) lower_len) (\<lambda>buffer.
                       Inr (rb\<lparr>rb_head := lower_len\<rparr>, buffer, upper_len + lower_len)))))"

subsection \<open>Ring buffers in allocated memory\<close>

text \<open>
  \<open>create_ringbuffer\<close> and \<open>delete_ringbuffer\<close> keep the structure in a block of the default allocator,
  whose functions are arguments. The state is that of the allocator, the structures at the addresses
  of their blocks, and the number of mappings; \<open>raw\<close> is what a fresh block holds. On LP64 the structure takes
  24 bytes.
\<close>

type_synonym rings = "u64 \<Rightarrow> ring_buffer option"

definition sizeof_RingBuffer :: u32 where "sizeof_RingBuffer = 24"

definition create_ringbuffer ::
  "u32 \<Rightarrow> kernel_map \<Rightarrow> ('s \<Rightarrow> u32 \<Rightarrow> bool \<Rightarrow> ('s \<times> u64) res) \<Rightarrow> ('s \<Rightarrow> u64 \<Rightarrow> u32 \<Rightarrow> ('s \<times> u64) res) \<Rightarrow>
   ring_buffer \<Rightarrow> 's \<times> rings \<times> nat \<Rightarrow> u32 \<Rightarrow> (('s \<times> rings \<times> nat) \<times> u64) res" where
  "create_ringbuffer ps km alloc free raw = (\<lambda>(s, rings, maps) nbytes.
     if ps = 0 then Inl Abort
     else bindE (alloc s sizeof_RingBuffer False) (\<lambda>(s, ringbuf).
          if ringbuf \<noteq> 0
          then (let (maps, rb, ok) = init_ringbuffer ps km maps raw nbytes; rings = rings(ringbuf \<mapsto> rb)
                in if ok then Inr ((s, rings, maps), ringbuf)
                   else bindE (free s ringbuf sizeof_RingBuffer) (\<lambda>(s, _).
                        Inr ((s, rings(ringbuf := None), maps), 0)))
          else Inr ((s, rings, maps), 0)))"

definition delete_ringbuffer ::
  "('s \<Rightarrow> u64 \<Rightarrow> u32 \<Rightarrow> ('s \<times> u64) res) \<Rightarrow> 's \<times> rings \<times> nat \<Rightarrow> u64 \<Rightarrow> (('s \<times> rings \<times> nat) \<times> u64) res" where
  "delete_ringbuffer free = (\<lambda>(s, rings, maps) ringbuf.
     if ringbuf \<noteq> 0
     then (case rings ringbuf of None \<Rightarrow> Inl Bad_Access
           | Some rb \<Rightarrow>
               (let (maps, rb) = fini_ringbuffer maps rb; rings = rings(ringbuf \<mapsto> rb)
                in bindE (free s ringbuf sizeof_RingBuffer) (\<lambda>(s, _).
                   Inr ((s, rings(ringbuf := None), maps), 0))))
     else Inr ((s, rings, maps), 0))"

end
