(* ===== verification/Ring_Properties.thy ===== *)
theory Ring_Properties
  imports Ring_Buffer
begin

text \<open>
  What the ring buffer does to the sequence of bytes it holds. \<open>ring_contents\<close> reads the sequence off the
  state; one byte of the mapping is never used, so that equal positions mean an empty buffer.
\<close>

definition ring_contents :: "ring_buffer \<Rightarrow> u8 list" where
  "ring_contents rb =
     (case bytes_of rb of None \<Rightarrow> []
      | Some d \<Rightarrow> if rb_head rb \<le> rb_tail rb then drop (unat (rb_head rb)) (take (unat (rb_tail rb)) d)
                  else drop (unat (rb_head rb)) d @ take (unat (rb_tail rb)) d)"

definition ring_ok :: "u32 \<Rightarrow> ring_buffer \<Rightarrow> bool" where
  "ring_ok ps rb \<longleftrightarrow> is_power_of_two ps \<and> unat ps dvd unat (rb_size rb) \<and> rb_head rb < rb_size rb \<and>
     rb_tail rb < rb_size rb \<and> map_option length (bytes_of rb) = Some (unat (rb_size rb))"

definition ring_room :: "ring_buffer \<Rightarrow> nat" where
  "ring_room rb = unat (rb_size rb) - 1 - length (ring_contents rb)"

definition wrapped :: "ring_buffer \<Rightarrow> bool" where
  "wrapped rb \<longleftrightarrow> rb_tail rb < rb_head rb"

text \<open>What the code relies on: a mapping has the size asked for, and remapping keeps the bytes.\<close>

definition kmap_ok :: "kernel_map \<Rightarrow> bool" where
  "kmap_ok km \<longleftrightarrow> (\<forall>n d. km n = Some d \<longrightarrow> length d = unat n)"

definition kremap_ok :: "kernel_remap \<Rightarrow> bool" where
  "kremap_ok kr \<longleftrightarrow> (\<forall>d n d'. kr d n = Some d' \<longrightarrow>
     length d' = unat n \<and> take (length d) d' = take (unat n) d)"

lemma kremap_okD:
  "kremap_ok kr \<Longrightarrow> kr d n = Some e \<Longrightarrow> length e = unat n \<and> take (length d) e = take (unat n) d"
  by (simp add: kremap_ok_def)

lemma ring_okE:
  assumes "ring_ok ps rb"
  obtains d where "bytes_of rb = Some d" "rb_data rb = Mapped d" "length d = unat (rb_size rb)"
    "unat (rb_head rb) < unat (rb_size rb)" "unat (rb_tail rb) < unat (rb_size rb)"
  using assms by (auto simp: ring_ok_def bytes_of_def word_less_nat_alt split: mapping.splits)

lemma bytes_of_update [simp]:
  "bytes_of (rb\<lparr>rb_data := Mapped d\<rparr>) = Some d"
  "bytes_of (rb\<lparr>rb_size := n\<rparr>) = bytes_of rb"
  "bytes_of (rb\<lparr>rb_head := n\<rparr>) = bytes_of rb"
  "bytes_of (rb\<lparr>rb_tail := n\<rparr>) = bytes_of rb"
  by (simp_all add: bytes_of_def)

lemma bytes_of_Mapped: "rb_data rb = Mapped d \<Longrightarrow> bytes_of rb = Some d"
  by (simp add: bytes_of_def)

lemma copy_in_ok:
  assumes "bytes_of rb = Some d" and "i + unat n \<le> length src" and "dst + unat n \<le> length d"
  shows "copy_in rb dst src i n =
    Inr (rb\<lparr>rb_data := Mapped (take dst d @ take (unat n) (drop i src) @ drop (dst + unat n) d)\<rparr>)"
  using assms by (simp add: copy_in_def)

lemma copy_out_ok:
  assumes "bytes_of rb = Some d" and "src + unat n \<le> length d" and "i + unat n \<le> length dst"
  shows "copy_out rb src dst i n = Inr (take i dst @ take (unat n) (drop src d) @ drop (i + unat n) dst)"
  using assms by (simp add: copy_out_def)

lemma move_within_ok:
  assumes "bytes_of rb = Some d" and "src + unat n \<le> length d" and "dst + unat n \<le> length d"
  shows "move_within rb dst src n =
    Inr (rb\<lparr>rb_data := Mapped (take dst d @ take (unat n) (drop src d) @ drop (dst + unat n) d)\<rparr>)"
  using assms by (simp add: move_within_def move_bytes_Some)

lemma ring_contents_length:
  assumes "ring_ok ps rb"
  shows "length (ring_contents rb) =
    (if wrapped rb then unat (rb_size rb) - unat (rb_head rb) + unat (rb_tail rb)
     else unat (rb_tail rb) - unat (rb_head rb))"
  by (rule ring_okE [OF assms])
    (auto simp: ring_contents_def wrapped_def word_le_nat_alt word_less_nat_alt)

lemma ring_room_eq:
  assumes "ring_ok ps rb"
  shows "ring_room rb + 1 =
    (if wrapped rb then unat (rb_head rb) - unat (rb_tail rb)
     else unat (rb_size rb) - unat (rb_tail rb) + unat (rb_head rb))"
  by (rule ring_okE [OF assms])
    (auto simp: ring_room_def ring_contents_length [OF assms] wrapped_def word_less_nat_alt)

subsection \<open>Writing\<close>

text \<open>The two ways the bytes go in: behind the tail, or split at the end of the mapping.\<close>

lemma write_straight:
  assumes "ring_ok ps rb" and "unat n \<le> length data"
    and "unat (rb_tail rb) + unat n < unat (if wrapped rb then rb_head rb else rb_size rb)"
  shows "\<exists>d. copy_in rb (unat (rb_tail rb)) data 0 n = Inr (rb\<lparr>rb_data := Mapped d\<rparr>) \<and>
    ring_ok ps (rb\<lparr>rb_data := Mapped d, rb_tail := rb_tail rb + n\<rparr>) \<and>
    ring_contents (rb\<lparr>rb_data := Mapped d, rb_tail := rb_tail rb + n\<rparr>) = ring_contents rb @ take (unat n) data"
proof -
  let ?S = "unat (rb_size rb)" and ?H = "unat (rb_head rb)" and ?T = "unat (rb_tail rb)"
  obtain d where d: "bytes_of rb = Some d" "length d = ?S" "?H < ?S" "?T < ?S"
    using ring_okE [OF assms(1)] by blast
  have n: "?T + unat n < ?S" "wrapped rb \<Longrightarrow> ?T + unat n < ?H" using assms(3) d by (auto split: if_splits)
  then have t: "unat (rb_tail rb + n) = ?T + unat n"
    using unat_u32_bound [of "rb_size rb"] by (intro unat_add_exact) simp
  let ?d = "take ?T d @ take (unat n) data @ drop (?T + unat n) d"
  have "copy_in rb ?T data 0 n = Inr (rb\<lparr>rb_data := Mapped ?d\<rparr>)"
    using d n assms(2) by (subst copy_in_ok [OF d(1)]) simp_all
  moreover have "ring_ok ps (rb\<lparr>rb_data := Mapped ?d, rb_tail := rb_tail rb + n\<rparr>)"
    using assms(1,2) d n t by (auto simp: ring_ok_def word_less_nat_alt)
  moreover have "ring_contents (rb\<lparr>rb_data := Mapped ?d, rb_tail := rb_tail rb + n\<rparr>) =
      ring_contents rb @ take (unat n) data"
    using d n t assms(2)
    by (cases "wrapped rb") (simp_all add: ring_contents_def wrapped_def word_le_nat_alt word_less_nat_alt)
  ultimately show ?thesis by blast
qed

lemma write_split:
  assumes "ring_ok ps rb" and "unat n \<le> length data" and "\<not> wrapped rb"
    and "tail_len = rb_size rb - rb_tail rb" and "\<not> n < tail_len" and "unat (n - tail_len) < unat (rb_head rb)"
  shows "\<exists>d e. copy_in rb (unat (rb_tail rb)) data 0 tail_len = Inr (rb\<lparr>rb_data := Mapped d\<rparr>) \<and>
    (if n - tail_len \<noteq> 0 then copy_in (rb\<lparr>rb_data := Mapped d\<rparr>) 0 data (unat tail_len) (n - tail_len)
     else Inr (rb\<lparr>rb_data := Mapped d\<rparr>)) = Inr (rb\<lparr>rb_data := Mapped e\<rparr>) \<and>
    ring_ok ps (rb\<lparr>rb_data := Mapped e, rb_tail := n - tail_len\<rparr>) \<and>
    ring_contents (rb\<lparr>rb_data := Mapped e, rb_tail := n - tail_len\<rparr>) = ring_contents rb @ take (unat n) data"
proof -
  let ?S = "unat (rb_size rb)" and ?H = "unat (rb_head rb)" and ?T = "unat (rb_tail rb)"
  obtain d where d: "bytes_of rb = Some d" "length d = ?S" "?H < ?S" "?T < ?S"
    using ring_okE [OF assms(1)] by blast
  have l: "unat tail_len = ?S - ?T" using d by (simp add: assms(4) unat_sub_exact)
  have w: "?H \<le> ?T" using assms(3) by (simp add: wrapped_def word_less_nat_alt)
  let ?hl = "n - tail_len"
  have n: "?S - ?T \<le> unat n" using assms(5) l by (simp add: word_less_nat_alt)
  then have hl: "unat ?hl = unat n - (?S - ?T)" using l by (simp add: unat_sub_exact)
  let ?d = "take ?T d @ take (?S - ?T) data"
  let ?e = "take (unat ?hl) (drop (?S - ?T) data) @ drop (unat ?hl) ?d"
  have "copy_in rb ?T data 0 tail_len = Inr (rb\<lparr>rb_data := Mapped ?d\<rparr>)"
    using d n assms(2) by (subst copy_in_ok [OF d(1)]) (simp_all add: l)
  moreover have "copy_in (rb\<lparr>rb_data := Mapped ?d\<rparr>) 0 data (unat tail_len) ?hl =
      Inr (rb\<lparr>rb_data := Mapped ?e\<rparr>)"
    using d n assms(2,6) hl by (subst copy_in_ok [where d = ?d]) (simp_all add: l)
  moreover have "ring_ok ps (rb\<lparr>rb_data := Mapped ?e, rb_tail := ?hl\<rparr>)"
    using assms(1,2,6) d n hl w by (auto simp: ring_ok_def word_less_nat_alt)
  moreover have "ring_contents (rb\<lparr>rb_data := Mapped ?e, rb_tail := ?hl\<rparr>) = ring_contents rb @ take (unat n) data"
  proof -
    have "take (unat n) data = take (?S - ?T) data @ take (unat ?hl) (drop (?S - ?T) data)"
      using n hl by (simp add: take_add [symmetric])
    then show ?thesis using d n hl assms(2,6) w
      by (simp add: ring_contents_def word_le_nat_alt)
  qed
  ultimately show ?thesis by (intro exI [of _ ?d] exI [of _ ?e]) auto
qed

lemma write_ok:
  assumes "ring_ok ps rb" and "unat n \<le> length data"
  shows "\<exists>t. write_ringbuffer rb data n = Inr (t, unat n \<le> ring_room rb) \<and>
    (if unat n \<le> ring_room rb
     then ring_ok ps t \<and> ring_contents t = ring_contents rb @ take (unat n) data \<and> rb_size t = rb_size rb
     else t = rb)"
proof -
  let ?S = "unat (rb_size rb)" and ?H = "unat (rb_head rb)" and ?T = "unat (rb_tail rb)"
  define tl where "tl = (if wrapped rb then rb_head rb - rb_tail rb else rb_size rb - rb_tail rb)"
  define avail where "avail = (if wrapped rb then tl else rb_head rb + tl)"
  have hd: "?H < ?S" "?T < ?S" using ring_okE [OF assms(1)] by blast+
  have tl: "unat tl = (if wrapped rb then ?H else ?S) - ?T"
    using hd by (auto simp: tl_def wrapped_def word_less_nat_alt unat_sub_exact)
  have "unat avail = (if wrapped rb then ?H - ?T else ?H + (?S - ?T))"
  proof (cases "wrapped rb")
    case True
    then show ?thesis using tl by (simp add: avail_def)
  next
    case False
    then have "unat (rb_head rb + tl) = ?H + unat tl"
      using hd tl unat_u32_bound [of "rb_size rb"]
      by (intro unat_add_exact) (simp add: wrapped_def word_less_nat_alt)
    then show ?thesis using tl False by (simp add: avail_def)
  qed
  then have avail: "n < avail \<longleftrightarrow> unat n \<le> ring_room rb" and iff: "ring_room rb + 1 = unat avail"
    using ring_room_eq [OF assms(1)] hd by (auto simp: word_less_nat_alt split: if_splits)
  have W: "write_ringbuffer rb data n =
     (if \<not> n < avail then Inr (rb, False)
      else if n < tl
      then bindE (copy_in rb ?T data 0 n) (\<lambda>rb. Inr (rb\<lparr>rb_tail := rb_tail rb + n\<rparr>, True))
      else bindE (copy_in rb ?T data 0 tl) (\<lambda>rb.
           bindE (if n - tl \<noteq> 0 then copy_in rb 0 data (unat tl) (n - tl) else Inr rb) (\<lambda>rb.
           Inr (rb\<lparr>rb_tail := n - tl\<rparr>, True))))"
    unfolding write_ringbuffer_def avail_def tl_def wrapped_def Let_def not_less
    unfolding not_less [symmetric, of "rb_head rb"]
    by (cases "rb_tail rb < rb_head rb") (simp_all only: if_True if_False prod.case)
  consider "\<not> n < avail" | "n < avail" "n < tl" | "n < avail" "\<not> n < tl" by blast
  then show ?thesis
  proof cases
    case 1
    then show ?thesis using avail by (simp add: W)
  next
    case 2
    then have "?T + unat n < unat (if wrapped rb then rb_head rb else rb_size rb)"
      using tl by (auto simp: word_less_nat_alt split: if_splits)
    from write_straight [OF assms this] show ?thesis using 2 avail by (auto simp: W)
  next
    case 3
    then have u: "\<not> wrapped rb" using avail_def by auto
    have "unat (n - tl) = unat n - unat tl" using 3 by (simp add: unat_sub_exact word_less_nat_alt)
    then have "unat (n - tl) < ?H" using 3 u tl iff avail ring_room_eq [OF assms(1)] hd
      by (simp add: word_less_nat_alt)
    from write_split [OF assms u _ 3(2) this] u obtain d e where
      "copy_in rb ?T data 0 tl = Inr (rb\<lparr>rb_data := Mapped d\<rparr>)"
      "(if n - tl \<noteq> 0 then copy_in (rb\<lparr>rb_data := Mapped d\<rparr>) 0 data (unat tl) (n - tl)
        else Inr (rb\<lparr>rb_data := Mapped d\<rparr>)) = Inr (rb\<lparr>rb_data := Mapped e\<rparr>)"
      "ring_ok ps (rb\<lparr>rb_data := Mapped e, rb_tail := n - tl\<rparr>)"
      "ring_contents (rb\<lparr>rb_data := Mapped e, rb_tail := n - tl\<rparr>) = ring_contents rb @ take (unat n) data"
      by (auto simp: tl_def)
    then show ?thesis using 3 avail by (simp only: W bindE_simps) auto
  qed
qed

subsection \<open>Reading\<close>

lemma read_ok:
  assumes "ring_ok ps rb" and "\<not> wrapped rb" and "unat n \<le> length buffer"
    and "k = min (unat n) (length (ring_contents rb))"
  shows "\<exists>t len. read_ringbuffer rb buffer n = Inr (t, take k (ring_contents rb) @ drop k buffer, len) \<and>
    unat len = k \<and> ring_ok ps t \<and> \<not> wrapped t \<and> ring_contents t = drop k (ring_contents rb) \<and>
    rb_size t = rb_size rb"
proof -
  let ?S = "unat (rb_size rb)" and ?H = "unat (rb_head rb)" and ?T = "unat (rb_tail rb)"
  obtain d where d: "bytes_of rb = Some d" "length d = ?S" "?H < ?S" "?T < ?S"
    using ring_okE [OF assms(1)] by blast
  have w: "?H \<le> ?T" using assms(2) by (simp add: wrapped_def word_less_nat_alt)
  have c: "ring_contents rb = drop ?H (take ?T d)"
    using d w by (simp add: ring_contents_def word_le_nat_alt)
  show ?thesis
  proof (cases "rb_head rb = rb_tail rb")
    case True
    then show ?thesis using assms(1,2,4) c d by (simp add: read_ringbuffer_def)
  next
    case False
    then have lt: "rb_head rb < rb_tail rb" using assms(2) by (simp add: wrapped_def)
    define len where "len = (if rb_tail rb - rb_head rb \<le> n then rb_tail rb - rb_head rb else n)"
    have len: "unat len = k"
      using w d assms(4) by (auto simp: len_def c word_le_nat_alt unat_sub_exact)
    have k: "k \<le> ?T - ?H" "k \<le> length buffer" using assms(3,4) c d by simp_all
    have hd: "unat (rb_head rb + len) = ?H + k"
      using len k w unat_u32_bound [of "rb_tail rb"] by (subst unat_add_exact) simp_all
    have "copy_out rb ?H buffer 0 len = Inr (take k (ring_contents rb) @ drop k buffer)"
      using d k w by (subst copy_out_ok [OF d(1)]) (simp_all add: len c take_drop min_absorb1)
    then have "read_ringbuffer rb buffer n =
        Inr (rb\<lparr>rb_head := rb_head rb + len\<rparr>, take k (ring_contents rb) @ drop k buffer, len)"
      using False lt by (simp add: read_ringbuffer_def len_def)
    moreover have "ring_ok ps (rb\<lparr>rb_head := rb_head rb + len\<rparr>)"
      using assms(1) hd k w d by (simp add: ring_ok_def word_less_nat_alt)
    moreover have "\<not> wrapped (rb\<lparr>rb_head := rb_head rb + len\<rparr>)"
      using hd k w by (simp add: wrapped_def word_less_nat_alt)
    moreover have "ring_contents (rb\<lparr>rb_head := rb_head rb + len\<rparr>) = drop k (ring_contents rb)"
    proof -
      have "?H + k \<le> ?T" using k w by simp
      then show ?thesis using hd w d by (simp add: ring_contents_def word_le_nat_alt add.commute)
    qed
    ultimately show ?thesis using len by auto
  qed
qed

lemma read_wrapped:
  assumes "ring_ok ps rb" and "wrapped rb" and "unat n \<le> length buffer" and "unat (rb_size rb) \<le> 2 ^ 31"
  shows "if unat n \<le> unat (rb_size rb) - unat (rb_head rb)
    then \<exists>t buf. read_ringbuffer rb buffer n = Inr (t, buf, n) \<and> rb_size t < rb_head t
    else read_ringbuffer rb buffer n = Inl Bad_Access"
proof -
  let ?S = "unat (rb_size rb)" and ?H = "unat (rb_head rb)" and ?T = "unat (rb_tail rb)"
  obtain d where d: "bytes_of rb = Some d" "length d = ?S" "?H < ?S" "?T < ?S"
    using ring_okE [OF assms(1)] by blast
  have w: "?T < ?H" "rb_tail rb < rb_head rb" using assms(2) by (simp_all add: wrapped_def word_less_nat_alt)
  let ?u = "rb_size rb - rb_tail rb"
  have u: "unat ?u = ?S - ?T" using d by (simp add: unat_sub_exact)
  have far: "copy_out rb ?H buffer 0 m = Inl Bad_Access" if "?S - ?H < unat m" for m
    using that d by (simp add: copy_out_def load_bytes_def)
  show ?thesis
  proof (cases "unat n \<le> ?S - ?H")
    case True
    then have n: "n \<le> ?u" "n \<noteq> ?u" using w d u by (auto simp: word_le_nat_alt)
    obtain buf where "copy_out rb ?H buffer 0 n = Inr buf"
      using d True assms(3) copy_out_ok [OF d(1), of ?H n 0 buffer] by simp
    then have "read_ringbuffer rb buffer n = Inr (rb\<lparr>rb_head := rb_head rb + ?u\<rparr>, buf, n)"
      using n w by (auto simp: read_ringbuffer_def)
    moreover have "unat (rb_head rb + ?u) = ?H + (?S - ?T)"
      using u d w assms(4) by (subst unat_add_exact) simp_all
    ultimately show ?thesis using True w d by (auto simp: word_less_nat_alt)
  next
    case False
    then show ?thesis using far [of n] far [of ?u] w d u
      by (auto simp: read_ringbuffer_def Let_def word_le_nat_alt)
  qed
qed

subsection \<open>Creation\<close>

lemma ring_size_cases:
  assumes "unat ps = 2 ^ k" and "1 \<le> k"
    and "n' = (if align_unsigned n ps = 0 then ps else align_unsigned n ps)"
  shows "unat ps dvd unat n'" and "0 < unat n'"
    and "unat n' = (if n = 0 \<or> 2 ^ 32 < unat n + unat ps then unat ps else round_up k (unat n))"
proof -
  have k: "k < 32" using pow2_le_exp [OF assms(1)] by simp
  have z: "round_up k 0 = 0" by (simp add: round_up_id)
  have pos: "0 < round_up k (unat n)" if "n \<noteq> 0"
    by (rule order_less_le_trans [OF _ round_up_ge]) (use that in \<open>simp add: unat_gt_0\<close>)
  have e: "unat n' = (if n = 0 \<or> 2 ^ 32 < unat n + unat ps then unat ps else round_up k (unat n))"
  proof (cases "2 ^ 32 < unat n + unat ps")
    case True
    then show ?thesis using align_unsigned_wraps [OF assms(1), of n] assms(1) by (simp add: assms(3))
  next
    case False
    then have "unat (align_unsigned n ps) = round_up k (unat n)"
      by (intro align_unsigned_pow2 [OF assms(1)]) (simp add: assms(1))
    then show ?thesis using False z pos by (auto simp: assms(3) unat_eq_0 [symmetric])
  qed
  then show "unat n' = (if n = 0 \<or> 2 ^ 32 < unat n + unat ps then unat ps else round_up k (unat n))" .
  show "unat ps dvd unat n'" "0 < unat n'"
    using e pos round_up_dvd [of k "unat n"] by (auto simp: assms(1))
qed

lemma power_of_twoE:
  assumes "is_power_of_two ps" and "1 < ps"
  obtains k where "unat ps = 2 ^ k" "1 \<le> k"
proof -
  obtain k where k: "unat ps = 2 ^ k" using assms(1) by (auto simp: is_power_of_two_iff)
  moreover have "k \<noteq> 0" using k assms(2) by (cases k) (auto simp: word_less_nat_alt)
  ultimately show thesis using that by simp
qed

lemma init_ok:
  assumes "is_power_of_two ps" and "1 < ps" and "kmap_ok km"
  shows "\<exists>t ok. init_ringbuffer ps km maps rb n = (if ok then maps + 1 else maps, t, ok) \<and> unat ps dvd unat (rb_size t) \<and>
    (unat n + unat ps \<le> 2 ^ 32 \<longrightarrow> unat n \<le> unat (rb_size t)) \<and> (ok \<longleftrightarrow> km (rb_size t) \<noteq> None) \<and>
    (if ok then ring_ok ps t \<and> ring_contents t = [] \<and> \<not> wrapped t else rb_data t = Map_Failed)"
proof -
  obtain k where k: "unat ps = 2 ^ k" "1 \<le> k" using power_of_twoE [OF assms(1,2)] .
  define n' where "n' = (if align_unsigned n ps = 0 then ps else align_unsigned n ps)"
  note n' = ring_size_cases [OF k n'_def]
  have I: "init_ringbuffer ps km maps rb n =
      (case km n' of None \<Rightarrow> (maps, rb\<lparr>rb_size := n', rb_data := Map_Failed\<rparr>, False)
       | Some d \<Rightarrow> (maps + 1, rb\<lparr>rb_size := n', rb_data := Mapped d, rb_head := 0, rb_tail := 0\<rparr>, True))"
    unfolding init_ringbuffer_def n'_def Let_def
    by (cases "align_unsigned n ps = 0") (simp_all split: option.split)
  have le: "unat n \<le> unat n'" if "unat n + unat ps \<le> 2 ^ 32"
    using that n'(3) round_up_ge [of "unat n" k] by (auto split: if_splits)
  show ?thesis
  proof (cases "km n'")
    case None
    then show ?thesis using n' le by (simp add: I)
  next
    case (Some d)
    then have "length d = unat n'" using assms(3) by (simp add: kmap_ok_def)
    then show ?thesis using Some n' le assms(1)
      by (simp add: I ring_ok_def ring_contents_def wrapped_def word_less_nat_alt bytes_of_def)
  qed
qed

lemma init_cases:
  assumes "is_power_of_two ps" and "1 < ps" and "kmap_ok km"
  obtains rb ok where "init_ringbuffer ps km maps raw n = (if ok then maps + 1 else maps, rb, ok)"
    and "ok \<Longrightarrow> ring_ok ps rb \<and> ring_contents rb = [] \<and> \<not> wrapped rb" and "\<not> ok \<Longrightarrow> rb_data rb = Map_Failed"
proof -
  from init_ok [OF assms, of maps raw n] obtain rb ok where
    r: "init_ringbuffer ps km maps raw n = (if ok then maps + 1 else maps, rb, ok)"
    "if ok then ring_ok ps rb \<and> ring_contents rb = [] \<and> \<not> wrapped rb else rb_data rb = Map_Failed" by blast
  show thesis by (rule that [OF r(1)]) (use r(2) in simp_all)
qed

text \<open>\<open>fini_ringbuffer\<close> of a well-formed buffer gives its mapping back, whatever was done with the buffer.\<close>

lemma fini_ok:
  assumes "ring_ok ps rb"
  shows "fini_ringbuffer maps rb = (maps - 1, rb\<lparr>rb_data := Null\<rparr>)" and "rb_data rb \<noteq> Null"
  using assms by (auto simp: fini_ringbuffer_def ring_ok_def bytes_of_def split: mapping.splits)

subsection \<open>Resizing\<close>

lemma move_up:
  assumes "take S d' = d" and "length d = S" and "length d' = S + k" and "H < S" and "T \<le> H"
    and "d'' = take (H + k) d' @ take (S - H) (drop H d') @ drop (H + k + (S - H)) d'"
  shows "length d'' = length d'" and "drop (H + k) d'' = drop H d" and "take T d'' = take T d"
  using assms by (auto simp: take_drop min_def)

definition extend_data :: "ring_buffer \<Rightarrow> u8 list \<Rightarrow> u32 \<Rightarrow> ring_buffer res" where
  "extend_data rb e k =
     (if rb_head rb > rb_tail rb
      then bindE (move_within (rb\<lparr>rb_data := Mapped e\<rparr>) (unat (rb_head rb) + unat k) (unat (rb_head rb))
                    (rb_size rb - rb_head rb))
             (\<lambda>t. Inr (t\<lparr>rb_head := rb_head t + k\<rparr>))
      else Inr (rb\<lparr>rb_data := Mapped e\<rparr>))"

lemma grow_ringbuffer_eq:
  assumes "rb_data rb = Mapped d" and "n' = (if align_unsigned n ps = 0 then ps else align_unsigned n ps)"
  shows "grow_ringbuffer ps kr rb n =
     (if n' \<le> rb_size rb then Inr (rb, True)
      else case kr d n' of None \<Rightarrow> Inr (rb, False)
      | Some e \<Rightarrow> bindE (extend_data rb e (n' - rb_size rb)) (\<lambda>t. Inr (t\<lparr>rb_size := n'\<rparr>, True)))"
  unfolding grow_ringbuffer_def assms(2) [symmetric] Let_def assms(1) extend_data_def by (simp split: option.split)

lemma extend_wrapped:
  assumes "ring_ok ps rb" and "bytes_of rb = Some d" and "wrapped rb" and "take (length d) e = d"
    and "length e = unat n" and "unat (rb_size rb) < unat n" and "unat ps dvd unat n"
  shows "\<exists>t. extend_data rb e (n - rb_size rb) = Inr t \<and> ring_ok ps (t\<lparr>rb_size := n\<rparr>) \<and>
    ring_contents (t\<lparr>rb_size := n\<rparr>) = ring_contents rb \<and> wrapped (t\<lparr>rb_size := n\<rparr>)"
proof -
  let ?S = "unat (rb_size rb)" and ?H = "unat (rb_head rb)" and ?T = "unat (rb_tail rb)"
  have d: "length d = ?S" "?H < ?S" "?T < ?S"
    using assms(1,2) by (auto simp: ring_ok_def word_less_nat_alt)
  have lt: "?T < ?H" "rb_tail rb < rb_head rb" using assms(3) by (simp_all add: wrapped_def word_less_nat_alt)
  have k: "unat (n - rb_size rb) = unat n - ?S" using assms(6) by (simp add: unat_sub_exact)
  have S_H: "unat (rb_size rb - rb_head rb) = ?S - ?H" using d by (simp add: unat_sub_exact)
  have hd: "unat (rb_head rb + (n - rb_size rb)) = ?H + (unat n - ?S)"
    using k assms(6) d unat_u32_bound [of n] by (subst unat_add_exact) simp_all
  define d' where "d' = take (?H + (unat n - ?S)) e @ take (?S - ?H) (drop ?H e) @
    drop (?H + (unat n - ?S) + (?S - ?H)) e"
  have m: "length d' = length e" "drop (?H + (unat n - ?S)) d' = drop ?H d" "take ?T d' = take ?T d"
    using move_up [OF _ d(1) _ d(2) _ d'_def, of ?T] assms(4-6) d(1) lt by simp_all
  have "move_within (rb\<lparr>rb_data := Mapped e\<rparr>) (?H + unat (n - rb_size rb)) ?H (rb_size rb - rb_head rb) =
      Inr (rb\<lparr>rb_data := Mapped d'\<rparr>)"
    using d assms(5,6) by (subst move_within_ok [where d = e]) (simp_all add: k S_H d'_def)
  then have e: "extend_data rb e (n - rb_size rb) =
      Inr (rb\<lparr>rb_data := Mapped d', rb_head := rb_head rb + (n - rb_size rb)\<rparr>)"
    using lt by (simp add: extend_data_def)
  show ?thesis
    unfolding e using assms(1,2,5-7) d m hd lt
    by (auto simp: ring_ok_def ring_contents_def wrapped_def word_less_nat_alt word_le_nat_alt)
qed

lemma extend_straight:
  assumes "ring_ok ps rb" and "bytes_of rb = Some d" and "\<not> wrapped rb" and "take (length d) e = d"
    and "length e = unat n" and "unat (rb_size rb) < unat n" and "unat ps dvd unat n"
  shows "\<exists>t. extend_data rb e (n - rb_size rb) = Inr t \<and> ring_ok ps (t\<lparr>rb_size := n\<rparr>) \<and>
    ring_contents (t\<lparr>rb_size := n\<rparr>) = ring_contents rb \<and> \<not> wrapped (t\<lparr>rb_size := n\<rparr>)"
proof -
  let ?S = "unat (rb_size rb)" and ?T = "unat (rb_tail rb)"
  have d: "length d = ?S" "unat (rb_head rb) < ?S" "?T < ?S"
    using assms(1,2) by (auto simp: ring_ok_def word_less_nat_alt)
  have e: "extend_data rb e (n - rb_size rb) = Inr (rb\<lparr>rb_data := Mapped e\<rparr>)"
    using assms(3) by (simp add: extend_data_def wrapped_def)
  have "take ?T (take (length d) e) = take ?T e" using d by (simp add: min_absorb1)
  then have t: "take ?T e = take ?T d" by (simp only: assms(4))
  have le: "rb_head rb \<le> rb_tail rb" using assms(3) by (simp add: wrapped_def)
  have "ring_ok ps (rb\<lparr>rb_data := Mapped e, rb_size := n\<rparr>)"
    using assms(1,5,6,7) d by (simp add: ring_ok_def word_less_nat_alt)
  moreover have "ring_contents (rb\<lparr>rb_data := Mapped e, rb_size := n\<rparr>) = ring_contents rb"
    using assms(2) le t by (simp add: ring_contents_def)
  ultimately show ?thesis using assms(3) by (simp add: e wrapped_def)
qed

lemma grow_ok:
  assumes "ring_ok ps rb" and "1 < ps" and "kremap_ok kr"
  shows "\<exists>t ok. grow_ringbuffer ps kr rb n = Inr (t, ok) \<and> ring_ok ps t \<and>
    ring_contents t = ring_contents rb \<and> wrapped t = wrapped rb \<and> unat (rb_size rb) \<le> unat (rb_size t) \<and>
    (if ok \<and> unat n + unat ps \<le> 2 ^ 32 then unat n \<le> unat (rb_size t) else t = rb)"
proof -
  let ?S = "unat (rb_size rb)"
  obtain d where d: "bytes_of rb = Some d" "rb_data rb = Mapped d" "length d = ?S"
    using ring_okE [OF assms(1)] by blast
  have p2: "is_power_of_two ps" and dvd: "unat ps dvd ?S" "0 < ?S"
    using assms(1) by (auto simp: ring_ok_def word_less_nat_alt)
  obtain k where k: "unat ps = 2 ^ k" "1 \<le> k" using power_of_twoE [OF p2 assms(2)] .
  define n' where "n' = (if align_unsigned n ps = 0 then ps else align_unsigned n ps)"
  note n' = ring_size_cases [OF k n'_def] and G = grow_ringbuffer_eq [OF d(2) n'_def, of kr]
  have le: "unat n \<le> unat n'" if "unat n + unat ps \<le> 2 ^ 32"
    using that n'(3) round_up_ge [of "unat n" k] by (auto split: if_splits)
  have big: "unat n' \<le> ?S" if "\<not> unat n + unat ps \<le> 2 ^ 32"
    using that n'(3) dvd by (auto dest!: dvd_imp_le)
  show ?thesis
  proof (cases "n' \<le> rb_size rb")
    case True
    then show ?thesis using assms(1) le by (auto simp: G word_le_nat_alt intro: order_trans)
  next
    case False
    then have gt: "?S < unat n'" and small: "unat n + unat ps \<le> 2 ^ 32"
      using big by (auto simp: word_le_nat_alt)
    show ?thesis
    proof (cases "kr d n'")
      case None
      then show ?thesis using False assms(1) small by (auto simp: G)
    next
      case (Some e)
      have e: "length e = unat n'" "take (length d) e = d"
        using kremap_okD [OF assms(3) Some] d(3) gt by simp_all
      obtain t where t: "extend_data rb e (n' - rb_size rb) = Inr t" "ring_ok ps (t\<lparr>rb_size := n'\<rparr>)"
        "ring_contents (t\<lparr>rb_size := n'\<rparr>) = ring_contents rb" "wrapped (t\<lparr>rb_size := n'\<rparr>) = wrapped rb"
        using extend_wrapped [OF assms(1) d(1) _ e(2,1) gt n'(1)]
          extend_straight [OF assms(1) d(1) _ e(2,1) gt n'(1)] by metis
      then show ?thesis using False Some gt small le [OF small] by (auto simp: G)
    qed
  qed
qed

text \<open>
  Shrinking moves the bytes to the front first. \<open>shrink_data_ok\<close> says by how much the mapping can be cut
  then: what is left is the least multiple of the page size that holds the contents and one byte more.
\<close>

definition tight :: "u32 \<Rightarrow> ring_buffer \<Rightarrow> nat \<Rightarrow> bool" where
  "tight ps rb r \<longleftrightarrow> unat ps dvd r \<and> length (ring_contents rb) < r \<and> r \<le> unat (rb_size rb) \<and>
     (\<forall>m. unat ps dvd m \<and> length (ring_contents rb) < m \<longrightarrow> r \<le> m)"

lemma tightI:
  assumes "unat ps dvd unat (rb_size rb)" and "0 < unat ps"
    and "length (ring_contents rb) + g = unat (rb_size rb)" and "0 < g"
    and "r = unat (rb_size rb) - (g - 1) div unat ps * unat ps"
  shows "tight ps rb r"
proof -
  let ?p = "unat ps" and ?S = "unat (rb_size rb)" and ?n = "length (ring_contents rb)"
  have c: "(g - 1) div ?p * ?p \<le> g - 1" by (simp add: div_times_less_eq_dividend)
  have up: "g - 1 < (g - 1) div ?p * ?p + ?p" using assms(2) by (metis add.commute dividend_less_div_times mult.commute)
  have "r \<le> m" if "?p dvd m" "?n < m" for m
  proof (rule ccontr)
    assume "\<not> r \<le> m"
    moreover have "?p dvd r" using assms(1) by (simp add: assms(5) dvd_diff_nat)
    ultimately have "?p dvd r - m" and "m < r" using that(1) by (auto intro: dvd_diff_nat)
    then have "?p \<le> r - m" by (intro dvd_imp_le) simp_all
    then have "m + ?p \<le> r" using \<open>m < r\<close> by simp
    then show False using that(2) up c assms(3-5) by linarith
  qed
  moreover have "?p dvd r" using assms(1) by (simp add: assms(5) dvd_diff_nat)
  moreover have "?n < r" "r \<le> ?S" using c assms(3-5) by linarith+
  ultimately show ?thesis by (simp add: tight_def)
qed

lemma unat_round_down:
  fixes x ps :: u32
  assumes "unat ps = 2 ^ k"
  shows "unat (x AND NOT (ps - 1)) = unat x div unat ps * unat ps"
  using unat_and_not_mask [of x k] pow2_minus_1_eq_mask [OF assms pow2_le_exp [OF assms]] assms by simp

lemma move_down:
  assumes "length d = S" and "H < S" and "T + s < H"
    and "d' = take (H - s) d @ take (S - H) (drop H d) @ drop (H - s + (S - H)) d"
  shows "length d' = S" and "drop (H - s) (take (S - s) d') = drop H d" and "take T d' = take T d"
  using assms by (auto simp: take_drop min_def)

lemma shrink_data_straight:
  assumes "ring_ok ps rb" and "1 < ps" and "\<not> wrapped rb"
  shows "\<exists>u s. shrink_data ps rb = Inr (u, s) \<and> ring_ok ps u \<and> \<not> wrapped u \<and>
    ring_contents u = ring_contents rb \<and> rb_size u = rb_size rb \<and>
    (case s of None \<Rightarrow> tight ps rb (unat (rb_size rb))
     | Some x \<Rightarrow> x \<noteq> 0 \<and> unat x \<le> unat (rb_size rb) \<and> rb_head u = 0 \<and> tight ps rb (unat (rb_size rb) - unat x))"
proof -
  let ?S = "unat (rb_size rb)" and ?H = "unat (rb_head rb)" and ?T = "unat (rb_tail rb)"
  obtain d where d: "bytes_of rb = Some d" "rb_data rb = Mapped d" "length d = ?S" "?H < ?S" "?T < ?S"
    using ring_okE [OF assms(1)] by blast
  have p2: "is_power_of_two ps" and dvd: "unat ps dvd ?S" using assms(1) by (simp_all add: ring_ok_def)
  obtain k where k: "unat ps = 2 ^ k" "1 \<le> k" using power_of_twoE [OF p2 assms(2)] .
  then have pos: "0 < unat ps" by simp
  have w: "?H \<le> ?T" using assms(3) by (simp add: wrapped_def word_less_nat_alt)
  have c: "ring_contents rb = drop ?H (take ?T d)" "length (ring_contents rb) = ?T - ?H"
    using d w by (simp_all add: ring_contents_def word_le_nat_alt)
  show ?thesis
  proof (cases "rb_head rb = rb_tail rb")
    case True
    let ?u = "rb\<lparr>rb_head := 0, rb_tail := 0\<rparr>"
    have S: "unat ps \<le> ?S" using dvd d by (auto dest!: dvd_imp_le)
    then have x: "unat (rb_size rb - ps) = ?S - unat ps" by (simp add: unat_sub_exact)
    have "tight ps rb (unat ps)" using S c True by (auto simp: tight_def pos dest!: dvd_imp_le)
    moreover have "ring_ok ps ?u" using assms(1) d by (auto simp: ring_ok_def word_less_nat_alt)
    moreover have "ring_contents ?u = ring_contents rb" using d c True by (simp add: ring_contents_def)
    moreover have "rb_size rb - ps = 0 \<longleftrightarrow> ?S = unat ps" using x S by (auto simp: unat_eq_iff)
    ultimately show ?thesis using True x S
      by (auto simp: shrink_data_def Let_def wrapped_def)
  next
    case False
    define x where "x = (rb_head rb + rb_size rb - rb_tail rb - 1) AND NOT (ps - 1)"
    have lt: "rb_head rb < rb_tail rb" "\<not> rb_tail rb < rb_head rb"
      using False assms(3) by (simp_all add: wrapped_def)
    have "rb_head rb + rb_size rb - rb_tail rb - 1 = rb_size rb - (rb_tail rb - rb_head rb) - 1" by simp
    moreover have "unat (rb_tail rb - rb_head rb) = ?T - ?H" using w by (simp add: unat_sub_exact)
    moreover from this have "unat (rb_size rb - (rb_tail rb - rb_head rb)) = ?S - (?T - ?H)"
      using d by (subst unat_sub_exact) simp_all
    ultimately have "unat (rb_head rb + rb_size rb - rb_tail rb - 1) = ?S - (?T - ?H) - 1"
      using d w by (simp only:) (subst unat_sub_exact, simp_all)
    then have x: "unat x = (?S - (?T - ?H) - 1) div unat ps * unat ps"
      by (simp add: x_def unat_round_down [OF k(1)])
    then have xS: "unat x \<le> ?S" by (metis diff_le_self div_times_less_eq_dividend order_trans)
    have t: "tight ps rb (?S - unat x)"
      by (rule tightI [OF dvd pos, of "?S - (?T - ?H)"]) (use c d w x in auto)
    show ?thesis
    proof (cases "x = 0")
      case True
      then show ?thesis using assms False lt t
        by (simp add: shrink_data_def Let_def x_def [symmetric])
    next
      case x0: False
      show ?thesis
      proof (cases "rb_head rb = 0")
        case True
        then have "shrink_data ps rb = Inr (rb, Some x)"
          using False lt x0 unfolding shrink_data_def x_def Let_def by simp
        then show ?thesis using assms t x0 xS True by auto
      next
        case h0: False
        let ?l = "rb_tail rb - rb_head rb"
        have l: "unat ?l = ?T - ?H" using w by (simp add: unat_sub_exact)
        let ?d = "take (?T - ?H) (drop ?H d) @ drop (?T - ?H) d"
        let ?u = "rb\<lparr>rb_data := Mapped ?d, rb_tail := ?l, rb_head := 0\<rparr>"
        have "move_within rb 0 ?H ?l = Inr (rb\<lparr>rb_data := Mapped ?d\<rparr>)"
          using d w by (subst move_within_ok [OF d(1)]) (simp_all add: l)
        then have "shrink_data ps rb = Inr (?u, Some x)"
          using False lt x0 h0 unfolding shrink_data_def x_def Let_def by simp
        moreover have "ring_ok ps ?u" using assms(1) d l w by (auto simp: ring_ok_def word_less_nat_alt)
        moreover have "ring_contents ?u = ring_contents rb" using d l w c by (simp add: ring_contents_def take_drop)
        ultimately show ?thesis using t x0 xS by (auto simp: wrapped_def)
      qed
    qed
  qed
qed

text \<open>When the contents wrap around, the upper part moves down by the bytes that are to be cut.\<close>

lemma shrink_data_wrapped:
  assumes "ring_ok ps rb" and "1 < ps" and "wrapped rb" and "bytes_of rb = Some d"
  shows "\<exists>u s. shrink_data ps rb = Inr (u, s) \<and> rb_size u = rb_size rb \<and>
    (case s of None \<Rightarrow> u = rb \<and> tight ps rb (unat (rb_size rb))
     | Some x \<Rightarrow> x \<noteq> 0 \<and> unat (rb_tail rb) + unat x < unat (rb_head rb) \<and>
         tight ps rb (unat (rb_size rb) - unat x) \<and>
         rb_tail u = rb_tail rb \<and> unat (rb_head u) = unat (rb_head rb) - unat x \<and>
         (\<exists>e. bytes_of u = Some e \<and> length e = length d \<and> take (unat (rb_tail rb)) e = take (unat (rb_tail rb)) d \<and>
            drop (unat (rb_head u)) (take (unat (rb_size rb) - unat x) e) = drop (unat (rb_head rb)) d))"
proof -
  let ?S = "unat (rb_size rb)" and ?H = "unat (rb_head rb)" and ?T = "unat (rb_tail rb)"
  have d: "length d = ?S" "?H < ?S" "?T < ?S" "unat ps dvd ?S" "is_power_of_two ps"
    using assms(1,4) by (auto simp: ring_ok_def word_less_nat_alt)
  obtain k where k: "unat ps = 2 ^ k" "1 \<le> k" using power_of_twoE [OF d(5) assms(2)] .
  then have pos: "0 < unat ps" by simp
  have lt: "?T < ?H" "rb_tail rb < rb_head rb" "rb_head rb \<noteq> rb_tail rb"
    using assms(3) by (auto simp: wrapped_def word_less_nat_alt)
  define x where "x = (rb_head rb - rb_tail rb - 1) AND NOT (ps - 1)"
  have HT: "unat (rb_head rb - rb_tail rb) = ?H - ?T" using lt by (simp add: unat_sub_exact)
  have "unat (rb_head rb - rb_tail rb - 1) = ?H - ?T - 1"
    using HT lt by (subst unat_sub_exact) simp_all
  then have x: "unat x = (?H - ?T - 1) div unat ps * unat ps"
    by (simp add: x_def unat_round_down [OF k(1)])
  have "unat x \<le> ?H - ?T - 1" unfolding x by (rule div_times_less_eq_dividend)
  then have xH: "?T + unat x < ?H" using lt by linarith
  have t: "tight ps rb (?S - unat x)"
    by (rule tightI [OF d(4) pos, of "?H - ?T"])
      (use d lt x in \<open>auto simp: ring_contents_length [OF assms(1)] assms(3)\<close>)
  show ?thesis
  proof (cases "x = 0")
    case True
    then have "shrink_data ps rb = Inr (rb, None)"
      using lt unfolding shrink_data_def x_def Let_def by simp
    then show ?thesis using t True by auto
  next
    case False
    define e where "e = take (?H - unat x) d @ take (?S - ?H) (drop ?H d) @ drop (?H - unat x + (?S - ?H)) d"
    note m = move_down [OF d(1,2) xH e_def]
    have S_H: "unat (rb_size rb - rb_head rb) = ?S - ?H" using d by (simp add: unat_sub_exact)
    have hx: "unat (rb_head rb - x) = ?H - unat x" using xH by (simp add: unat_sub_exact)
    have "move_within rb (?H - unat x) ?H (rb_size rb - rb_head rb) = Inr (rb\<lparr>rb_data := Mapped e\<rparr>)"
      using d xH by (subst move_within_ok [OF assms(4)]) (simp_all add: S_H e_def)
    then have "shrink_data ps rb = Inr (rb\<lparr>rb_data := Mapped e, rb_head := rb_head rb - x\<rparr>, Some x)"
      using lt False unfolding shrink_data_def x_def Let_def by simp
    then show ?thesis using False xH t hx m d(1) by auto
  qed
qed

definition cut_size :: "u32 \<Rightarrow> nat \<Rightarrow> nat" where
  "cut_size n' r = max (unat n') r"

lemma shrink_ringbuffer_eq:
  assumes "n' = (if align_unsigned n ps = 0 then ps else align_unsigned n ps)"
    and "shrink_data ps rb = Inr (u, s)" and "rb_size u = rb_size rb"
    and "\<forall>x. s = Some x \<longrightarrow> unat x \<le> unat (rb_size rb)" and "bytes_of u = Some e"
  shows "shrink_ringbuffer ps kr rb n =
     (if n' \<ge> rb_size rb then Inr rb
      else case s of None \<Rightarrow> Inr u
      | Some x \<Rightarrow> (case kr e (of_nat (cut_size n' (unat (rb_size rb) - unat x))) of None \<Rightarrow> Inl Abort
         | Some f \<Rightarrow> Inr (u\<lparr>rb_data := Mapped f,
             rb_size := of_nat (cut_size n' (unat (rb_size rb) - unat x))\<rparr>)))"
proof -
  have u: "rb_data u = Mapped e" using assms(5) by (auto simp: bytes_of_def split: mapping.splits)
  have c: "(if n' < rb_size u - x then rb_size u - x else n') =
      of_nat (cut_size n' (unat (rb_size rb) - unat x))" if "s = Some x" for x
    using assms(4) that
    by (auto simp: cut_size_def max_def word_less_nat_alt unat_sub_exact assms(3) of_nat_diff)
  show ?thesis
  proof (cases s)
    case None
    then show ?thesis
      unfolding shrink_ringbuffer_def assms(1) [symmetric] Let_def assms(2) by simp
  next
    case (Some x)
    show ?thesis
      unfolding shrink_ringbuffer_def assms(1) [symmetric] Let_def assms(2) Some
        bindE_simps prod.case option.case c [OF Some] u
      by (simp split: option.split)
  qed
qed

lemma cut_data:
  assumes "kremap_ok kr" and "kr e m = Some f" and "unat m \<le> length e"
  shows "f = take (unat m) e"
proof -
  have f: "length f = unat m" "take (length e) f = take (unat m) e"
    using kremap_okD [OF assms(1,2)] by simp_all
  have "take (length e) f = f" using f(1) assms(3) by (intro take_all) simp
  then show ?thesis using f(2) by simp
qed

lemma cut_straight:
  assumes "ring_ok ps u" and "\<not> wrapped u" and "rb_head u = 0" and "bytes_of u = Some e"
    and "length (ring_contents u) < unat m" and "unat m \<le> length e" and "unat ps dvd unat m"
    and "t = u\<lparr>rb_data := Mapped (take (unat m) e), rb_size := m\<rparr>"
  shows "ring_ok ps t" and "ring_contents t = ring_contents u"
proof -
  have T: "length (ring_contents u) = unat (rb_tail u)"
    using ring_contents_length [OF assms(1)] assms(2,3) by simp
  show "ring_ok ps t" using assms T by (simp add: ring_ok_def word_less_nat_alt)
  show "ring_contents t = ring_contents u"
    using assms T by (simp add: ring_contents_def min_absorb1)
qed

lemma cut_wrapped:
  assumes "ring_ok ps rb" and "wrapped rb" and "bytes_of rb = Some d" and "rb_tail u = rb_tail rb"
    and "unat (rb_tail rb) + x < unat (rb_head rb)" and "unat (rb_head u) = unat (rb_head rb) - x"
    and "bytes_of u = Some e" and "length e = length d" and "take (unat (rb_tail rb)) e = take (unat (rb_tail rb)) d"
    and "drop (unat (rb_head u)) (take (unat (rb_size rb) - x) e) = drop (unat (rb_head rb)) d"
    and "unat (rb_size rb) - x \<le> unat m" and "unat m \<le> unat (rb_size rb)" and "unat ps dvd unat m"
    and "t = u\<lparr>rb_data := Mapped (take (unat m) e), rb_size := m\<rparr>"
  shows "ring_ok ps t"
    and "if unat m = unat (rb_size rb) - x then ring_contents t = ring_contents rb
      else length (ring_contents t) = length (ring_contents rb) + (unat m - (unat (rb_size rb) - x))"
proof -
  let ?S = "unat (rb_size rb)" and ?H = "unat (rb_head rb)" and ?T = "unat (rb_tail rb)"
  have d: "length d = ?S" "?H < ?S" using assms(1,3) by (auto simp: ring_ok_def word_less_nat_alt)
  show ok: "ring_ok ps t"
    using assms(1,4-8,11-14) d by (auto simp: ring_ok_def word_less_nat_alt)
  have w: "wrapped t" using assms(4-6,14) by (simp add: wrapped_def word_less_nat_alt)
  have "ring_contents t = drop (unat (rb_head u)) (take (unat m) e) @ take ?T (take (unat m) e)"
  proof -
    have "\<not> rb_head t \<le> rb_tail t" using w by (simp add: wrapped_def)
    then show ?thesis using assms(4,14) by (simp add: ring_contents_def)
  qed
  moreover have "take ?T (take (unat m) e) = take ?T e" using assms(5,11) d by (simp add: min_def)
  moreover have "\<not> rb_head rb \<le> rb_tail rb" using assms(2) by (simp add: wrapped_def)
  then have "ring_contents rb = drop ?H d @ take ?T d" using assms(3) by (simp add: ring_contents_def)
  ultimately show "if unat m = ?S - x then ring_contents t = ring_contents rb
      else length (ring_contents t) = length (ring_contents rb) + (unat m - (?S - x))"
    using assms(5,6,8-12) d by auto
qed

definition cut_ok :: "u32 \<Rightarrow> ring_buffer \<Rightarrow> ring_buffer \<Rightarrow> nat \<Rightarrow> u32 \<Rightarrow> bool" where
  "cut_ok ps rb t r m \<longleftrightarrow> ring_ok ps t \<and>
     (if wrapped rb \<and> r < unat m
      then length (ring_contents t) = length (ring_contents rb) + (unat m - r)
      else ring_contents t = ring_contents rb)"

definition shrunk :: "u32 \<Rightarrow> ring_buffer \<Rightarrow> ring_buffer \<Rightarrow> u32 option \<Rightarrow> u8 list \<Rightarrow> bool" where
  "shrunk ps rb u s e \<longleftrightarrow> rb_size u = rb_size rb \<and> bytes_of u = Some e \<and> length e = unat (rb_size rb) \<and>
     tight ps rb (unat (rb_size rb) - (case s of None \<Rightarrow> 0 | Some x \<Rightarrow> unat x)) \<and>
     (case s of None \<Rightarrow> ring_ok ps u \<and> ring_contents u = ring_contents rb
      | Some x \<Rightarrow> unat x \<le> unat (rb_size rb) \<and>
          (\<forall>m. unat (rb_size rb) - unat x \<le> unat m \<and> unat m \<le> unat (rb_size rb) \<and> unat ps dvd unat m \<longrightarrow>
             cut_ok ps rb (u\<lparr>rb_data := Mapped (take (unat m) e), rb_size := m\<rparr>) (unat (rb_size rb) - unat x) m))"

lemma shrink_data_ok:
  assumes "ring_ok ps rb" and "1 < ps"
  obtains u s e where "shrink_data ps rb = Inr (u, s)" and "shrunk ps rb u s e"
proof -
  let ?S = "unat (rb_size rb)"
  obtain d where d: "bytes_of rb = Some d" "length d = ?S" using ring_okE [OF assms(1)] by blast
  show thesis
  proof (cases "wrapped rb")
    case False
    from shrink_data_straight [OF assms(1,2) this] obtain u s where
      u: "shrink_data ps rb = Inr (u, s)" "ring_ok ps u" "\<not> wrapped u" "ring_contents u = ring_contents rb"
      "rb_size u = rb_size rb" "case s of None \<Rightarrow> tight ps rb ?S
       | Some x \<Rightarrow> x \<noteq> 0 \<and> unat x \<le> ?S \<and> rb_head u = 0 \<and> tight ps rb (?S - unat x)" by blast
    obtain e where e: "bytes_of u = Some e" "length e = ?S" using ring_okE [OF u(2)] u(5) by metis
    show thesis
      by (rule that [OF u(1)])
        (use u False cut_straight [OF u(2,3) _ e(1) _ _ _ refl] e in \<open>auto simp: tight_def cut_ok_def shrunk_def split: option.splits\<close>)
  next
    case True
    from shrink_data_wrapped [OF assms(1,2) this d(1)] obtain u s where
      u: "shrink_data ps rb = Inr (u, s)" "rb_size u = rb_size rb"
      "case s of None \<Rightarrow> u = rb \<and> tight ps rb ?S
       | Some x \<Rightarrow> x \<noteq> 0 \<and> unat (rb_tail rb) + unat x < unat (rb_head rb) \<and> tight ps rb (?S - unat x) \<and>
         rb_tail u = rb_tail rb \<and> unat (rb_head u) = unat (rb_head rb) - unat x \<and>
         (\<exists>e. bytes_of u = Some e \<and> length e = length d \<and> take (unat (rb_tail rb)) e = take (unat (rb_tail rb)) d \<and>
            drop (unat (rb_head u)) (take (?S - unat x) e) = drop (unat (rb_head rb)) d)" by blast
    show thesis
    proof (cases s)
      case None
      show thesis by (rule that [OF u(1)]) (use None u(2,3) d assms(1) in \<open>auto simp: shrunk_def\<close>)
    next
      case (Some x)
      then obtain e where e: "bytes_of u = Some e" "length e = length d"
        "take (unat (rb_tail rb)) e = take (unat (rb_tail rb)) d"
        "drop (unat (rb_head u)) (take (?S - unat x) e) = drop (unat (rb_head rb)) d"
        and x: "unat (rb_tail rb) + unat x < unat (rb_head rb)" "tight ps rb (?S - unat x)"
        "rb_tail u = rb_tail rb" "unat (rb_head u) = unat (rb_head rb) - unat x" using u(3) by auto
      have "unat x \<le> ?S" using x(1) assms(1) by (simp add: ring_ok_def word_less_nat_alt)
      then show thesis
        by (intro that [OF u(1)])
          (use Some u(2) e(1,2) d x(2) True cut_wrapped [OF assms(1) True d(1) x(3,1,4) e _ _ _ refl] in
            \<open>auto simp: shrunk_def cut_ok_def split: if_splits\<close>)
    qed
  qed
qed

lemma shrink_ok:
  assumes "ring_ok ps rb" and "1 < ps" and "kremap_ok kr"
    and "n' = (if align_unsigned n ps = 0 then ps else align_unsigned n ps)"
  shows "(shrink_ringbuffer ps kr rb n = Inl Abort \<and> (\<exists>d m. kr d m = None)) \<or>
    (\<exists>t r. shrink_ringbuffer ps kr rb n = Inr t \<and> tight ps rb r \<and> ring_ok ps t \<and>
       unat (rb_size t) = min (unat (rb_size rb)) (cut_size n' r) \<and>
       (if wrapped rb \<and> r < unat n' \<and> unat n' < unat (rb_size rb)
        then length (ring_contents t) = length (ring_contents rb) + (unat n' - r)
        else ring_contents t = ring_contents rb))"
proof -
  let ?S = "unat (rb_size rb)"
  have p2: "is_power_of_two ps" using assms(1) by (simp add: ring_ok_def)
  obtain k where k: "unat ps = 2 ^ k" "1 \<le> k" using power_of_twoE [OF p2 assms(2)] .
  note n' = ring_size_cases [OF k assms(4)]
  obtain u s e where u: "shrink_data ps rb = Inr (u, s)" "shrunk ps rb u s e"
    using shrink_data_ok [OF assms(1,2)] .
  then have U: "rb_size u = rb_size rb" "bytes_of u = Some e" "length e = ?S" "\<forall>x. s = Some x \<longrightarrow> unat x \<le> ?S"
    "tight ps rb (?S - (case s of None \<Rightarrow> 0 | Some x \<Rightarrow> unat x))"
    "s = None \<Longrightarrow> ring_ok ps u \<and> ring_contents u = ring_contents rb"
    by (auto simp: shrunk_def)
  note E = shrink_ringbuffer_eq [OF assms(4) u(1) U(1,4,2), of kr]
  consider "rb_size rb \<le> n'" | "\<not> rb_size rb \<le> n'" "s = None" | x where "\<not> rb_size rb \<le> n'" "s = Some x"
    by (cases s) auto
  then show ?thesis
  proof cases
    case 1
    then have "shrink_ringbuffer ps kr rb n = Inr rb" and "?S \<le> unat n'" by (simp_all add: E word_le_nat_alt)
    then show ?thesis using U(5) assms(1)
      by (intro disjI2 exI [of _ rb] exI [of _ "?S - (case s of None \<Rightarrow> 0 | Some x \<Rightarrow> unat x)"])
        (auto simp: cut_size_def)
  next
    case 2
    then have "shrink_ringbuffer ps kr rb n = Inr u" and "tight ps rb ?S" "\<not> ?S \<le> unat n'" using U(5) by (simp_all add: E word_le_nat_alt)
    then show ?thesis using U(1,6) 2
      by (intro disjI2 exI [of _ u] exI [of _ ?S]) (auto simp: cut_size_def)
  next
    case (3 x)
    let ?r = "?S - unat x"
    define m where "m = (of_nat (cut_size n' ?r) :: u32)"
    have lt: "unat n' < ?S" using 3 by (simp add: word_le_nat_alt)
    then have "cut_size n' ?r \<le> ?S" by (simp add: cut_size_def)
    then have m: "unat m = cut_size n' ?r"
      using unat_u32_bound [of "rb_size rb"] by (simp add: m_def unat_of_nat take_bit_nat_eq_self)
    have t: "tight ps rb ?r" using U(5) 3 by simp
    have mb: "?r \<le> unat m" "unat m \<le> ?S" "unat ps dvd unat m"
      using m lt t n'(1) by (auto simp: cut_size_def tight_def max_def)
    show ?thesis
    proof (cases "kr e m")
      case None
      then show ?thesis using 3 by (auto simp: E m_def [symmetric])
    next
      case (Some f)
      then have f: "f = take (unat m) e" using cut_data [OF assms(3)] mb(2) U(3) by simp
      have "shrink_ringbuffer ps kr rb n = Inr (u\<lparr>rb_data := Mapped f, rb_size := m\<rparr>)"
        using 3 Some by (simp add: E m_def [symmetric])
      moreover have "cut_ok ps rb (u\<lparr>rb_data := Mapped f, rb_size := m\<rparr>) ?r m"
        using u(2) 3 mb f by (simp add: shrunk_def)
      ultimately show ?thesis using m t lt mb
        by (intro disjI2 exI [of _ "u\<lparr>rb_data := Mapped f, rb_size := m\<rparr>"] exI [of _ ?r])
          (auto simp: f cut_ok_def cut_size_def max_def split: if_splits)
    qed
  qed
qed

end
