(* ===== verification/Ring_Claims.thy ===== *)
theory Ring_Claims
  imports Ring_Properties
begin

text \<open>
  The properties of the ring buffer: a queue of bytes as long as its contents do not wrap around when
  they are read or the mapping is cut, and what goes wrong when they do. The queue interface is
  interpreted on the code.
\<close>

subsection \<open>The queue interface\<close>

abbreviation ring_put :: "ring_buffer \<Rightarrow> u8 list \<Rightarrow> (ring_buffer \<times> bool) res" where
  "ring_put rb xs \<equiv> write_ringbuffer rb xs (of_nat (length xs))"

definition ring_get :: "ring_buffer \<Rightarrow> u32 \<Rightarrow> (ring_buffer \<times> u8 list) res" where
  "ring_get rb n = bindE (read_ringbuffer rb (replicate (unat n) 0) n) (\<lambda>(rb, buffer, len).
     Inr (rb, take (unat len) buffer))"

lemma ring_room_write:
  assumes "ring_contents t = ring_contents rb @ xs" and "rb_size t = rb_size rb"
  shows "ring_room t = ring_room rb - length xs"
  using assms by (simp add: ring_room_def)

interpretation ring: byte_queue "ring_ok ps" ring_contents ring_room ring_put "\<lambda>rb. \<not> wrapped rb" ring_get
proof
  fix s :: ring_buffer and xs :: "u8 list"
  assume s: "ring_ok ps s" and l: "length xs < 2 ^ 32"
  have u: "unat (of_nat (length xs) :: u32) = length xs"
    using l by (simp add: unat_of_nat take_bit_nat_eq_self)
  then show "\<exists>t. ring_put s xs = Inr (t, length xs \<le> ring_room s) \<and>
      (if length xs \<le> ring_room s
       then ring_ok ps t \<and> ring_contents t = ring_contents s @ xs \<and> ring_room t = ring_room s - length xs
       else t = s)"
    using write_ok [OF s, of "of_nat (length xs)" xs] by (auto simp: ring_room_write split: if_splits)
next
  fix s :: ring_buffer and n :: u32
  assume s: "ring_ok ps s" and w: "\<not> wrapped s"
  define k where "k = min (unat n) (length (ring_contents s))"
  have "unat n \<le> length (replicate (unat n) (0 :: u8))" by simp
  from read_ok [OF s w this k_def] obtain t len where
    r: "read_ringbuffer s (replicate (unat n) 0) n =
      Inr (t, take k (ring_contents s) @ drop k (replicate (unat n) 0), len)"
    "unat len = k" "ring_ok ps t" "\<not> wrapped t" "ring_contents t = drop k (ring_contents s)" by blast
  have "take k (ring_contents s) = take (unat n) (ring_contents s)"
    "drop k (ring_contents s) = drop (unat n) (ring_contents s)" by (auto simp: k_def min_def)
  then show "\<exists>t. ring_get s n = Inr (t, take (unat n) (ring_contents s)) \<and> ring_ok ps t \<and> \<not> wrapped t \<and>
      ring_contents t = drop (unat n) (ring_contents s)"
    using r by (auto simp: ring_get_def k_def)
qed

text \<open>A kernel that always remaps, and three ring buffers on pages of four bytes.\<close>

definition simple_kremap :: kernel_remap where
  "simple_kremap d n = Some (take (unat n) d @ replicate (unat n - length d) 0)"

lemma simple_kremap_ok: "kremap_ok simple_kremap"
  by (auto simp: kremap_ok_def simple_kremap_def min_def)

definition ring_of :: "u8 list \<Rightarrow> u32 \<Rightarrow> u32 \<Rightarrow> ring_buffer" where
  "ring_of d h t = \<lparr>rb_data = Mapped d, rb_size = of_nat (length d), rb_head = h, rb_tail = t\<rparr>"

lemma ring_of_ok:
  "ring_ok 4 (ring_of [1, 2, 3, 4, 5, 6, 7, 8] 2 6)" "\<not> wrapped (ring_of [1, 2, 3, 4, 5, 6, 7, 8] 2 6)"
  "ring_ok 4 (ring_of [1, 2, 3, 4, 5, 6, 7, 8] 6 2)" "wrapped (ring_of [1, 2, 3, 4, 5, 6, 7, 8] 6 2)"
  "ring_ok 4 (ring_of [1, 2, 3, 4, 5, 6, 7, 8, 9, 10, 11, 12] 10 1)"
  "wrapped (ring_of [1, 2, 3, 4, 5, 6, 7, 8, 9, 10, 11, 12] 10 1)"
proof -
  have "is_power_of_two 4" by code_simp
  then show "ring_ok 4 (ring_of [1, 2, 3, 4, 5, 6, 7, 8] 2 6)" "\<not> wrapped (ring_of [1, 2, 3, 4, 5, 6, 7, 8] 2 6)"
    "ring_ok 4 (ring_of [1, 2, 3, 4, 5, 6, 7, 8] 6 2)" "wrapped (ring_of [1, 2, 3, 4, 5, 6, 7, 8] 6 2)"
    "ring_ok 4 (ring_of [1, 2, 3, 4, 5, 6, 7, 8, 9, 10, 11, 12] 10 1)"
    "wrapped (ring_of [1, 2, 3, 4, 5, 6, 7, 8, 9, 10, 11, 12] 10 1)"
    by (simp_all add: ring_ok_def ring_of_def bytes_of_def wrapped_def)
qed

subsection \<open>Writing and reading\<close>

text \<open>
  C16. \<open>write_ringbuffer\<close> always returns. It succeeds exactly when the bytes fit into the free room, one
  byte of the mapping staying unused; then it appends them to the contents, whether they lie behind the
  tail or are split at the end of the mapping. Otherwise it changes nothing.
\<close>

theorem ring_write_appends:
  assumes "ring_ok ps rb" and "unat n \<le> length data"
  shows "\<exists>t. write_ringbuffer rb data n = Inr (t, unat n \<le> ring_room rb) \<and>
    (if unat n \<le> ring_room rb
     then ring_ok ps t \<and> ring_contents t = ring_contents rb @ take (unat n) data \<and> rb_size t = rb_size rb
     else t = rb)"
  by (rule write_ok [OF assms])

theorem ring_write_appends_witness:
  "\<exists>t. write_ringbuffer (ring_of [1, 2, 3, 4, 5, 6, 7, 8] 2 6) [10, 20, 30] 3 = Inr (t, True) \<and>
    ring_ok 4 t \<and> ring_contents t = [3, 4, 5, 6, 10, 20, 30]"
proof -
  have c: "ring_contents (ring_of [1, 2, 3, 4, 5, 6, 7, 8] 2 6) = [3, 4, 5, 6]"
    "ring_room (ring_of [1, 2, 3, 4, 5, 6, 7, 8] 2 6) = 3" by code_simp+
  show ?thesis using ring_write_appends [OF ring_of_ok(1), of 3 "[10, 20, 30]"] by (auto simp: c)
qed

text \<open>
  While the contents do not wrap around, \<open>read_ringbuffer\<close> copies the bytes at the front to the
  caller's buffer, as many as there are or fit, leaves the rest of that buffer as it was, and removes
  them from the contents.
\<close>

theorem ring_read_takes_front:
  assumes "ring_ok ps rb" and "\<not> wrapped rb" and "unat n \<le> length buffer"
    and "k = min (unat n) (length (ring_contents rb))"
  shows "\<exists>t len. read_ringbuffer rb buffer n = Inr (t, take k (ring_contents rb) @ drop k buffer, len) \<and>
    unat len = k \<and> ring_ok ps t \<and> \<not> wrapped t \<and> ring_contents t = drop k (ring_contents rb) \<and>
    rb_size t = rb_size rb"
  by (rule read_ok [OF assms])

theorem ring_read_takes_front_witness:
  "\<exists>t len. read_ringbuffer (ring_of [1, 2, 3, 4, 5, 6, 7, 8] 2 6) [0, 0, 0] 3 = Inr (t, [3, 4, 5], len) \<and>
    unat len = 3 \<and> ring_contents t = [6]"
proof -
  have c: "ring_contents (ring_of [1, 2, 3, 4, 5, 6, 7, 8] 2 6) = [3, 4, 5, 6]" by code_simp
  have "\<exists>t len. read_ringbuffer (ring_of [1, 2, 3, 4, 5, 6, 7, 8] 2 6) [0, 0, 0] 3 =
      Inr (t, take 3 [3, 4, 5, 6] @ drop 3 [0, 0, 0], len) \<and> unat len = 3 \<and> ring_ok 4 t \<and> \<not> wrapped t \<and>
      ring_contents t = drop 3 [3, 4, 5, 6] \<and> rb_size t = rb_size (ring_of [1, 2, 3, 4, 5, 6, 7, 8] 2 6)"
    unfolding c [symmetric] by (rule ring_read_takes_front [OF ring_of_ok(1,2)]) (simp_all add: c)
  then show ?thesis by auto
qed

text \<open>
  C17. Once the contents wrap around, no read is right. The code takes the bytes from the tail to the end
  of the mapping for those from the head to the end, which are fewer. A request for more bytes than there
  are from the head on reads behind the mapping; any other request, even for no byte at all, returns with
  the head behind the end of the mapping.
\<close>

theorem ring_read_wrapped_breaks:
  assumes "ring_ok ps rb" and "wrapped rb" and "unat n \<le> length buffer" and "unat (rb_size rb) \<le> 2 ^ 31"
  shows "if unat n \<le> unat (rb_size rb) - unat (rb_head rb)
    then \<exists>t buf. read_ringbuffer rb buffer n = Inr (t, buf, n) \<and> rb_size t < rb_head t
    else read_ringbuffer rb buffer n = Inl Bad_Access"
  by (rule read_wrapped [OF assms])

theorem ring_read_wrapped_breaks_witness:
  "(\<exists>t buf. read_ringbuffer (ring_of [1, 2, 3, 4, 5, 6, 7, 8] 6 2) [0, 0, 0] 1 = Inr (t, buf, 1) \<and>
      rb_size t < rb_head t) \<and>
   read_ringbuffer (ring_of [1, 2, 3, 4, 5, 6, 7, 8] 6 2) [0, 0, 0] 3 = Inl Bad_Access"
proof -
  have c: "unat (rb_size (ring_of [1, 2, 3, 4, 5, 6, 7, 8] 6 2)) = 8"
    "unat (rb_head (ring_of [1, 2, 3, 4, 5, 6, 7, 8] 6 2)) = 6" by (simp_all add: ring_of_def)
  show ?thesis
    using ring_read_wrapped_breaks [OF ring_of_ok(3,4), of 1 "[0, 0, 0]"]
      ring_read_wrapped_breaks [OF ring_of_ok(3,4), of 3 "[0, 0, 0]"] by (simp add: c)
qed

subsection \<open>Resizing\<close>

text \<open>
  C18. \<open>grow_ringbuffer\<close> always returns, and the bytes in the buffer stay as they were, in order, wherever
  the contents lie: the part behind the head moves to the end of the larger mapping. When the kernel
  refuses, nothing changes. A size so large that rounding it up wraps around to 0 is reported as a
  success and changes nothing either.
\<close>

theorem ring_grow_keeps_contents:
  assumes "ring_ok ps rb" and "1 < ps" and "kremap_ok kr"
  shows "\<exists>t ok. grow_ringbuffer ps kr rb n = Inr (t, ok) \<and> ring_ok ps t \<and>
    ring_contents t = ring_contents rb \<and> wrapped t = wrapped rb \<and> unat (rb_size rb) \<le> unat (rb_size t) \<and>
    (if ok \<and> unat n + unat ps \<le> 2 ^ 32 then unat n \<le> unat (rb_size t) else t = rb)"
  by (rule grow_ok [OF assms])

theorem ring_grow_keeps_contents_witness:
  "\<exists>t ok. grow_ringbuffer 4 simple_kremap (ring_of [1, 2, 3, 4, 5, 6, 7, 8] 6 2) 9 = Inr (t, ok) \<and>
    ring_contents t = [7, 8, 1, 2] \<and>
    grow_ringbuffer 4 simple_kremap (ring_of [1, 2, 3, 4, 5, 6, 7, 8] 6 2) 0xFFFFFFFF =
      Inr (ring_of [1, 2, 3, 4, 5, 6, 7, 8] 6 2, True)"
proof -
  have c: "ring_contents (ring_of [1, 2, 3, 4, 5, 6, 7, 8] 6 2) = [7, 8, 1, 2]"
    "grow_ringbuffer 4 simple_kremap (ring_of [1, 2, 3, 4, 5, 6, 7, 8] 6 2) 0xFFFFFFFF =
      Inr (ring_of [1, 2, 3, 4, 5, 6, 7, 8] 6 2, True)" by code_simp+
  show ?thesis
    using ring_grow_keeps_contents [OF ring_of_ok(3) _ simple_kremap_ok, of 9] by (auto simp: c)
qed

text \<open>
  C19. \<open>shrink_ringbuffer\<close> of a buffer whose contents do not wrap around keeps them, and the mapping gets
  the least size that holds them and one byte more, is at least the size asked for and is whole pages. The
  program is aborted only when the kernel refuses to cut the mapping.
\<close>

theorem ring_shrink_least_size:
  assumes "ring_ok ps rb" and "1 < ps" and "kremap_ok kr" and "\<not> wrapped rb"
    and "unat n + unat ps \<le> 2 ^ 32"
  shows "(shrink_ringbuffer ps kr rb n = Inl Abort \<and> (\<exists>d m. kr d m = None)) \<or>
    (\<exists>t. shrink_ringbuffer ps kr rb n = Inr t \<and> ring_ok ps t \<and> ring_contents t = ring_contents rb \<and>
       min (unat n) (unat (rb_size rb)) \<le> unat (rb_size t) \<and>
       (\<forall>m. unat ps dvd m \<and> length (ring_contents rb) < m \<and> unat n \<le> m \<longrightarrow> unat (rb_size t) \<le> m))"
proof -
  define n' where "n' = (if align_unsigned n ps = 0 then ps else align_unsigned n ps)"
  have p2: "is_power_of_two ps" using assms(1) by (simp add: ring_ok_def)
  obtain k where k: "unat ps = 2 ^ k" "1 \<le> k" using power_of_twoE [OF p2 assms(2)] .
  have e: "unat n' = (if n = 0 then unat ps else round_up k (unat n))"
    using ring_size_cases(3) [OF k n'_def] assms(5) by simp
  have least: "unat n \<le> unat n' \<and> (\<forall>m. unat ps dvd m \<and> unat n \<le> m \<and> 0 < m \<longrightarrow> unat n' \<le> m)"
    using e round_up_ge [of "unat n" k] round_up_least [of "unat n" _ k] k(1) by (auto dest!: dvd_imp_le)
  consider "shrink_ringbuffer ps kr rb n = Inl Abort" "\<exists>d m. kr d m = None"
    | t r where "shrink_ringbuffer ps kr rb n = Inr t" "tight ps rb r" "ring_ok ps t"
        "unat (rb_size t) = min (unat (rb_size rb)) (cut_size n' r)" "ring_contents t = ring_contents rb"
    using shrink_ok [OF assms(1-3) n'_def] assms(4) by auto
  then show ?thesis
  proof cases
    case 1
    then show ?thesis by blast
  next
    case (2 t r)
    have "unat (rb_size t) \<le> m" if "unat ps dvd m" "length (ring_contents rb) < m" "unat n \<le> m" for m
    proof -
      have "r \<le> m" using 2(2) that by (simp add: tight_def)
      moreover have "unat n' \<le> m" using least that by auto
      ultimately show ?thesis by (simp add: 2(4) cut_size_def)
    qed
    moreover have "min (unat n) (unat (rb_size rb)) \<le> unat (rb_size t)"
      using least by (simp add: 2(4) cut_size_def min_def max_def)
    ultimately show ?thesis using 2(1,3,5) by blast
  qed
qed

theorem ring_shrink_least_size_witness:
  "\<exists>t. shrink_ringbuffer 4 simple_kremap (ring_of [1, 2, 3, 4, 5, 6, 7, 8, 9, 10, 11, 12] 3 6) 1 = Inr t \<and>
    ring_contents t = [4, 5, 6] \<and> unat (rb_size t) \<le> 4"
proof -
  have "is_power_of_two 4" by code_simp
  then have s: "ring_ok 4 (ring_of [1, 2, 3, 4, 5, 6, 7, 8, 9, 10, 11, 12] 3 6)"
    "\<not> wrapped (ring_of [1, 2, 3, 4, 5, 6, 7, 8, 9, 10, 11, 12] 3 6)"
    by (simp_all add: ring_ok_def ring_of_def bytes_of_def wrapped_def)
  have c: "ring_contents (ring_of [1, 2, 3, 4, 5, 6, 7, 8, 9, 10, 11, 12] 3 6) = [4, 5, 6]" by code_simp
  show ?thesis
    using ring_shrink_least_size [OF s(1) _ simple_kremap_ok s(2), of 1]
    by (auto simp: c simple_kremap_def)
qed

text \<open>
  When the contents wrap around and a size above the least one is asked for, the part behind the head
  is moved down by too much: it ends where the smallest mapping would end. The bytes between there and
  the end of the mapping, which were never written to the buffer, become part of its contents.
\<close>

theorem ring_shrink_wrapped_inserts:
  assumes "ring_ok ps rb" and "1 < ps" and "kremap_ok kr" and "wrapped rb" and "tight ps rb r"
    and "unat ps dvd unat n" and "r < unat n" and "unat n < unat (rb_size rb)"
  shows "(shrink_ringbuffer ps kr rb n = Inl Abort \<and> (\<exists>d m. kr d m = None)) \<or>
    (\<exists>t. shrink_ringbuffer ps kr rb n = Inr t \<and> rb_size t = n \<and>
       length (ring_contents t) = length (ring_contents rb) + (unat n - r))"
proof -
  define n' where "n' = (if align_unsigned n ps = 0 then ps else align_unsigned n ps)"
  have p2: "is_power_of_two ps" and S: "unat ps dvd unat (rb_size rb)" using assms(1) by (simp_all add: ring_ok_def)
  obtain k where k: "unat ps = 2 ^ k" "1 \<le> k" using power_of_twoE [OF p2 assms(2)] .
  have "unat ps dvd unat (rb_size rb) - unat n" using S assms(6) by (rule dvd_diff_nat)
  then have "unat n + unat ps \<le> unat (rb_size rb)" using assms(8) by (auto dest!: dvd_imp_le)
  then have "unat n + unat ps \<le> 2 ^ 32" using unat_u32_bound [of "rb_size rb"] by simp
  moreover have "n \<noteq> 0" using assms(7) by auto
  ultimately have e: "unat n' = unat n"
    using ring_size_cases(3) [OF k n'_def] assms(6) k(1) by (simp add: round_up_id)
  have same: "r' = r" if "tight ps rb r'" for r'
    using that assms(5) by (auto simp: tight_def intro: order_antisym)
  from shrink_ok [OF assms(1-3) n'_def] show ?thesis
    using same assms(4,7,8) e by (auto simp: cut_size_def unat_eq_iff)
qed

theorem ring_shrink_wrapped_inserts_witness:
  "\<exists>t. shrink_ringbuffer 4 simple_kremap (ring_of [1, 2, 3, 4, 5, 6, 7, 8, 9, 10, 11, 12] 10 1) 8 = Inr t \<and>
    length (ring_contents t) = 7 \<and> ring_contents (ring_of [1, 2, 3, 4, 5, 6, 7, 8, 9, 10, 11, 12] 10 1) = [11, 12, 1]"
proof -
  have c: "ring_contents (ring_of [1, 2, 3, 4, 5, 6, 7, 8, 9, 10, 11, 12] 10 1) = [11, 12, 1]" by code_simp
  have sz: "rb_size (ring_of [1, 2, 3, 4, 5, 6, 7, 8, 9, 10, 11, 12] 10 1) = 12" by (simp add: ring_of_def)
  have "tight 4 (ring_of [1, 2, 3, 4, 5, 6, 7, 8, 9, 10, 11, 12] 10 1) 4"
    by (auto simp: tight_def c) (simp_all add: ring_of_def dvd_imp_le)
  then show ?thesis
    using ring_shrink_wrapped_inserts [OF ring_of_ok(5) _ simple_kremap_ok ring_of_ok(6), of 4 8]
    by (auto simp: c sz simple_kremap_def)
qed

lemma write_keeps_head:
  assumes "write_ringbuffer rb xs n = Inr (t, ok)"
  shows "rb_head t = rb_head rb"
proof -
  have c: "copy_in rb dst src i m = Inr u \<Longrightarrow> rb_head u = rb_head rb" for rb dst src i m u
    by (auto simp: copy_in_def or_fail_def split: option.splits bind_splits)
  show ?thesis
    using assms unfolding write_ringbuffer_def Let_def
    by (auto simp: bindE_Inr_iff split: if_splits dest!: c)
qed

text \<open>
  C20. A fresh buffer is a queue. Two writes that fit together are accepted, and two reads deliver the
  bytes in the order they were written, without a gap: first in, first out.
\<close>

theorem ring_first_in_first_out:
  assumes "is_power_of_two ps" and "1 < ps" and "kmap_ok km"
    and "init_ringbuffer ps km maps raw nbytes = (maps + 1, rb, True)"
    and "length xs + length ys < unat (rb_size rb)"
  shows "\<exists>t u v w. write_ringbuffer rb xs (of_nat (length xs)) = Inr (t, True) \<and>
    write_ringbuffer t ys (of_nat (length ys)) = Inr (u, True) \<and>
    ring_get u n = Inr (v, take (unat n) (xs @ ys)) \<and>
    ring_get v m = Inr (w, take (unat m) (drop (unat n) (xs @ ys)))"
proof -
  obtain t ok where i: "init_ringbuffer ps km maps raw nbytes = (if ok then maps + 1 else maps, t, ok)"
    "ok \<Longrightarrow> ring_ok ps t \<and> ring_contents t = [] \<and> \<not> wrapped t"
    by (rule init_cases [OF assms(1-3), of maps raw nbytes], rule that) blast+
  have "ok" "t = rb" using i(1) unfolding assms(4) prod.inject by blast+
  then have rb: "ring_ok ps rb" "ring_contents rb = []" "\<not> wrapped rb" using i(2) by blast+
  have h: "rb_head rb = 0" using assms(4) by (auto simp: init_ringbuffer_def Let_def split: option.splits if_splits)
  have fit: "length (concat [xs, ys]) \<le> ring_room rb" using assms(5) rb(2) by (simp add: ring_room_def)
  have short: "\<forall>zs\<in>set [xs, ys]. length zs < 2 ^ 32"
    using assms(5) unat_u32_bound [of "rb_size rb"] by auto
  from ring.put_all_fits [OF rb(1) fit short] obtain u where
    all: "ring.put_all rb [xs, ys] = Inr (u, [True, True])" by auto
  then obtain t where t: "write_ringbuffer rb xs (of_nat (length xs)) = Inr (t, True)"
    "write_ringbuffer t ys (of_nat (length ys)) = Inr (u, True)"
    by (auto simp: bindE_Inr_iff)
  then have "rb_head u = 0" using write_keeps_head h by metis
  then have "\<not> wrapped u" by (simp add: wrapped_def)
  from ring.fifo [OF rb(1) fit short all this, of n m] show ?thesis using t rb(2) by auto
qed

theorem ring_first_in_first_out_witness:
  "\<exists>rb t u v w. init_ringbuffer 4 (\<lambda>n. Some (replicate (unat n) 0)) 0 (ring_of [] 0 0) 6 = (0 + 1, rb, True) \<and>
    write_ringbuffer rb [1, 2, 3] 3 = Inr (t, True) \<and> write_ringbuffer t [4, 5] 2 = Inr (u, True) \<and>
    ring_get u 4 = Inr (v, [1, 2, 3, 4]) \<and> ring_get v 4 = Inr (w, [5])"
proof -
  have i: "init_ringbuffer 4 (\<lambda>n. Some (replicate (unat n) 0)) 0 (ring_of [] 0 0) 6 =
      (0 + 1, ring_of (replicate 8 0) 0 0, True)" by code_simp
  have p: "is_power_of_two 4" by code_simp
  have k: "kmap_ok (\<lambda>n. Some (replicate (unat n) 0))" by (simp add: kmap_ok_def)
  have "length ([1, 2, 3] :: u8 list) + length ([4, 5] :: u8 list) < unat (rb_size (ring_of (replicate 8 0) 0 0))"
    by (simp add: ring_of_def)
  from ring_first_in_first_out [OF p _ k i this, of 4 4] show ?thesis using i by auto
qed

end
