(* ===== verification/Ring_On_Pet.thy ===== *)
theory Ring_On_Pet
  imports Ring_Claims Pet_Properties
begin

text \<open>
  Ring buffers in memory of an allocator. The lemma is proved once for any allocator with the contract of
  \<open>Alloc_Interface\<close>, and holds for the bitmap allocator by its interpretation.
\<close>

definition rings_in :: "block set \<Rightarrow> rings \<Rightarrow> bool" where
  "rings_in B rs \<longleftrightarrow> (\<forall>p. rs p \<noteq> None \<longrightarrow> (p, sizeof_RingBuffer) \<in> B)"

context allocator begin

lemma create_then_delete:
  assumes "inv s B" and "valid sizeof_RingBuffer" and "rings_in B rs"
    and "is_power_of_two ps" and "1 < ps" and "kmap_ok km"
  shows "\<exists>t rs' p. if p = 0
    then create_ringbuffer ps km alloc free raw (s, rs, maps) n = Inr ((t, rs, maps), 0) \<and> inv t B
    else create_ringbuffer ps km alloc free raw (s, rs, maps) n = Inr ((t, rs', maps + 1), p) \<and>
      (p, sizeof_RingBuffer) \<notin> B \<and> inv t (insert (p, sizeof_RingBuffer) B) \<and>
      (\<exists>rb u. rs' = rs(p \<mapsto> rb) \<and> ring_ok ps rb \<and> ring_contents rb = [] \<and>
         delete_ringbuffer free (t, rs', maps + 1) p = Inr ((u, rs, maps), 0) \<and> inv u B)"
proof -
  let ?n = sizeof_RingBuffer
  have ps: "ps \<noteq> 0" using assms(5) by auto
  from alloc_law [OF assms(1,2), of False] obtain t p where
    t: "alloc s ?n False = Inr (t, p)"
    "if p = 0 then inv t B else (p, ?n) \<notin> B \<and> inv t (insert (p, ?n) B)"
    by (auto split: if_splits)
  show ?thesis
  proof (cases "p = 0")
    case True
    then show ?thesis using t ps by (intro exI [of _ t] exI [of _ rs] exI [of _ 0]) (simp add: create_ringbuffer_def)
  next
    case False
    then have p: "(p, ?n) \<notin> B" "inv t (insert (p, ?n) B)" using t(2) by simp_all
    have "rs p = None" using p(1) assms(3) unfolding rings_in_def by blast
    then have none: "rs p = None" "rs(p := None) = rs" by (simp_all add: fun_upd_idem)
    from free_law [OF p(2), of p ?n] p(1) obtain u where u: "free t p ?n = Inr (u, 0)" "inv u B" by auto
    obtain rb ok where rb: "init_ringbuffer ps km maps raw n = (if ok then maps + 1 else maps, rb, ok)"
      "ok \<Longrightarrow> ring_ok ps rb \<and> ring_contents rb = []"
      by (rule init_cases [OF assms(4-6), of maps raw n], rule that) blast+
    show ?thesis
    proof (cases ok)
      case True
      note r = rb(2) [OF True]
      have "create_ringbuffer ps km alloc free raw (s, rs, maps) n = Inr ((t, rs(p \<mapsto> rb), maps + 1), p)"
        using t(1) ps False True by (simp add: create_ringbuffer_def rb(1))
      moreover have "delete_ringbuffer free (t, rs(p \<mapsto> rb), maps + 1) p = Inr ((u, rs, maps), 0)"
        using False u(1) none fini_ok(1) [OF r [THEN conjunct1], of "maps + 1"] by (simp add: delete_ringbuffer_def)
      ultimately show ?thesis using False p u(2) r
        by (intro exI [of _ t] exI [of _ "rs(p \<mapsto> rb)"] exI [of _ p]) auto
    next
      case failed: False
      have "create_ringbuffer ps km alloc free raw (s, rs, maps) n = Inr ((u, rs, maps), 0)"
        using t(1) ps False failed u(1) none by (simp add: create_ringbuffer_def rb(1))
      then show ?thesis using u(2) by (intro exI [of _ u] exI [of _ rs] exI [of _ 0]) simp
    qed
  qed
qed

end

text \<open>
  C21. A ring buffer created on the bitmap allocator is empty and well formed, has a mapping, and its structure
  lies in a block of its own. Deleting it gives mapping and block back: the live blocks, the other ring
  buffers and the number of mappings are as before. When memory is refused, \<open>create_ringbuffer\<close> gives back
  what it had taken and returns null.
\<close>

theorem ring_created_and_deleted_on_pet:
  assumes "pet_contract mm mr ps s B" and "pet_valid ps sizeof_RingBuffer" and "rings_in B rs"
    and "is_power_of_two ps" and "1 < ps" and "kmap_ok km"
  shows "\<exists>t rs' p. if p = 0
    then create_ringbuffer ps km (pet_allocate mm) pet_release raw (s, rs, maps) n = Inr ((t, rs, maps), 0) \<and>
      pet_contract mm mr ps t B
    else create_ringbuffer ps km (pet_allocate mm) pet_release raw (s, rs, maps) n = Inr ((t, rs', maps + 1), p) \<and>
      (p, sizeof_RingBuffer) \<notin> B \<and> pet_contract mm mr ps t (insert (p, sizeof_RingBuffer) B) \<and>
      (\<exists>rb u. rs' = rs(p \<mapsto> rb) \<and> ring_ok ps rb \<and> ring_contents rb = [] \<and>
         delete_ringbuffer pet_release (t, rs', maps + 1) p = Inr ((u, rs, maps), 0) \<and> pet_contract mm mr ps u B)"
  by (rule pet.create_then_delete [OF assms])

theorem ring_created_and_deleted_on_pet_witness:
  "\<exists>s t rs p. started = Inr s \<and>
    create_ringbuffer 4096 (\<lambda>n. Some (replicate (unat n) 0)) (pet_allocate simple_mmap) pet_release
      (ring_of [] 0 0) (s, (\<lambda>p. None), 0) 5000 = Inr ((t, rs, 1), p) \<and>
    p \<noteq> 0 \<and> pet_contract simple_mmap simple_mremap 4096 t {(p, 24)} \<and>
    (\<exists>u. delete_ringbuffer pet_release (t, rs, 1) p = Inr ((u, (\<lambda>p. None), 0), 0) \<and>
      pet_contract simple_mmap simple_mremap 4096 u {})"
proof -
  let ?km = "\<lambda>n. Some (replicate (unat n) 0)" and ?ps = "4096 :: u32"
  obtain s where s: "started = Inr s" "heap_ok s {}" "sys_page_size s = ?ps" "mapped s = {0x100000000}"
    by (rule started_ok)
  have p: "is_power_of_two ?ps" by code_simp
  have k: "kmap_ok ?km" by (simp add: kmap_ok_def)
  have v: "pet_valid ?ps sizeof_RingBuffer" by (simp add: pet_valid_def sizeof_RingBuffer_def)
  have r: "rings_in {} (\<lambda>p. None)" by (simp add: rings_in_def)
  have c: "pet_contract simple_mmap simple_mremap ?ps s {}"
    using s simple_mmap_ok simple_mremap_ok by (simp add: pet_contract_def)
  have ok: "mmap_ok (sys_page_size s) simple_mmap" "sized s 24"
    using simple_mmap_ok s(3) by (simp_all add: sized_def)
  have "simple_mmap (mapped s) (if small s 24 then sys_page_size s else page_size_of s 24) \<noteq> 0"
    unfolding s(4) by (rule simple_mmap_started, rule started_size) (simp_all add: s(3))
  with pet_allocate_ok [OF s(2) ok, of False] obtain t q where q: "pet_allocate simple_mmap s 24 False = Inr (t, q)"
    "q \<noteq> 0" by (auto simp: new_block_def)
  have i: "\<exists>rb. init_ringbuffer ?ps ?km 0 (ring_of [] 0 0) 5000 = (1, rb, True)"
    by (simp add: init_ringbuffer_def Let_def)
  then obtain rs where "create_ringbuffer ?ps ?km (pet_allocate simple_mmap) pet_release (ring_of [] 0 0)
      (s, (\<lambda>p. None), 0) 5000 = Inr ((t, rs, 1), q)"
    using q by (auto simp: create_ringbuffer_def sizeof_RingBuffer_def)
  with ring_created_and_deleted_on_pet [OF c v r p _ k, of "ring_of [] 0 0" 0 5000] q(2)
  show ?thesis using s(1) by (auto simp: sizeof_RingBuffer_def split: if_splits)
qed

end
