(* ===== verification/Mmarray.thy ===== *)
theory Mmarray
  imports Alignment
begin

text \<open>
  Growable arrays in mapped pages, \<^verbatim>\<open>src/mmarray.c\<close>. A header of 16 bytes lies at the start of a page; the
  caller holds a pointer to the data behind it. The state maps the page addresses of the arrays to their
  headers and data. The kernel is an argument: \<open>mm\<close> and \<open>mr\<close> give the addresses that \<open>mmap\<close> and \<open>mremap\<close>
  return, 0 for \<open>MAP_FAILED\<close>; fresh memory is zeroed. The page size \<open>ps\<close> is what \<open>sysconf\<close> returns. A
  division by an item size of 0 ends the program.
\<close>

record mmarray =
  ma_capacity :: u32
  ma_length :: u32
  ma_item_size :: u32
  ma_data :: "u8 list"

type_synonym arrays = "u64 \<Rightarrow> mmarray option"
type_synonym array_mmap = "arrays \<Rightarrow> u64 \<Rightarrow> u64"
type_synonym array_mremap = "arrays \<Rightarrow> u64 \<Rightarrow> u64 \<Rightarrow> u64 \<Rightarrow> u64"

definition calc_memsize :: "u64 \<Rightarrow> u32 \<Rightarrow> u32 \<Rightarrow> u64" where
  "calc_memsize ps capacity item_size =
     (16 + ucast capacity * ucast item_size + ps - 1) AND NOT (ps - 1)"

definition get_array_header :: "u64 \<Rightarrow> u64 \<Rightarrow> u64" where
  "get_array_header ps array = array AND NOT (ps - 1)"

definition header_at :: "u64 \<Rightarrow> arrays \<Rightarrow> u64 \<Rightarrow> mmarray res" where
  "header_at ps as array = or_fail Bad_Access (as (get_array_header ps array))"

definition mmarray_allocate :: "u64 \<Rightarrow> array_mmap \<Rightarrow> arrays \<Rightarrow> u32 \<Rightarrow> u32 \<Rightarrow> (arrays \<times> u64) res" where
  "mmarray_allocate ps mm as len item_size =
     (let memsize = calc_memsize ps len item_size; a = mm as memsize
      in if a = 0 \<or> item_size = 0 then Inl Abort
         else Inr (as(a \<mapsto> \<lparr>ma_capacity = ucast ((memsize - 16) div ucast item_size), ma_length = len,
                             ma_item_size = item_size, ma_data = replicate (unat (memsize - 16)) 0\<rparr>),
                   a + 16))"

definition remap_bytes :: "u8 list \<Rightarrow> nat \<Rightarrow> u8 list" where
  "remap_bytes d n = take n d @ replicate (n - length d) 0"

definition mmarray_grow :: "u64 \<Rightarrow> array_mremap \<Rightarrow> arrays \<Rightarrow> u64 \<Rightarrow> u32 \<Rightarrow> (arrays \<times> u64) res" where
  "mmarray_grow ps mr as array increment =
     (let a = get_array_header ps array
      in bindE (header_at ps as array) (\<lambda>h.
         bindE (if ma_length h + increment > ma_capacity h
                then (let old_memsize = calc_memsize ps (ma_capacity h) (ma_item_size h);
                          new_memsize = calc_memsize ps (ma_length h + increment) (ma_item_size h);
                          new_array = mr as a old_memsize new_memsize
                      in if new_array = 0 \<or> ma_item_size h = 0 then Inl Abort
                         else Inr (as(a := None), new_array,
                                   h\<lparr>ma_data := remap_bytes (ma_data h) (unat (new_memsize - 16)),
                                     ma_capacity := ucast ((new_memsize - 16) div ucast (ma_item_size h))\<rparr>))
                else Inr (as, a, h)) (\<lambda>(as, a, h).
         Inr (as(a \<mapsto> h\<lparr>ma_length := ma_length h + increment\<rparr>), a + 16))))"

definition mmarray_length :: "u64 \<Rightarrow> arrays \<Rightarrow> u64 \<Rightarrow> u32 res" where
  "mmarray_length ps as array = bindE (header_at ps as array) (\<lambda>h. Inr (ma_length h))"

definition mmarray_capacity :: "u64 \<Rightarrow> arrays \<Rightarrow> u64 \<Rightarrow> u32 res" where
  "mmarray_capacity ps as array = bindE (header_at ps as array) (\<lambda>h. Inr (ma_capacity h))"

definition mmarray_append_item :: "u64 \<Rightarrow> array_mremap \<Rightarrow> arrays \<Rightarrow> u64 \<Rightarrow> u8 list \<Rightarrow> (arrays \<times> u64) res" where
  "mmarray_append_item ps mr as array item =
     bindE (mmarray_length ps as array) (\<lambda>index.
     bindE (mmarray_grow ps mr as array 1) (\<lambda>(as, array).
     let a = get_array_header ps array
     in bindE (header_at ps as array) (\<lambda>h.
        bindE (or_fail Bad_Access
                 (do { xs \<leftarrow> load_bytes item 0 (unat (ma_item_size h));
                       store_bytes (ma_data h) (unat (index * ma_item_size h)) xs }))
          (\<lambda>d. Inr (as(a \<mapsto> h\<lparr>ma_data := d\<rparr>), a + 16)))))"

subsection \<open>Sizes\<close>

definition page_ok64 :: "u64 \<Rightarrow> nat \<Rightarrow> bool" where
  "page_ok64 ps k \<longleftrightarrow> unat ps = 2 ^ k \<and> 5 \<le> k \<and> k \<le> 31"

lemma unat_calc_memsize:
  assumes "page_ok64 ps k"
  shows "unat (calc_memsize ps c i) = round_up k (16 + unat c * unat i)"
proof -
  have k: "unat ps = 2 ^ k" "k < 64" "5 \<le> k" using assms by (simp_all add: page_ok64_def)
  have "unat c * unat i \<le> 4294967295 * 4294967295"
    using unat_u32_bound [of c] unat_u32_bound [of i] by (intro mult_le_mono) simp_all
  moreover have "(2::nat) ^ k \<le> 2 ^ 31" using assms by (intro power_increasing) (simp_all add: page_ok64_def)
  ultimately have b: "16 + unat c * unat i + 2 ^ k < 2 ^ 64" by simp
  have m: "unat (ucast c * ucast i :: u64) = unat c * unat i"
    using b by (subst unat_mult_exact) simp_all
  then have "unat (16 + ucast c * ucast i :: u64) = 16 + unat c * unat i"
    using b by (subst unat_add_exact) simp_all
  then have "unat (16 + ucast c * ucast i + ps) = 16 + unat c * unat i + 2 ^ k"
    using b k by (subst unat_add_exact) simp_all
  then have "unat (16 + ucast c * ucast i + ps - 1) = 16 + unat c * unat i + 2 ^ k - 1"
    by (subst unat_sub_exact) simp_all
  then show ?thesis
    using pow2_minus_1_eq_mask [OF k(1)] k(2) by (simp add: calc_memsize_def unat_and_not_mask round_up_def)
qed

lemma round_up_mono: "m \<le> n \<Longrightarrow> round_up k m \<le> round_up k n"
  using round_up_least [of m "round_up k n" k] round_up_ge [of n k] round_up_dvd [of k n] by simp

lemma capacity_fits:
  assumes "0 < i" and "c = (round_up k (16 + n * i) - 16) div i"
  shows "n \<le> c" and "c * i \<le> round_up k (16 + n * i) - 16" and "round_up k (16 + c * i) = round_up k (16 + n * i)"
    and "c \<le> n + 2 ^ k"
proof -
  let ?m = "round_up k (16 + n * i)"
  have ge: "16 + n * i \<le> ?m" by (rule round_up_ge)
  then show n: "n \<le> c" using assms(1) by (simp add: assms(2) less_eq_div_iff_mult_less_eq)
  show c: "c * i \<le> ?m - 16" by (simp add: assms(2) div_times_less_eq_dividend)
  have "round_up k (16 + c * i) \<le> ?m" using c ge by (intro round_up_least) (simp_all add: round_up_dvd)
  moreover have "?m \<le> round_up k (16 + c * i)" using n by (intro round_up_mono) simp
  ultimately show "round_up k (16 + c * i) = ?m" by simp
  have "?m - 16 \<le> n * i + 2 ^ k * i"
  proof -
    have "?m < 16 + n * i + 2 ^ k" by (rule round_up_less)
    moreover have "2 ^ k \<le> (2::nat) ^ k * i" using assms(1) by simp
    ultimately show ?thesis by linarith
  qed
  then have "?m - 16 \<le> (n + 2 ^ k) * i" by (simp add: add_mult_distrib)
  then have "c \<le> (n + 2 ^ k) * i div i" unfolding assms(2) by (rule div_le_mono)
  then show "c \<le> n + 2 ^ k" using assms(1) by simp
qed

subsection \<open>The items of an array\<close>

definition array_ok :: "nat \<Rightarrow> mmarray \<Rightarrow> bool" where
  "array_ok k h \<longleftrightarrow> 0 < ma_item_size h \<and> unat (ma_length h) \<le> unat (ma_capacity h) \<and>
     unat (ma_capacity h) * unat (ma_item_size h) \<le> length (ma_data h) \<and>
     16 + length (ma_data h) = round_up k (16 + unat (ma_capacity h) * unat (ma_item_size h))"

definition item_at :: "u8 list \<Rightarrow> nat \<Rightarrow> nat \<Rightarrow> u8 list" where
  "item_at d sz i = take sz (drop (i * sz) d)"

definition items :: "mmarray \<Rightarrow> u8 list list" where
  "items h = map (item_at (ma_data h) (unat (ma_item_size h))) [0..<unat (ma_length h)]"

lemma capacity_of_size:
  assumes "page_ok64 ps k" and "0 < unat i" and "unat n + 2 ^ k < 2 ^ 32"
    and "c = (ucast ((calc_memsize ps n i - 16) div ucast i) :: u32)" and "m = unat (calc_memsize ps n i - 16)"
  shows "unat n \<le> unat c" and "unat c * unat i \<le> m" and "16 + m = round_up k (16 + unat c * unat i)"
proof -
  let ?c = "(round_up k (16 + unat n * unat i) - 16) div unat i"
  note c = capacity_fits [OF assms(2) refl, where k = k and n = "unat n"]
  have "16 \<le> round_up k (16 + unat n * unat i)" using round_up_ge [of "16 + unat n * unat i" k] by simp
  then have m: "m = round_up k (16 + unat n * unat i) - 16" "16 + m = round_up k (16 + unat n * unat i)"
    using unat_calc_memsize [OF assms(1), of n i] by (simp_all add: assms(5) unat_sub_exact)
  have "unat ((calc_memsize ps n i - 16) div ucast i) = ?c"
    using m(1) assms(5) by (simp add: unat_div)
  moreover have "?c < 2 ^ 32" using c(4) assms(3) by simp
  ultimately have "unat c = ?c" by (simp add: assms(4) unsigned_ucast_eq take_bit_nat_eq_self)
  then show "unat n \<le> unat c" "unat c * unat i \<le> m" "16 + m = round_up k (16 + unat c * unat i)"
    using c m by simp_all
qed

lemma header_of_array:
  assumes "page_ok64 ps k" and "unat ps dvd unat a"
  shows "get_array_header ps (a + 16) = a"
proof -
  have k: "unat ps = 2 ^ k" "k < 64" "5 \<le> k" using assms(1) by (simp_all add: page_ok64_def)
  have "(2::nat) ^ 5 \<le> 2 ^ k" using k(3) by (intro power_increasing) simp_all
  then have 16: "(16::nat) < 2 ^ k" by simp
  have "(2::nat) ^ k dvd 2 ^ 64" using k by (intro le_imp_power_dvd) simp
  then have "2 ^ k dvd 2 ^ 64 - unat a" using assms(2) k by (simp add: dvd_diff_nat)
  then have "2 ^ k \<le> 2 ^ 64 - unat a" using unat_u64_bound [of a] by (intro dvd_imp_le) simp_all
  then have u: "unat (a + 16) = unat a + 16" using 16 by (subst unat_add_exact) simp_all
  have "(unat a + 16) div 2 ^ k * 2 ^ k = unat a"
    using assms(2) 16 k by (auto elim!: dvdE)
  then have "unat (get_array_header ps (a + 16)) = unat a"
    using pow2_minus_1_eq_mask [OF k(1)] k(2) u by (simp add: get_array_header_def unat_and_not_mask)
  then show ?thesis by (simp add: unat_eq_iff)
qed

definition array_mremap_ok :: "u64 \<Rightarrow> array_mremap \<Rightarrow> bool" where
  "array_mremap_ok ps mr \<longleftrightarrow> (\<forall>as a old new. mr as a old new \<noteq> 0 \<longrightarrow>
     unat ps dvd unat (mr as a old new) \<and> (mr as a old new = a \<or> as (mr as a old new) = None))"

definition array_at :: "u64 \<Rightarrow> nat \<Rightarrow> arrays \<Rightarrow> u64 \<Rightarrow> mmarray \<Rightarrow> bool" where
  "array_at ps k as a h \<longleftrightarrow> as a = Some h \<and> array_ok k h \<and> unat ps dvd unat a"

lemma item_at_prefix:
  assumes "take (length d) e = d" and "Suc i * sz \<le> length d"
  shows "item_at e sz i = item_at d sz i"
proof -
  have "item_at d sz i = take sz (drop (i * sz) (take (length d) e))" by (simp add: item_at_def assms(1))
  also have "\<dots> = item_at e sz i" using assms(2) by (simp add: item_at_def take_drop min_def add.commute)
  finally show ?thesis by simp
qed

lemma items_prefix:
  assumes "array_ok k h" and "take (length (ma_data h)) e = ma_data h"
  shows "map (item_at e (unat (ma_item_size h))) [0..<unat (ma_length h)] = items h"
proof -
  have "Suc i * unat (ma_item_size h) \<le> length (ma_data h)" if "i < unat (ma_length h)" for i
  proof -
    have "Suc i * unat (ma_item_size h) \<le> unat (ma_capacity h) * unat (ma_item_size h)"
      using that assms(1) by (intro mult_le_mono1) (simp add: array_ok_def)
    then show ?thesis using assms(1) by (simp add: array_ok_def)
  qed
  then show ?thesis unfolding items_def by (intro map_cong refl item_at_prefix [OF assms(2)]) auto
qed

lemma grow_array:
  assumes "page_ok64 ps k" and "array_at ps k as a h" and "array_mremap_ok ps mr"
    and "unat (ma_length h) + unat n + 2 ^ k < 2 ^ 32"
  shows "(mmarray_grow ps mr as (a + 16) n = Inl Abort \<and>
      mr as a (calc_memsize ps (ma_capacity h) (ma_item_size h))
        (calc_memsize ps (ma_length h + n) (ma_item_size h)) = 0) \<or>
    (\<exists>a' h'. mmarray_grow ps mr as (a + 16) n = Inr (as(a := None, a' \<mapsto> h'), a' + 16) \<and>
       array_at ps k (as(a := None, a' \<mapsto> h')) a' h' \<and> (a' = a \<or> as a' = None) \<and>
       take (unat (ma_length h)) (items h') = items h \<and> ma_item_size h' = ma_item_size h \<and>
       ma_length h' = ma_length h + n \<and> unat (ma_length h') = unat (ma_length h) + unat n)"
proof -
  have a: "as a = Some h" "array_ok k h" "unat ps dvd unat a" using assms(2) by (simp_all add: array_at_def)
  have hd: "get_array_header ps (a + 16) = a" by (rule header_of_array [OF assms(1) a(3)])
  have l: "unat (ma_length h + n) = unat (ma_length h) + unat n"
    using assms(4) by (intro unat_add_exact) simp
  have i: "ma_item_size h \<noteq> 0" "0 < unat (ma_item_size h)"
    using a(2) by (auto simp: array_ok_def unat_gt_0)
  show ?thesis
  proof (cases "ma_length h + n > ma_capacity h")
    case False
    let ?h = "h\<lparr>ma_length := ma_length h + n\<rparr>"
    have "mmarray_grow ps mr as (a + 16) n = Inr (as(a := None, a \<mapsto> ?h), a + 16)"
      using False a(1) by (simp add: mmarray_grow_def header_at_def hd)
    moreover have "array_ok k ?h" using False a(2) l by (simp add: array_ok_def word_less_nat_alt)
    moreover have "take (unat (ma_length h)) (items ?h) = items h"
      using l by (simp add: items_def take_map)
    ultimately show ?thesis using l a(3) by (intro disjI2 exI [of _ a] exI [of _ ?h]) (simp add: array_at_def)
  next
    case True
    define old new where "old = calc_memsize ps (ma_capacity h) (ma_item_size h)"
      and "new = calc_memsize ps (ma_length h + n) (ma_item_size h)"
    define b where "b = mr as a old new"
    define m where "m = unat (new - 16)"
    define h' where "h' = h\<lparr>ma_data := remap_bytes (ma_data h) m,
      ma_capacity := ucast ((new - 16) div ucast (ma_item_size h)), ma_length := ma_length h + n\<rparr>"
    have G: "mmarray_grow ps mr as (a + 16) n =
        (if b = 0 then Inl Abort else Inr (as(a := None, b \<mapsto> h'), b + 16))"
      using True a(1) i by (simp add: mmarray_grow_def header_at_def hd Let_def old_def new_def b_def h'_def m_def)
    have "unat (ma_length h + n) + 2 ^ k < 2 ^ 32" using l assms(4) by simp
    note C = capacity_of_size [OF assms(1) i(2) this refl m_def [unfolded new_def]]
    have len: "length (remap_bytes (ma_data h) m) = m" by (simp add: remap_bytes_def)
    have "16 + length (ma_data h) \<le> 16 + m"
    proof -
      have "unat (ma_capacity h) \<le> unat (ma_length h + n)" using True by (simp add: word_less_nat_alt)
      then have "round_up k (16 + unat (ma_capacity h) * unat (ma_item_size h)) \<le>
          round_up k (16 + unat (ma_length h + n) * unat (ma_item_size h))"
        by (intro round_up_mono) simp
      also have "\<dots> = 16 + m"
      proof -
        have "16 \<le> round_up k (16 + unat (ma_length h + n) * unat (ma_item_size h))"
          using round_up_ge [of "16 + unat (ma_length h + n) * unat (ma_item_size h)" k] by simp
        then show ?thesis
          using unat_calc_memsize [OF assms(1), of "ma_length h + n" "ma_item_size h"]
          by (simp add: m_def new_def unat_sub_exact)
      qed
      finally show ?thesis using a(2) by (simp add: array_ok_def)
    qed
    then have pre: "take (length (ma_data h)) (remap_bytes (ma_data h) m) = ma_data h"
      by (simp add: remap_bytes_def)
    have "array_ok k h'" using a(2) l C len by (simp add: array_ok_def h'_def new_def)
    moreover have "take (unat (ma_length h)) (items h') = items h"
      using items_prefix [OF a(2) pre] l by (simp add: items_def h'_def take_map)
    moreover have "unat ps dvd unat b \<and> (b = a \<or> as b = None)" if "b \<noteq> 0"
      using assms(3) that by (simp add: array_mremap_ok_def b_def)
    ultimately show ?thesis using G l by (auto simp: array_at_def h'_def b_def old_def new_def)
  qed
qed

lemma item_at_store:
  assumes "length xs = sz" and "n * sz + sz \<le> length d" and "i \<le> n"
  shows "item_at (take (n * sz) d @ xs @ drop (n * sz + sz) d) sz i = (if i = n then xs else item_at d sz i)"
proof (cases "i = n")
  case True
  then show ?thesis using assms by (simp add: item_at_def)
next
  case False
  then have "Suc i * sz \<le> n * sz" using assms(3) by (intro mult_le_mono1) simp
  then show ?thesis using False assms
    by (simp add: item_at_def take_drop min_def add.commute)
qed

lemma append_array:
  assumes "page_ok64 ps k" and "array_at ps k as a h" and "array_mremap_ok ps mr"
    and "unat (ma_length h) + 1 + 2 ^ k < 2 ^ 32"
    and "unat (ma_length h) * unat (ma_item_size h) < 2 ^ 32" and "unat (ma_item_size h) \<le> length item"
  shows "(mmarray_append_item ps mr as (a + 16) item = Inl Abort \<and>
      mr as a (calc_memsize ps (ma_capacity h) (ma_item_size h))
        (calc_memsize ps (ma_length h + 1) (ma_item_size h)) = 0) \<or>
    (\<exists>a' h'. mmarray_append_item ps mr as (a + 16) item = Inr (as(a := None, a' \<mapsto> h'), a' + 16) \<and>
       array_at ps k (as(a := None, a' \<mapsto> h')) a' h' \<and> (a' = a \<or> as a' = None) \<and>
       ma_item_size h' = ma_item_size h \<and>
       items h' = items h @ [take (unat (ma_item_size h)) item])"
proof -
  let ?L = "unat (ma_length h)" and ?I = "unat (ma_item_size h)"
  have a: "as a = Some h" "unat ps dvd unat a" using assms(2) by (simp_all add: array_at_def)
  have hd: "get_array_header ps (a + 16) = a" by (rule header_of_array [OF assms(1) a(2)])
  have len: "mmarray_length ps as (a + 16) = Inr (ma_length h)"
    using a(1) by (simp add: mmarray_length_def header_at_def hd)
  have "?L + unat (1 :: u32) + 2 ^ k < 2 ^ 32" using assms(4) by simp
  from grow_array [OF assms(1-3) this] consider
      "mmarray_grow ps mr as (a + 16) 1 = Inl Abort" "mr as a (calc_memsize ps (ma_capacity h) (ma_item_size h))
        (calc_memsize ps (ma_length h + 1) (ma_item_size h)) = 0"
    | b g where "mmarray_grow ps mr as (a + 16) 1 = Inr (as(a := None, b \<mapsto> g), b + 16)"
        "array_at ps k (as(a := None, b \<mapsto> g)) b g" "b = a \<or> as b = None" "take ?L (items g) = items h"
        "ma_item_size g = ma_item_size h" "unat (ma_length g) = ?L + 1" by auto
  then show ?thesis
  proof cases
    case 1
    then show ?thesis by (simp add: mmarray_append_item_def len)
  next
    case (2 b g)
    have g: "array_ok k g" "unat ps dvd unat b" using 2(2) by (simp_all add: array_at_def)
    have hb: "get_array_header ps (b + 16) = b" by (rule header_of_array [OF assms(1) g(2)])
    have pos: "unat (ma_length h * ma_item_size g) = ?L * ?I"
      using assms(5) 2(5) by (subst unat_mult_exact) simp_all
    have "(?L + 1) * ?I \<le> unat (ma_capacity g) * ?I"
      using g(1) 2(6) by (intro mult_le_mono1) (simp add: array_ok_def)
    then have fit: "?L * ?I + ?I \<le> length (ma_data g)" using g(1) 2(5) by (simp add: array_ok_def)
    let ?x = "take ?I item"
    define d where "d = take (?L * ?I) (ma_data g) @ ?x @ drop (?L * ?I + ?I) (ma_data g)"
    have "mmarray_append_item ps mr as (a + 16) item =
        Inr (as(a := None, b \<mapsto> g\<lparr>ma_data := d\<rparr>), b + 16)"
      using 2 fit pos assms(6)
      by (simp add: mmarray_append_item_def len header_at_def hb load_bytes_def store_bytes_def d_def min_absorb2)
    moreover have ok: "array_ok k (g\<lparr>ma_data := d\<rparr>)"
      using g(1) fit assms(6) by (simp add: array_ok_def d_def min_absorb2)
    moreover have "items (g\<lparr>ma_data := d\<rparr>) = items h @ [?x]"
    proof -
      note st = item_at_store [of ?x ?I ?L "ma_data g"]
      have "map (item_at d ?I) [0..<?L] = map (item_at (ma_data g) ?I) [0..<?L]"
        unfolding d_def by (intro map_cong refl, subst st) (use fit assms(6) in auto)
      also have "\<dots> = items h" using 2(4-6) by (simp add: items_def take_map)
      finally have "map (item_at d ?I) [0..<?L] = items h" .
      moreover have "item_at d ?I ?L = ?x" unfolding d_def by (subst st) (use fit assms(6) in auto)
      ultimately show ?thesis using 2(5,6) by (simp add: items_def)
    qed
    ultimately show ?thesis using 2(3,5) g(2)
      by (intro disjI2 exI [of _ b] exI [of _ "g\<lparr>ma_data := d\<rparr>"]) (simp add: array_at_def)
  qed
qed

subsection \<open>Properties\<close>

text \<open>
  \<open>mmarray_allocate\<close> returns a pointer from which the code finds the header again. The array has the
  length asked for, all of its items fit and are zero, and its capacity is what fills the pages. The other
  arrays are untouched.
\<close>

theorem mmarray_allocate_zeroed:
  assumes "page_ok64 ps k" and "0 < item_size" and "unat n + 2 ^ k < 2 ^ 32"
    and "a = mm as (calc_memsize ps n item_size)" and "a \<noteq> 0" and "unat ps dvd unat a"
  shows "\<exists>h. mmarray_allocate ps mm as n item_size = Inr (as(a \<mapsto> h), a + 16) \<and>
    get_array_header ps (a + 16) = a \<and> array_ok k h \<and>
    mmarray_length ps (as(a \<mapsto> h)) (a + 16) = Inr n \<and>
    items h = replicate (unat n) (replicate (unat item_size) 0)"
proof -
  define m where "m = unat (calc_memsize ps n item_size - 16)"
  define h where "h = \<lparr>ma_capacity = ucast ((calc_memsize ps n item_size - 16) div ucast item_size),
    ma_length = n, ma_item_size = item_size, ma_data = replicate m 0\<rparr>"
  have i: "item_size \<noteq> 0" "0 < unat item_size" using assms(2) by (auto simp: unat_gt_0)
  have e: "mmarray_allocate ps mm as n item_size = Inr (as(a \<mapsto> h), a + 16)"
    using assms(5) i by (simp add: mmarray_allocate_def assms(4) [symmetric] h_def m_def Let_def)
  note C = capacity_of_size [OF assms(1) i(2) assms(3) refl m_def]
  have hd: "get_array_header ps (a + 16) = a" by (rule header_of_array [OF assms(1,6)])
  have ok: "array_ok k h" using C assms(2) by (simp add: array_ok_def h_def)
  have "item_at (replicate m 0) (unat item_size) j = replicate (unat item_size) 0" if "j < unat n" for j
  proof -
    have "Suc j * unat item_size \<le> unat (ma_capacity h) * unat item_size"
      using that C(1) by (intro mult_le_mono1) (simp add: h_def)
    then have "j * unat item_size + unat item_size \<le> m" using C(2) by (simp add: h_def)
    then show ?thesis by (simp add: item_at_def min_def)
  qed
  then have "items h = map (\<lambda>j. replicate (unat item_size) 0) [0..<unat n]"
    unfolding items_def by (intro map_cong) (simp_all add: h_def)
  then have "items h = replicate (unat n) (replicate (unat item_size) 0)" by (simp add: map_replicate_const)
  then show ?thesis using e hd ok by (auto simp: mmarray_length_def header_at_def h_def)
qed

theorem mmarray_allocate_zeroed_witness:
  "\<exists>h. mmarray_allocate 4096 (\<lambda>as sz. 0x10000) (\<lambda>p. None) 3 4 = Inr ([0x10000 \<mapsto> h], 0x10010) \<and>
    mmarray_length 4096 [0x10000 \<mapsto> h] 0x10010 = Inr 3 \<and> items h = replicate 3 (replicate 4 0)"
proof -
  have "page_ok64 4096 12" by (simp add: page_ok64_def)
  from mmarray_allocate_zeroed [OF this, of 4 3 "0x10000" "\<lambda>as sz. 0x10000" "\<lambda>p. None"]
  show ?thesis by auto
qed

text \<open>
  C22. \<open>mmarray_append_item\<close> appends: the items before stay as they were, wherever the array moves to when
  it has to grow, the new item is the last, and no other array changes. The program is aborted only when
  the kernel refuses memory. The offset of the new item must fit into 32 bits, in which the code computes it.
\<close>

theorem mmarray_append_appends:
  assumes "page_ok64 ps k" and "array_at ps k as a h" and "array_mremap_ok ps mr"
    and "unat (ma_length h) + 1 + 2 ^ k < 2 ^ 32"
    and "unat (ma_length h) * unat (ma_item_size h) < 2 ^ 32" and "unat (ma_item_size h) \<le> length item"
  shows "(mmarray_append_item ps mr as (a + 16) item = Inl Abort \<and>
      mr as a (calc_memsize ps (ma_capacity h) (ma_item_size h))
        (calc_memsize ps (ma_length h + 1) (ma_item_size h)) = 0) \<or>
    (\<exists>a' h'. mmarray_append_item ps mr as (a + 16) item = Inr (as(a := None, a' \<mapsto> h'), a' + 16) \<and>
       array_at ps k (as(a := None, a' \<mapsto> h')) a' h' \<and> (a' = a \<or> as a' = None) \<and>
       ma_item_size h' = ma_item_size h \<and> items h' = items h @ [take (unat (ma_item_size h)) item])"
  by (rule append_array [OF assms])

definition full_array :: mmarray where
  "full_array = \<lparr>ma_capacity = 4, ma_length = 4, ma_item_size = 4,
     ma_data = [1, 2, 3, 4, 5, 6, 7, 8, 9, 10, 11, 12, 13, 14, 15, 16]\<rparr>"

definition other_page :: array_mremap where
  "other_page as a old new = (if as 0x2000 = None then 0x2000 else 0)"

theorem mmarray_append_appends_witness:
  "\<exists>b h. mmarray_append_item 32 other_page [0x1000 \<mapsto> full_array] 0x1010 [20, 21, 22, 23] =
      Inr ([0x1000 \<mapsto> full_array] (0x1000 := None, b \<mapsto> h), b + 16) \<and>
    items h = [[1, 2, 3, 4], [5, 6, 7, 8], [9, 10, 11, 12], [13, 14, 15, 16], [20, 21, 22, 23]]"
proof -
  have c: "items full_array = [[1, 2, 3, 4], [5, 6, 7, 8], [9, 10, 11, 12], [13, 14, 15, 16]]" by code_simp
  have s: "ma_length full_array = 4" "ma_item_size full_array = 4" by (simp_all add: full_array_def)
  have p: "page_ok64 32 5" by (simp add: page_ok64_def)
  have "array_ok 5 full_array" by (simp add: array_ok_def full_array_def round_up_def)
  then have a: "array_at 32 5 [0x1000 \<mapsto> full_array] 0x1000 full_array" by (simp add: array_at_def)
  have m: "array_mremap_ok 32 other_page" by (simp add: array_mremap_ok_def other_page_def)
  from mmarray_append_appends [OF p a m, of "[20, 21, 22, 23]"] show ?thesis
    by (auto simp: c s other_page_def)
qed

text \<open>A length that wraps around in 32 bits takes the growing of an array for a cut.\<close>

lemma mmarray_grow_wraps:
  assumes "header_at ps as array = Inr h" and "2 ^ 32 \<le> unat (ma_length h) + unat n"
    and "ma_length h \<le> ma_capacity h"
  shows "\<exists>h'. mmarray_grow ps mr as array n =
      Inr (as(get_array_header ps array \<mapsto> h'), get_array_header ps array + 16) \<and>
    unat (ma_length h') < unat (ma_length h)"
proof -
  have w: "unat (ma_length h + n) = unat (ma_length h) + unat n - 2 ^ 32"
    using assms(2) unat_u32_bound [of n] unat_u32_bound [of "ma_length h"]
    by (simp add: unat_word_ariths mod_if)
  then have lt: "unat (ma_length h + n) < unat (ma_length h)"
    using assms(2) unat_u32_bound [of n] by simp
  then have "\<not> ma_capacity h < ma_length h + n" using assms(3) by (simp add: word_less_nat_alt word_le_nat_alt)
  then show ?thesis using lt
    by (intro exI [of _ "h\<lparr>ma_length := ma_length h + n\<rparr>"]) (simp add: mmarray_grow_def assms(1) Let_def)
qed

end
