(* ===== verification/Arena.thy ===== *)
theory Arena
  imports Alignment
begin

text \<open>
  The region arena of \<^verbatim>\<open>src/arena.c\<close>: a singly linked list of mapped regions, the first of which lies
  inside the arena itself. The state holds the headers of the regions and of the arenas by address, and
  the ranges that were unmapped, in order. The kernel is an argument: \<open>mm w n\<close> is the address \<open>mmap\<close>
  returns for \<open>n\<close> bytes in the state \<open>w\<close>, 0 for \<open>MAP_FAILED\<close>. A failed assertion is \<open>Abort\<close>. A loop along
  the list that does not end is \<open>None\<close>.

  On LP64 a region's data starts 16 bytes behind its header, and the first region lies 16 bytes behind the
  start of the arena. The sums of an \<open>unsigned\<close> and such an offset are 64 bits wide in the code, but only
  their lower 32 bits are used.
\<close>

record region =
  rg_next :: u64
  rg_tail :: u32
  rg_capacity :: u32

record arena =
  ar_last :: u64
  ar_new_region_capacity :: u32

record aworld =
  aw_regions :: "u64 \<Rightarrow> region option"
  aw_arenas :: "u64 \<Rightarrow> arena option"
  aw_freed :: "(u64 \<times> u32) list"

type_synonym arena_mmap = "aworld \<Rightarrow> u32 \<Rightarrow> u64"

definition REGION_HEADER_SIZE :: u32 where "REGION_HEADER_SIZE = 16"
definition ARENA_HEADER_SIZE :: u32 where "ARENA_HEADER_SIZE = 32"

definition first_region :: "u64 \<Rightarrow> u64" where "first_region arena = arena + 16"

definition put_region :: "aworld \<Rightarrow> u64 \<Rightarrow> region \<Rightarrow> aworld" where
  "put_region w p r = w\<lparr>aw_regions := (aw_regions w)(p \<mapsto> r)\<rparr>"

definition get_region :: "aworld \<Rightarrow> u64 \<Rightarrow> region res" where
  "get_region w p = or_fail Bad_Access (aw_regions w p)"

definition get_arena :: "aworld \<Rightarrow> u64 \<Rightarrow> arena res" where
  "get_arena w p = or_fail Bad_Access (aw_arenas w p)"

subsection \<open>Internal functions\<close>

definition free_arena :: "aworld \<Rightarrow> u64 \<Rightarrow> region \<Rightarrow> aworld" where
  "free_arena w arena first =
     w\<lparr>aw_regions := (aw_regions w)(first_region arena := None), aw_arenas := (aw_arenas w)(arena := None),
       aw_freed := aw_freed w @ [(arena, rg_capacity first + ARENA_HEADER_SIZE)]\<rparr>"

definition free_region :: "aworld \<Rightarrow> u64 \<Rightarrow> region \<Rightarrow> aworld" where
  "free_region w p r =
     w\<lparr>aw_regions := (aw_regions w)(p := None), aw_freed := aw_freed w @ [(p, rg_capacity r + REGION_HEADER_SIZE)]\<rparr>"

definition create_region :: "u32 \<Rightarrow> arena_mmap \<Rightarrow> aworld \<Rightarrow> u32 \<Rightarrow> aworld \<times> u64" where
  "create_region ps mm w capacity =
     (let mem_size = align_unsigned_to_page ps (capacity + REGION_HEADER_SIZE);
          p = mm w mem_size
      in (if p \<noteq> 0
          then put_region w p \<lparr>rg_next = 0, rg_tail = 0, rg_capacity = mem_size - REGION_HEADER_SIZE\<rparr> else w, p))"

definition region_alloc :: "aworld \<Rightarrow> u64 \<Rightarrow> u32 \<Rightarrow> u32 \<Rightarrow> (aworld \<times> u64) res" where
  "region_alloc w p nbytes alignment =
     (if \<not> nbytes > 0 then Inl Abort
      else if \<not> (alignment \<le> 16 \<and> is_power_of_two alignment) then Inl Abort
      else bindE (get_region w p) (\<lambda>r.
           let start = align_unsigned (rg_tail r + REGION_HEADER_SIZE) alignment - REGION_HEADER_SIZE
           in if start \<ge> rg_capacity r then Inr (w, 0)
              else (let bytes_available = rg_capacity r - start
                    in if nbytes > bytes_available then Inr (w, 0)
                       else Inr (put_region w p (r\<lparr>rg_tail := start + nbytes\<rparr>), p + 16 + ucast start))))"

definition new_region_alloc :: "u32 \<Rightarrow> arena_mmap \<Rightarrow> aworld \<Rightarrow> u64 \<Rightarrow> u32 \<Rightarrow> u32 \<Rightarrow> (aworld \<times> u64) res" where
  "new_region_alloc ps mm w arena nbytes alignment =
     bindE (get_arena w arena) (\<lambda>a.
     let (w, new_region) = create_region ps mm w
           (if nbytes > ar_new_region_capacity a then nbytes else ar_new_region_capacity a)
     in if new_region = 0 then Inr (w, 0)
        else bindE (get_region w (ar_last a)) (\<lambda>r.
             let w = put_region w (ar_last a) (r\<lparr>rg_next := new_region\<rparr>);
                 w = w\<lparr>aw_arenas := (aw_arenas w)(arena \<mapsto> a\<lparr>ar_last := new_region\<rparr>)\<rparr>
             in region_alloc w new_region nbytes alignment))"

subsection \<open>Public functions\<close>

definition create_arena :: "u32 \<Rightarrow> arena_mmap \<Rightarrow> aworld \<Rightarrow> u32 \<Rightarrow> aworld \<times> u64" where
  "create_arena ps mm w capacity =
     (let mem_size = align_unsigned_to_page ps (capacity + ARENA_HEADER_SIZE);
          arena = mm w mem_size
      in if arena \<noteq> 0
         then (let w = put_region w (first_region arena)
                     \<lparr>rg_next = 0, rg_tail = 0, rg_capacity = mem_size - ARENA_HEADER_SIZE\<rparr>
               in (w\<lparr>aw_arenas := (aw_arenas w)(arena \<mapsto>
                      \<lparr>ar_last = first_region arena, ar_new_region_capacity = capacity\<rparr>)\<rparr>, arena))
         else (w, 0))"

partial_function (option) free_regions :: "aworld \<Rightarrow> u64 \<Rightarrow> aworld res option" where
  "free_regions w p =
     (if p = 0 then Some (Inr w)
      else (case aw_regions w p of
              None \<Rightarrow> Some (Inl Bad_Access)
            | Some r \<Rightarrow> if \<not> rg_tail r \<le> rg_capacity r then Some (Inl Abort)
                        else free_regions (free_region w p r) (rg_next r)))"

declare free_regions.simps [code]

definition delete_arena :: "aworld \<Rightarrow> u64 \<Rightarrow> aworld res option" where
  "delete_arena w arena =
     (case aw_regions w (first_region arena) of
        None \<Rightarrow> Some (Inl Bad_Access)
      | Some first \<Rightarrow>
          map_option (\<lambda>m. bindE m (\<lambda>w.
            if \<not> rg_tail first \<le> rg_capacity first then Inl Abort else Inr (free_arena w arena first)))
          (free_regions w (rg_next first)))"

definition set_region_capacity :: "aworld \<Rightarrow> u64 \<Rightarrow> u32 \<Rightarrow> aworld res" where
  "set_region_capacity w arena capacity =
     bindE (get_arena w arena) (\<lambda>a.
     Inr (w\<lparr>aw_arenas := (aw_arenas w)(arena \<mapsto> a\<lparr>ar_new_region_capacity := capacity\<rparr>)\<rparr>))"

definition arena_alloc :: "u32 \<Rightarrow> arena_mmap \<Rightarrow> aworld \<Rightarrow> u64 \<Rightarrow> u32 \<Rightarrow> u32 \<Rightarrow> (aworld \<times> u64) res" where
  "arena_alloc ps mm w arena nbytes alignment =
     bindE (get_arena w arena) (\<lambda>a.
     bindE (region_alloc w (ar_last a) nbytes alignment) (\<lambda>(w, result).
     if result \<noteq> 0 then Inr (w, result) else new_region_alloc ps mm w arena nbytes alignment))"

partial_function (option) fit_from :: "aworld \<Rightarrow> u64 \<Rightarrow> u32 \<Rightarrow> u32 \<Rightarrow> (aworld \<times> u64) res option" where
  "fit_from w p nbytes alignment =
     (if p = 0 then Some (Inr (w, 0))
      else (case region_alloc w p nbytes alignment of
              Inl e \<Rightarrow> Some (Inl e)
            | Inr (w, result) \<Rightarrow>
                if result \<noteq> 0 then Some (Inr (w, result))
                else (case aw_regions w p of
                        None \<Rightarrow> Some (Inl Bad_Access)
                      | Some r \<Rightarrow> fit_from w (rg_next r) nbytes alignment)))"

declare fit_from.simps [code]

definition arena_fit :: "u32 \<Rightarrow> arena_mmap \<Rightarrow> aworld \<Rightarrow> u64 \<Rightarrow> u32 \<Rightarrow> u32 \<Rightarrow> (aworld \<times> u64) res option" where
  "arena_fit ps mm w arena nbytes alignment =
     map_option (\<lambda>m. bindE m (\<lambda>(w, result).
       if result \<noteq> 0 then Inr (w, result) else new_region_alloc ps mm w arena nbytes alignment))
     (fit_from w (first_region arena) nbytes alignment)"

end
