(* ===== verification/Arena_Properties.thy ===== *)
theory Arena_Properties
  imports Arena
begin

text \<open>
  The invariant of the regions, the list of an arena's regions, and what allocation and deletion do.
  \<open>used w\<close> is the set of addresses that blocks may occupy; a new block lies outside of it, and no
  operation but deletion takes an address out of it, so blocks never overlap.
\<close>

definition span :: "u64 \<Rightarrow> region \<Rightarrow> nat set" where
  "span p r = {unat p ..< unat p + 16 + unat (rg_capacity r)}"

definition region_used :: "u64 \<Rightarrow> region \<Rightarrow> nat set" where
  "region_used p r = {unat p + 16 ..< unat p + 16 + unat (rg_tail r)}"

definition used_bytes :: "aworld \<Rightarrow> nat set" where
  "used_bytes w = {x. \<exists>p r. aw_regions w p = Some r \<and> x \<in> region_used p r}"

definition region_ok :: "u64 \<Rightarrow> region \<Rightarrow> bool" where
  "region_ok p r \<longleftrightarrow> rg_tail r \<le> rg_capacity r \<and> unat (rg_capacity r) + 32 \<le> 2 ^ 32 \<and>
     unat p + 16 + unat (rg_capacity r) \<le> 2 ^ 64 \<and> 16 dvd unat p \<and> p \<noteq> 0"

definition world_ok :: "aworld \<Rightarrow> bool" where
  "world_ok w \<longleftrightarrow> (\<forall>p r. aw_regions w p = Some r \<longrightarrow> region_ok p r) \<and>
     (\<forall>p q r s. aw_regions w p = Some r \<and> aw_regions w q = Some s \<and> p \<noteq> q \<longrightarrow> span p r \<inter> span q s = {})"

text \<open>What the code relies on: \<open>mmap\<close> rejects the length 0 and delivers pages where no region lies.\<close>

definition arena_mmap_ok :: "u32 \<Rightarrow> arena_mmap \<Rightarrow> aworld \<Rightarrow> bool" where
  "arena_mmap_ok ps mm w \<longleftrightarrow> (\<forall>n. mm w n \<noteq> 0 \<longrightarrow> n \<noteq> 0 \<and> unat ps dvd unat (mm w n) \<and>
     unat (mm w n) + unat n \<le> 2 ^ 64 \<and>
     (\<forall>p r. aw_regions w p = Some r \<longrightarrow> {unat (mm w n) ..< unat (mm w n) + unat n} \<inter> span p r = {}))"

definition arena_page_size :: "u32 \<Rightarrow> bool" where
  "arena_page_size ps \<longleftrightarrow> is_power_of_two ps \<and> 64 \<le> unat ps"

lemma world_okD: "world_ok w \<Longrightarrow> aw_regions w p = Some r \<Longrightarrow> region_ok p r"
  by (simp add: world_ok_def)

lemma world_disjoint:
  "world_ok w \<Longrightarrow> aw_regions w p = Some r \<Longrightarrow> aw_regions w q = Some s \<Longrightarrow> p \<noteq> q \<Longrightarrow> span p r \<inter> span q s = {}"
  unfolding world_ok_def by blast

lemma put_region_simps [simp]:
  "aw_regions (put_region w p r) = (aw_regions w)(p \<mapsto> r)" "aw_arenas (put_region w p r) = aw_arenas w"
  "aw_freed (put_region w p r) = aw_freed w"
  by (simp_all add: put_region_def)

lemma region_used_span: "region_ok p r \<Longrightarrow> region_used p r \<subseteq> span p r"
  by (auto simp: region_used_def span_def region_ok_def word_le_nat_alt)

lemma region_used_bytes: "aw_regions w p = Some r \<Longrightarrow> region_used p r \<subseteq> used_bytes w"
  unfolding used_bytes_def by blast

text \<open>A region changes its tail or its link, but not its place.\<close>

lemma world_ok_put:
  assumes "world_ok w" and "aw_regions w p = Some r" and "rg_capacity s = rg_capacity r" and "rg_tail s \<le> rg_capacity r"
  shows "world_ok (put_region w p s)"
proof -
  have "span p s = span p r" by (simp add: span_def assms(3))
  moreover have "region_ok p s" using world_okD [OF assms(1,2)] assms(3,4) by (simp add: region_ok_def)
  ultimately show ?thesis
    using world_okD [OF assms(1)] world_disjoint [OF assms(1)] assms(2)
    unfolding world_ok_def put_region_simps by (auto split: if_splits)
qed

lemma used_bytes_put:
  assumes "aw_regions w p = Some r" and "rg_tail r \<le> rg_tail s"
  shows "used_bytes (put_region w p s) = used_bytes w \<union> region_used p s"
proof -
  have "region_used p r \<subseteq> region_used p s" using assms(2) by (auto simp: region_used_def word_le_nat_alt)
  then show ?thesis using assms(1) unfolding used_bytes_def put_region_simps fun_upd_apply
    by (intro set_eqI) (auto split: if_splits, (metis option.inject subsetD)+)
qed

subsection \<open>Allocation from one region\<close>

text \<open>\<open>placed w w' p n al\<close>: a block of \<open>n\<close> bytes at \<open>p\<close>, aligned to \<open>al\<close>, is new in \<open>w'\<close>.\<close>

definition placed :: "aworld \<Rightarrow> aworld \<Rightarrow> u64 \<Rightarrow> u32 \<Rightarrow> u32 \<Rightarrow> bool" where
  "placed w w' p n al \<longleftrightarrow> p \<noteq> 0 \<and> unat al dvd unat p \<and> unat p + unat n \<le> 2 ^ 64 \<and>
     {unat p ..< unat p + unat n} \<inter> used_bytes w = {} \<and> {unat p ..< unat p + unat n} \<subseteq> used_bytes w' \<and>
     used_bytes w \<subseteq> used_bytes w'"

definition start_of :: "region \<Rightarrow> u32 \<Rightarrow> nat" where
  "start_of r al = (unat (rg_tail r) + unat al - 1) div unat al * unat al"

lemma small_alignmentE:
  assumes "alignment \<le> 16" and "is_power_of_two alignment"
  obtains j where "unat alignment = 2 ^ j" "j \<le> 4"
proof -
  obtain j where j: "unat alignment = 2 ^ j" using assms(2) by (auto simp: is_power_of_two_iff)
  have "(2::nat) ^ j \<le> 2 ^ 4" using assms(1) j by (simp add: word_le_nat_alt)
  then have "j \<le> 4" by (rule power_le_imp_le_exp [rotated]) simp
  with j show thesis by (rule that)
qed

lemma round_up_add:
  assumes "2 ^ k dvd m"
  shows "round_up k (n + m) = round_up k n + m"
proof -
  obtain c where c: "m = 2 ^ k * c" using assms by (elim dvdE)
  have "(1::nat) \<le> 2 ^ k" by simp
  then have "n + m + 2 ^ k - 1 = (n + 2 ^ k - 1) + 2 ^ k * c" using c by linarith
  then have "(n + m + 2 ^ k - 1) div 2 ^ k = (n + 2 ^ k - 1) div 2 ^ k + c" by (simp only: div_mult_self2 [OF power_not_zero [OF zero_neq_numeral [symmetric]]])
  then show ?thesis by (simp add: round_up_def c add_mult_distrib)
qed

lemma start_is:
  assumes "region_ok p r" and "unat alignment = 2 ^ j" and "j \<le> 4"
  shows "unat (align_unsigned (rg_tail r + REGION_HEADER_SIZE) alignment - REGION_HEADER_SIZE) = start_of r alignment"
    and "unat (rg_tail r) \<le> start_of r alignment" and "2 ^ j dvd start_of r alignment"
    and "start_of r alignment < unat (rg_tail r) + 16"
proof -
  have p: "(2::nat) ^ j \<le> 2 ^ 4" using assms(3) by (rule power_increasing) simp
  have b: "unat (rg_tail r) + 32 \<le> 2 ^ 32" using assms(1) by (simp add: region_ok_def word_le_nat_alt)
  have t: "unat (rg_tail r + REGION_HEADER_SIZE) = unat (rg_tail r) + 16"
    using b by (simp add: REGION_HEADER_SIZE_def unat_add_exact)
  have s: "start_of r alignment = round_up j (unat (rg_tail r))" by (simp add: start_of_def round_up_def assms(2))
  have "unat (align_unsigned (rg_tail r + REGION_HEADER_SIZE) alignment) = round_up j (unat (rg_tail r) + 16)"
    using align_unsigned_pow2 [OF assms(2), of "rg_tail r + REGION_HEADER_SIZE"] t b p by simp
  moreover have "(2::nat) ^ j dvd 16" using le_imp_power_dvd [OF assms(3), of "2::nat"] by simp
  ultimately have "unat (align_unsigned (rg_tail r + REGION_HEADER_SIZE) alignment) = start_of r alignment + 16"
    by (simp add: round_up_add s)
  then show "unat (align_unsigned (rg_tail r + REGION_HEADER_SIZE) alignment - REGION_HEADER_SIZE) = start_of r alignment"
    by (simp add: REGION_HEADER_SIZE_def unat_sub_exact)
  show "unat (rg_tail r) \<le> start_of r alignment" "2 ^ j dvd start_of r alignment"
    by (simp_all add: s round_up_ge round_up_dvd)
  show "start_of r alignment < unat (rg_tail r) + 16" using round_up_less [of j "unat (rg_tail r)"] p s by simp
qed

lemma region_alloc_ok:
  assumes "world_ok w" and "aw_regions w p = Some r" and "0 < n" and "al \<le> 16" and "is_power_of_two al"
  shows "if start_of r al + unat n \<le> unat (rg_capacity r)
    then \<exists>t a. region_alloc w p n al = Inr (put_region w p (r\<lparr>rg_tail := t\<rparr>), a) \<and>
      placed w (put_region w p (r\<lparr>rg_tail := t\<rparr>)) a n al \<and> world_ok (put_region w p (r\<lparr>rg_tail := t\<rparr>))
    else region_alloc w p n al = Inr (w, 0)"
proof -
  obtain j where j: "unat al = 2 ^ j" "j \<le> 4" using small_alignmentE [OF assms(4,5)] .
  have ok: "region_ok p r" by (rule world_okD [OF assms(1,2)])
  define s where "s = align_unsigned (rg_tail r + REGION_HEADER_SIZE) al - REGION_HEADER_SIZE"
  note st = start_is [OF ok j, folded s_def]
  have n: "0 < unat n" using assms(3) by (simp add: word_less_nat_alt)
  have R: "region_alloc w p n al =
      (if start_of r al + unat n \<le> unat (rg_capacity r)
       then Inr (put_region w p (r\<lparr>rg_tail := s + n\<rparr>), p + 16 + ucast s) else Inr (w, 0))"
  proof (cases "s < rg_capacity r")
    case False
    then have "rg_capacity r \<le> s" "\<not> start_of r al + unat n \<le> unat (rg_capacity r)"
      using n st(1) by (simp_all add: word_le_nat_alt word_less_nat_alt)
    then show ?thesis using assms(2-5)
      by (simp add: region_alloc_def get_region_def Let_def s_def [symmetric])
  next
    case True
    then have "unat (rg_capacity r - s) = unat (rg_capacity r) - unat s" by (simp add: unat_sub_exact word_less_nat_alt)
    then have "n > rg_capacity r - s \<longleftrightarrow> \<not> start_of r al + unat n \<le> unat (rg_capacity r)"
      using st(1) True by (auto simp: word_less_nat_alt)
    moreover have "\<not> rg_capacity r \<le> s" using True by simp
    ultimately show ?thesis using assms(2-5)
      by (simp add: region_alloc_def get_region_def Let_def s_def [symmetric])
  qed
  show ?thesis
  proof (cases "start_of r al + unat n \<le> unat (rg_capacity r)")
    case True
    have t: "unat (s + n) = start_of r al + unat n"
      using True st(1) unat_u32_bound [of "rg_capacity r"] by (subst unat_add_exact) simp_all
    have b: "unat p + 16 + unat (rg_capacity r) \<le> 2 ^ 64" "16 dvd unat p" using ok by (simp_all add: region_ok_def)
    have "unat (p + 16) = unat p + 16" using b n True by (subst unat_add_exact) simp_all
    then have a: "unat (p + 16 + ucast s) = unat p + 16 + start_of r al"
      using b n True st(1) by (subst unat_add_exact) simp_all
    let ?w = "put_region w p (r\<lparr>rg_tail := s + n\<rparr>)" and ?a = "p + 16 + ucast s"
    have ok': "world_ok ?w" by (rule world_ok_put [OF assms(1,2)]) (simp_all add: t True word_le_nat_alt)
    have u: "used_bytes ?w = used_bytes w \<union> region_used p (r\<lparr>rg_tail := s + n\<rparr>)"
      by (rule used_bytes_put [OF assms(2)]) (use st(2) in \<open>simp add: t word_le_nat_alt\<close>)
    have blk: "{unat ?a ..< unat ?a + unat n} \<subseteq> span p r"
      using True by (auto simp: a span_def)
    have "x \<notin> region_used q s'" if "x \<in> {unat ?a ..< unat ?a + unat n}" "aw_regions w q = Some s'" for x q s'
    proof (cases "q = p")
      case True
      then show ?thesis using that assms(2) st(2) by (auto simp: a region_used_def)
    next
      case False
      then have "span p r \<inter> span q s' = {}" using world_disjoint [OF assms(1,2) that(2)] by blast
      moreover have "region_used q s' \<subseteq> span q s'" by (rule region_used_span [OF world_okD [OF assms(1) that(2)]])
      ultimately show ?thesis using blk that(1) by blast
    qed
    then have "{unat ?a ..< unat ?a + unat n} \<inter> used_bytes w = {}" by (auto simp: used_bytes_def)
    moreover have "{unat ?a ..< unat ?a + unat n} \<subseteq> region_used p (r\<lparr>rg_tail := s + n\<rparr>)"
      by (auto simp: a t region_used_def)
    moreover have "unat al dvd unat ?a"
    proof -
      have "(2::nat) ^ j dvd 16" using le_imp_power_dvd [OF j(2), of "2::nat"] by simp
      then have "2 ^ j dvd unat p + 16" using b(2) by (intro dvd_add) (auto intro: dvd_trans)
      then show ?thesis unfolding a j(1) using st(3) by (rule dvd_add)
    qed
    moreover have "?a \<noteq> 0" using a by auto
    ultimately have "placed w ?w ?a n al" using b True by (auto simp: placed_def u a)
    then show ?thesis using True ok' by (auto simp: R)
  qed (simp add: R)
qed

subsection \<open>The list of an arena\<close>

fun chain :: "(u64 \<Rightarrow> region option) \<Rightarrow> u64 \<Rightarrow> u64 list \<Rightarrow> bool" where
  "chain R p [] \<longleftrightarrow> p = 0"
| "chain R p (q # qs) \<longleftrightarrow> p = q \<and> p \<noteq> 0 \<and> (\<exists>r. R p = Some r \<and> chain R (rg_next r) qs)"

lemma chain_put:
  assumes "chain R p qs" and "R q = Some r" and "rg_next s = rg_next r"
  shows "chain (R(q \<mapsto> s)) p qs"
  using assms(1)
proof (induction qs arbitrary: p)
  case Nil
  then show ?case by simp
next
  case (Cons x xs)
  then obtain t where t: "p = x" "p \<noteq> 0" "R p = Some t" "chain R (rg_next t) xs" by auto
  then show ?case using Cons.IH [OF t(4)] assms(2,3) by (cases "p = q") auto
qed

lemma chain_other: "chain R p qs \<Longrightarrow> q \<notin> set qs \<Longrightarrow> chain (R(q := x)) p qs"
  by (induction qs arbitrary: p) auto

lemma chain_snoc:
  assumes "chain R p (qs @ [q])" and "distinct (qs @ [q])" and "new \<notin> set (qs @ [q])" and "new \<noteq> 0"
    and "R q = Some r" and "rg_next r' = new" and "rg_next s = 0"
  shows "chain (R(new \<mapsto> s, q \<mapsto> r')) p (qs @ [q, new])"
  using assms(1-3)
proof (induction qs arbitrary: p)
  case Nil
  then show ?case using assms(4-7) by auto
next
  case (Cons x xs)
  then obtain t where t: "p = x" "p \<noteq> 0" "R p = Some t" "chain R (rg_next t) (xs @ [q])" by auto
  from Cons.IH [OF t(4)] Cons.prems(2,3) show ?case using t(1-3) by auto
qed

lemma chain_in: "chain R p qs \<Longrightarrow> q \<in> set qs \<Longrightarrow> \<exists>r. R q = Some r"
  by (induction qs arbitrary: p) auto

definition arena_list :: "aworld \<Rightarrow> u64 \<Rightarrow> u64 list \<Rightarrow> bool" where
  "arena_list w A qs \<longleftrightarrow> chain (aw_regions w) (first_region A) qs \<and> distinct qs \<and> qs \<noteq> [] \<and>
     (\<exists>a. aw_arenas w A = Some a \<and> ar_last a = last qs)"

definition arena_ok :: "aworld \<Rightarrow> u64 \<Rightarrow> u64 list \<Rightarrow> bool" where
  "arena_ok w A qs \<longleftrightarrow> world_ok w \<and> arena_list w A qs"

lemma arena_list_put:
  assumes "arena_list w A qs" and "aw_regions w p = Some r"
  shows "arena_list (put_region w p (r\<lparr>rg_tail := t\<rparr>)) A qs"
  using assms chain_put [where R = "aw_regions w" and q = p and r = r and s = "r\<lparr>rg_tail := t\<rparr>"]
  by (simp add: arena_list_def)

text \<open>A region in fresh pages: at their start, or 16 bytes behind it in the pages of an arena.\<close>

lemma fresh_region:
  assumes "world_ok w" and "arena_page_size ps" and "arena_mmap_ok ps mm w"
    and "n = align_unsigned_to_page ps x" and "mm w n \<noteq> 0" and "d = 0 \<or> d = 16"
    and "p = mm w n + ucast d" and "s = \<lparr>rg_next = 0, rg_tail = 0, rg_capacity = n - (16 + d)\<rparr>"
  shows "world_ok (put_region w p s)" and "aw_regions w p = None" and "used_bytes (put_region w p s) = used_bytes w"
    and "unat (rg_capacity s) + 16 + unat d = unat n"
proof -
  let ?a = "unat (mm w n)"
  have m: "n \<noteq> 0" "unat ps dvd ?a" "?a + unat n \<le> 2 ^ 64"
    "\<And>q r. aw_regions w q = Some r \<Longrightarrow> {?a ..< ?a + unat n} \<inter> span q r = {}"
    using assms(3,5) unfolding arena_mmap_ok_def by blast+
  obtain k where k: "unat ps = 2 ^ k" using assms(2) by (auto simp: arena_page_size_def is_power_of_two_iff)
  have k6: "6 \<le> k"
  proof -
    have "(2::nat) ^ 6 \<le> 2 ^ k" using assms(2) k by (simp add: arena_page_size_def)
    then show ?thesis by (rule power_le_imp_le_exp [rotated]) simp
  qed
  have k32: "k < 32" using pow2_le_exp [OF k] by simp
  have dvdn: "2 ^ k dvd unat n"
    using align_unsigned_dvd [of k ps x] k assms(2,4) by (simp add: align_unsigned_to_page_def arena_page_size_def)
  then have n: "2 ^ k \<le> unat n" using m(1) by (intro dvd_imp_le) (simp_all add: unat_gt_0)
  have "(2::nat) ^ k dvd 2 ^ 32" using k32 by (intro le_imp_power_dvd) simp
  then have "2 ^ k dvd 2 ^ 32 - unat n" using dvdn by (rule dvd_diff_nat)
  then have n32: "unat n + 2 ^ k \<le> 2 ^ 32" using unat_u32_bound [of n] by (auto dest!: dvd_imp_le)
  have k64: "(64::nat) \<le> 2 ^ k" using power_increasing [OF k6, of "2::nat"] by simp
  have "unat (16 + d) = 16 + unat d" using assms(6) by auto
  then show cap: "unat (rg_capacity s) + 16 + unat d = unat n"
    using n k64 assms(6) by (auto simp: assms(8) unat_sub_exact)
  have p: "unat p = ?a + unat d"
    using m(3) n k64 assms(6) unfolding assms(7) by (subst unat_add_exact) auto
  have "16 dvd ?a" using m(2) k le_imp_power_dvd [of 4 k "2::nat"] k6 by (auto intro: dvd_trans)
  then have ok: "region_ok p s" using cap n32 m(3) k64 assms(5,6) p
    by (auto simp: region_ok_def assms(8) unat_eq_0 [symmetric])
  have sp: "span p s \<subseteq> {?a ..< ?a + unat n}" using cap p by (auto simp: span_def)
  then have dis: "span p s \<inter> span q r = {}" if "aw_regions w q = Some r" for q r using m(4) [OF that] by blast
  have "p \<noteq> q" if "aw_regions w q = Some r" for q r
  proof
    assume "p = q"
    then have "unat p \<in> span q r \<inter> span p s" by (auto simp: span_def)
    then show False using dis [OF that] by auto
  qed
  then show none: "aw_regions w p = None" by (cases "aw_regions w p") auto
  show "world_ok (put_region w p s)"
    using ok dis world_okD [OF assms(1)] world_disjoint [OF assms(1)] none
    unfolding world_ok_def put_region_simps by (auto split: if_splits)
  show "used_bytes (put_region w p s) = used_bytes w"
    using none by (auto simp: used_bytes_def region_used_def assms(8) split: if_splits)
qed

lemma new_region_ok:
  assumes "world_ok w" and "arena_page_size ps" and "arena_mmap_ok ps mm w"
    and "create_region ps mm w c = (w', p)" and "p \<noteq> 0"
  shows "world_ok w'" and "aw_regions w p = None" and "used_bytes w' = used_bytes w"
    and "\<exists>s. w' = put_region w p s \<and> rg_next s = 0 \<and> rg_tail s = 0 \<and>
      (unat c + 16 + unat ps \<le> 2 ^ 32 \<longrightarrow> unat c \<le> unat (rg_capacity s))"
proof -
  define n where "n = align_unsigned_to_page ps (c + REGION_HEADER_SIZE)"
  define s where "s = \<lparr>rg_next = 0, rg_tail = 0, rg_capacity = n - REGION_HEADER_SIZE\<rparr>"
  have p: "mm w n = p" "w' = put_region w p s"
    using assms(4,5) by (auto simp: create_region_def Let_def n_def s_def split: if_splits)
  have F: "world_ok (put_region w p s)" "aw_regions w p = None" "used_bytes (put_region w p s) = used_bytes w"
    "unat (rg_capacity s) + 16 + unat (0 :: u32) = unat n"
    by (rule fresh_region [OF assms(1-3) n_def, of 0]; simp add: p assms(5) s_def REGION_HEADER_SIZE_def)+
  then show "world_ok w'" "aw_regions w p = None" "used_bytes w' = used_bytes w" by (simp_all add: p(2))
  have "unat c \<le> unat (rg_capacity s)" if "unat c + 16 + unat ps \<le> 2 ^ 32"
  proof -
    have ps: "64 \<le> unat ps" using assms(2) by (simp add: arena_page_size_def)
    then have "unat (c + REGION_HEADER_SIZE) = unat c + 16"
      using that by (simp add: REGION_HEADER_SIZE_def unat_add_exact)
    then have "unat c + 16 \<le> unat n"
      using align_unsigned_bounds(1) [of "c + REGION_HEADER_SIZE" ps] that ps
      by (simp add: n_def align_unsigned_to_page_def)
    then show ?thesis using F(4) by simp
  qed
  then show "\<exists>s. w' = put_region w p s \<and> rg_next s = 0 \<and> rg_tail s = 0 \<and>
      (unat c + 16 + unat ps \<le> 2 ^ 32 \<longrightarrow> unat c \<le> unat (rg_capacity s))"
    by (intro exI [of _ s]) (simp add: p(2), simp add: s_def)
qed

text \<open>A new region goes to the end of the list, and what is asked for is taken from it.\<close>

definition big_enough :: "u32 \<Rightarrow> u32 \<Rightarrow> arena \<Rightarrow> bool" where
  "big_enough ps n a \<longleftrightarrow>
     unat n + 16 + unat ps \<le> 2 ^ 32 \<and> unat (ar_new_region_capacity a) + 16 + unat ps \<le> 2 ^ 32"

lemma start_of_empty: "rg_tail r = 0 \<Longrightarrow> 0 < al \<Longrightarrow> start_of r al = 0"
  by (simp add: start_of_def word_less_nat_alt)

definition region_request :: "u32 \<Rightarrow> arena \<Rightarrow> u32" where
  "region_request n a = (if n > ar_new_region_capacity a then n else ar_new_region_capacity a)"

definition kernel_request :: "u32 \<Rightarrow> u32 \<Rightarrow> arena \<Rightarrow> u32" where
  "kernel_request ps n a = align_unsigned_to_page ps (region_request n a + REGION_HEADER_SIZE)"

text \<open>What an allocation leaves: a list of the arena, and a new block or none.\<close>

definition arena_result :: "aworld \<Rightarrow> u64 \<Rightarrow> u64 list \<Rightarrow> u32 \<Rightarrow> u32 \<Rightarrow> aworld \<Rightarrow> u64 \<Rightarrow> bool" where
  "arena_result w A qs n al w' p \<longleftrightarrow>
     (\<exists>qs'. arena_ok w' A (qs @ qs') \<and> length qs' \<le> 1) \<and>
     (if p = 0 then used_bytes w' = used_bytes w else placed w w' p n al)"

lemma new_region_alloc_ok:
  assumes "arena_ok w A qs" and "arena_page_size ps" and "arena_mmap_ok ps mm w"
    and "0 < n" and "al \<le> 16" and "is_power_of_two al" and "aw_arenas w A = Some a"
  shows "\<exists>w' p. new_region_alloc ps mm w A n al = Inr (w', p) \<and> arena_result w A qs n al w' p \<and>
    (p = 0 \<and> big_enough ps n a \<longrightarrow> mm w (kernel_request ps n a) = 0)"
proof -
  have W: "world_ok w" and L: "arena_list w A qs" using assms(1) by (simp_all add: arena_ok_def)
  then obtain ps' q where qs: "qs = ps' @ [q]" "chain (aw_regions w) (first_region A) (ps' @ [q])"
    "distinct (ps' @ [q])" "ar_last a = q"
    using assms(7) by (cases qs rule: rev_cases) (auto simp: arena_list_def)
  obtain r where r: "aw_regions w q = Some r" using chain_in [OF qs(2)] by auto
  obtain w1 p1 where c: "create_region ps mm w (region_request n a) = (w1, p1)" by fastforce
  have p1: "p1 = mm w (kernel_request ps n a)"
    using c by (auto simp: create_region_def kernel_request_def Let_def)
  have E: "new_region_alloc ps mm w A n al =
      (if p1 = 0 then Inr (w1, 0)
       else bindE (get_region w1 q) (\<lambda>r. region_alloc (put_region w1 q (r\<lparr>rg_next := p1\<rparr>)
         \<lparr>aw_arenas := (aw_arenas w1)(A \<mapsto> a\<lparr>ar_last := p1\<rparr>)\<rparr>) p1 n al))"
    using c qs(4) assms(7) by (simp add: new_region_alloc_def get_arena_def region_request_def Let_def)
  show ?thesis
  proof (cases "p1 = 0")
    case True
    then have "w1 = w" using c by (auto simp: create_region_def Let_def split: if_splits)
    then show ?thesis using True p1 assms(1) by (auto simp: E arena_result_def intro!: exI [of _ "[]"])
  next
    case False
    note N = new_region_ok [OF W assms(2,3) c False]
    from N(4) obtain s where s: "w1 = put_region w p1 s" "rg_next s = 0" "rg_tail s = 0"
      "unat (region_request n a) + 16 + unat ps \<le> 2 ^ 32 \<longrightarrow> unat (region_request n a) \<le> unat (rg_capacity s)"
      by blast
    have ne: "p1 \<noteq> q" "p1 \<notin> set (ps' @ [q])" using N(2) r chain_in [OF qs(2), of p1] by auto
    have r1: "aw_regions w1 q = Some r" using ne(1) r by (simp add: s(1))
    let ?r = "r\<lparr>rg_next := p1\<rparr>"
    let ?w2 = "put_region w1 q ?r" let ?w3 = "?w2\<lparr>aw_arenas := (aw_arenas w1)(A \<mapsto> a\<lparr>ar_last := p1\<rparr>)\<rparr>"
    have tr: "rg_tail r \<le> rg_capacity r" using world_okD [OF W r] by (simp add: region_ok_def)
    then have "world_ok ?w2" by (intro world_ok_put [OF N(1) r1]) simp_all
    then have W3: "world_ok ?w3" by (simp add: world_ok_def)
    have "used_bytes ?w2 = used_bytes w1 \<union> region_used q ?r" by (rule used_bytes_put [OF r1]) simp
    moreover have "region_used q ?r \<subseteq> used_bytes w1"
      using region_used_bytes [of w1 q r] r1 by (simp add: region_used_def)
    ultimately have U3: "used_bytes ?w3 = used_bytes w" using N(3) by (auto simp: used_bytes_def)
    have "chain ((aw_regions w)(p1 \<mapsto> s, q \<mapsto> ?r)) (first_region A) (ps' @ [q, p1])"
      by (rule chain_snoc [OF qs(2,3) ne(2) False r]) (simp_all add: s(2))
    then have L3: "arena_list ?w3 A (qs @ [p1])" using ne qs(1,3) by (simp add: arena_list_def s(1))
    have g: "aw_regions ?w3 p1 = Some s" using ne(1) by (simp add: s(1))
    have E3: "new_region_alloc ps mm w A n al = region_alloc ?w3 p1 n al"
      using False r1 by (simp add: E get_region_def)
    have al: "0 < al" using assms(6) by (auto simp: is_power_of_two_def word_gt_0)
    from region_alloc_ok [OF W3 g assms(4-6)] have R: "if unat n \<le> unat (rg_capacity s)
      then \<exists>t b. region_alloc ?w3 p1 n al = Inr (put_region ?w3 p1 (s\<lparr>rg_tail := t\<rparr>), b) \<and>
        placed ?w3 (put_region ?w3 p1 (s\<lparr>rg_tail := t\<rparr>)) b n al \<and> world_ok (put_region ?w3 p1 (s\<lparr>rg_tail := t\<rparr>))
      else region_alloc ?w3 p1 n al = Inr (?w3, 0)"
      by (simp add: start_of_empty [of s al] s(3) al)
    show ?thesis
    proof (cases "unat n \<le> unat (rg_capacity s)")
      case True
      with R obtain t b where b: "region_alloc ?w3 p1 n al = Inr (put_region ?w3 p1 (s\<lparr>rg_tail := t\<rparr>), b)"
        "placed ?w3 (put_region ?w3 p1 (s\<lparr>rg_tail := t\<rparr>)) b n al" "world_ok (put_region ?w3 p1 (s\<lparr>rg_tail := t\<rparr>))"
        by auto
      have "arena_list (put_region ?w3 p1 (s\<lparr>rg_tail := t\<rparr>)) A (qs @ [p1])" by (rule arena_list_put [OF L3 g])
      then have "arena_ok (put_region ?w3 p1 (s\<lparr>rg_tail := t\<rparr>)) A (qs @ [p1])" using b(3) by (simp add: arena_ok_def)
      moreover have "placed w (put_region ?w3 p1 (s\<lparr>rg_tail := t\<rparr>)) b n al" using b(2) U3 by (simp add: placed_def)
      ultimately show ?thesis unfolding E3 b(1)
        by (intro exI conjI) (auto simp: arena_result_def placed_def intro!: exI [of _ "[p1]"])
    next
      case F: False
      have "\<not> big_enough ps n a"
        using F s(4) by (auto simp: big_enough_def region_request_def word_less_nat_alt split: if_splits)
      then show ?thesis using F R W3 L3 U3 unfolding E3
        by (auto simp: arena_result_def arena_ok_def intro!: exI [of _ "[p1]"])
    qed
  qed
qed

subsection \<open>Allocation from an arena\<close>

lemma arena_alloc_ok:
  assumes "arena_ok w A qs" and "arena_page_size ps" and "arena_mmap_ok ps mm w"
    and "0 < n" and "al \<le> 16" and "is_power_of_two al" and "aw_arenas w A = Some a"
  shows "\<exists>w' p. arena_alloc ps mm w A n al = Inr (w', p) \<and> arena_result w A qs n al w' p \<and>
    (p = 0 \<and> big_enough ps n a \<longrightarrow> mm w (kernel_request ps n a) = 0)"
proof -
  have W: "world_ok w" and L: "arena_list w A qs" using assms(1) by (simp_all add: arena_ok_def)
  then have l: "ar_last a \<in> set qs" "chain (aw_regions w) (first_region A) qs"
    using assms(7) by (auto simp: arena_list_def)
  obtain r where r: "aw_regions w (ar_last a) = Some r" using chain_in [OF l(2,1)] by blast
  note R = region_alloc_ok [OF W r assms(4-6)]
  show ?thesis
  proof (cases "start_of r al + unat n \<le> unat (rg_capacity r)")
    case True
    with R obtain t b where b: "region_alloc w (ar_last a) n al = Inr (put_region w (ar_last a) (r\<lparr>rg_tail := t\<rparr>), b)"
      "placed w (put_region w (ar_last a) (r\<lparr>rg_tail := t\<rparr>)) b n al" "world_ok (put_region w (ar_last a) (r\<lparr>rg_tail := t\<rparr>))"
      by auto
    then have nz: "b \<noteq> 0" by (simp add: placed_def)
    have "arena_ok (put_region w (ar_last a) (r\<lparr>rg_tail := t\<rparr>)) A qs"
      using b(3) arena_list_put [OF L r] by (simp add: arena_ok_def)
    then show ?thesis using assms(7) b nz
      by (auto simp: arena_alloc_def get_arena_def arena_result_def intro!: exI [of _ "[]"])
  next
    case False
    with R have "arena_alloc ps mm w A n al = new_region_alloc ps mm w A n al"
      using assms(7) by (simp add: arena_alloc_def get_arena_def)
    then show ?thesis using new_region_alloc_ok [OF assms] by simp
  qed
qed

definition has_space :: "aworld \<Rightarrow> u32 \<Rightarrow> u32 \<Rightarrow> u64 \<Rightarrow> bool" where
  "has_space w n al q \<longleftrightarrow>
     (case aw_regions w q of None \<Rightarrow> False | Some r \<Rightarrow> start_of r al + unat n \<le> unat (rg_capacity r))"

lemma fit_from_ok:
  assumes "world_ok w" and "chain (aw_regions w) p qs" and "0 < n" and "al \<le> 16" and "is_power_of_two al"
  shows "if \<exists>q\<in>set qs. has_space w n al q
    then \<exists>q r t b. aw_regions w q = Some r \<and>
      fit_from w p n al = Some (Inr (put_region w q (r\<lparr>rg_tail := t\<rparr>), b)) \<and>
      placed w (put_region w q (r\<lparr>rg_tail := t\<rparr>)) b n al \<and> world_ok (put_region w q (r\<lparr>rg_tail := t\<rparr>))
    else fit_from w p n al = Some (Inr (w, 0))"
  using assms(2)
proof (induction qs arbitrary: p)
  case Nil
  then show ?case by (simp add: fit_from.simps)
next
  case (Cons q qs)
  then obtain r where r: "p = q" "p \<noteq> 0" "aw_regions w p = Some r" "chain (aw_regions w) (rg_next r) qs" by auto
  note R = region_alloc_ok [OF assms(1) r(3) assms(3-5)] and IH = Cons.IH [OF r(4)]
  show ?case
  proof (cases "start_of r al + unat n \<le> unat (rg_capacity r)")
    case True
    with R obtain t b where b: "region_alloc w p n al = Inr (put_region w p (r\<lparr>rg_tail := t\<rparr>), b)"
      "placed w (put_region w p (r\<lparr>rg_tail := t\<rparr>)) b n al" "world_ok (put_region w p (r\<lparr>rg_tail := t\<rparr>))"
      by auto
    then have "fit_from w p n al = Some (Inr (put_region w p (r\<lparr>rg_tail := t\<rparr>), b))"
      using r(2) by (subst fit_from.simps) (simp add: placed_def)
    moreover have "has_space w n al q" using True r by (simp add: has_space_def)
    ultimately show ?thesis using b r(3) by auto
  next
    case False
    with R r(2,3) have "fit_from w p n al = fit_from w (rg_next r) n al"
      by (subst fit_from.simps) simp
    moreover have "\<not> has_space w n al q" using False r by (simp add: has_space_def)
    ultimately show ?thesis using IH by (cases "\<exists>q\<in>set qs. has_space w n al q") auto
  qed
qed

lemma arena_fit_ok:
  assumes "arena_ok w A qs" and "arena_page_size ps" and "arena_mmap_ok ps mm w"
    and "0 < n" and "al \<le> 16" and "is_power_of_two al" and "aw_arenas w A = Some a"
  shows "\<exists>w' p. arena_fit ps mm w A n al = Some (Inr (w', p)) \<and> arena_result w A qs n al w' p \<and>
    (if \<exists>q\<in>set qs. has_space w n al q then p \<noteq> 0 \<and> arena_ok w' A qs
     else p = 0 \<and> big_enough ps n a \<longrightarrow> mm w (kernel_request ps n a) = 0)"
proof -
  have W: "world_ok w" and L: "arena_list w A qs" using assms(1) by (simp_all add: arena_ok_def)
  then have "chain (aw_regions w) (first_region A) qs" by (simp add: arena_list_def)
  note F = fit_from_ok [OF W this assms(4-6)]
  show ?thesis
  proof (cases "\<exists>q\<in>set qs. has_space w n al q")
    case True
    with F obtain q r t b where b: "aw_regions w q = Some r"
      "fit_from w (first_region A) n al = Some (Inr (put_region w q (r\<lparr>rg_tail := t\<rparr>), b))"
      "placed w (put_region w q (r\<lparr>rg_tail := t\<rparr>)) b n al" "world_ok (put_region w q (r\<lparr>rg_tail := t\<rparr>))" by auto
    then have "arena_ok (put_region w q (r\<lparr>rg_tail := t\<rparr>)) A qs"
      using arena_list_put [OF L b(1)] by (simp add: arena_ok_def)
    moreover have "b \<noteq> 0" using b(3) by (simp add: placed_def)
    ultimately show ?thesis using True b(2,3)
      by (auto simp: arena_fit_def arena_result_def intro!: exI [of _ "[]"])
  next
    case False
    with F have "arena_fit ps mm w A n al = Some (new_region_alloc ps mm w A n al)" by (simp add: arena_fit_def)
    then show ?thesis using new_region_alloc_ok [OF assms] False by auto
  qed
qed

subsection \<open>Deletion\<close>

definition region_range :: "aworld \<Rightarrow> u64 \<Rightarrow> u64 \<times> u32" where
  "region_range w q = (q, rg_capacity (the (aw_regions w q)) + REGION_HEADER_SIZE)"

definition without_regions :: "aworld \<Rightarrow> u64 list \<Rightarrow> aworld" where
  "without_regions w qs =
     w\<lparr>aw_regions := aw_regions w |` (- set qs), aw_freed := aw_freed w @ map (region_range w) qs\<rparr>"

lemma free_regions_ok:
  assumes "chain (aw_regions w) p qs" and "distinct qs" and "world_ok w"
  shows "free_regions w p = Some (Inr (without_regions w qs))"
  using assms
proof (induction qs arbitrary: w p)
  case Nil
  then show ?case by (simp add: free_regions.simps without_regions_def restrict_map_def)
next
  case (Cons q qs)
  then obtain r where r: "p = q" "p \<noteq> 0" "aw_regions w p = Some r" "chain (aw_regions w) (rg_next r) qs" by auto
  let ?w = "free_region w p r"
  have q: "q \<notin> set qs" "distinct qs" using Cons.prems(2) by auto
  have "rg_tail r \<le> rg_capacity r" using world_okD [OF Cons.prems(3) r(3)] by (simp add: region_ok_def)
  then have "free_regions w p = free_regions ?w (rg_next r)"
    using r(2,3) by (subst free_regions.simps) simp
  also have "\<dots> = Some (Inr (without_regions ?w qs))"
  proof (rule Cons.IH)
    show "chain (aw_regions ?w) (rg_next r) qs" using chain_other [OF r(4)] q(1) r(1) by (simp add: free_region_def)
    show "world_ok ?w"
      using world_okD [OF Cons.prems(3)] world_disjoint [OF Cons.prems(3)]
      unfolding world_ok_def by (simp add: free_region_def)
  qed (rule q(2))
  also have "without_regions ?w qs = without_regions w (q # qs)"
  proof -
    have "map (region_range ?w) qs = map (region_range w) qs"
      using q(1) r(1) by (intro map_cong refl) (auto simp: region_range_def free_region_def)
    then show ?thesis using r(1,3)
      by (auto simp: without_regions_def free_region_def region_range_def restrict_map_def fun_eq_iff)
  qed
  finally show ?case .
qed

lemma delete_arena_ok:
  assumes "arena_ok w A qs" and "aw_regions w (first_region A) = Some r"
  shows "\<exists>w'. delete_arena w A = Some (Inr w') \<and> aw_regions w' = aw_regions w |` (- set qs) \<and>
    aw_arenas w' = (aw_arenas w)(A := None) \<and>
    aw_freed w' = aw_freed w @ map (region_range w) (tl qs) @ [(A, rg_capacity r + ARENA_HEADER_SIZE)]"
proof -
  have W: "world_ok w" and L: "chain (aw_regions w) (first_region A) qs" "distinct qs" "qs \<noteq> []"
    using assms(1) by (auto simp: arena_ok_def arena_list_def)
  then obtain qs' where qs: "qs = first_region A # qs'" "chain (aw_regions w) (rg_next r) qs'"
    "first_region A \<notin> set qs'" "distinct qs'"
    using assms(2) by (cases qs) auto
  have t: "rg_tail r \<le> rg_capacity r" using world_okD [OF W assms(2)] by (simp add: region_ok_def)
  note F = free_regions_ok [OF qs(2,4) W]
  have "delete_arena w A = Some (Inr (free_arena (without_regions w qs') A r))"
    using assms(2) F t by (simp add: delete_arena_def)
  then show ?thesis
    by (auto simp: free_arena_def without_regions_def qs(1) restrict_map_def fun_eq_iff)
qed

lemma create_arena_ok:
  assumes "world_ok w" and "arena_page_size ps" and "arena_mmap_ok ps mm w" and "create_arena ps mm w c = (w', A)"
    and "A \<noteq> 0"
  shows "arena_ok w' A [first_region A]" and "used_bytes w' = used_bytes w"
    and "\<exists>a. aw_arenas w' A = Some a \<and> ar_new_region_capacity a = c"
proof -
  define n where "n = align_unsigned_to_page ps (c + ARENA_HEADER_SIZE)"
  define s where "s = \<lparr>rg_next = 0, rg_tail = 0, rg_capacity = n - ARENA_HEADER_SIZE\<rparr>"
  have p: "mm w n = A" "w' = put_region w (first_region A) s\<lparr>aw_arenas := (aw_arenas w)(A \<mapsto>
      \<lparr>ar_last = first_region A, ar_new_region_capacity = c\<rparr>)\<rparr>"
    using assms(4,5) by (auto simp: create_arena_def Let_def n_def s_def split: if_splits)
  have F: "world_ok (put_region w (first_region A) s)"
    "used_bytes (put_region w (first_region A) s) = used_bytes w"
    by (rule fresh_region [OF assms(1-3) n_def, of 16];
        simp add: p(1) assms(5) s_def ARENA_HEADER_SIZE_def first_region_def)+
  have "region_ok (first_region A) s" using world_okD [OF F(1), of "first_region A" s] by simp
  then have "first_region A \<noteq> 0" by (simp add: region_ok_def)
  then show "arena_ok w' A [first_region A]" "used_bytes w' = used_bytes w"
    "\<exists>a. aw_arenas w' A = Some a \<and> ar_new_region_capacity a = c"
    using F by (simp_all add: p(2) arena_ok_def arena_list_def world_ok_def used_bytes_def, simp_all add: s_def)
qed

subsection \<open>Properties\<close>

text \<open>An arena with one region, 100 bytes of which are in use, and a kernel that maps one more page.\<close>

definition small_arena :: aworld where
  "small_arena = \<lparr>aw_regions = [0x100010 \<mapsto> \<lparr>rg_next = 0, rg_tail = 100, rg_capacity = 4064\<rparr>],
     aw_arenas = [0x100000 \<mapsto> \<lparr>ar_last = 0x100010, ar_new_region_capacity = 1000\<rparr>], aw_freed = []\<rparr>"

definition one_page :: arena_mmap where
  "one_page w n = (if n = 0 then 0 else 0x200000)"

lemma small_arena_ok:
  "arena_ok small_arena 0x100000 [0x100010]" "arena_page_size 4096" "arena_mmap_ok 4096 one_page small_arena"
  "is_power_of_two 8" "aw_arenas small_arena 0x100000 = Some \<lparr>ar_last = 0x100010, ar_new_region_capacity = 1000\<rparr>"
proof -
  show "arena_ok small_arena 0x100000 [0x100010]"
    by (simp add: arena_ok_def world_ok_def arena_list_def small_arena_def region_ok_def first_region_def)
  have "is_power_of_two 4096" by code_simp
  then show "arena_page_size 4096" by (simp add: arena_page_size_def)
  show "arena_mmap_ok 4096 one_page small_arena"
    unfolding arena_mmap_ok_def
  proof (intro allI impI)
    fix n assume "one_page small_arena n \<noteq> 0"
    then have "n \<noteq> 0" "one_page small_arena n = 0x200000" by (simp_all add: one_page_def split: if_splits)
    then show "n \<noteq> 0 \<and> unat (4096 :: u32) dvd unat (one_page small_arena n) \<and>
        unat (one_page small_arena n) + unat n \<le> 2 ^ 64 \<and>
        (\<forall>p r. aw_regions small_arena p = Some r \<longrightarrow>
          {unat (one_page small_arena n) ..< unat (one_page small_arena n) + unat n} \<inter> span p r = {})"
      using unat_u32_bound [of n] by (auto simp: small_arena_def span_def split: if_splits)
  qed
  show "is_power_of_two 8" by code_simp
qed (simp add: small_arena_def)

text \<open>
  C23. \<open>_arena_alloc\<close> with a size and an alignment that its assertions accept always returns. The block it
  delivers is aligned, lies in no byte handed out before and takes no byte out of use; it is at the end of
  the last region or in a new region at the end of the list. Null means that the kernel refused memory,
  unless the sizes come within a page of 4 GiB.
\<close>

theorem arena_alloc_places_block:
  assumes "arena_ok w A qs" and "arena_page_size ps" and "arena_mmap_ok ps mm w"
    and "0 < n" and "al \<le> 16" and "is_power_of_two al" and "aw_arenas w A = Some a"
  shows "\<exists>w' p. arena_alloc ps mm w A n al = Inr (w', p) \<and>
    (\<exists>qs'. arena_ok w' A (qs @ qs') \<and> length qs' \<le> 1) \<and>
    (if p = 0 then used_bytes w' = used_bytes w else placed w w' p n al) \<and>
    (p = 0 \<and> big_enough ps n a \<longrightarrow> mm w (kernel_request ps n a) = 0)"
  using arena_alloc_ok [OF assms] unfolding arena_result_def by simp

theorem arena_alloc_places_block_witness:
  "\<exists>w p. arena_alloc 4096 one_page small_arena 0x100000 5000 8 = Inr (w, p) \<and> p \<noteq> 0 \<and>
    placed small_arena w p 5000 8"
proof -
  note S = small_arena_ok
  have "one_page small_arena (kernel_request 4096 5000 \<lparr>ar_last = 0x100010, ar_new_region_capacity = 1000\<rparr>) \<noteq> 0"
    by code_simp
  moreover have "big_enough 4096 5000 \<lparr>ar_last = 0x100010, ar_new_region_capacity = 1000\<rparr>"
    by (simp add: big_enough_def)
  ultimately show ?thesis using arena_alloc_places_block [OF S(1-3) _ _ S(4,5), of 5000] by auto
qed

text \<open>
  \<open>_arena_fit\<close> always returns: its loop ends at the end of the list. When some region of the arena has
  the space, the block comes from a region of the arena and no region is added; otherwise it is
  \<open>_arena_alloc\<close> on a new region. The block is as good as one of \<open>_arena_alloc\<close>.
\<close>

theorem arena_fit_reuses_space:
  assumes "arena_ok w A qs" and "arena_page_size ps" and "arena_mmap_ok ps mm w"
    and "0 < n" and "al \<le> 16" and "is_power_of_two al" and "aw_arenas w A = Some a"
  shows "\<exists>w' p. arena_fit ps mm w A n al = Some (Inr (w', p)) \<and>
    (\<exists>qs'. arena_ok w' A (qs @ qs') \<and> length qs' \<le> 1) \<and>
    (if p = 0 then used_bytes w' = used_bytes w else placed w w' p n al) \<and>
    (if \<exists>q\<in>set qs. has_space w n al q then p \<noteq> 0 \<and> arena_ok w' A qs
     else p = 0 \<and> big_enough ps n a \<longrightarrow> mm w (kernel_request ps n a) = 0)"
  using arena_fit_ok [OF assms] unfolding arena_result_def by simp

theorem arena_fit_reuses_space_witness:
  "\<exists>w p. arena_fit 4096 one_page small_arena 0x100000 3000 8 = Some (Inr (w, p)) \<and> p \<noteq> 0 \<and>
    placed small_arena w p 3000 8 \<and> arena_ok w 0x100000 [0x100010]"
proof -
  note S = small_arena_ok
  have "has_space small_arena 3000 8 0x100010" by (simp add: has_space_def small_arena_def start_of_def)
  then show ?thesis using arena_fit_reuses_space [OF S(1-3) _ _ S(4,5), of 3000] by auto
qed

text \<open>
  C24. \<open>delete_arena\<close> always returns. It unmaps every region of the arena once, with the size it was mapped
  with, in the order of the list and the arena with its first region last; it reads no header that it has
  unmapped, and leaves the regions of other arenas alone.
\<close>

theorem arena_delete_unmaps_all:
  assumes "arena_ok w A qs" and "aw_regions w (first_region A) = Some r"
  shows "\<exists>w'. delete_arena w A = Some (Inr w') \<and> aw_regions w' = aw_regions w |` (- set qs) \<and>
    aw_arenas w' = (aw_arenas w)(A := None) \<and>
    aw_freed w' = aw_freed w @ map (region_range w) (tl qs) @ [(A, rg_capacity r + ARENA_HEADER_SIZE)]"
  by (rule delete_arena_ok [OF assms])

theorem arena_delete_unmaps_all_witness:
  "\<exists>w. delete_arena small_arena 0x100000 = Some (Inr w) \<and> aw_regions w 0x100010 = None \<and>
    aw_freed w = [(0x100000, 4096)]"
proof -
  have "aw_regions small_arena (first_region 0x100000) = Some \<lparr>rg_next = 0, rg_tail = 100, rg_capacity = 4064\<rparr>"
    by (simp add: small_arena_def first_region_def)
  from arena_delete_unmaps_all [OF small_arena_ok(1) this] obtain w where
    "delete_arena small_arena 0x100000 = Some (Inr w)" "aw_regions w 0x100010 = None"
    "aw_freed w = aw_freed small_arena @ [(0x100000, 4064 + ARENA_HEADER_SIZE)]" by auto
  then show ?thesis by (auto simp: small_arena_def ARENA_HEADER_SIZE_def)
qed

end
