(* ===== verification/Fsb_Arena.thy ===== *)
theory Fsb_Arena
  imports Word_Bits Alignment
begin

text \<open>
  The arena of fixed-size blocks, \<^verbatim>\<open>src/fsb_arena.c\<close>. A page holds a header with a bitmap, one bit for
  each block, and the blocks; the pages of an arena are in two circular lists, those with free blocks and
  the full ones. The state maps addresses to page headers and to arenas; a header that is not mapped
  cannot be accessed. The kernel is an argument: \<open>mm w\<close> is the address of a fresh page, 0 for
  \<open>MAP_FAILED\<close>. The size of the page header is 32 bytes on LP64.
\<close>

record fsba_page =
  fp_arena :: u64
  fp_next :: u64
  fp_prev :: u64
  fp_num_free :: u32
  fp_bitmap :: "u64 list"

record fsb_arena =
  fa_block_size :: u32
  fa_blocks_per_page :: u32
  fa_bitmap_size :: u32
  fa_avail_pages :: u64
  fa_full_pages :: u64

record fsb_world =
  fw_pages :: "u64 \<Rightarrow> fsba_page option"
  fw_arenas :: "u64 \<Rightarrow> fsb_arena option"

datatype fsb_list = Avail | Full

definition read_fpage :: "fsb_world \<Rightarrow> u64 \<Rightarrow> fsba_page res" where
  "read_fpage w p = or_fail Bad_Access (fw_pages w p)"

definition upd_fpage :: "fsb_world \<Rightarrow> u64 \<Rightarrow> (fsba_page \<Rightarrow> fsba_page) \<Rightarrow> fsb_world res" where
  "upd_fpage w p f = bindE (read_fpage w p) (\<lambda>pg. Inr (w\<lparr>fw_pages := (fw_pages w)(p \<mapsto> f pg)\<rparr>))"

definition read_arena :: "fsb_world \<Rightarrow> u64 \<Rightarrow> fsb_arena res" where
  "read_arena w A = or_fail Bad_Access (fw_arenas w A)"

fun list_head :: "fsb_arena \<Rightarrow> fsb_list \<Rightarrow> u64" where
  "list_head a Avail = fa_avail_pages a"
| "list_head a Full = fa_full_pages a"

fun with_head :: "fsb_list \<Rightarrow> u64 \<Rightarrow> fsb_arena \<Rightarrow> fsb_arena" where
  "with_head Avail p a = a\<lparr>fa_avail_pages := p\<rparr>"
| "with_head Full p a = a\<lparr>fa_full_pages := p\<rparr>"

definition set_list_head :: "fsb_world \<Rightarrow> u64 \<Rightarrow> fsb_list \<Rightarrow> u64 \<Rightarrow> fsb_world res" where
  "set_list_head w A l p = bindE (read_arena w A) (\<lambda>a.
     Inr (w\<lparr>fw_arenas := (fw_arenas w)(A \<mapsto> with_head l p a)\<rparr>))"

subsection \<open>The lists of pages\<close>

definition fsb_add_to_list :: "fsb_world \<Rightarrow> u64 \<Rightarrow> fsb_list \<Rightarrow> u64 \<Rightarrow> fsb_world res" where
  "fsb_add_to_list w A l page =
     bindE (read_arena w A) (\<lambda>a.
     let first = list_head a l
     in if first = 0
        then bindE (upd_fpage w page (\<lambda>pg. pg\<lparr>fp_prev := page, fp_next := page\<rparr>)) (\<lambda>w.
             set_list_head w A l page)
        else bindE (read_fpage w first) (\<lambda>f.
             bindE (upd_fpage w page (\<lambda>pg. pg\<lparr>fp_prev := fp_prev f\<rparr>)) (\<lambda>w.
             bindE (upd_fpage w page (\<lambda>pg. pg\<lparr>fp_next := first\<rparr>)) (\<lambda>w.
             bindE (read_fpage w first) (\<lambda>f.
             bindE (upd_fpage w (fp_prev f) (\<lambda>pg. pg\<lparr>fp_next := page\<rparr>)) (\<lambda>w.
             bindE (upd_fpage w first (\<lambda>pg. pg\<lparr>fp_prev := page\<rparr>)) (\<lambda>w.
             set_list_head w A l page)))))))"

definition fsb_delete_from_list :: "fsb_world \<Rightarrow> u64 \<Rightarrow> fsb_list \<Rightarrow> u64 \<Rightarrow> fsb_world res" where
  "fsb_delete_from_list w A l page =
     bindE (read_fpage w page) (\<lambda>pg.
     if fp_next pg = fp_prev pg then set_list_head w A l 0
     else bindE (read_arena w A) (\<lambda>a.
          bindE (if list_head a l = page then set_list_head w A l (fp_next pg) else Inr w) (\<lambda>w.
          bindE (upd_fpage w (fp_next pg) (\<lambda>n. n\<lparr>fp_prev := fp_prev pg\<rparr>)) (\<lambda>w.
          bindE (read_fpage w page) (\<lambda>pg.
          upd_fpage w (fp_prev pg) (\<lambda>n. n\<lparr>fp_next := fp_next pg\<rparr>))))))"

definition free_page :: "fsb_world \<Rightarrow> u64 \<Rightarrow> fsb_world" where
  "free_page w page = w\<lparr>fw_pages := (fw_pages w)(page := None)\<rparr>"

subsection \<open>Creation and destruction\<close>

definition fsb_header_size :: "u32 \<Rightarrow> u32 \<Rightarrow> u32" where
  "fsb_header_size bitmap_size block_size = align_unsigned (32 + 8 * bitmap_size) block_size"

text \<open>
  \<open>None\<close> is a loop that does not end; a division by zero ends the program. The C code divides also by a block
  size of 0, when both arguments of \<open>_init_fsb_arena\<close> are 0.
\<close>

partial_function (option) size_bitmap :: "u32 \<Rightarrow> u32 \<Rightarrow> u32 \<Rightarrow> (u32 \<times> u32) res option" where
  "size_bitmap ps block_size bitmap_size =
     (let bitmap_size = bitmap_size + 1;
          header_size = fsb_header_size bitmap_size block_size
      in if block_size = 0 then Some (Inl Abort)
         else (let blocks_per_page = (ps - header_size) div block_size
               in if blocks_per_page > bitmap_size * WORD_WIDTH then size_bitmap ps block_size bitmap_size
                  else Some (Inr (bitmap_size, blocks_per_page))))"

declare size_bitmap.simps [code]

definition init_fsb_arena :: "u32 \<Rightarrow> fsb_arena \<Rightarrow> u32 \<Rightarrow> u32 \<Rightarrow> (fsb_arena \<times> bool) res option" where
  "init_fsb_arena ps arena block_size block_alignment =
     (let arena = arena\<lparr>fa_block_size := (if block_size < block_alignment then block_alignment else block_size)\<rparr>;
          header_size = align_unsigned (32 + 8) (fa_block_size arena);
          max_block_size = ps - header_size
      in if fa_block_size arena > max_block_size then Some (Inr (arena, False))
         else map_option (\<lambda>r. bindE r (\<lambda>(bitmap_size, blocks_per_page).
                Inr (arena\<lparr>fa_bitmap_size := bitmap_size, fa_blocks_per_page := blocks_per_page,
                            fa_avail_pages := 0, fa_full_pages := 0\<rparr>, True)))
              (size_bitmap ps (fa_block_size arena) 0))"

text \<open>The loop never changes \<open>page\<close>: it ends when the page it has freed was alone in its list.\<close>

partial_function (option) free_pages :: "fsb_world \<Rightarrow> u64 \<Rightarrow> fsb_world res option" where
  "free_pages w page =
     (case fw_pages w page of None \<Rightarrow> Some (Inl Bad_Access)
      | Some pg \<Rightarrow>
          (let next_page = fp_next pg; w = free_page w page
           in if page \<noteq> next_page then free_pages w page else Some (Inr w)))"

declare free_pages.simps [code]

definition destroy_fsb_arena :: "fsb_world \<Rightarrow> u64 \<Rightarrow> fsb_world res option" where
  "destroy_fsb_arena w A =
     (case fw_arenas w A of None \<Rightarrow> Some (Inl Bad_Access)
      | Some a \<Rightarrow>
          do { m \<leftarrow> (if fa_avail_pages a \<noteq> 0 then free_pages w (fa_avail_pages a) else Some (Inr w));
               m \<leftarrow> (case m of Inl e \<Rightarrow> Some (Inl e)
                     | Inr w \<Rightarrow> if fa_full_pages a \<noteq> 0 then free_pages w (fa_full_pages a) else Some (Inr w));
               Some (bindE m (\<lambda>w.
                 Inr (w\<lparr>fw_arenas := (fw_arenas w)(A \<mapsto> a\<lparr>fa_avail_pages := 0, fa_full_pages := 0\<rparr>)\<rparr>))) })"

subsection \<open>Blocks\<close>

text \<open>The search for a clear bit: its word and its place in the word, or none.\<close>

function find_clear :: "u64 list \<Rightarrow> u32 \<Rightarrow> u32 \<Rightarrow> (u32 \<times> u32) option res" where
  "find_clear bitmap bitmap_size i =
     (if i < bitmap_size
      then (case read_word bitmap (unat i) of None \<Rightarrow> Inl Bad_Access
            | Some v \<Rightarrow>
                (let w = NOT v
                 in if w \<noteq> 0 then Inr (Some (i, ucast (count_trailing_zeros w)))
                    else find_clear bitmap bitmap_size (i + 1)))
      else Inr None)"
  by pat_completeness auto
termination
proof (relation "measure (\<lambda>(bitmap, bitmap_size, i). unat bitmap_size - unat i)", simp)
  fix bitmap :: "u64 list" and bitmap_size i :: u32
  assume lt: "i < bitmap_size"
  then have "unat (i + 1) = unat i + 1"
    using unat_u32_bound [of bitmap_size] by (subst unat_add_exact) (simp_all add: word_less_nat_alt)
  then show "((bitmap, bitmap_size, i + 1), (bitmap, bitmap_size, i))
      \<in> measure (\<lambda>(bitmap, bitmap_size, i). unat bitmap_size - unat i)"
    using lt by (simp add: word_less_nat_alt)
qed

declare find_clear.simps [simp del]

text \<open>The first half of an allocation delivers the page to take a block from, 0 when there is none.\<close>

definition page_for_block :: "(fsb_world \<Rightarrow> u64) \<Rightarrow> fsb_world \<Rightarrow> u64 \<Rightarrow> (fsb_world \<times> u64) res" where
  "page_for_block mm w A =
     bindE (read_arena w A) (\<lambda>a.
     if fa_avail_pages a \<noteq> 0 then Inr (w, fa_avail_pages a)
     else (let page = mm w
           in if page = 0 then Inr (w, 0)
              else (let w = w\<lparr>fw_pages := (fw_pages w)(page \<mapsto>
                          \<lparr>fp_arena = A, fp_next = 0, fp_prev = 0, fp_num_free = fa_blocks_per_page a,
                           fp_bitmap = replicate (unat (fa_bitmap_size a)) 0\<rparr>)\<rparr>
                    in bindE (fsb_add_to_list w A Avail page) (\<lambda>w. Inr (w, page)))))"

definition block_on_page :: "fsb_world \<Rightarrow> u64 \<Rightarrow> u64 \<Rightarrow> (fsb_world \<times> u64) res" where
  "block_on_page w A page =
     bindE (read_arena w A) (\<lambda>a.
     bindE (read_fpage w page) (\<lambda>pg.
     bindE (find_clear (fp_bitmap pg) (fa_bitmap_size a) 0) (\<lambda>found.
     case found of None \<Rightarrow> Inl Abort
     | Some (i, bit_index) \<Rightarrow>
         (let block_size = fa_block_size a;
              header_size = fsb_header_size (fa_bitmap_size a) block_size
          in bindE (upd_fpage w page (\<lambda>pg. pg\<lparr>fp_bitmap := (fp_bitmap pg)[unat i :=
                        (fp_bitmap pg ! unat i) OR push_bit (unat bit_index) 1]\<rparr>)) (\<lambda>w.
             bindE (upd_fpage w page (\<lambda>pg. pg\<lparr>fp_num_free := fp_num_free pg - 1\<rparr>)) (\<lambda>w.
             bindE (read_fpage w page) (\<lambda>pg.
             bindE (if fp_num_free pg = 0
                    then bindE (fsb_delete_from_list w A Avail page) (\<lambda>w. fsb_add_to_list w A Full page)
                    else Inr w) (\<lambda>w.
             Inr (w, page + ucast header_size + ucast ((i * WORD_WIDTH + bit_index) * block_size)))))))))) "

definition fsb_arena_allocate :: "(fsb_world \<Rightarrow> u64) \<Rightarrow> fsb_world \<Rightarrow> u64 \<Rightarrow> (fsb_world \<times> u64) res" where
  "fsb_arena_allocate mm w A =
     bindE (page_for_block mm w A) (\<lambda>(w, page).
     if page = 0 then Inr (w, 0) else block_on_page w A page)"

text \<open>The result of a release is the state and the new value of the pointer.\<close>

definition fsb_arena_release :: "u32 \<Rightarrow> fsb_world \<Rightarrow> u64 \<Rightarrow> (fsb_world \<times> u64) res" where
  "fsb_arena_release ps w block =
     (if block = 0 then Inr (w, 0)
      else (let page = block AND NOT (ucast (ps - 1))
            in bindE (read_fpage w page) (\<lambda>pg.
               let A = fp_arena pg
               in bindE (read_arena w A) (\<lambda>a.
               let offset = ucast (block - page);
                   block_size = fa_block_size a;
                   header_size = fsb_header_size (fa_bitmap_size a) block_size
               in if block_size = 0 then Inl Abort
                  else (let index = (offset - header_size) div block_size
                        in bindE (or_fail Bad_Access (upd_word (fp_bitmap pg) (unat (index div WORD_WIDTH))
                                    (\<lambda>v. v AND NOT (push_bit (unat (index AND (WORD_WIDTH - 1))) 1)))) (\<lambda>bm.
                           bindE (upd_fpage w page (\<lambda>pg. pg\<lparr>fp_bitmap := bm\<rparr>)) (\<lambda>w.
                           bindE (upd_fpage w page (\<lambda>pg. pg\<lparr>fp_num_free := fp_num_free pg + 1\<rparr>)) (\<lambda>w.
                           bindE (read_fpage w page) (\<lambda>pg.
                           bindE (if fp_num_free pg = fa_blocks_per_page a
                                  then bindE (read_fpage w (fa_avail_pages a)) (\<lambda>first.
                                       if fp_next first \<noteq> fp_prev first
                                       then bindE (fsb_delete_from_list w A Avail page) (\<lambda>w. Inr (free_page w page))
                                       else Inr w)
                                  else if fp_num_free pg = 1
                                  then bindE (fsb_delete_from_list w A Full page) (\<lambda>w. fsb_add_to_list w A Avail page)
                                  else Inr w) (\<lambda>w.
                           Inr (w, 0)))))))))))"

subsection \<open>Walking the blocks\<close>

text \<open>
  The callback may change the arena, so it maps a state, its own data included, to a state. \<open>walk_bits\<close>
  goes through the bits of one word; the third component says that the page is done.
\<close>

type_synonym 'c callback = "'c \<times> fsb_world \<Rightarrow> u64 \<Rightarrow> ('c \<times> fsb_world) res"

fun walk_bits ::
  "'c callback \<Rightarrow> u64 \<Rightarrow> u64 \<Rightarrow> u32 \<Rightarrow> u64 \<Rightarrow> nat list \<Rightarrow> 'c \<times> fsb_world \<Rightarrow> u64 \<Rightarrow>
   (('c \<times> fsb_world) \<times> u64 \<times> bool) res" where
  "walk_bits cb A page block_size w [] s block_ptr = Inr (s, block_ptr, False)"
| "walk_bits cb A page block_size w (j # js) s block_ptr =
     bindE (read_fpage (snd s) page) (\<lambda>pg.
     let num_free = fp_num_free pg
     in if w AND push_bit j 1 \<noteq> 0
        then bindE (cb s block_ptr) (\<lambda>s.
             bindE (read_arena (snd s) A) (\<lambda>a.
             if num_free \<ge> fa_blocks_per_page a - 1 then Inr (s, block_ptr, True)
             else walk_bits cb A page block_size w js s (block_ptr + ucast block_size)))
        else walk_bits cb A page block_size w js s (block_ptr + ucast block_size))"

fun walk_words ::
  "'c callback \<Rightarrow> u64 \<Rightarrow> u64 \<Rightarrow> u32 \<Rightarrow> nat list \<Rightarrow> 'c \<times> fsb_world \<Rightarrow> u64 \<Rightarrow> ('c \<times> fsb_world) res" where
  "walk_words cb A page block_size [] s block_ptr = Inr s"
| "walk_words cb A page block_size (i # is) s block_ptr =
     bindE (read_fpage (snd s) page) (\<lambda>pg.
     bindE (or_fail Bad_Access (read_word (fp_bitmap pg) i)) (\<lambda>w.
     bindE (walk_bits cb A page block_size w [0..<64] s block_ptr) (\<lambda>(s, block_ptr, page_done).
     if page_done then Inr s else walk_words cb A page block_size is s block_ptr)))"

partial_function (option) walk_pages ::
  "'c callback \<Rightarrow> u64 \<Rightarrow> u64 \<Rightarrow> u32 \<Rightarrow> u32 \<Rightarrow> u32 \<Rightarrow> u64 \<Rightarrow> 'c \<times> fsb_world \<Rightarrow> ('c \<times> fsb_world) res option" where
  "walk_pages cb A first_page bitmap_size block_size header_size page s =
     (case fw_pages (snd s) page of None \<Rightarrow> Some (Inl Bad_Access)
      | Some pg \<Rightarrow>
          (let next_page = fp_next pg
           in case walk_words cb A page block_size [0..<unat bitmap_size] s (page + ucast header_size) of
                Inl e \<Rightarrow> Some (Inl e)
              | Inr s \<Rightarrow> if next_page \<noteq> first_page
                         then walk_pages cb A first_page bitmap_size block_size header_size next_page s
                         else Some (Inr s)))"

declare walk_pages.simps [code]

definition fsb_arena_walk :: "'c callback \<Rightarrow> u64 \<Rightarrow> 'c \<times> fsb_world \<Rightarrow> ('c \<times> fsb_world) res option" where
  "fsb_arena_walk cb A s =
     (case fw_arenas (snd s) A of None \<Rightarrow> Some (Inl Bad_Access)
      | Some a \<Rightarrow>
          if fa_avail_pages a = 0 then Some (Inr s)
          else walk_pages cb A (fa_avail_pages a) (fa_bitmap_size a) (fa_block_size a)
                 (fsb_header_size (fa_bitmap_size a) (fa_block_size a)) (fa_avail_pages a) s)"

end
