(* ===== verification/Fsb_Properties.thy ===== *)
theory Fsb_Properties
  imports Fsb_Arena
begin

text \<open>
  The arena of fixed-size blocks: the layout that \<open>_init_fsb_arena\<close> computes, and what allocation and
  release do to the bitmap of a page. \<open>body\<close> is what the list operations leave alone.
\<close>

subsection \<open>The layout of a page\<close>

definition fits_page :: "u32 \<Rightarrow> fsb_arena \<Rightarrow> bool" where
  "fits_page ps a \<longleftrightarrow> 0 < fa_block_size a \<and> 0 < fa_blocks_per_page a \<and>
     unat (fa_blocks_per_page a) \<le> 64 * unat (fa_bitmap_size a) \<and>
     32 + 8 * unat (fa_bitmap_size a) \<le> unat (fsb_header_size (fa_bitmap_size a) (fa_block_size a)) \<and>
     unat (fsb_header_size (fa_bitmap_size a) (fa_block_size a)) +
       unat (fa_blocks_per_page a) * unat (fa_block_size a) \<le> unat ps"

lemma header_bounds:
  assumes "8 * unat b + 32 + unat bs \<le> 2 ^ 32" and "0 < unat bs"
  shows "32 + 8 * unat b \<le> unat (fsb_header_size b bs)" and "unat (fsb_header_size b bs) < 32 + 8 * unat b + unat bs"
proof -
  have m: "unat (8 * b) = 8 * unat b" using assms by (subst unat_mult_exact) simp_all
  then have u: "unat (32 + 8 * b) = 32 + 8 * unat b" using assms by (subst unat_add_exact) simp_all
  show "32 + 8 * unat b \<le> unat (fsb_header_size b bs)" "unat (fsb_header_size b bs) < 32 + 8 * unat b + unat bs"
    using align_unsigned_bounds [of "32 + 8 * b" bs] assms u by (simp_all add: fsb_header_size_def)
qed

lemma next_header_fits:
  "h2 < 32 + 8 * (c + 1) + s \<Longrightarrow> h + 65 * s \<le> p \<Longrightarrow> 32 + 8 * c \<le> h \<Longrightarrow> 0 < s \<Longrightarrow> h2 + s \<le> p"
  for h2 c s h p :: nat
  by simp

lemma size_bitmap_step:
  assumes "bs \<noteq> 0"
  shows "size_bitmap ps bs b = (let n = (ps - fsb_header_size (b + 1) bs) div bs
    in if n > (b + 1) * WORD_WIDTH then size_bitmap ps bs (b + 1) else Some (Inr (b + 1, n)))"
  using assms by (subst size_bitmap.simps) (simp add: Let_def)

text \<open>
  The loop ends for every block size: the number of blocks is at most \<open>2 ^ 32\<close> divided by the block size,
  and 64 times the number of words passes this before it wraps.
\<close>

lemma size_bitmap_ends:
  assumes "2 \<le> unat bs" and "64 * unat b \<le> 2 ^ 31"
  shows "\<exists>bm bpp. size_bitmap ps bs b = Some (Inr (bm, bpp)) \<and> 0 < unat bm"
  using assms(2)
proof (induction "2 ^ 26 - unat b" arbitrary: b rule: less_induct)
  case less
  have bs: "bs \<noteq> 0" using assms(1) by auto
  have b1: "unat (b + 1) = unat b + 1" using less.prems by (subst unat_add_exact) simp_all
  have w: "unat ((b + 1) * WORD_WIDTH) = 64 * (unat b + 1)"
    using less.prems b1 by (subst unat_mult_exact) (simp_all add: WORD_WIDTH_def)
  let ?n = "(ps - fsb_header_size (b + 1) bs) div bs"
  have "unat ?n = unat (ps - fsb_header_size (b + 1) bs) div unat bs" by (simp add: unat_div)
  also have "\<dots> \<le> unat (ps - fsb_header_size (b + 1) bs) div 2" by (rule div_le_mono2 [OF _ assms(1)]) simp
  also have "\<dots> < 2 ^ 31" using unat_u32_bound [of "ps - fsb_header_size (b + 1) bs"] by simp
  finally have n: "unat ?n < 2 ^ 31" .
  show ?case
  proof (cases "?n > (b + 1) * WORD_WIDTH")
    case False
    then show ?thesis using size_bitmap_step [OF bs, of ps b] b1 by (simp add: Let_def)
  next
    case True
    then have "64 * (unat b + 1) < 2 ^ 31" using n w by (simp add: word_less_nat_alt)
    then have "64 * unat (b + 1) \<le> 2 ^ 31" "2 ^ 26 - unat (b + 1) < 2 ^ 26 - unat b" using b1 by simp_all
    from less.hyps [OF this(2,1)] show ?thesis using True size_bitmap_step [OF bs, of ps b] by (simp add: Let_def)
  qed
qed

lemma size_bitmap_ok:
  assumes "0 < unat bs" and "unat ps \<le> 2 ^ 28" and "unat (fsb_header_size (b + 1) bs) + unat bs \<le> unat ps"
    and "unat (b + 1) = unat b + 1" and "8 * unat (b + 1) + 32 + unat bs \<le> 2 ^ 32"
  shows "\<exists>bm bpp. size_bitmap ps bs b = Some (Inr (bm, bpp)) \<and> 0 < unat bpp \<and> unat bpp \<le> 64 * unat bm \<and>
    32 + 8 * unat bm \<le> unat (fsb_header_size bm bs) \<and>
    unat (fsb_header_size bm bs) + unat bpp * unat bs \<le> unat ps"
  using assms(3-5)
proof (induction "unat ps - unat b" arbitrary: b rule: less_induct)
  case less
  have bs: "bs \<noteq> 0" using assms(1) by auto
  let ?h = "unat (fsb_header_size (b + 1) bs)"
  let ?n = "(ps - fsb_header_size (b + 1) bs) div bs"
  have hb: "32 + 8 * unat (b + 1) \<le> ?h" by (rule header_bounds(1) [OF less.prems(3) assms(1)])
  have n: "unat ?n = (unat ps - ?h) div unat bs"
    using less.prems(1) by (simp add: unat_div unat_sub_exact)
  have "unat ?n * unat bs \<le> unat ps - ?h" unfolding n by (rule div_times_less_eq_dividend)
  then have top: "?h + unat ?n * unat bs \<le> unat ps" using less.prems(1) by linarith
  have pos: "0 < unat ?n" unfolding n using less.prems(1) assms(1) by (simp add: div_greater_zero_iff)
  have w: "unat ((b + 1) * WORD_WIDTH) = 64 * unat (b + 1)"
    using hb less.prems(1) assms(2) by (subst unat_mult_exact) (simp_all add: WORD_WIDTH_def)
  show ?case
  proof (cases "?n > (b + 1) * WORD_WIDTH")
    case False
    then have "size_bitmap ps bs b = Some (Inr (b + 1, ?n))" using size_bitmap_step [OF bs, of ps b] by (simp add: Let_def)
    moreover have "unat ?n \<le> 64 * unat (b + 1)" using False w by (simp add: word_less_nat_alt)
    ultimately show ?thesis using pos top hb by auto
  next
    case True
    have eq: "size_bitmap ps bs b = size_bitmap ps bs (b + 1)"
      using True size_bitmap_step [OF bs, of ps b] by (simp add: Let_def)
    have n65: "64 * unat (b + 1) < unat ?n" using True w by (simp add: word_less_nat_alt)
    then have "65 \<le> unat ?n" using less.prems(2) by simp
    then have "65 * unat bs \<le> unat ?n * unat bs" by (intro mult_le_mono1)
    then have room: "?h + 65 * unat bs \<le> unat ps" using top by linarith
    have b2: "unat (b + 1 + 1) = unat (b + 1) + 1"
      using hb less.prems(1) assms(2) by (subst unat_add_exact) simp_all
    have fit: "8 * unat (b + 1 + 1) + 32 + unat bs \<le> 2 ^ 32"
      using hb room assms(2) unfolding b2 by simp
    have "unat (fsb_header_size (b + 1 + 1) bs) < 32 + 8 * unat (b + 1 + 1) + unat bs"
      by (rule header_bounds(2) [OF fit assms(1)])
    then have next_fits: "unat (fsb_header_size (b + 1 + 1) bs) + unat bs \<le> unat ps"
      unfolding b2 by (rule next_header_fits) (rule room, rule hb, rule assms(1))
    have "unat ps - unat (b + 1) < unat ps - unat b" using hb less.prems(1,2) by linarith
    from less.hyps [OF this next_fits b2 fit] show ?thesis by (simp add: eq)
  qed
qed

text \<open>An arena whose page has no room for the header is never laid out inside the page.\<close>

lemma header_does_not_fit:
  assumes "fa_block_size a = bs" and "0 < unat (fa_bitmap_size a)" and "unat ps < unat (fsb_header_size 1 bs)"
    and "unat bs + 40 \<le> 2 ^ 32"
  shows "\<not> fits_page ps a"
proof
  assume f: "fits_page ps a"
  then have "0 < unat bs" "0 < unat (fa_blocks_per_page a)" using assms(1) by (simp_all add: fits_page_def word_less_nat_alt)
  then have "unat bs \<le> unat (fa_blocks_per_page a) * unat bs" by simp
  moreover have "32 + 8 * unat (fa_bitmap_size a) \<le> unat (fsb_header_size (fa_bitmap_size a) bs)"
    "unat (fsb_header_size (fa_bitmap_size a) bs) + unat (fa_blocks_per_page a) * unat bs \<le> unat ps"
    using f assms(1) by (simp_all add: fits_page_def)
  ultimately have "32 + 8 * unat (fa_bitmap_size a) + unat bs \<le> unat ps" by linarith
  moreover have "unat (fsb_header_size 1 bs) < 40 + unat bs"
    using header_bounds(2) [of 1 bs] assms(4) \<open>0 < unat bs\<close> by simp
  ultimately show False using assms(2,3) by linarith
qed

text \<open>
  C25. On pages of 64 bytes to 256 MiB, for block sizes up to \<open>2 ^ 32 - 40\<close>, \<open>_init_fsb_arena\<close> returns: its loop
  over the size of the bitmap ends; when block size and alignment are 0 it divides by zero. The arena is
  accepted exactly when the block size is at most the page size less the header, in 32-bit arithmetic. When
  the header of one bitmap word fits into the page, this is when one more block fits; then there is a bit
  for every block, and header and blocks stay inside the page. When it does not, the difference wraps
  around: the arena may be accepted all the same, and its layout is then never inside the page.
\<close>

theorem fsb_init_layout:
  assumes "bs = (if block_size < block_alignment then block_alignment else block_size)"
    and "64 \<le> unat ps" and "unat ps \<le> 2 ^ 28" and "unat bs + 40 \<le> 2 ^ 32"
  shows "if bs = 0 then init_fsb_arena ps arena block_size block_alignment = Some (Inl Abort)
    else \<exists>a. init_fsb_arena ps arena block_size block_alignment = Some (Inr (a, bs \<le> ps - fsb_header_size 1 bs)) \<and>
      fa_block_size a = bs \<and>
      (if unat (fsb_header_size 1 bs) \<le> unat ps
       then (bs \<le> ps - fsb_header_size 1 bs \<longleftrightarrow> unat (fsb_header_size 1 bs) + unat bs \<le> unat ps) \<and>
         (bs \<le> ps - fsb_header_size 1 bs \<longrightarrow> fits_page ps a \<and> fa_avail_pages a = 0 \<and> fa_full_pages a = 0)
       else bs \<le> ps - fsb_header_size 1 bs \<longrightarrow> \<not> fits_page ps a)"
proof (cases "bs = 0")
  case True
  have "size_bitmap ps 0 0 = Some (Inl Abort)" by (subst size_bitmap.simps) (simp add: Let_def)
  then show ?thesis using True unfolding init_fsb_arena_def assms(1) [symmetric] Let_def by simp
next
  case nz: False
  let ?h = "fsb_header_size 1 bs" and ?ok = "bs \<le> ps - fsb_header_size 1 bs"
  have p: "0 < unat bs" using nz by (simp add: unat_gt_0)
  have init: "init_fsb_arena ps arena block_size block_alignment =
      (if ?ok then map_option (\<lambda>r. bindE r (\<lambda>(bm, bpp). Inr (arena\<lparr>fa_block_size := bs, fa_bitmap_size := bm,
         fa_blocks_per_page := bpp, fa_avail_pages := 0, fa_full_pages := 0\<rparr>, True))) (size_bitmap ps bs 0)
       else Some (Inr (arena\<lparr>fa_block_size := bs\<rparr>, False)))"
    unfolding init_fsb_arena_def assms(1) [symmetric] Let_def by (auto simp: fsb_header_size_def dest: leD)
  show ?thesis
  proof (cases "unat ?h \<le> unat ps")
    case h: True
    have ok: "?ok \<longleftrightarrow> unat ?h + unat bs \<le> unat ps" using h by (auto simp: word_le_nat_alt unat_sub_exact)
    show ?thesis
    proof (cases ?ok)
      case True
      have "unat (fsb_header_size (0 + 1) bs) + unat bs \<le> unat ps" using True ok by simp
      then obtain bm bpp where s: "size_bitmap ps bs 0 = Some (Inr (bm, bpp))" "0 < unat bpp" "unat bpp \<le> 64 * unat bm"
        "32 + 8 * unat bm \<le> unat (fsb_header_size bm bs)" "unat (fsb_header_size bm bs) + unat bpp * unat bs \<le> unat ps"
        using size_bitmap_ok [OF p assms(3), of 0] assms(4) by auto
      let ?a = "arena\<lparr>fa_block_size := bs, fa_bitmap_size := bm, fa_blocks_per_page := bpp,
        fa_avail_pages := 0, fa_full_pages := 0\<rparr>"
      have "init_fsb_arena ps arena block_size block_alignment = Some (Inr (?a, True))"
        unfolding init using True s(1) by simp
      moreover have "fits_page ps ?a" using s p by (simp add: fits_page_def word_less_nat_alt)
      ultimately show ?thesis using True ok nz h by (intro if_not_P [THEN iffD2] exI [of _ ?a]) auto
    qed (use nz ok in \<open>auto simp: init\<close>)
  next
    case h: False
    have "unat ?h < 40 + unat bs" using header_bounds(2) [of 1 bs] assms(4) p by simp
    then have "2 \<le> unat bs" using h assms(2) by simp
    from size_bitmap_ends [OF this, of 0 ps] obtain bm bpp where
      s: "size_bitmap ps bs 0 = Some (Inr (bm, bpp))" "0 < unat bm" by auto
    let ?a = "\<lambda>a. a\<lparr>fa_block_size := bs, fa_bitmap_size := bm, fa_blocks_per_page := bpp,
        fa_avail_pages := 0, fa_full_pages := 0\<rparr>"
    have "\<not> fits_page ps (?a arena)" using header_does_not_fit [OF _ _ _ assms(4), of "?a arena" ps] s(2) h by simp
    then show ?thesis using h nz s(1) by (auto simp: init)
  qed
qed

text \<open>A block of 8192 bytes is accepted on a page of 4096.\<close>

theorem fsb_init_layout_witness:
  "\<exists>a b. init_fsb_arena 4096 \<lparr>fa_block_size = 0, fa_blocks_per_page = 0, fa_bitmap_size = 0, fa_avail_pages = 0,
      fa_full_pages = 0\<rparr> 16 8 = Some (Inr (a, True)) \<and> fits_page 4096 a \<and>
    init_fsb_arena 4096 a 8192 8 = Some (Inr (b, True)) \<and> \<not> fits_page 4096 b"
proof -
  have h: "fsb_header_size 1 16 = 48" "fsb_header_size 1 8192 = 8192" by code_simp+
  let ?a = "\<lparr>fa_block_size = 0, fa_blocks_per_page = 0, fa_bitmap_size = 0, fa_avail_pages = 0, fa_full_pages = 0\<rparr>"
  obtain a where a: "init_fsb_arena 4096 ?a 16 8 = Some (Inr (a, True))" "fits_page 4096 a"
    using fsb_init_layout [of 16 16 8 4096 ?a] by (auto simp: h)
  then show ?thesis using fsb_init_layout [of 8192 8192 8 4096 a] by (auto simp: h)
qed

subsection \<open>What the list operations leave alone\<close>

definition body :: "fsb_world \<Rightarrow> u64 \<Rightarrow> (u64 \<times> u32 \<times> u64 list) option" where
  "body w p = map_option (\<lambda>pg. (fp_arena pg, fp_num_free pg, fp_bitmap pg)) (fw_pages w p)"

definition layout :: "fsb_arena \<Rightarrow> u32 \<times> u32 \<times> u32" where
  "layout a = (fa_block_size a, fa_blocks_per_page a, fa_bitmap_size a)"

text \<open>The links of every page, and the heads of the lists of an arena, lead to pages that are mapped.\<close>

definition linked :: "fsb_world \<Rightarrow> bool" where
  "linked w \<longleftrightarrow> (\<forall>p pg. fw_pages w p = Some pg \<longrightarrow> fw_pages w (fp_next pg) \<noteq> None \<and> fw_pages w (fp_prev pg) \<noteq> None)"

definition heads_ok :: "fsb_world \<Rightarrow> fsb_arena \<Rightarrow> bool" where
  "heads_ok w a \<longleftrightarrow> (\<forall>l. list_head a l \<noteq> 0 \<longrightarrow> fw_pages w (list_head a l) \<noteq> None)"

definition relinked :: "fsb_world \<Rightarrow> u64 \<Rightarrow> fsb_arena \<Rightarrow> fsb_world \<Rightarrow> bool" where
  "relinked w A a w' \<longleftrightarrow> body w' = body w \<and> linked w' \<and>
     (\<exists>a'. fw_arenas w' = (fw_arenas w)(A \<mapsto> a') \<and> layout a' = layout a \<and> heads_ok w' a')"

lemma body_None: "body w p = None \<longleftrightarrow> fw_pages w p = None"
  by (simp add: body_def)

lemma body_pages: "body w' = body w \<Longrightarrow> fw_pages w' p = None \<longleftrightarrow> fw_pages w p = None"
  by (simp add: body_None [symmetric])

lemma body_Some:
  "body w p = Some (x, n, bm) \<longleftrightarrow>
   (\<exists>pg. fw_pages w p = Some pg \<and> fp_arena pg = x \<and> fp_num_free pg = n \<and> fp_bitmap pg = bm)"
  by (auto simp: body_def)

lemma arenas_update [simp]:
  "body (w\<lparr>fw_arenas := x\<rparr>) = body w" "linked (w\<lparr>fw_arenas := x\<rparr>) = linked w"
  "heads_ok (w\<lparr>fw_arenas := x\<rparr>) a = heads_ok w a"
  by (simp_all add: body_def linked_def heads_ok_def fun_eq_iff)

lemma layout_with_head [simp]: "layout (with_head l p a) = layout a"
  by (cases l) (simp_all add: layout_def)

lemma list_head_with_head: "list_head (with_head l p a) k = (if k = l then p else list_head a k)"
  by (cases l; cases k) simp_all

lemma linked_update:
  assumes "linked w" and "fw_pages w p = Some pg" and "fw_pages w (fp_next pg') \<noteq> None"
    and "fw_pages w (fp_prev pg') \<noteq> None"
  shows "linked (w\<lparr>fw_pages := (fw_pages w)(p \<mapsto> pg')\<rparr>)"
  using assms unfolding linked_def by auto

lemma body_update:
  assumes "fw_pages w p = Some pg" and "fp_arena pg' = fp_arena pg" "fp_num_free pg' = fp_num_free pg"
    "fp_bitmap pg' = fp_bitmap pg"
  shows "body (w\<lparr>fw_pages := (fw_pages w)(p \<mapsto> pg')\<rparr>) = body w"
  using assms by (auto simp: body_def fun_eq_iff)

text \<open>One assignment to the links of a page.\<close>

definition link_update :: "(fsba_page \<Rightarrow> fsba_page) \<Rightarrow> bool" where
  "link_update f \<longleftrightarrow> (\<forall>pg. fp_arena (f pg) = fp_arena pg \<and> fp_num_free (f pg) = fp_num_free pg \<and>
     fp_bitmap (f pg) = fp_bitmap pg)"

lemma upd_links:
  assumes "linked w" and "fw_pages w p \<noteq> None" and "link_update f"
    and "\<And>pg. fw_pages w p = Some pg \<Longrightarrow> fw_pages w (fp_next (f pg)) \<noteq> None \<and> fw_pages w (fp_prev (f pg)) \<noteq> None"
  shows "\<exists>w'. upd_fpage w p f = Inr w' \<and> linked w' \<and> body w' = body w \<and> fw_arenas w' = fw_arenas w \<and>
    fw_pages w' = (fw_pages w)(p := map_option f (fw_pages w p))"
proof -
  obtain pg where pg: "fw_pages w p = Some pg" using assms(2) by auto
  then show ?thesis
    using linked_update [OF assms(1) pg, of "f pg"] body_update [OF pg, of "f pg"] assms(3,4)
    by (simp add: upd_fpage_def read_fpage_def link_update_def)
qed

lemma set_list_head_ok:
  assumes "fw_arenas w A = Some a" and "heads_ok w a" and "p = 0 \<or> fw_pages w p \<noteq> None"
  shows "set_list_head w A l p = Inr (w\<lparr>fw_arenas := (fw_arenas w)(A \<mapsto> with_head l p a)\<rparr>)"
    and "heads_ok w (with_head l p a)"
  using assms by (auto simp: set_list_head_def read_arena_def heads_ok_def list_head_with_head)

lemma delete_relinks:
  assumes "linked w" and "fw_arenas w A = Some a" and "heads_ok w a" and "fw_pages w p = Some pg"
  shows "\<exists>w'. fsb_delete_from_list w A l p = Inr w' \<and> relinked w A a w' \<and>
    (\<forall>a'. fw_arenas w' A = Some a' \<longrightarrow> (\<forall>k. k \<noteq> l \<longrightarrow> list_head a' k = list_head a k))"
proof -
  have nx: "fw_pages w (fp_next pg) \<noteq> None" "fw_pages w (fp_prev pg) \<noteq> None"
    using assms(1,4) by (auto simp: linked_def)
  show ?thesis
  proof (cases "fp_next pg = fp_prev pg")
    case True
    note H = set_list_head_ok [OF assms(2,3), of 0 l]
    have "fsb_delete_from_list w A l p = Inr (w\<lparr>fw_arenas := (fw_arenas w)(A \<mapsto> with_head l 0 a)\<rparr>)"
      using True assms(4) H by (simp add: fsb_delete_from_list_def read_fpage_def)
    then show ?thesis using assms(1) H
      by (auto simp: relinked_def list_head_with_head)
  next
    case False
    define a1 where "a1 = (if list_head a l = p then with_head l (fp_next pg) a else a)"
    define w1 where "w1 = w\<lparr>fw_arenas := (fw_arenas w)(A \<mapsto> a1)\<rparr>"
    have s1: "(if list_head a l = p then set_list_head w A l (fp_next pg) else Inr w) = Inr w1"
      using set_list_head_ok(1) [OF assms(2,3), of "fp_next pg" l] nx(1) assms(2)
      by (auto simp: w1_def a1_def fun_upd_idem)
    have h1: "heads_ok w a1" using set_list_head_ok(2) [OF assms(2,3)] nx(1) assms(3) by (simp add: a1_def)
    have l1: "linked w1" "fw_pages w1 = fw_pages w" "body w1 = body w" using assms(1) by (simp_all add: w1_def)
    have "\<exists>w2. upd_fpage w1 (fp_next pg) (\<lambda>n. n\<lparr>fp_prev := fp_prev pg\<rparr>) = Inr w2 \<and> linked w2 \<and> body w2 = body w1 \<and>
        fw_arenas w2 = fw_arenas w1 \<and> fw_pages w2 = (fw_pages w1)(fp_next pg :=
          map_option (\<lambda>n. n\<lparr>fp_prev := fp_prev pg\<rparr>) (fw_pages w1 (fp_next pg)))"
      by (rule upd_links [OF l1(1)]) (use nx assms(1) l1(2) in \<open>auto simp: link_update_def linked_def\<close>)
    then obtain w2 where w2: "upd_fpage w1 (fp_next pg) (\<lambda>n. n\<lparr>fp_prev := fp_prev pg\<rparr>) = Inr w2" "linked w2"
      "body w2 = body w1" "fw_arenas w2 = fw_arenas w1" by blast
    have same: "fw_pages w2 q = None \<longleftrightarrow> fw_pages w q = None" for q
      using body_pages w2(3) l1(3) by metis
    obtain pg2 where pg2: "fw_pages w2 p = Some pg2" using same [of p] assms(4) by auto
    have nx2: "fw_pages w2 (fp_next pg2) \<noteq> None" "fw_pages w2 (fp_prev pg2) \<noteq> None"
      using w2(2) pg2 by (auto simp: linked_def)
    have "\<exists>w3. upd_fpage w2 (fp_prev pg2) (\<lambda>n. n\<lparr>fp_next := fp_next pg2\<rparr>) = Inr w3 \<and> linked w3 \<and> body w3 = body w2 \<and>
        fw_arenas w3 = fw_arenas w2 \<and> fw_pages w3 = (fw_pages w2)(fp_prev pg2 :=
          map_option (\<lambda>n. n\<lparr>fp_next := fp_next pg2\<rparr>) (fw_pages w2 (fp_prev pg2)))"
      by (rule upd_links [OF w2(2) nx2(2)]) (use nx2 w2(2) in \<open>auto simp: link_update_def linked_def\<close>)
    then obtain w3 where w3: "upd_fpage w2 (fp_prev pg2) (\<lambda>n. n\<lparr>fp_next := fp_next pg2\<rparr>) = Inr w3" "linked w3"
      "body w3 = body w2" "fw_arenas w3 = fw_arenas w2" by blast
    have D: "fsb_delete_from_list w A l p = Inr w3"
      using False assms(2,4) s1 w2(1) w3(1) pg2 by (simp add: fsb_delete_from_list_def read_fpage_def read_arena_def)
    have B: "body w3 = body w" using w3(3) w2(3) l1(3) by simp
    have H: "heads_ok w3 a1" using h1 body_pages [OF B] by (simp add: heads_ok_def)
    have "layout a1 = layout a" by (simp add: a1_def)
    then show ?thesis using D B H w3(2,4) w2(4)
      by (auto simp: relinked_def w1_def a1_def list_head_with_head)
  qed
qed

lemma add_relinks:
  assumes "linked w" and "fw_arenas w A = Some a" and "heads_ok w a" and "fw_pages w p \<noteq> None"
  shows "\<exists>w'. fsb_add_to_list w A l p = Inr w' \<and> relinked w A a w'"
proof (cases "list_head a l = 0")
  case True
  have "\<exists>w1. upd_fpage w p (\<lambda>pg. pg\<lparr>fp_prev := p, fp_next := p\<rparr>) = Inr w1 \<and> linked w1 \<and> body w1 = body w \<and>
      fw_arenas w1 = fw_arenas w \<and> fw_pages w1 = (fw_pages w)(p :=
        map_option (\<lambda>pg. pg\<lparr>fp_prev := p, fp_next := p\<rparr>) (fw_pages w p))"
    by (rule upd_links [OF assms(1,4)]) (use assms(4) in \<open>auto simp: link_update_def\<close>)
  then obtain w1 where w1: "upd_fpage w p (\<lambda>pg. pg\<lparr>fp_prev := p, fp_next := p\<rparr>) = Inr w1" "linked w1"
    "body w1 = body w" "fw_arenas w1 = fw_arenas w" by blast
  have h: "heads_ok w1 a" using assms(3) body_pages [OF w1(3)] by (simp add: heads_ok_def)
  have "fw_pages w1 p \<noteq> None" using assms(4) body_pages [OF w1(3)] by simp
  note H = set_list_head_ok [of w1 A a p l, OF _ h disjI2 [OF this]]
  have "fsb_add_to_list w A l p = Inr (w1\<lparr>fw_arenas := (fw_arenas w1)(A \<mapsto> with_head l p a)\<rparr>)"
    using True assms(2) w1(1,4) H by (simp add: fsb_add_to_list_def read_arena_def)
  then show ?thesis using w1 H assms(2) by (auto simp: relinked_def)
next
  case False
  let ?f = "list_head a l"
  obtain fp where f: "fw_pages w ?f = Some fp" using False assms(3) by (auto simp: heads_ok_def)
  then have fprev: "fw_pages w (fp_prev fp) \<noteq> None" using assms(1) by (auto simp: linked_def)
  obtain w1 where w1: "upd_fpage w p (\<lambda>pg. pg\<lparr>fp_prev := fp_prev fp\<rparr>) = Inr w1" "linked w1"
    "body w1 = body w" "fw_arenas w1 = fw_arenas w"
    using upd_links [OF assms(1,4), of "\<lambda>pg. pg\<lparr>fp_prev := fp_prev fp\<rparr>"] fprev assms(1)
    by (auto simp: link_update_def linked_def)
  have m1: "fw_pages w1 q = None \<longleftrightarrow> fw_pages w q = None" for q by (rule body_pages [OF w1(3)])
  obtain w2 where w2: "upd_fpage w1 p (\<lambda>pg. pg\<lparr>fp_next := ?f\<rparr>) = Inr w2" "linked w2"
    "body w2 = body w1" "fw_arenas w2 = fw_arenas w1"
    using upd_links [OF w1(2), of p "\<lambda>pg. pg\<lparr>fp_next := ?f\<rparr>"] m1 f assms(4) w1(2)
    by (auto simp: link_update_def linked_def)
  have m2: "fw_pages w2 q = None \<longleftrightarrow> fw_pages w q = None" for q using body_pages [OF w2(3)] m1 by simp
  obtain fp2 where f2: "fw_pages w2 ?f = Some fp2" using m2 [of ?f] f by auto
  then have fp2: "fw_pages w2 (fp_prev fp2) \<noteq> None" using w2(2) by (auto simp: linked_def)
  obtain w3 where w3: "upd_fpage w2 (fp_prev fp2) (\<lambda>pg. pg\<lparr>fp_next := p\<rparr>) = Inr w3" "linked w3"
    "body w3 = body w2" "fw_arenas w3 = fw_arenas w2"
    using upd_links [OF w2(2) fp2, of "\<lambda>pg. pg\<lparr>fp_next := p\<rparr>"] m2 assms(4) w2(2)
    by (auto simp: link_update_def linked_def)
  have m3: "fw_pages w3 q = None \<longleftrightarrow> fw_pages w q = None" for q using body_pages [OF w3(3)] m2 by simp
  obtain w4 where w4: "upd_fpage w3 ?f (\<lambda>pg. pg\<lparr>fp_prev := p\<rparr>) = Inr w4" "linked w4"
    "body w4 = body w3" "fw_arenas w4 = fw_arenas w3"
    using upd_links [OF w3(2), of ?f "\<lambda>pg. pg\<lparr>fp_prev := p\<rparr>"] m3 f assms(4) w3(2)
    by (auto simp: link_update_def linked_def)
  have B: "body w4 = body w" using w1(3) w2(3) w3(3) w4(3) by simp
  have h: "heads_ok w4 a" using assms(3) body_pages [OF B] by (simp add: heads_ok_def)
  have "fw_pages w4 p \<noteq> None" using assms(4) body_pages [OF B] by simp
  note H = set_list_head_ok [of w4 A a p l, OF _ h disjI2 [OF this]]
  have "fsb_add_to_list w A l p = Inr (w4\<lparr>fw_arenas := (fw_arenas w4)(A \<mapsto> with_head l p a)\<rparr>)"
    using False assms(2) f f2 w1(1,4) w2(1,4) w3(1,4) w4(1,4) H
    by (simp add: fsb_add_to_list_def read_arena_def read_fpage_def Let_def)
  then show ?thesis using w1(4) w2(4) w3(4) w4(2,4) B H assms(2) by (auto simp: relinked_def)
qed

text \<open>A page moves from one list to the other.\<close>

lemma move_relinks:
  assumes "linked w" and "fw_arenas w A = Some a" and "heads_ok w a" and "fw_pages w p \<noteq> None"
  shows "\<exists>w'. bindE (fsb_delete_from_list w A l p) (\<lambda>w. fsb_add_to_list w A k p) = Inr w' \<and> relinked w A a w'"
proof -
  obtain w1 where w1: "fsb_delete_from_list w A l p = Inr w1" "relinked w A a w1"
    using delete_relinks [OF assms(1-3)] assms(4) by blast
  then obtain a1 where a1: "linked w1" "fw_arenas w1 = (fw_arenas w)(A \<mapsto> a1)" "layout a1 = layout a" "heads_ok w1 a1"
    "body w1 = body w" by (auto simp: relinked_def)
  have "fw_pages w1 p \<noteq> None" using body_pages [OF a1(5)] assms(4) by simp
  with add_relinks [of w1 A a1 p k] a1 obtain w2 where "fsb_add_to_list w1 A k p = Inr w2" "relinked w1 A a1 w2" by auto
  then show ?thesis using w1(1) a1 by (auto simp: relinked_def)
qed

subsection \<open>Blocks of a page\<close>

lemma word_all_set: "NOT v = 0 \<Longrightarrow> i < 64 \<Longrightarrow> bit v i" for v :: u64
proof -
  assume v: "NOT v = 0" and i: "i < 64"
  have "\<not> bit (NOT v) i" unfolding v by simp
  then show "bit v i" using i by (simp add: bit_not_iff)
qed

lemma find_clear_ok:
  assumes "length bm = unat n" and "64 * unat i \<le> k" and "k < 64 * unat n" and "\<not> bit_at bm k"
  shows "\<exists>j b. find_clear bm n i = Inr (Some (j, b)) \<and> unat j < unat n \<and> unat b < 64 \<and>
    \<not> bit_at bm (64 * unat j + unat b) \<and>
    (\<forall>m. 64 * unat i \<le> m \<and> m < 64 * unat j + unat b \<longrightarrow> bit_at bm m)"
  using assms
proof (induction bm n i rule: find_clear.induct)
  case (1 bm n i)
  have lt: "unat i < unat n" using "1.prems" by linarith
  then have i: "i < n" "read_word bm (unat i) = Some (bm ! unat i)"
    using "1.prems"(1) by (simp_all add: word_less_nat_alt read_word_def)
  let ?v = "bm ! unat i"
  show ?case
  proof (cases "NOT ?v = 0")
    case False
    note t = count_trailing_zeros_spec [OF False]
    define b where "b = (ucast (count_trailing_zeros (NOT ?v)) :: u32)"
    have b: "unat b = unat (count_trailing_zeros (NOT ?v))"
      using t(1) by (simp add: b_def unsigned_ucast_eq take_bit_nat_eq_self)
    have "find_clear bm n i = Inr (Some (i, b))"
      using i False by (subst find_clear.simps) (simp add: Let_def b_def)
    moreover have "\<not> bit_at bm (64 * unat i + unat b)"
      using t(1,2) lt "1.prems"(1) by (subst bit_at_word) (simp_all add: b bit_not_iff)
    moreover have "bit_at bm m" if lo: "64 * unat i \<le> m" and hi: "m < 64 * unat i + unat b" for m
    proof -
      define r where "r = m - 64 * unat i"
      have r: "m = 64 * unat i + r" "r < unat b" using lo hi by (simp_all add: r_def)
      then have "\<not> bit (NOT ?v) r" "r < 64" using t(1,3) b by simp_all
      then show ?thesis using lt "1.prems"(1) unfolding r(1) by (subst bit_at_word) (simp_all add: bit_not_iff)
    qed
    ultimately show ?thesis using lt t(1) b by auto
  next
    case True
    have all: "bit_at bm m" if lo: "64 * unat i \<le> m" and hi: "m < 64 * unat i + 64" for m
    proof -
      define r where "r = m - 64 * unat i"
      have r: "m = 64 * unat i + r" "r < 64" using lo hi by (simp_all add: r_def)
      then show ?thesis using lt "1.prems"(1) word_all_set [OF True r(2)] unfolding r(1) by (subst bit_at_word) simp_all
    qed
    have i1: "unat (i + 1) = unat i + 1"
      using lt unat_u32_bound [of n] by (subst unat_add_exact) simp_all
    have "\<not> k < 64 * unat i + 64" using all [OF "1.prems"(2)] "1.prems"(4) by blast
    then have "64 * unat (i + 1) \<le> k" unfolding i1 by simp
    from "1.IH" [OF i(1) i(2) refl _ "1.prems"(1) this "1.prems"(3,4)] True obtain j b where jb:
      "find_clear bm n (i + 1) = Inr (Some (j, b))" "unat j < unat n" "unat b < 64"
      "\<not> bit_at bm (64 * unat j + unat b)"
      "\<forall>m. 64 * unat (i + 1) \<le> m \<and> m < 64 * unat j + unat b \<longrightarrow> bit_at bm m" by auto
    have "find_clear bm n i = find_clear bm n (i + 1)" using i True by (subst find_clear.simps) (simp add: Let_def)
    moreover have "bit_at bm m" if "64 * unat i \<le> m" "m < 64 * unat j + unat b" for m
      using all [OF that(1)] jb(5) that(2) i1 by (cases "m < 64 * unat i + 64") auto
    ultimately show ?thesis using jb by auto
  qed
qed

definition bits_of :: "u64 list \<Rightarrow> nat set" where
  "bits_of bm = {i. bit_at bm i}"

definition fpage_ok :: "fsb_arena \<Rightarrow> fsba_page \<Rightarrow> bool" where
  "fpage_ok a pg \<longleftrightarrow> length (fp_bitmap pg) = unat (fa_bitmap_size a) \<and>
     bits_of (fp_bitmap pg) \<subseteq> {..< unat (fa_blocks_per_page a)} \<and>
     unat (fp_num_free pg) + card (bits_of (fp_bitmap pg)) = unat (fa_blocks_per_page a)"

definition block_addr :: "fsb_arena \<Rightarrow> u64 \<Rightarrow> nat \<Rightarrow> nat" where
  "block_addr a p k = unat p + unat (fsb_header_size (fa_bitmap_size a) (fa_block_size a)) + k * unat (fa_block_size a)"

lemma block_inside:
  assumes "fits_page ps a" and "k < unat (fa_blocks_per_page a)"
  shows "unat p + 32 + 8 * unat (fa_bitmap_size a) \<le> block_addr a p k"
    and "block_addr a p k + unat (fa_block_size a) \<le> unat p + unat ps"
proof -
  have "Suc k * unat (fa_block_size a) \<le> unat (fa_blocks_per_page a) * unat (fa_block_size a)"
    using assms(2) by (intro mult_le_mono1) simp
  then show "block_addr a p k + unat (fa_block_size a) \<le> unat p + unat ps"
    using assms(1) by (simp add: fits_page_def block_addr_def)
  show "unat p + 32 + 8 * unat (fa_bitmap_size a) \<le> block_addr a p k"
    using assms(1) by (simp add: fits_page_def block_addr_def)
qed

lemma one_bit: "m < 64 \<Longrightarrow> bit (2 ^ b :: u64) m \<longleftrightarrow> m = b"
  by (auto simp: bit_exp_iff possible_bit_def)

lemma bit_place: "b < 64 \<Longrightarrow> i div 64 = j \<and> i mod 64 = b \<longleftrightarrow> i = 64 * j + b" for i j b :: nat
  by auto

lemma set_one_bit:
  assumes "j < length bm" and "b < 64"
  shows "bits_of (bm[j := bm ! j OR push_bit b 1]) = insert (64 * j + b) (bits_of bm)"
  unfolding bits_of_def bit_at_or [OF assms(1)] using bit_place [OF assms(2)] by (auto simp: one_bit)

lemma clear_one_bit:
  assumes "j < length bm" and "b < 64"
  shows "bits_of (bm[j := bm ! j AND NOT (push_bit b 1)]) = bits_of bm - {64 * j + b}"
proof -
  have "bit_at (bm[j := bm ! j AND NOT (push_bit b 1)]) i \<longleftrightarrow> bit_at bm i \<and> i \<noteq> 64 * j + b" for i
  proof (cases "i div 64 = j")
    case True
    then show ?thesis using assms bit_place [OF assms(2), of i j]
      by (simp add: bit_at_update bit_and_iff bit_not_iff one_bit) (auto simp: bit_at_def)
  next
    case False
    then show ?thesis using assms bit_place [OF assms(2), of i j] by (auto simp: bit_at_update)
  qed
  then show ?thesis by (auto simp: bits_of_def)
qed

lemma finite_bits: "finite (bits_of bm)"
  by (rule finite_subset [of _ "{..< 64 * length bm}"]) (auto simp: bits_of_def dest: bit_at_less)

text \<open>The bitmap and the counter of one page change, its links do not.\<close>

definition with_blocks :: "u32 \<Rightarrow> u64 list \<Rightarrow> fsba_page \<Rightarrow> fsba_page" where
  "with_blocks n bm pg = pg\<lparr>fp_bitmap := bm, fp_num_free := n\<rparr>"

definition edited :: "fsb_world \<Rightarrow> u64 \<Rightarrow> fsb_arena \<Rightarrow> u64 \<Rightarrow> fsba_page \<Rightarrow> u32 \<Rightarrow> u64 list \<Rightarrow> fsb_world \<Rightarrow> bool" where
  "edited w A a p pg n bm w' \<longleftrightarrow> body w' = (body w)(p \<mapsto> (fp_arena pg, n, bm)) \<and> linked w' \<and>
     (\<exists>a'. fw_arenas w' = (fw_arenas w)(A \<mapsto> a') \<and> layout a' = layout a \<and> heads_ok w' a')"

lemma edit_page:
  assumes "linked w" and "heads_ok w a" and "fw_pages w p = Some pg" and "fw_arenas w A = Some a"
    and w1_def: "w1 = w\<lparr>fw_pages := (fw_pages w)(p \<mapsto> with_blocks n bm pg)\<rparr>"
  shows "linked w1" and "heads_ok w1 a" and "edited w A a p pg n bm w1"
proof -
  have nx: "fw_pages w (fp_next pg) \<noteq> None" "fw_pages w (fp_prev pg) \<noteq> None"
    using assms(1,3) by (auto simp: linked_def)
  show l: "linked w1" unfolding w1_def
    by (rule linked_update [OF assms(1,3)]) (use nx in \<open>simp_all add: with_blocks_def\<close>)
  show h: "heads_ok w1 a" using assms(2) by (auto simp: heads_ok_def w1_def)
  have "body w1 = (body w)(p \<mapsto> (fp_arena pg, n, bm))"
    by (auto simp: body_def w1_def with_blocks_def fun_eq_iff)
  moreover have "fw_arenas w1 = (fw_arenas w)(A \<mapsto> a)" using assms(4) by (auto simp: w1_def)
  ultimately show "edited w A a p pg n bm w1" using l h by (auto simp: edited_def)
qed

lemma edited_relinked:
  assumes "edited w A a p pg n bm w1" and "fw_arenas w1 A = Some a" and "relinked w1 A a w2"
  shows "edited w A a p pg n bm w2"
  using assms by (auto simp: edited_def relinked_def)

subsection \<open>Taking a block\<close>

definition taken :: "fsb_world \<Rightarrow> u64 \<Rightarrow> fsb_arena \<Rightarrow> u64 \<Rightarrow> fsba_page \<Rightarrow> nat \<Rightarrow> fsb_world \<Rightarrow> bool" where
  "taken w A a p pg k w' \<longleftrightarrow> (\<exists>n bm. edited w A a p pg n bm w' \<and> bits_of bm = insert k (bits_of (fp_bitmap pg)) \<and>
     fpage_ok a (with_blocks n bm pg))"

lemma lowest_free:
  assumes "fpage_ok a pg" and "fits_page ps a" and "0 < fp_num_free pg"
  obtains j b where "find_clear (fp_bitmap pg) (fa_bitmap_size a) 0 = Inr (Some (j, b))"
    and "unat j < unat (fa_bitmap_size a)" and "unat b < 64"
    and "64 * unat j + unat b < unat (fa_blocks_per_page a)"
    and "64 * unat j + unat b \<notin> bits_of (fp_bitmap pg)" and "{..< 64 * unat j + unat b} \<subseteq> bits_of (fp_bitmap pg)"
proof -
  let ?bpp = "unat (fa_blocks_per_page a)"
  have "\<not> {..< ?bpp} \<subseteq> bits_of (fp_bitmap pg)"
    using card_mono [OF finite_bits [of "fp_bitmap pg"], of "{..< ?bpp}"] assms(1,3)
    by (auto simp: fpage_ok_def word_less_nat_alt)
  then obtain k where k: "k < ?bpp" "\<not> bit_at (fp_bitmap pg) k" by (auto simp: bits_of_def)
  have "k < 64 * unat (fa_bitmap_size a)" using k(1) assms(2) by (simp add: fits_page_def)
  from find_clear_ok [OF _ _ this k(2), of 0] assms(1) obtain j b where
    f: "find_clear (fp_bitmap pg) (fa_bitmap_size a) 0 = Inr (Some (j, b))" "unat j < unat (fa_bitmap_size a)"
      "unat b < 64" "\<not> bit_at (fp_bitmap pg) (64 * unat j + unat b)"
    and all: "\<forall>m. 64 * unat (0 :: u32) \<le> m \<and> m < 64 * unat j + unat b \<longrightarrow> bit_at (fp_bitmap pg) m"
    by (auto simp: fpage_ok_def)
  have "64 * unat j + unat b \<le> k" using all k(2) by (simp add: not_less [symmetric]) blast
  then show thesis using that [OF f(1-3)] f(4) all k(1) by (auto simp: bits_of_def)
qed

lemma block_address:
  assumes "fits_page ps a" and "unat p + unat ps \<le> 2 ^ 64"
    and "k = 64 * unat j + unat b" and "k < unat (fa_blocks_per_page a)"
  shows "unat (p + ucast (fsb_header_size (fa_bitmap_size a) (fa_block_size a)) +
    ucast ((j * WORD_WIDTH + b) * fa_block_size a)) = block_addr a p k"
proof -
  have ins: "block_addr a p k + unat (fa_block_size a) \<le> unat p + unat ps" by (rule block_inside [OF assms(1,4)])
  have bs: "0 < unat (fa_block_size a)" using assms(1) by (simp add: fits_page_def word_less_nat_alt)
  have kb: "k * unat (fa_block_size a) < unat ps" using ins bs by (simp add: block_addr_def)
  have jw: "unat (j * WORD_WIDTH) = 64 * unat j"
    using assms(3,4) unat_u32_bound [of "fa_blocks_per_page a"]
    by (subst unat_mult_exact) (simp_all add: WORD_WIDTH_def)
  have jb: "unat (j * WORD_WIDTH + b) = k"
    using assms(3,4) jw unat_u32_bound [of "fa_blocks_per_page a"] by (subst unat_add_exact) simp_all
  have m: "unat ((j * WORD_WIDTH + b) * fa_block_size a) = k * unat (fa_block_size a)"
    using jb kb unat_u32_bound [of ps] by (subst unat_mult_exact) simp_all
  have h: "unat (p + ucast (fsb_header_size (fa_bitmap_size a) (fa_block_size a))) =
      unat p + unat (fsb_header_size (fa_bitmap_size a) (fa_block_size a))"
    using ins bs assms(2) by (subst unat_add_exact) (simp_all add: block_addr_def)
  show ?thesis using ins bs assms(2) h m by (subst unat_add_exact) (simp_all add: block_addr_def)
qed

lemma block_on_page_ok:
  assumes "linked w" and "fw_arenas w A = Some a" and "heads_ok w a" and pg: "fw_pages w p = Some pg"
    and "fpage_ok a pg" and "fits_page ps a" and "0 < fp_num_free pg" and "unat p + unat ps \<le> 2 ^ 64"
  shows "\<exists>w' b k. block_on_page w A p = Inr (w', b) \<and> unat b = block_addr a p k \<and>
    k < unat (fa_blocks_per_page a) \<and> k \<notin> bits_of (fp_bitmap pg) \<and> {..<k} \<subseteq> bits_of (fp_bitmap pg) \<and>
    taken w A a p pg k w' \<and> (fp_num_free pg \<noteq> 1 \<longrightarrow> fw_arenas w' = fw_arenas w)"
proof -
  obtain j b where f: "find_clear (fp_bitmap pg) (fa_bitmap_size a) 0 = Inr (Some (j, b))"
    "unat j < unat (fa_bitmap_size a)" "unat b < 64" and kb: "64 * unat j + unat b < unat (fa_blocks_per_page a)"
    and kf: "64 * unat j + unat b \<notin> bits_of (fp_bitmap pg)" "{..< 64 * unat j + unat b} \<subseteq> bits_of (fp_bitmap pg)"
    by (rule lowest_free [OF assms(5-7)])
  define k where "k = 64 * unat j + unat b"
  define bm where "bm = (fp_bitmap pg)[unat j := fp_bitmap pg ! unat j OR push_bit (unat b) 1]"
  define w1 where "w1 = w\<lparr>fw_pages := (fw_pages w)(p \<mapsto> with_blocks (fp_num_free pg - 1) bm pg)\<rparr>"
  have bits: "bits_of bm = insert k (bits_of (fp_bitmap pg))"
    unfolding bm_def k_def by (rule set_one_bit) (use f assms(5) in \<open>simp_all add: fpage_ok_def\<close>)
  have n: "unat (fp_num_free pg - 1) = unat (fp_num_free pg) - 1"
    using assms(7) by (subst unat_sub_exact) (simp_all add: word_less_nat_alt)
  have ok: "fpage_ok a (with_blocks (fp_num_free pg - 1) bm pg)"
    using assms(5,7) kf(1) kb n finite_bits [of "fp_bitmap pg"]
    by (simp add: fpage_ok_def with_blocks_def bits word_less_nat_alt k_def [symmetric]) (simp add: bm_def)
  note E = edit_page [OF assms(1,3) pg assms(2) w1_def]
  have a1: "fw_arenas w1 A = Some a" "fw_pages w1 p = Some (with_blocks (fp_num_free pg - 1) bm pg)"
    using assms(2) by (simp_all add: w1_def)
  obtain w2 where w2: "(if fp_num_free pg - 1 = 0
      then bindE (fsb_delete_from_list w1 A Avail p) (\<lambda>w. fsb_add_to_list w A Full p) else Inr w1) = Inr w2"
    "edited w A a p pg (fp_num_free pg - 1) bm w2" "fp_num_free pg \<noteq> 1 \<longrightarrow> w2 = w1"
  proof (cases "fp_num_free pg = 1")
    case True
    obtain w2 where "bindE (fsb_delete_from_list w1 A Avail p) (\<lambda>w. fsb_add_to_list w A Full p) = Inr w2"
      "relinked w1 A a w2"
      using move_relinks [OF E(1) a1(1) E(2), of p Avail Full] a1(2) by blast
    then show thesis using True edited_relinked [OF E(3) a1(1)] by (intro that [of w2]) simp_all
  next
    case False
    then show thesis using E(3) by (intro that [of w1]) simp_all
  qed
  have "block_on_page w A p = Inr (w2, p + ucast (fsb_header_size (fa_bitmap_size a) (fa_block_size a)) +
      ucast ((j * WORD_WIDTH + b) * fa_block_size a))"
    using assms(2) pg f(1) w2(1)
    by (cases "fp_num_free pg - 1 = 0") (simp_all add: block_on_page_def read_arena_def read_fpage_def upd_fpage_def
      Let_def w1_def bm_def with_blocks_def bindE_assoc [symmetric] del: right_minus_eq)
  moreover have "taken w A a p pg k w2" unfolding taken_def using w2(2) bits ok by blast
  moreover have "fp_num_free pg \<noteq> 1 \<longrightarrow> fw_arenas w2 = fw_arenas w" using w2(3) by (simp add: w1_def)
  ultimately show ?thesis
    using block_address [OF assms(6,8) k_def] kb kf by (auto simp: k_def)
qed

subsection \<open>The state of an arena\<close>

text \<open>
  The abstract state of an arena is the set of its allocated blocks, each named by its page and its place there.
\<close>

definition allocated :: "fsb_world \<Rightarrow> u64 \<Rightarrow> (u64 \<times> nat) set" where
  "allocated w A = {(p, k). \<exists>pg. fw_pages w p = Some pg \<and> fp_arena pg = A \<and> k \<in> bits_of (fp_bitmap pg)}"

definition page_place :: "u32 \<Rightarrow> u64 \<Rightarrow> bool" where
  "page_place ps p \<longleftrightarrow> p \<noteq> 0 \<and> unat ps dvd unat p \<and> unat p + unat ps \<le> 2 ^ 64"

definition fsb_good :: "u32 \<Rightarrow> fsb_world \<Rightarrow> u64 \<Rightarrow> fsb_arena \<Rightarrow> bool" where
  "fsb_good ps w A a \<longleftrightarrow> linked w \<and> fw_arenas w A = Some a \<and> heads_ok w a \<and> fits_page ps a \<and>
     (\<forall>p pg. fw_pages w p = Some pg \<longrightarrow> page_place ps p \<and> (fp_arena pg = A \<longrightarrow> fpage_ok a pg))"

lemma fsb_goodD:
  assumes "fsb_good ps w A a"
  shows "linked w" "fw_arenas w A = Some a" "heads_ok w a" "fits_page ps a"
    and "fw_pages w p = Some pg \<Longrightarrow> page_place ps p"
    and "fw_pages w p = Some pg \<Longrightarrow> fp_arena pg = A \<Longrightarrow> fpage_ok a pg"
  using assms by (auto simp: fsb_good_def)

lemma layout_facts:
  assumes "layout a' = layout a"
  shows "fits_page ps a' = fits_page ps a" and "fpage_ok a' pg = fpage_ok a pg" and "block_addr a' p k = block_addr a p k"
    and "fa_blocks_per_page a' = fa_blocks_per_page a"
  using assms by (simp_all add: layout_def fits_page_def fpage_ok_def block_addr_def)

lemma allocated_body: "(p, k) \<in> allocated w A \<longleftrightarrow> (\<exists>n bm. body w p = Some (A, n, bm) \<and> k \<in> bits_of bm)"
  by (auto simp: allocated_def body_def)

lemma allocated_eqI: "body w' = body w \<Longrightarrow> allocated w' A = allocated w A"
  by (auto simp: allocated_body)

lemma fpage_ok_body:
  assumes "body w' q = Some (fp_arena pg, fp_num_free pg, fp_bitmap pg)" and "fw_pages w' q = Some pg'"
  shows "fpage_ok a pg' = fpage_ok a pg" and "fp_arena pg' = fp_arena pg"
  using assms by (auto simp: body_def fpage_ok_def)

lemma edited_good:
  assumes "fsb_good ps w A a" and "fw_pages w p = Some pg" and "edited w A a p pg n bm w'"
    and "fpage_ok a (with_blocks n bm pg)"
  shows "\<exists>a'. fsb_good ps w' A a' \<and> layout a' = layout a"
proof -
  note E = assms(3) [unfolded edited_def]
  obtain a' where a': "fw_arenas w' = (fw_arenas w)(A \<mapsto> a')" "layout a' = layout a" "heads_ok w' a'" using E by blast
  have "page_place ps q \<and> (fp_arena qg = A \<longrightarrow> fpage_ok a qg)" if q: "fw_pages w' q = Some qg" for q qg
  proof (cases "q = p")
    case True
    then show ?thesis
      using E q fsb_goodD(5) [OF assms(1,2)] fpage_ok_body(1) [of w' q "with_blocks n bm pg" qg a]
        fpage_ok_body(2) [of w' q "with_blocks n bm pg" qg] assms(4)
      by (simp add: with_blocks_def)
  next
    case False
    then have b: "body w' q = body w q" using E by simp
    then obtain rg where r: "fw_pages w q = Some rg" using q by (cases "fw_pages w q") (auto simp: body_def)
    then show ?thesis
      using b q fpage_ok_body(1) [of w' q rg qg a] fpage_ok_body(2) [of w' q rg qg] fsb_goodD(5,6) [OF assms(1) r] by (simp add: body_def)
  qed
  moreover have "linked w'" using E by blast
  ultimately have "fsb_good ps w' A a'"
    using a' fsb_goodD(4) [OF assms(1)] unfolding fsb_good_def layout_facts(1,2) [OF a'(2)] by simp
  with a'(2) show ?thesis by blast
qed

lemma edited_allocated:
  assumes "edited w A a p pg n bm w'" and "fp_arena pg = A"
  shows "(q, k) \<in> allocated w' A \<longleftrightarrow> (if q = p then k \<in> bits_of bm else (q, k) \<in> allocated w A)"
  using assms by (auto simp: edited_def allocated_body)

subsection \<open>Allocation\<close>

text \<open>The page an allocation works on is the first one with free blocks, or a fresh one.\<close>

definition page_used :: "(fsb_world \<Rightarrow> u64) \<Rightarrow> fsb_world \<Rightarrow> fsb_arena \<Rightarrow> u64" where
  "page_used mm w a = (if fa_avail_pages a \<noteq> 0 then fa_avail_pages a else mm w)"

definition avail_ok :: "fsb_world \<Rightarrow> u64 \<Rightarrow> fsb_arena \<Rightarrow> bool" where
  "avail_ok w A a \<longleftrightarrow> fa_avail_pages a \<noteq> 0 \<longrightarrow>
     (\<exists>pg. fw_pages w (fa_avail_pages a) = Some pg \<and> fp_arena pg = A \<and> 0 < fp_num_free pg)"

definition fsb_mmap_ok :: "u32 \<Rightarrow> (fsb_world \<Rightarrow> u64) \<Rightarrow> fsb_world \<Rightarrow> bool" where
  "fsb_mmap_ok ps mm w \<longleftrightarrow> mm w \<noteq> 0 \<longrightarrow> fw_pages w (mm w) = None \<and> page_place ps (mm w)"

lemma bits_of_zeros: "bits_of (replicate n 0) = {}"
  by (auto simp: bits_of_def bit_at_def)

lemma fresh_page:
  assumes "fsb_good ps w A a" and "fa_avail_pages a = 0" and "mm w \<noteq> 0" and "fsb_mmap_ok ps mm w"
  shows "\<exists>w' a' pg. page_for_block mm w A = Inr (w', mm w) \<and> fsb_good ps w' A a' \<and> layout a' = layout a \<and>
    fa_avail_pages a' = mm w \<and> fw_pages w' (mm w) = Some pg \<and> fp_arena pg = A \<and> 0 < fp_num_free pg \<and>
    fp_num_free pg = fa_blocks_per_page a \<and> allocated w' A = allocated w A"
proof -
  let ?p = "mm w"
  define pg where "pg = \<lparr>fp_arena = A, fp_next = ?p, fp_prev = ?p, fp_num_free = fa_blocks_per_page a,
    fp_bitmap = replicate (unat (fa_bitmap_size a)) 0\<rparr>"
  define a' where "a' = with_head Avail ?p a"
  define w' where "w' = w\<lparr>fw_pages := (fw_pages w)(?p \<mapsto> pg), fw_arenas := (fw_arenas w)(A \<mapsto> a')\<rparr>"
  have new: "fw_pages w ?p = None" "page_place ps ?p" using assms(3,4) by (auto simp: fsb_mmap_ok_def)
  note G = fsb_goodD [OF assms(1)]
  have lay: "layout a' = layout a" by (simp add: a'_def del: with_head.simps)
  have "page_for_block mm w A = Inr (w', ?p)"
    using assms(2,3) G(2)
    by (simp add: page_for_block_def read_arena_def Let_def fsb_add_to_list_def upd_fpage_def read_fpage_def
        set_list_head_def w'_def a'_def pg_def)
  moreover have "fsb_good ps w' A a'"
  proof -
    have "linked w'" using G(1) new(1) unfolding linked_def w'_def by (auto simp: pg_def)
    moreover have "heads_ok w' a'" using G(3) by (auto simp: heads_ok_def w'_def a'_def list_head_with_head simp del: with_head.simps)
    moreover have "fpage_ok a pg" using G(4) by (simp add: fpage_ok_def pg_def bits_of_zeros)
    moreover have "page_place ps q \<and> (fp_arena qg = A \<longrightarrow> fpage_ok a qg)" if "fw_pages w' q = Some qg" for q qg
      using that G(5,6) [of q qg] new(2) calculation(3) by (cases "q = ?p") (simp_all add: w'_def)
    ultimately show ?thesis using G(4) unfolding fsb_good_def layout_facts(1,2) [OF lay] by (simp add: w'_def)
  qed
  moreover have "allocated w' A = allocated w A"
    using new(1) by (auto simp: allocated_def w'_def pg_def bits_of_zeros split: if_splits)
      (metis (no_types) bits_of_zeros empty_iff fsba_page.select_convs(5))
  ultimately show ?thesis using G(4)
    by (intro exI [of _ w'] exI [of _ a'] exI [of _ pg]) (simp add: w'_def pg_def a'_def fits_page_def layout_def)
qed

definition block_placed :: "u32 \<Rightarrow> fsb_world \<Rightarrow> u64 \<Rightarrow> fsb_arena \<Rightarrow> u64 \<Rightarrow> nat \<Rightarrow> fsb_world \<Rightarrow> u64 \<Rightarrow> fsb_arena \<Rightarrow> bool" where
  "block_placed ps w A a p k w' b a' \<longleftrightarrow> unat b = block_addr a p k \<and> k < unat (fa_blocks_per_page a) \<and>
     (p, k) \<notin> allocated w A \<and> (\<forall>i<k. (p, i) \<in> allocated w A) \<and> allocated w' A = insert (p, k) (allocated w A) \<and>
     fsb_good ps w' A a' \<and> layout a' = layout a"

lemma allocate_on_page:
  assumes "fsb_good ps w A a" and "fw_pages w p = Some pg" and "fp_arena pg = A" and "0 < fp_num_free pg"
  shows "\<exists>w' b k a'. block_on_page w A p = Inr (w', b) \<and> block_placed ps w A a p k w' b a' \<and>
    (fp_num_free pg \<noteq> 1 \<longrightarrow> a' = a)"
proof -
  note G = fsb_goodD [OF assms(1)]
  have place: "unat p + unat ps \<le> 2 ^ 64" using G(5) [OF assms(2)] by (simp add: page_place_def)
  obtain w' b k where b: "block_on_page w A p = Inr (w', b)" "unat b = block_addr a p k"
    "k < unat (fa_blocks_per_page a)" "k \<notin> bits_of (fp_bitmap pg)" "{..<k} \<subseteq> bits_of (fp_bitmap pg)"
    "taken w A a p pg k w'" "fp_num_free pg \<noteq> 1 \<longrightarrow> fw_arenas w' = fw_arenas w"
    using block_on_page_ok [OF G(1-3) assms(2) G(6) [OF assms(2,3)] G(4) assms(4) place] by blast
  obtain n bm where t: "edited w A a p pg n bm w'" "bits_of bm = insert k (bits_of (fp_bitmap pg))"
    "fpage_ok a (with_blocks n bm pg)" using b(6) by (auto simp: taken_def)
  obtain a' where a': "fsb_good ps w' A a'" "layout a' = layout a" using edited_good [OF assms(1,2) t(1,3)] by blast
  have here: "(p, i) \<in> allocated w A \<longleftrightarrow> i \<in> bits_of (fp_bitmap pg)" for i using assms(2,3) by (simp add: allocated_def)
  have "x \<in> allocated w' A \<longleftrightarrow> x \<in> insert (p, k) (allocated w A)" for x
    using edited_allocated [OF t(1) assms(3)] t(2) here by (cases x) simp
  then have "allocated w' A = insert (p, k) (allocated w A)" by blast
  moreover have "\<forall>i<k. (p, i) \<in> allocated w A" using b(5) here by blast
  ultimately have "block_placed ps w A a p k w' b a'" using b(2-4) here a' by (simp add: block_placed_def)
  moreover have "fp_num_free pg \<noteq> 1 \<longrightarrow> a' = a" using b(7) fsb_goodD(2) [OF a'(1)] G(2) by auto
  ultimately show ?thesis using b(1) by blast
qed

lemma fsb_allocate_ok:
  assumes "fsb_good ps w A a" and "avail_ok w A a" and "fsb_mmap_ok ps mm w" and "page_used mm w a \<noteq> 0"
  shows "\<exists>w' b k a'. fsb_arena_allocate mm w A = Inr (w', b) \<and> block_placed ps w A a (page_used mm w a) k w' b a' \<and>
    ((\<forall>i. (page_used mm w a, i) \<notin> allocated w A) \<longrightarrow> 1 < fa_blocks_per_page a \<longrightarrow> fa_avail_pages a' \<noteq> 0)"
proof (cases "fa_avail_pages a = 0")
  case False
  then obtain pg where pg: "fw_pages w (fa_avail_pages a) = Some pg" "fp_arena pg = A" "0 < fp_num_free pg"
    using assms(2) by (auto simp: avail_ok_def)
  have n: "fp_num_free pg = fa_blocks_per_page a" if "\<forall>i. (fa_avail_pages a, i) \<notin> allocated w A"
  proof -
    have "bits_of (fp_bitmap pg) = {}" using that pg(1,2) by (auto simp: allocated_def)
    then show ?thesis using fsb_goodD(6) [OF assms(1) pg(1,2)] by (simp add: fpage_ok_def unat_eq_iff)
  qed
  have e: "fsb_arena_allocate mm w A = block_on_page w A (fa_avail_pages a)"
    using False fsb_goodD(2) [OF assms(1)] by (simp add: fsb_arena_allocate_def page_for_block_def read_arena_def)
  have p: "page_used mm w a = fa_avail_pages a" using False by (simp add: page_used_def)
  obtain w' b k a' where b: "block_on_page w A (fa_avail_pages a) = Inr (w', b)"
    "block_placed ps w A a (fa_avail_pages a) k w' b a'" "fp_num_free pg \<noteq> 1 \<longrightarrow> a' = a"
    using allocate_on_page [OF assms(1) pg] by blast
  show ?thesis unfolding e p
    by (intro exI [of _ w'] exI [of _ b] exI [of _ k] exI [of _ a']) (use b n False in auto)
next
  case True
  then have p: "page_used mm w a = mm w" "mm w \<noteq> 0" using assms(4) by (auto simp: page_used_def)
  obtain w1 a1 pg where w1: "page_for_block mm w A = Inr (w1, mm w)" "fsb_good ps w1 A a1" "layout a1 = layout a"
    "fa_avail_pages a1 = mm w" "fw_pages w1 (mm w) = Some pg" "fp_arena pg = A" "0 < fp_num_free pg"
    "fp_num_free pg = fa_blocks_per_page a" "allocated w1 A = allocated w A"
    using fresh_page [where mm = mm, OF assms(1) True p(2) assms(3)] by blast
  have e: "fsb_arena_allocate mm w A = block_on_page w1 A (mm w)"
    using w1(1) p(2) by (simp add: fsb_arena_allocate_def)
  obtain w' b k a' where b: "block_on_page w1 A (mm w) = Inr (w', b)"
    "block_placed ps w1 A a1 (mm w) k w' b a'" "fp_num_free pg \<noteq> 1 \<longrightarrow> a' = a1"
    using allocate_on_page [OF w1(2,5-7)] by blast
  have "block_placed ps w A a (mm w) k w' b a'"
    using b(2) w1(3,9) layout_facts(3,4) [OF w1(3)] by (simp add: block_placed_def)
  then show ?thesis unfolding e p(1)
    by (intro exI [of _ w'] exI [of _ b] exI [of _ k] exI [of _ a']) (use b w1(4,8) p(2) in auto)
qed

text \<open>
  C26. \<open>fsb_arena_allocate\<close> takes its block from the first page with free blocks, or from a fresh page when
  there is none. The block is the lowest free one of that page and lies behind the header; the set of
  allocated blocks grows by exactly this one, and the state of the arena stays consistent.
\<close>

theorem fsb_allocate_takes_lowest:
  assumes "fsb_good ps w A a" and "avail_ok w A a" and "fsb_mmap_ok ps mm w" and "page_used mm w a \<noteq> 0"
  shows "\<exists>w' b k a'. fsb_arena_allocate mm w A = Inr (w', b) \<and> unat b = block_addr a (page_used mm w a) k \<and>
    k < unat (fa_blocks_per_page a) \<and> (page_used mm w a, k) \<notin> allocated w A \<and>
    (\<forall>i<k. (page_used mm w a, i) \<in> allocated w A) \<and>
    allocated w' A = insert (page_used mm w a, k) (allocated w A) \<and> fsb_good ps w' A a' \<and> layout a' = layout a"
  using fsb_allocate_ok [OF assms] unfolding block_placed_def by blast

subsection \<open>Release\<close>

lemma page_of_address:
  assumes "unat ps = 2 ^ n" and "n < 32" and "page_place ps p" and "unat p \<le> unat b" and "unat b < unat p + unat ps"
  shows "b AND NOT (ucast (ps - 1)) = p"
proof -
  have m: "(ucast (ps - 1) :: u64) = mask n"
    using pow2_minus_1_eq_mask [OF assms(1)] assms(2)
    by (intro word_unat_eq_iff [THEN iffD2]) (simp add: unat_mask)
  obtain q where q: "unat p = 2 ^ n * q" using assms(1,3) by (auto simp: page_place_def)
  have "unat b div 2 ^ n = q"
    using assms(1,4,5) q by (intro div_nat_eqI) simp_all
  then show ?thesis unfolding m by (intro word_unat_eq_iff [THEN iffD2]) (simp add: unat_and_not_mask q)
qed

lemma index_of_address:
  assumes "fits_page ps a" and "k < unat (fa_blocks_per_page a)" and "unat b = block_addr a p k"
  shows "(ucast (b - p) - fsb_header_size (fa_bitmap_size a) (fa_block_size a)) div fa_block_size a = of_nat k"
    and "unat (of_nat k :: u32) = k"
proof -
  let ?h = "unat (fsb_header_size (fa_bitmap_size a) (fa_block_size a))"
  have ins: "block_addr a p k + unat (fa_block_size a) \<le> unat p + unat ps" by (rule block_inside [OF assms(1,2)])
  have bs: "0 < unat (fa_block_size a)" using assms(1) by (simp add: fits_page_def word_less_nat_alt)
  have d: "unat (b - p) = ?h + k * unat (fa_block_size a)" using assms(3) by (simp add: unat_sub_exact block_addr_def)
  have lt: "?h + k * unat (fa_block_size a) < 2 ^ 32"
    using ins bs unat_u32_bound [of ps] by (simp add: block_addr_def)
  have o: "unat (ucast (b - p) :: u32) = ?h + k * unat (fa_block_size a)"
    using d lt by (simp add: unsigned_ucast_eq take_bit_nat_eq_self)
  show k: "unat (of_nat k :: u32) = k"
    using assms(2) unat_u32_bound [of "fa_blocks_per_page a"] by (simp add: unat_of_nat take_bit_nat_eq_self)
  show "(ucast (b - p) - fsb_header_size (fa_bitmap_size a) (fa_block_size a)) div fa_block_size a = of_nat k"
    using o bs by (intro word_unat_eq_iff [THEN iffD2]) (simp add: unat_div unat_sub_exact k)
qed

text \<open>The bitmap and the counter of a page whose block \<open>k\<close> is released.\<close>

definition bitmap_without :: "nat \<Rightarrow> u64 list \<Rightarrow> u64 list" where
  "bitmap_without k bm = bm[k div 64 := bm ! (k div 64) AND NOT (push_bit (k mod 64) 1)]"

lemma bitmap_without_ok:
  assumes "fpage_ok a pg" and "fits_page ps a" and "k \<in> bits_of (fp_bitmap pg)"
  shows "bits_of (bitmap_without k (fp_bitmap pg)) = bits_of (fp_bitmap pg) - {k}"
    and "fpage_ok a (with_blocks (fp_num_free pg + 1) (bitmap_without k (fp_bitmap pg)) pg)"
    and "fp_num_free pg + 1 = fa_blocks_per_page a \<longleftrightarrow> bits_of (fp_bitmap pg) = {k}"
    and "k div 64 < length (fp_bitmap pg)"
proof -
  have k: "k < 64 * length (fp_bitmap pg)" using assms(3) bit_at_less by (auto simp: bits_of_def)
  then show l: "k div 64 < length (fp_bitmap pg)" by simp
  show b: "bits_of (bitmap_without k (fp_bitmap pg)) = bits_of (fp_bitmap pg) - {k}"
    unfolding bitmap_without_def using clear_one_bit [OF l, of "k mod 64"] by simp
  have c: "card (bits_of (fp_bitmap pg)) = Suc (card (bits_of (fp_bitmap pg) - {k}))"
    using card.remove [OF finite_bits assms(3)] .
  have n: "unat (fp_num_free pg + 1) = unat (fp_num_free pg) + 1"
    using assms(1) c unat_u32_bound [of "fa_blocks_per_page a"] by (subst unat_add_exact) (auto simp: fpage_ok_def)
  show "fpage_ok a (with_blocks (fp_num_free pg + 1) (bitmap_without k (fp_bitmap pg)) pg)"
    using assms(1) c n by (auto simp: fpage_ok_def with_blocks_def b) (simp add: bitmap_without_def)
  have "fp_num_free pg + 1 = fa_blocks_per_page a \<longleftrightarrow> card (bits_of (fp_bitmap pg) - {k}) = 0"
    using assms(1) c n by (auto simp: fpage_ok_def unat_eq_iff)
  also have "\<dots> \<longleftrightarrow> bits_of (fp_bitmap pg) - {k} = {}" by (rule card_0_eq) (simp add: finite_bits)
  also have "\<dots> \<longleftrightarrow> bits_of (fp_bitmap pg) = {k}" using assms(3) by blast
  finally show "fp_num_free pg + 1 = fa_blocks_per_page a \<longleftrightarrow> bits_of (fp_bitmap pg) = {k}" .
qed

text \<open>What remains of a release once the page and the bit are found.\<close>

definition give_back :: "fsb_world \<Rightarrow> u64 \<Rightarrow> fsb_arena \<Rightarrow> u64 \<Rightarrow> u32 \<Rightarrow> fsb_world res" where
  "give_back w A a p num_free =
     (if num_free = fa_blocks_per_page a
      then bindE (read_fpage w (fa_avail_pages a)) (\<lambda>first.
           if fp_next first \<noteq> fp_prev first
           then bindE (fsb_delete_from_list w A Avail p) (\<lambda>w. Inr (free_page w p))
           else Inr w)
      else if num_free = 1
      then bindE (fsb_delete_from_list w A Full p) (\<lambda>w. fsb_add_to_list w A Avail p)
      else Inr w)"

lemma release_finds_block:
  assumes "fsb_good ps w A a" and "fw_pages w p = Some pg" and "fp_arena pg = A" and "k \<in> bits_of (fp_bitmap pg)"
    and "unat block = block_addr a p k" and "unat ps = 2 ^ n" and "n < 32"
    and "w1 = w\<lparr>fw_pages := (fw_pages w)(p \<mapsto>
      with_blocks (fp_num_free pg + 1) (bitmap_without k (fp_bitmap pg)) pg)\<rparr>"
  shows "fsb_arena_release ps w block =
    bindE (give_back w1 A a p (fp_num_free pg + 1)) (\<lambda>w. Inr (w, 0))"
proof -
  note G = fsb_goodD [OF assms(1)]
  have ok: "fpage_ok a pg" by (rule G(6) [OF assms(2,3)])
  then have kb: "k < unat (fa_blocks_per_page a)" using assms(4) by (auto simp: fpage_ok_def)
  note B = bitmap_without_ok [OF ok G(4) assms(4)]
  note ins = block_inside [OF G(4) kb, of p]
  have bs: "0 < fa_block_size a" using G(4) by (simp add: fits_page_def)
  then have bs': "0 < unat (fa_block_size a)" by (simp add: word_less_nat_alt)
  have page: "block AND NOT (ucast (ps - 1)) = p"
    using ins bs' assms(5) by (intro page_of_address [OF assms(6,7) G(5) [OF assms(2)]]) simp_all
  note I = index_of_address [OF G(4) kb assms(5)]
  have "block \<noteq> 0" using ins(1) assms(5) by (auto simp: unat_eq_iff)
  moreover have "unat ((of_nat k :: u32) div WORD_WIDTH) = k div 64"
    by (simp add: unat_div I(2) WORD_WIDTH_def)
  moreover have "unat ((of_nat k :: u32) AND (WORD_WIDTH - 1)) = k mod 64"
    using unat_and_63 [of "of_nat k"] by (simp add: I(2) WORD_WIDTH_def)
  ultimately have "fsb_arena_release ps w block =
      bindE (upd_fpage w p (\<lambda>pg'. pg'\<lparr>fp_bitmap := bitmap_without k (fp_bitmap pg)\<rparr>)) (\<lambda>w.
      bindE (upd_fpage w p (\<lambda>pg. pg\<lparr>fp_num_free := fp_num_free pg + 1\<rparr>)) (\<lambda>w.
      bindE (read_fpage w p) (\<lambda>pg'. bindE (give_back w (fp_arena pg) a p (fp_num_free pg')) (\<lambda>w. Inr (w, 0)))))"
    using assms(2) G(2) [folded assms(3)] word_gt_0 [THEN iffD1, OF bs] B(4)
    by (simp add: fsb_arena_release_def Let_def page read_fpage_def [of w p] read_arena_def I(1) upd_word_def
        bitmap_without_def give_back_def)
  then show ?thesis using assms(2,3) by (simp add: upd_fpage_def read_fpage_def with_blocks_def assms(8))
qed

lemma relinked_refl: "linked w \<Longrightarrow> fw_arenas w A = Some a \<Longrightarrow> heads_ok w a \<Longrightarrow> relinked w A a w"
  by (auto simp: relinked_def fun_upd_idem intro: exI [of _ a])

text \<open>
  The page goes back to the kernel only when all its blocks are free and the list has another page; if the
  list of pages with free blocks is empty then, the code reads a null pointer.
\<close>

lemma give_back_ok:
  assumes "linked w" and "fw_arenas w A = Some a" and "heads_ok w a" and "fw_pages w p = Some pg"
    and "num_free = fa_blocks_per_page a \<Longrightarrow> fa_avail_pages a \<noteq> 0"
  shows "\<exists>w'. give_back w A a p num_free = Inr w' \<and>
    (relinked w A a w' \<or> num_free = fa_blocks_per_page a \<and> body w' = (body w)(p := None))"
proof (cases "num_free = fa_blocks_per_page a")
  case False
  note r = relinked_refl [OF assms(1-3)]
  show ?thesis
  proof (cases "num_free = 1")
    case True
    then show ?thesis
      using False move_relinks [OF assms(1-3), of p Full Avail] assms(4) by (auto simp: give_back_def)
  next
    case other: False
    then show ?thesis using False r by (simp add: give_back_def)
  qed
next
  case True
  obtain first where f: "fw_pages w (fa_avail_pages a) = Some first"
    using assms(3,5) True by (metis heads_ok_def list_head.simps(1) not_None_eq)
  show ?thesis
  proof (cases "fp_next first = fp_prev first")
    case only: True
    then have "give_back w A a p num_free = Inr w" using True f by (simp add: give_back_def read_fpage_def)
    then show ?thesis using relinked_refl [OF assms(1-3)] by blast
  next
    case more: False
    obtain w1 where w1: "fsb_delete_from_list w A Avail p = Inr w1" "relinked w A a w1"
      using delete_relinks [OF assms(1-4)] by blast
    have "give_back w A a p num_free = Inr (free_page w1 p)"
      using True more f w1(1) by (simp add: give_back_def read_fpage_def)
    moreover have "body (free_page w1 p) = (body w)(p := None)"
      using w1(2) by (auto simp: relinked_def free_page_def body_def fun_eq_iff)
    ultimately show ?thesis using True by blast
  qed
qed

lemma fsb_release_ok:
  assumes "fsb_good ps w A a" and "fw_pages w p = Some pg" and "fp_arena pg = A" and "(p, k) \<in> allocated w A"
    and "unat block = block_addr a p k" and "unat ps = 2 ^ n" and "n < 32"
    and "{i. (p, i) \<in> allocated w A} = {k} \<Longrightarrow> fa_avail_pages a \<noteq> 0"
  shows "\<exists>w'. fsb_arena_release ps w block = Inr (w', 0) \<and> allocated w' A = allocated w A - {(p, k)} \<and>
    ((\<exists>a'. fsb_good ps w' A a' \<and> layout a' = layout a) \<or>
     {i. (p, i) \<in> allocated w A} = {k} \<and> body w' = (body w)(p := None))"
proof -
  note G = fsb_goodD [OF assms(1)]
  have k: "k \<in> bits_of (fp_bitmap pg)" and bits: "{i. (p, i) \<in> allocated w A} = bits_of (fp_bitmap pg)"
    using assms(2-4) by (auto simp: allocated_def)
  define bm where "bm = bitmap_without k (fp_bitmap pg)"
  define w1 where "w1 = w\<lparr>fw_pages := (fw_pages w)(p \<mapsto> with_blocks (fp_num_free pg + 1) bm pg)\<rparr>"
  note B = bitmap_without_ok [OF G(6) [OF assms(2,3)] G(4) k, folded bm_def]
  note E = edit_page [OF G(1,3) assms(2) G(2) w1_def]
  have w1: "fw_arenas w1 A = Some a" "fw_pages w1 p = Some (with_blocks (fp_num_free pg + 1) bm pg)"
    using G(2) by (simp_all add: w1_def)
  have all1: "allocated w1 A = allocated w A - {(p, k)}"
  proof -
    have "x \<in> allocated w1 A \<longleftrightarrow> x \<in> allocated w A - {(p, k)}" for x
      using edited_allocated [OF E(3) assms(3)] B(1) bits by (cases x) auto
    then show ?thesis by blast
  qed
  have "fp_num_free pg + 1 = fa_blocks_per_page a \<Longrightarrow> fa_avail_pages a \<noteq> 0" using assms(8) B(3) bits by simp
  from give_back_ok [OF E(1) w1(1) E(2) w1(2) this] obtain w' where
    g: "give_back w1 A a p (fp_num_free pg + 1) = Inr w'"
    and cases: "relinked w1 A a w' \<or> fp_num_free pg + 1 = fa_blocks_per_page a \<and> body w' = (body w1)(p := None)"
    by blast
  have rel: "fsb_arena_release ps w block = Inr (w', 0)"
    using release_finds_block [OF assms(1-3) k assms(5-7) w1_def [unfolded bm_def]] g by simp
  from cases show ?thesis
  proof
    assume r: "relinked w1 A a w'"
    obtain a' where "fsb_good ps w' A a'" "layout a' = layout a"
      using edited_good [OF assms(1,2) edited_relinked [OF E(3) w1(1) r] B(2)] by blast
    moreover have "allocated w' A = allocated w1 A" using r by (intro allocated_eqI) (simp add: relinked_def)
    ultimately show ?thesis using rel all1 by auto
  next
    assume f: "fp_num_free pg + 1 = fa_blocks_per_page a \<and> body w' = (body w1)(p := None)"
    then have b: "body w' = (body w)(p := None)" using E(3) by (simp add: edited_def)
    have one: "bits_of (fp_bitmap pg) = {k}" using f B(3) by simp
    have "x \<in> allocated w' A \<longleftrightarrow> x \<in> allocated w A - {(p, k)}" for x
      using b one bits by (cases x) (auto simp: allocated_body)
    then have "allocated w' A = allocated w A - {(p, k)}" by blast
    then show ?thesis using rel b one bits by auto
  qed
qed

text \<open>The last block of a page when no page has free blocks: the head of their list is a null pointer.\<close>

lemma release_last_faults:
  assumes "fsb_good ps w A a" and "fw_pages w p = Some pg" and "fp_arena pg = A" and "bits_of (fp_bitmap pg) = {k}"
    and "unat block = block_addr a p k" and "unat ps = 2 ^ n" and "n < 32" and "fa_avail_pages a = 0"
  shows "fsb_arena_release ps w block = Inl Bad_Access"
proof -
  note G = fsb_goodD [OF assms(1)]
  have k: "k \<in> bits_of (fp_bitmap pg)" using assms(4) by simp
  have "fp_num_free pg + 1 = fa_blocks_per_page a"
    using bitmap_without_ok(3) [OF G(6) [OF assms(2,3)] G(4) k] assms(4) by blast
  moreover have "fw_pages w 0 = None" using G(5) [of 0] by (cases "fw_pages w 0") (auto simp: page_place_def)
  moreover have "p \<noteq> 0" using G(5) [OF assms(2)] by (simp add: page_place_def)
  ultimately show ?thesis
    using release_finds_block [OF assms(1-3) k assms(5-7) refl] assms(8) by (simp add: give_back_def read_fpage_def)
qed

text \<open>
  C27. \<open>fsb_arena_release\<close> finds the page and the place of a block from its address alone. When the arena has a
  page with free blocks or the page keeps another block, it clears the pointer and removes exactly this block
  from the allocated ones; the state of the arena stays consistent unless the page, now free, was given back
  to the kernel. Otherwise, as when a page holds a single block, it reads a null pointer.
\<close>

theorem fsb_release_removes_block:
  assumes "fsb_good ps w A a" and "(p, k) \<in> allocated w A" and "unat block = block_addr a p k"
    and "unat ps = 2 ^ n" and "n < 32"
  shows "if fa_avail_pages a \<noteq> 0 \<or> (\<exists>i. i \<noteq> k \<and> (p, i) \<in> allocated w A)
    then \<exists>w'. fsb_arena_release ps w block = Inr (w', 0) \<and> allocated w' A = allocated w A - {(p, k)} \<and>
      (fw_pages w' p \<noteq> None \<longrightarrow> (\<exists>a'. fsb_good ps w' A a' \<and> layout a' = layout a))
    else fsb_arena_release ps w block = Inl Bad_Access"
proof -
  obtain pg where pg: "fw_pages w p = Some pg" "fp_arena pg = A" using assms(2) by (auto simp: allocated_def)
  show ?thesis
  proof (cases "fa_avail_pages a \<noteq> 0 \<or> (\<exists>i. i \<noteq> k \<and> (p, i) \<in> allocated w A)")
    case True
    then have "{i. (p, i) \<in> allocated w A} = {k} \<Longrightarrow> fa_avail_pages a \<noteq> 0" by auto
    from fsb_release_ok [OF assms(1) pg assms(2-5) this] show ?thesis using True by (auto simp: body_None [symmetric])
  next
    case False
    have "bits_of (fp_bitmap pg) = {k}" using False assms(2) pg by (auto simp: allocated_def)
    from release_last_faults [OF assms(1) pg this assms(3-5)] show ?thesis using False by simp
  qed
qed

text \<open>
  When a page has room for more than one block, releasing a block right after its allocation restores
  the set of allocated blocks.
\<close>

theorem fsb_allocate_release_roundtrip:
  assumes "fsb_good ps w A a" and "avail_ok w A a" and "fsb_mmap_ok ps mm w" and "page_used mm w a \<noteq> 0"
    and "unat ps = 2 ^ n" and "n < 32" and "1 < fa_blocks_per_page a"
  shows "\<exists>w1 b w2. fsb_arena_allocate mm w A = Inr (w1, b) \<and> allocated w1 A \<noteq> allocated w A \<and>
    fsb_arena_release ps w1 b = Inr (w2, 0) \<and> allocated w2 A = allocated w A"
proof -
  let ?p = "page_used mm w a"
  obtain w1 b k a1 where al: "fsb_arena_allocate mm w A = Inr (w1, b)" "block_placed ps w A a ?p k w1 b a1"
    "(\<forall>i. (?p, i) \<notin> allocated w A) \<longrightarrow> 1 < fa_blocks_per_page a \<longrightarrow> fa_avail_pages a1 \<noteq> 0"
    using fsb_allocate_ok [OF assms(1-4)] by blast
  note P = al(2) [unfolded block_placed_def]
  have "(?p, k) \<in> allocated w1 A" using P by simp
  then obtain pg where pg: "fw_pages w1 ?p = Some pg" "fp_arena pg = A" by (auto simp: allocated_def)
  have one: "fa_avail_pages a1 \<noteq> 0" if "{i. (?p, i) \<in> allocated w1 A} = {k}"
  proof -
    have "(?p, i) \<notin> allocated w A" for i
    proof
      assume "(?p, i) \<in> allocated w A"
      moreover from this have "i = k" using that P by auto
      ultimately show False using P by simp
    qed
    then show ?thesis using al(3) assms(7) by blast
  qed
  have "unat b = block_addr a1 ?p k" using P layout_facts(3) [of a1 a] by simp
  from fsb_release_ok [OF _ pg _ this assms(5,6) one] P obtain w2 where
    "fsb_arena_release ps w1 b = Inr (w2, 0)" "allocated w2 A = allocated w1 A - {(?p, k)}" by auto
  with al(1) P show ?thesis by auto
qed

text \<open>
  When a page holds a single block, as it does for blocks of 2048 bytes on pages of 4096, every page is
  full or unused and the list of pages with free blocks is empty: \<open>fsb_arena_release\<close> reads a null pointer.
\<close>

theorem fsb_single_block_release_faults:
  assumes "fsb_good ps w A a" and "(p, k) \<in> allocated w A" and "unat block = block_addr a p k"
    and "unat ps = 2 ^ n" and "n < 32" and "fa_blocks_per_page a = 1" and "fa_avail_pages a = 0"
  shows "fsb_arena_release ps w block = Inl Bad_Access"
proof -
  note G = fsb_goodD [OF assms(1)]
  obtain pg where pg: "fw_pages w p = Some pg" "fp_arena pg = A" "k \<in> bits_of (fp_bitmap pg)"
    using assms(2) by (auto simp: allocated_def)
  have "bits_of (fp_bitmap pg) = {k}" using G(6) [OF pg(1,2)] assms(6) pg(3) by (auto simp: fpage_ok_def)
  from release_last_faults [OF assms(1) pg(1,2) this assms(3-5,7)] show ?thesis .
qed

subsection \<open>Witnesses\<close>

definition demo_arena :: fsb_arena where
  "demo_arena = \<lparr>fa_block_size = 16, fa_blocks_per_page = 252, fa_bitmap_size = 4, fa_avail_pages = 0, fa_full_pages = 0\<rparr>"

definition demo_world :: fsb_world where
  "demo_world = \<lparr>fw_pages = \<lambda>_. None, fw_arenas = [1 \<mapsto> demo_arena]\<rparr>"

lemma demo_ok:
  "fsb_good 4096 demo_world 1 demo_arena" "avail_ok demo_world 1 demo_arena"
  "fsb_mmap_ok 4096 (\<lambda>_. 65536) demo_world" "page_used (\<lambda>_. 65536) demo_world demo_arena = 65536"
  "allocated demo_world 1 = {}" "block_addr demo_arena 65536 0 = 65600"
proof -
  have h: "fsb_header_size 4 16 = 64" by code_simp
  have l: "list_head demo_arena l = 0" for l by (cases l) (simp_all add: demo_arena_def)
  show "fsb_good 4096 demo_world 1 demo_arena"
    by (simp add: fsb_good_def linked_def heads_ok_def l demo_world_def fits_page_def) (simp add: demo_arena_def h)
  show "avail_ok demo_world 1 demo_arena" "page_used (\<lambda>_. 65536) demo_world demo_arena = 65536"
    by (simp_all add: avail_ok_def page_used_def demo_arena_def)
  show "fsb_mmap_ok 4096 (\<lambda>_. 65536) demo_world" "allocated demo_world 1 = {}"
    by (simp_all add: fsb_mmap_ok_def allocated_def demo_world_def page_place_def)
  show "block_addr demo_arena 65536 0 = 65600" by (simp add: block_addr_def demo_arena_def h)
qed

theorem fsb_allocate_takes_lowest_witness:
  "\<exists>w b. fsb_arena_allocate (\<lambda>_. 65536) demo_world 1 = Inr (w, b) \<and> unat b = 65600 \<and> allocated w 1 = {(65536, 0)}"
proof -
  obtain w b k a where w: "fsb_arena_allocate (\<lambda>_. 65536) demo_world 1 = Inr (w, b)"
    "unat b = block_addr demo_arena 65536 k" "\<forall>i<k. (65536, i) \<in> allocated demo_world 1"
    "allocated w 1 = insert (65536, k) (allocated demo_world 1)"
    using fsb_allocate_takes_lowest [OF demo_ok(1-3)] by (auto simp: demo_ok(4))
  then have "k = 0" by (auto simp: demo_ok(5))
  then show ?thesis using w by (simp add: demo_ok(5,6))
qed

theorem fsb_release_removes_block_witness:
  "\<exists>w b w'. fsb_arena_allocate (\<lambda>_. 65536) demo_world 1 = Inr (w, b) \<and> allocated w 1 = {(65536, 0)} \<and>
     fsb_arena_release 4096 w b = Inr (w', 0) \<and> allocated w' 1 = {}"
proof -
  obtain w b k a where w: "fsb_arena_allocate (\<lambda>_. 65536) demo_world 1 = Inr (w, b)"
    "block_placed 4096 demo_world 1 demo_arena 65536 k w b a" "fa_avail_pages a \<noteq> 0"
    using fsb_allocate_ok [OF demo_ok(1-3)] by (auto simp: demo_ok(4,5)) (auto simp: demo_arena_def)
  note P = w(2) [unfolded block_placed_def demo_ok(5)]
  have k: "k = 0" using P by auto
  have "unat b = block_addr a 65536 k" using P layout_facts(3) [of a demo_arena] by simp
  from fsb_release_removes_block [of 4096 w 1 a 65536 k b 12, OF _ _ this] P w(1,3) k show ?thesis by auto
qed

theorem fsb_allocate_release_roundtrip_witness:
  "\<exists>w b w'. fsb_arena_allocate (\<lambda>_. 65536) demo_world 1 = Inr (w, b) \<and>
     fsb_arena_release 4096 w b = Inr (w', 0) \<and> allocated w' 1 = {}"
  using fsb_allocate_release_roundtrip [OF demo_ok(1-3), of 12] by (auto simp: demo_ok(4,5)) (auto simp: demo_arena_def)

theorem fsb_single_block_release_faults_witness:
  "fsb_arena_release 4096
     \<lparr>fw_pages = [65536 \<mapsto> \<lparr>fp_arena = 1, fp_next = 65536, fp_prev = 65536, fp_num_free = 0, fp_bitmap = [1]\<rparr>],
      fw_arenas = [1 \<mapsto> \<lparr>fa_block_size = 2048, fa_blocks_per_page = 1, fa_bitmap_size = 1,
        fa_avail_pages = 0, fa_full_pages = 65536\<rparr>]\<rparr> 67584 = Inl Bad_Access"
proof -
  have h: "fsb_header_size 1 2048 = 2048" by code_simp
  have b: "bits_of [1] = {0}" by (auto simp: bits_of_def bit_at_def bit_1_iff)
  let ?a = "\<lparr>fa_block_size = 2048, fa_blocks_per_page = 1, fa_bitmap_size = 1, fa_avail_pages = 0,
    fa_full_pages = 65536\<rparr> :: fsb_arena"
  have l: "list_head ?a l = 0 \<or> list_head ?a l = 65536" for l by (cases l) simp_all
  show ?thesis
    by (rule fsb_single_block_release_faults [of _ _ 1 ?a 65536 0 _ 12])
      (use l in \<open>auto simp: fsb_good_def linked_def heads_ok_def fits_page_def h page_place_def fpage_ok_def b
        allocated_def block_addr_def split: if_splits\<close>)
qed

end
