(* ===== verification/Libc_Heap.thy ===== *)
theory Libc_Heap
  imports Pussy_Prelude
begin

text \<open>
  The heap of the C library as the allocators use it: \<open>malloc\<close>, \<open>calloc\<close>, \<open>realloc\<close>, \<open>free\<close>, \<open>memcpy\<close>
  and \<open>memset\<close>. The state is a store of bytes and the sizes of the blocks in use. Where a block lies is an
  argument: \<open>pick bl n\<close> is the address of a new block of \<open>n\<close> bytes beside the blocks \<open>bl\<close>, 0 when there is
  no memory. Freeing or resizing what is not a block, resizing to 0 bytes (undefined in C23) and access
  outside of the blocks fail.
\<close>

type_synonym block_sizes = "u64 \<Rightarrow> nat option"
type_synonym pick_fun = "block_sizes \<Rightarrow> nat \<Rightarrow> u64"

record libc =
  lc_mem :: "u64 \<Rightarrow> u8"
  lc_blocks :: block_sizes
  lc_count :: u64

definition filled :: "(u64 \<Rightarrow> u8) \<Rightarrow> u64 \<Rightarrow> nat \<Rightarrow> u8 \<Rightarrow> (u64 \<Rightarrow> u8)" where
  "filled m p n v = (\<lambda>a. if unat p \<le> unat a \<and> unat a < unat p + n then v else m a)"

definition copied :: "(u64 \<Rightarrow> u8) \<Rightarrow> u64 \<Rightarrow> u64 \<Rightarrow> nat \<Rightarrow> (u64 \<Rightarrow> u8)" where
  "copied m dst src n = (\<lambda>a. if unat dst \<le> unat a \<and> unat a < unat dst + n then m (src + (a - dst)) else m a)"

definition c_malloc :: "pick_fun \<Rightarrow> libc \<Rightarrow> nat \<Rightarrow> libc \<times> u64" where
  "c_malloc pick s n =
     (let p = pick (lc_blocks s) n
      in if p = 0 then (s, 0) else (s\<lparr>lc_blocks := (lc_blocks s)(p \<mapsto> n)\<rparr>, p))"

definition c_calloc :: "pick_fun \<Rightarrow> libc \<Rightarrow> nat \<Rightarrow> nat \<Rightarrow> libc \<times> u64" where
  "c_calloc pick s k n =
     (let (s, p) = c_malloc pick s (k * n)
      in (if p = 0 then s else s\<lparr>lc_mem := filled (lc_mem s) p (k * n) 0\<rparr>, p))"

definition c_free :: "libc \<Rightarrow> u64 \<Rightarrow> libc res" where
  "c_free s p =
     (if p = 0 then Inr s
      else if lc_blocks s p = None then Inl Bad_Access
      else Inr (s\<lparr>lc_blocks := (lc_blocks s)(p := None)\<rparr>))"

text \<open>\<open>move p\<close> picks the new address of the block \<open>p\<close>, which may be \<open>p\<close> again.\<close>

definition c_realloc :: "(u64 \<Rightarrow> pick_fun) \<Rightarrow> libc \<Rightarrow> u64 \<Rightarrow> nat \<Rightarrow> (libc \<times> u64) res" where
  "c_realloc move s p n =
     (if p = 0 then Inr (c_malloc (move 0) s n)
      else (case lc_blocks s p of
              None \<Rightarrow> Inl Bad_Access
            | Some old \<Rightarrow>
                if n = 0 then Inl Bad_Access
                else (let rest = (lc_blocks s)(p := None); q = move p rest n
                      in if q = 0 then Inr (s, 0)
                         else Inr (s\<lparr>lc_blocks := rest(q \<mapsto> n),
                                     lc_mem := copied (lc_mem s) q p (min old n)\<rparr>, q))))"

text \<open>The block at \<open>base\<close> contains the \<open>n\<close> bytes from \<open>p\<close>.\<close>

definition in_block :: "libc \<Rightarrow> u64 \<Rightarrow> u64 \<Rightarrow> nat \<Rightarrow> bool" where
  "in_block s base p n =
     (case lc_blocks s base of None \<Rightarrow> False
      | Some k \<Rightarrow> unat base \<le> unat p \<and> unat p + n \<le> unat base + k)"

definition c_memset :: "libc \<Rightarrow> u64 \<Rightarrow> u64 \<Rightarrow> u8 \<Rightarrow> nat \<Rightarrow> libc res" where
  "c_memset s base p v n =
     (if in_block s base p n then Inr (s\<lparr>lc_mem := filled (lc_mem s) p n v\<rparr>) else Inl Bad_Access)"

definition c_memcpy :: "libc \<Rightarrow> u64 \<Rightarrow> u64 \<Rightarrow> u64 \<Rightarrow> u64 \<Rightarrow> nat \<Rightarrow> libc res" where
  "c_memcpy s dbase dst sbase src n =
     (if in_block s dbase dst n \<and> in_block s sbase src n
      then Inr (s\<lparr>lc_mem := copied (lc_mem s) dst src n\<rparr>) else Inl Bad_Access)"

subsection \<open>What the code relies on\<close>

text \<open>
  Blocks lie apart from each other and none is at address 0. The address behind the last byte of a block
  can be computed without wrapping around, as C promises.
\<close>

definition apart :: "u64 \<Rightarrow> nat \<Rightarrow> u64 \<Rightarrow> nat \<Rightarrow> bool" where
  "apart p n b k \<longleftrightarrow> unat p + n \<le> unat b \<or> unat b + k \<le> unat p"

definition blocks_wf :: "block_sizes \<Rightarrow> bool" where
  "blocks_wf bl \<longleftrightarrow> (\<forall>a n. bl a = Some n \<longrightarrow> a \<noteq> 0 \<and> unat a + n < 2 ^ 64) \<and>
     (\<forall>a b n k. bl a = Some n \<and> bl b = Some k \<and> a \<noteq> b \<longrightarrow> apart a n b k)"

definition pick_ok :: "pick_fun \<Rightarrow> bool" where
  "pick_ok pick \<longleftrightarrow> (\<forall>bl n. blocks_wf bl \<and> pick bl n \<noteq> 0 \<longrightarrow>
     bl (pick bl n) = None \<and> unat (pick bl n) + n < 2 ^ 64 \<and>
     (\<forall>b k. bl b = Some k \<longrightarrow> apart (pick bl n) n b k))"

lemma apart_sym: "apart p n b k \<longleftrightarrow> apart b k p n"
  by (auto simp: apart_def)

lemma blocks_wfD:
  assumes "blocks_wf bl" and "bl a = Some n"
  shows "a \<noteq> 0" and "unat a + n < 2 ^ 64" and "bl b = Some k \<Longrightarrow> a \<noteq> b \<Longrightarrow> apart a n b k"
  using assms by (auto simp: blocks_wf_def)

lemma pick_okD:
  assumes "pick_ok pick" and "blocks_wf bl" and "pick bl n \<noteq> 0"
  shows "bl (pick bl n) = None" and "unat (pick bl n) + n < 2 ^ 64"
    and "bl b = Some k \<Longrightarrow> apart (pick bl n) n b k" and "blocks_wf (bl(pick bl n \<mapsto> n))"
proof -
  have p: "bl (pick bl n) = None" "unat (pick bl n) + n < 2 ^ 64" "\<forall>b k. bl b = Some k \<longrightarrow> apart (pick bl n) n b k"
    using assms by (auto simp: pick_ok_def)
  show "bl (pick bl n) = None" "unat (pick bl n) + n < 2 ^ 64" by (fact p)+
  show "bl b = Some k \<Longrightarrow> apart (pick bl n) n b k" using p(3) by blast
  show "blocks_wf (bl(pick bl n \<mapsto> n))"
    using p(2,3) assms(2,3) apart_sym unfolding blocks_wf_def by (simp add: all_conj_distrib)
qed

lemma blocks_wf_remove: "blocks_wf bl \<Longrightarrow> blocks_wf (bl(p := None))"
  by (auto simp: blocks_wf_def)

lemma filled_in: "unat p \<le> unat a \<Longrightarrow> unat a < unat p + n \<Longrightarrow> filled m p n v a = v"
  by (simp add: filled_def)

lemma filled_apart: "apart p n b k \<Longrightarrow> unat b \<le> unat a \<Longrightarrow> unat a < unat b + k \<Longrightarrow> filled m p n v a = m a"
  by (auto simp: filled_def apart_def)

lemma copied_apart: "apart p n b k \<Longrightarrow> unat b \<le> unat a \<Longrightarrow> unat a < unat b + k \<Longrightarrow> copied m p q n a = m a"
  by (auto simp: copied_def apart_def)

lemma byte_at: "unat (p :: u64) + k \<le> 2 ^ 64 \<Longrightarrow> i < k \<Longrightarrow> unat (p + of_nat i) = unat p + i"
  by (subst unat_add_exact) (simp_all add: unat_of_nat take_bit_nat_eq_self)

lemma copied_at:
  assumes "unat dst + k \<le> 2 ^ 64" and "i < n" and "n \<le> k"
  shows "copied m dst src n (dst + of_nat i) = m (src + of_nat i)"
  using byte_at [OF assms(1), of i] assms(2,3) by (simp add: copied_def)

text \<open>A place for blocks, for the witnesses: three blocks at most, one behind the other.\<close>

definition all_below :: "block_sizes \<Rightarrow> nat \<Rightarrow> bool" where
  "all_below bl m \<longleftrightarrow> (\<forall>a k. bl a = Some k \<longrightarrow> unat a + k < m)"

definition few_places :: pick_fun where
  "few_places bl n =
     (if 0x10000 \<le> n then 0
      else if all_below bl 0x10000 then 0x10000
      else if all_below bl 0x20000 then 0x20000
      else if all_below bl 0x30000 then 0x30000 else 0)"

lemma all_below_simps [simp]:
  "all_below Map.empty m"
  "all_below (bl(a := Some k)) m \<longleftrightarrow> unat a + k < m \<and> all_below (bl(a := None)) m"
  "all_below (\<lambda>x. None) m"
  by (auto simp: all_below_def)

lemma few_places_ok: "pick_ok few_places"
proof -
  have free: "bl p = None \<and> (\<forall>b k. bl b = Some k \<longrightarrow> apart p n b k)" if "all_below bl (unat p)" for bl p n
  proof -
    have "bl p = None"
      using that [unfolded all_below_def, rule_format, of p] by (cases "bl p") auto
    then show ?thesis using that by (auto simp: all_below_def apart_def intro: less_imp_le)
  qed
  have "bl (few_places bl n) = None \<and> unat (few_places bl n) + n < 2 ^ 64 \<and>
      (\<forall>b k. bl b = Some k \<longrightarrow> apart (few_places bl n) n b k)" if nz: "few_places bl n \<noteq> 0" for bl n
  proof -
    have "all_below bl (unat (few_places bl n))" "n < 0x10000" "unat (few_places bl n) \<le> 0x30000"
      using nz by (auto simp: few_places_def split: if_splits)
    then show ?thesis using free [of bl "few_places bl n" n] by simp
  qed
  then show ?thesis by (simp add: pick_ok_def)
qed

end
