(* ===== verification/Stdlib_Allocator.thy ===== *)
theory Stdlib_Allocator
  imports Libc_Heap Alloc_Interface
begin

text \<open>
  \<^verbatim>\<open>src/allocator_stdlib.c\<close>: the allocator on the heap of the C library. \<open>lc_count\<close> is the counter
  \<open>stats.blocks_allocated\<close>. The results of a reallocation are the new value of the pointer, the value
  stored for the caller in \<open>addr_changed\<close>, and success.
\<close>

definition std_allocate :: "pick_fun \<Rightarrow> libc \<Rightarrow> u32 \<Rightarrow> bool \<Rightarrow> (libc \<times> u64) res" where
  "std_allocate pick s nbytes clean =
     (let (s, result) = (if clean then c_calloc pick s 1 (unat nbytes) else c_malloc pick s (unat nbytes))
      in Inr (if result \<noteq> 0 then s\<lparr>lc_count := lc_count s + 1\<rparr> else s, result))"

definition std_release :: "libc \<Rightarrow> u64 \<Rightarrow> u32 \<Rightarrow> (libc \<times> u64) res" where
  "std_release s addr nbytes =
     (if addr \<noteq> 0 then bindE (c_free s addr) (\<lambda>s. Inr (s\<lparr>lc_count := lc_count s - 1\<rparr>, 0))
      else Inr (s, addr))"

definition std_reallocate ::
  "pick_fun \<Rightarrow> (u64 \<Rightarrow> pick_fun) \<Rightarrow> libc \<Rightarrow> u64 \<Rightarrow> u32 \<Rightarrow> u32 \<Rightarrow> bool \<Rightarrow> (libc \<times> u64 \<times> bool \<times> bool) res" where
  "std_reallocate pick move s addr old_nbytes new_nbytes clean =
     (if old_nbytes = new_nbytes then Inr (s, addr, False, True)
      else if addr = 0
      then (if old_nbytes \<noteq> 0 then Inr (s, addr, False, False)
            else bindE (std_allocate pick s new_nbytes clean) (\<lambda>(s, a).
                 if a = 0 then Inr (s, addr, False, False) else Inr (s, a, True, True)))
      else bindE (c_realloc move s addr (unat new_nbytes)) (\<lambda>(s, new_block).
           if new_block = 0 then Inr (s, addr, False, False)
           else bindE (if clean \<and> old_nbytes < new_nbytes
                       then c_memset s new_block (new_block + ucast old_nbytes) 0 (unat (new_nbytes - old_nbytes))
                       else Inr s)
                (\<lambda>s. Inr (s, new_block, new_block \<noteq> addr, True))))"

subsection \<open>The contract\<close>

definition std_contract :: "pick_fun \<Rightarrow> (u64 \<Rightarrow> pick_fun) \<Rightarrow> libc \<Rightarrow> block set \<Rightarrow> bool" where
  "std_contract pick move s B \<longleftrightarrow> pick_ok pick \<and> (\<forall>p. pick_ok (move p)) \<and> blocks_wf (lc_blocks s) \<and>
     finite B \<and> lc_count s = of_nat (card B) \<and> (\<forall>(a, n)\<in>B. lc_blocks s a = Some (unat n))"

lemma std_contractD:
  assumes "std_contract pick move s B"
  shows "pick_ok pick" "pick_ok (move p)" "blocks_wf (lc_blocks s)" "finite B" "lc_count s = of_nat (card B)"
    and "(a, n) \<in> B \<Longrightarrow> lc_blocks s a = Some (unat n)"
  using assms by (auto simp: std_contract_def)

lemma std_functional:
  assumes "std_contract pick move s B" and "(a, n) \<in> B" and "(a, m) \<in> B"
  shows "n = m"
  using std_contractD(6) [OF assms(1,2)] std_contractD(6) [OF assms(1,3)] by (simp add: word_unat_eq_iff)

lemma std_rest:
  assumes "std_contract pick move s B" and "(a, n) \<in> B" and "(d, k) \<in> B - {(a, n)}"
  shows "((lc_blocks s)(a := None)) d = Some (unat k)"
proof -
  have d: "(d, k) \<in> B" "(d, k) \<noteq> (a, n)" using assms(3) by simp_all
  then have "d \<noteq> a" using std_functional [OF assms(1) _ assms(2), of k] by auto
  then show ?thesis using std_contractD(6) [OF assms(1) d(1)] by simp
qed

lemma std_separate:
  assumes "std_contract pick move s B" and "b \<in> B" and "c \<in> B" and "b \<noteq> c"
  shows "block_bytes b \<inter> block_bytes c = {}"
proof -
  obtain a n d k where e: "b = (a, n)" "c = (d, k)" by (cases b, cases c)
  have s: "lc_blocks s a = Some (unat n)" "lc_blocks s d = Some (unat k)"
    using std_contractD(6) [OF assms(1)] assms(2,3) e by auto
  have "a \<noteq> d" using assms(2-4) e std_functional [OF assms(1)] by auto
  with blocks_wfD(3) [OF std_contractD(3) [OF assms(1)] s] have "apart a (unat n) d (unat k)" by simp
  then show ?thesis by (auto simp: e block_bytes_def apart_def)
qed

lemma std_allocate_ok:
  assumes "std_contract pick move s B"
  shows "\<exists>t a. std_allocate pick s n clean = Inr (t, a) \<and> (\<forall>b\<in>B. \<forall>x\<in>block_bytes b. lc_mem t x = lc_mem s x) \<and>
    (if a = 0 then std_contract pick move t B
     else (a, n) \<notin> B \<and> std_contract pick move t (insert (a, n) B) \<and>
       (clean \<longrightarrow> (\<forall>x\<in>block_bytes (a, n). lc_mem t x = 0)))"
proof (cases "pick (lc_blocks s) (unat n) = 0")
  case True
  then have "std_allocate pick s n clean = Inr (s, 0)" by (simp add: std_allocate_def c_calloc_def c_malloc_def)
  then show ?thesis using assms by auto
next
  case False
  note C = std_contractD [OF assms]
  let ?a = "pick (lc_blocks s) (unat n)"
  let ?m = "if clean then filled (lc_mem s) ?a (unat n) 0 else lc_mem s"
  let ?t = "s\<lparr>lc_blocks := (lc_blocks s)(?a \<mapsto> unat n), lc_mem := ?m, lc_count := lc_count s + 1\<rparr>"
  note P = pick_okD [OF C(1,3) False]
  have "std_allocate pick s n clean = Inr (?t, ?a)"
    using False by (simp add: std_allocate_def c_calloc_def c_malloc_def Let_def)
  moreover have new: "(?a, m) \<notin> B" for m using C(6) [of ?a m] P(1) by auto
  moreover have "\<forall>b\<in>B. \<forall>x\<in>block_bytes b. ?m x = lc_mem s x"
    using C(6) P(3) filled_apart by (fastforce simp: block_bytes_range)
  moreover have "std_contract pick move ?t (insert (?a, n) B)"
    using assms C(4-6) P(4) new unfolding std_contract_def by (auto simp: add.commute)
  ultimately show ?thesis using False
    by (intro exI [of _ ?t] exI [of _ ?a]) (auto simp: filled_in block_bytes_range)
qed

lemma std_release_ok:
  assumes "std_contract pick move s B" and "(a, n) \<in> B"
  shows "\<exists>t. std_release s a n = Inr (t, 0) \<and> std_contract pick move t (B - {(a, n)}) \<and>
    (\<forall>b\<in>B. \<forall>x\<in>block_bytes b. lc_mem t x = lc_mem s x)"
proof -
  note C = std_contractD [OF assms(1)]
  let ?t = "s\<lparr>lc_blocks := (lc_blocks s)(a := None), lc_count := lc_count s - 1\<rparr>"
  have a: "lc_blocks s a = Some (unat n)" "a \<noteq> 0" using C(6) [OF assms(2)] blocks_wfD(1) [OF C(3)] by auto
  have "std_release s a n = Inr (?t, 0)" using a by (simp add: std_release_def c_free_def)
  moreover have "lc_count s - 1 = of_nat (card (B - {(a, n)}))"
    using C(5) card.remove [OF C(4) assms(2)] by simp
  moreover have "\<forall>(d, k)\<in>B - {(a, n)}. lc_blocks ?t d = Some (unat k)" using std_rest [OF assms] by auto
  ultimately show ?thesis
    using C(1,2,4) blocks_wf_remove [OF C(3)] unfolding std_contract_def
    by (intro exI [of _ ?t]) simp
qed

text \<open>A block that is moved or resized: the other blocks, and the part both sizes have in common.\<close>

lemma std_resized:
  assumes "std_contract pick move s B" and "(a, old) \<in> B" and "q = move a ((lc_blocks s)(a := None)) (unat new)"
    and "q \<noteq> 0" and "m = copied (lc_mem s) q a (min (unat old) (unat new))"
    and "m' = m \<or> old < new \<and> m' = filled m (q + ucast old) (unat (new - old)) 0"
    and "t = s\<lparr>lc_blocks := ((lc_blocks s)(a := None))(q \<mapsto> unat new), lc_mem := m'\<rparr>"
  shows "\<forall>b\<in>B - {(a, old)}. \<forall>x\<in>block_bytes b. m' x = lc_mem s x"
    and "std_contract pick move t (insert (q, new) (B - {(a, old)}))"
    and "\<forall>i < min (unat old) (unat new). m' (q + of_nat i) = lc_mem s (a + of_nat i)"
proof -
  note C = std_contractD [OF assms(1)]
  note P = pick_okD [OF C(2) [of a] blocks_wf_remove [OF C(3)], of a "unat new", folded assms(3), OF assms(4)]
  have rest: "((lc_blocks s)(a := None)) d = Some (unat k)" if "(d, k) \<in> B - {(a, old)}" for d k
    by (rule std_rest [OF assms(1,2) that])
  have off: "unat (q + ucast old) = unat q + unat old" "unat (new - old) = unat new - unat old" if "old < new"
    using that P(2) by (subst unat_add_exact, simp_all add: word_less_nat_alt unat_sub_exact)
  have m': "m' x = m x" if "unat x < unat q + min (unat old) (unat new) \<or> unat q + unat new \<le> unat x" for x
    using assms(6) that off by (auto simp: filled_def word_less_nat_alt)
  show "\<forall>b\<in>B - {(a, old)}. \<forall>x\<in>block_bytes b. m' x = lc_mem s x"
  proof (intro ballI)
    fix b x assume b: "b \<in> B - {(a, old)}" "x \<in> block_bytes b"
    obtain d k where e: "b = (d, k)" by (cases b)
    have ap: "apart q (unat new) d (unat k)" using P(3) [OF rest [of d k]] b(1) e by simp
    have x: "unat d \<le> unat x" "unat x < unat d + unat k" using b(2) by (simp_all add: e block_bytes_range)
    then have "m' x = m x" using ap m' [of x] x by (auto simp: apart_def)
    also have "\<dots> = lc_mem s x" unfolding assms(5) using ap x by (auto simp: copied_def apart_def)
    finally show "m' x = lc_mem s x" .
  qed
  show "\<forall>i < min (unat old) (unat new). m' (q + of_nat i) = lc_mem s (a + of_nat i)"
    using m' byte_at [OF less_imp_le [OF P(2)]] copied_at [OF less_imp_le [OF P(2)]] by (auto simp: assms(5))
  have new: "(q, new) \<notin> B - {(a, old)}" using rest [of q new] P(1) by auto
  have "card (insert (q, new) (B - {(a, old)})) = card B"
    using new C(4) card.remove [OF C(4) assms(2)] by simp
  moreover have "lc_blocks t d = Some (unat k)" if "(d, k) \<in> insert (q, new) (B - {(a, old)})" for d k
    using that rest [of d k] P(1) by (auto simp: assms(7))
  ultimately show "std_contract pick move t (insert (q, new) (B - {(a, old)}))"
    using C(1,2,4,5) P(4) unfolding std_contract_def by (auto simp: assms(7))
qed

lemma std_reallocate_ok:
  assumes "std_contract pick move s B" and "(a, old) \<in> B" and "new \<noteq> 0"
  shows "\<exists>t a' changed ok. std_reallocate pick move s a old new clean = Inr (t, a', changed, ok) \<and>
    changed = (a' \<noteq> a) \<and> (\<forall>b\<in>B - {(a, old)}. \<forall>x\<in>block_bytes b. lc_mem t x = lc_mem s x) \<and>
    (if ok then a' \<noteq> 0 \<and> std_contract pick move t (insert (a', new) (B - {(a, old)})) \<and>
       (\<forall>i < min (unat old) (unat new). lc_mem t (a' + of_nat i) = lc_mem s (a + of_nat i)) \<and>
       (clean \<longrightarrow> (\<forall>i. unat old \<le> i \<and> i < unat new \<longrightarrow> lc_mem t (a' + of_nat i) = 0))
     else a' = a \<and> std_contract pick move t B \<and> (\<forall>x\<in>block_bytes (a, old). lc_mem t x = lc_mem s x))"
proof (cases "old = new")
  case True
  have a: "a \<noteq> 0" using std_contractD(6) [OF assms(1,2)] blocks_wfD(1) [OF std_contractD(3) [OF assms(1)]] by blast
  show ?thesis
    by (rule exI [of _ s], rule exI [of _ a], rule exI [of _ False], rule exI [of _ True])
      (use a True assms(1,2) in \<open>auto simp: std_reallocate_def insert_absorb\<close>)
next
  case differ: False
  note C = std_contractD [OF assms(1)]
  have a: "lc_blocks s a = Some (unat old)" "a \<noteq> 0" using C(6) [OF assms(2)] blocks_wfD(1) [OF C(3)] by auto
  define q where "q = move a ((lc_blocks s)(a := None)) (unat new)"
  have n: "unat new \<noteq> 0" using assms(3) by (simp add: unat_eq_0)
  show ?thesis
  proof (cases "q = 0")
    case True
    then have "std_reallocate pick move s a old new clean = Inr (s, a, False, False)"
      using differ a n by (simp add: std_reallocate_def c_realloc_def q_def Let_def)
    then show ?thesis using assms(1) by auto
  next
    case False
    note P = pick_okD [OF C(2) [of a] blocks_wf_remove [OF C(3)], of a "unat new", folded q_def, OF False]
    define m where "m = copied (lc_mem s) q a (min (unat old) (unat new))"
    define m' where "m' = (if clean \<and> old < new then filled m (q + ucast old) (unat (new - old)) 0 else m)"
    define t where "t = s\<lparr>lc_blocks := ((lc_blocks s)(a := None))(q \<mapsto> unat new), lc_mem := m'\<rparr>"
    have off: "unat (q + ucast old) = unat q + unat old" "unat (new - old) = unat new - unat old" if "old < new"
      using that P(2) by (subst unat_add_exact, simp_all add: word_less_nat_alt unat_sub_exact)
    have "std_reallocate pick move s a old new clean = Inr (t, q, q \<noteq> a, True)"
      using differ a n False off
      by (auto simp: std_reallocate_def c_realloc_def q_def [symmetric] m_def [symmetric] Let_def c_memset_def
          in_block_def t_def m'_def word_less_nat_alt)
    moreover have "m' = m \<or> old < new \<and> m' = filled m (q + ucast old) (unat (new - old)) 0" by (auto simp: m'_def)
    note R = std_resized [OF assms(1,2) q_def False m_def this t_def]
    moreover have "lc_mem t (q + of_nat i) = 0" if "clean" "unat old \<le> i" "i < unat new" for i
      using that off byte_at [OF less_imp_le [OF P(2)] that(3)] by (simp add: t_def m'_def filled_def word_less_nat_alt)
    ultimately show ?thesis using False by (auto simp: t_def)
  qed
qed

interpretation std: resizing_allocator "std_contract pick move" lc_mem "\<lambda>n. True" "std_allocate pick" std_release
  "\<lambda>old new. new \<noteq> 0" "std_reallocate pick move"
  for pick :: pick_fun and move :: "u64 \<Rightarrow> pick_fun"
  by unfold_locales (rule std_separate std_allocate_ok std_release_ok std_reallocate_ok; assumption)+

text \<open>
  C28. \<open>_reallocate\<close> of the allocator on the C heap always returns for a new size other than 0. The block keeps
  its contents up to the smaller size, its new bytes are zero on request, all other blocks keep theirs, the
  caller learns whether the address changed, and on failure nothing has changed. The counter of blocks,
  which is part of the contract, stays right.
\<close>

theorem std_reallocate_keeps_contents:
  assumes "std_contract pick move s B" and "(a, old) \<in> B" and "new \<noteq> 0"
  shows "\<exists>t a' changed ok. std_reallocate pick move s a old new clean = Inr (t, a', changed, ok) \<and>
    changed = (a' \<noteq> a) \<and> (\<forall>b\<in>B - {(a, old)}. \<forall>x\<in>block_bytes b. lc_mem t x = lc_mem s x) \<and>
    (if ok then a' \<noteq> 0 \<and> std_contract pick move t (insert (a', new) (B - {(a, old)})) \<and>
       (\<forall>i < min (unat old) (unat new). lc_mem t (a' + of_nat i) = lc_mem s (a + of_nat i)) \<and>
       (clean \<longrightarrow> (\<forall>i. unat old \<le> i \<and> i < unat new \<longrightarrow> lc_mem t (a' + of_nat i) = 0))
     else a' = a \<and> std_contract pick move t B \<and> (\<forall>x\<in>block_bytes (a, old). lc_mem t x = lc_mem s x))"
  by (rule std.resize_law [OF assms(1,2) TrueI assms(3)])

theorem std_reallocate_keeps_contents_witness:
  "\<exists>t. std_reallocate few_places (\<lambda>p. few_places) \<lparr>lc_mem = \<lambda>x. 7, lc_blocks = [0x10000 \<mapsto> 100], lc_count = 1\<rparr>
      0x10000 100 200 True = Inr (t, 0x10000, False, True) \<and>
    std_contract few_places (\<lambda>p. few_places) t {(0x10000, 200)} \<and> lc_mem t 0x10032 = 7 \<and> lc_mem t 0x10096 = 0"
proof -
  let ?s = "\<lparr>lc_mem = \<lambda>x. 7, lc_blocks = [0x10000 \<mapsto> 100], lc_count = 1\<rparr> :: libc"
  have c: "std_contract few_places (\<lambda>p. few_places) ?s {(0x10000, 100)}"
    by (simp add: std_contract_def few_places_ok blocks_wf_def)
  have e: "\<exists>t. std_reallocate few_places (\<lambda>p. few_places) ?s 0x10000 100 200 True = Inr (t, 0x10000, False, True)"
    by (simp add: std_reallocate_def c_realloc_def few_places_def c_memset_def in_block_def Let_def)
  then obtain t where t: "std_reallocate few_places (\<lambda>p. few_places) ?s 0x10000 100 200 True = Inr (t, 0x10000, False, True)"
    by blast
  have m: "\<forall>i<100. lc_mem t (0x10000 + of_nat i) = 7" "\<forall>i. 100 \<le> i \<and> i < 200 \<longrightarrow> lc_mem t (0x10000 + of_nat i) = 0"
    "std_contract few_places (\<lambda>p. few_places) t {(0x10000, 200)}"
    using std_reallocate_keeps_contents [OF c, of "0x10000" 100 200 True] t by auto
  show ?thesis using t m(3) m(1) [rule_format, of 50] m(2) [rule_format, of 150] by simp
qed

end
