(* ===== verification/Debug_Allocator.thy ===== *)
theory Debug_Allocator
  imports Libc_Heap Alloc_Interface
begin

text \<open>
  \<^verbatim>\<open>src/allocator_debug.c\<close>: every block lies in a region of the C heap between two guards of 32 bytes with
  the value 0xFF, behind a header of 16 bytes. A release that finds a guard damaged ends the program; this
  is \<open>Abort\<close>. Messages are not modelled.
\<close>

definition BUBBLEWRAP :: u32 where "BUBBLEWRAP = 32"
definition sizeof_MemBlockInfo :: u32 where "sizeof_MemBlockInfo = 16"

definition dbg_memsize :: "u32 \<Rightarrow> u32" where
  "dbg_memsize nbytes = sizeof_MemBlockInfo + nbytes + BUBBLEWRAP * 2"

definition region_from_block :: "u64 \<Rightarrow> u64" where
  "region_from_block block = block - ucast sizeof_MemBlockInfo - ucast BUBBLEWRAP"

definition block_from_region :: "u64 \<Rightarrow> u64" where
  "block_from_region region_start = region_start + ucast sizeof_MemBlockInfo + ucast BUBBLEWRAP"

text \<open>The two loops of \<open>check_region\<close>: the lower guard downwards by index, the upper one by pointer.\<close>

function damaged_lower :: "(u64 \<Rightarrow> u8) \<Rightarrow> u64 \<Rightarrow> u32 \<Rightarrow> u32" where
  "damaged_lower m region_start i =
     (if i \<ge> sizeof_MemBlockInfo
      then (if m (region_start + ucast i) \<noteq> 0xFF then 1 else 0) + damaged_lower m region_start (i - 1)
      else 0)"
  by pat_completeness auto
termination
  by (relation "measure (\<lambda>(m, p, i). unat i)")
    (auto simp: sizeof_MemBlockInfo_def word_le_nat_alt unat_sub_exact)

declare damaged_lower.simps [simp del]

function damaged_upper :: "(u64 \<Rightarrow> u8) \<Rightarrow> u64 \<Rightarrow> u64 \<Rightarrow> u32" where
  "damaged_upper m p region_end =
     (if p < region_end then (if m p \<noteq> 0xFF then 1 else 0) + damaged_upper m (p + 1) region_end else 0)"
  by pat_completeness auto
termination
proof (relation "measure (\<lambda>(m, p, e). unat e - unat p)", simp)
  fix m :: "u64 \<Rightarrow> u8" and p e :: u64
  assume lt: "p < e"
  then have "unat (p + 1) = unat p + 1"
    using unat_u64_bound [of e] by (subst unat_add_exact) (simp_all add: word_less_nat_alt)
  then show "((m, p + 1, e), (m, p, e)) \<in> measure (\<lambda>(m, p, e). unat e - unat p)"
    using lt by (simp add: word_less_nat_alt)
qed

declare damaged_upper.simps [simp del]

text \<open>
  The guards are read in the region of the block; when the caller names another size, the upper guard may
  lie outside of it.
\<close>

definition check_region :: "libc \<Rightarrow> u64 \<Rightarrow> u32 \<Rightarrow> libc res" where
  "check_region s block nbytes =
     (let memsize = dbg_memsize nbytes;
          region_start = region_from_block block;
          region_end = region_start + ucast memsize;
          block_start = block_from_region region_start;
          block_end = block_start + ucast nbytes
      in if \<not> in_block s region_start (region_start + ucast sizeof_MemBlockInfo) (unat BUBBLEWRAP) then Inl Bad_Access
         else if block_end < region_end \<and>
                 \<not> in_block s region_start block_end (unat region_end - unat block_end) then Inl Bad_Access
         else (let num_damaged_lower =
                     damaged_lower (lc_mem s) region_start (sizeof_MemBlockInfo + BUBBLEWRAP - 1);
                   num_damaged_upper = damaged_upper (lc_mem s) block_end region_end
               in if num_damaged_upper \<noteq> 0 \<or> num_damaged_lower \<noteq> 0 then Inl Abort else Inr s))"

text \<open>An integer stored in memory, least significant byte first.\<close>

definition store_le :: "(u64 \<Rightarrow> u8) \<Rightarrow> u64 \<Rightarrow> nat \<Rightarrow> u64 \<Rightarrow> (u64 \<Rightarrow> u8)" where
  "store_le m p n v = (\<lambda>a. if unat p \<le> unat a \<and> unat a < unat p + n
     then ucast (drop_bit (8 * (unat a - unat p)) v) else m a)"

definition dbg_allocate :: "pick_fun \<Rightarrow> libc \<Rightarrow> u32 \<Rightarrow> bool \<Rightarrow> (libc \<times> u64) res" where
  "dbg_allocate pick s nbytes clean =
     (let memsize = dbg_memsize nbytes;
          (s, region_start) = (if clean then c_calloc pick s 1 (unat memsize) else c_malloc pick s (unat memsize))
      in if region_start = 0 then Inr (s, 0)
         else (let region_end = region_start + ucast memsize;
                   block_start = region_start + ucast sizeof_MemBlockInfo + ucast BUBBLEWRAP;
                   block_end = block_start + ucast nbytes
               in if region_end \<le> block_end then Inl Abort
                  else bindE (c_memset s region_start region_start 0xFF (unat (block_start - region_start))) (\<lambda>s.
                       bindE (c_memset s region_start block_end 0xFF (unat (region_end - block_end))) (\<lambda>s.
                       let s = s\<lparr>lc_mem := store_le (lc_mem s) region_start 8 block_start\<rparr>;
                           s = s\<lparr>lc_mem := store_le (lc_mem s) (region_start + 8) 4 (ucast nbytes)\<rparr>
                       in Inr (s\<lparr>lc_count := lc_count s + 1\<rparr>, block_start)))))"

definition dbg_release :: "libc \<Rightarrow> u64 \<Rightarrow> u32 \<Rightarrow> (libc \<times> u64) res" where
  "dbg_release s addr nbytes =
     (if addr = 0 then Inr (s, addr)
      else bindE (check_region s addr nbytes) (\<lambda>s.
           bindE (c_free s (region_from_block addr)) (\<lambda>s.
           Inr (s\<lparr>lc_count := lc_count s - 1\<rparr>, 0))))"

definition dbg_reallocate ::
  "pick_fun \<Rightarrow> libc \<Rightarrow> u64 \<Rightarrow> u32 \<Rightarrow> u32 \<Rightarrow> bool \<Rightarrow> (libc \<times> u64 \<times> bool \<times> bool) res" where
  "dbg_reallocate pick s addr old_nbytes new_nbytes clean =
     (if old_nbytes = new_nbytes then Inr (s, addr, False, True)
      else if addr = 0
      then (if old_nbytes \<noteq> 0 then Inr (s, addr, False, False)
            else bindE (dbg_allocate pick s new_nbytes clean) (\<lambda>(s, a).
                 if a = 0 then Inr (s, addr, False, False) else Inr (s, a, True, True)))
      else bindE (dbg_allocate pick s new_nbytes False) (\<lambda>(s, new_addr).
           if new_addr = 0 then Inr (s, addr, False, False)
           else bindE (c_memcpy s (region_from_block new_addr) new_addr (region_from_block addr) addr (unat old_nbytes)) (\<lambda>s.
                bindE (dbg_release s addr old_nbytes) (\<lambda>(s, _).
                bindE (if clean
                       then c_memset s (region_from_block new_addr) (new_addr + ucast old_nbytes) 0
                              (unat (new_nbytes - old_nbytes))
                       else Inr s)
                (\<lambda>s. Inr (s, new_addr, True, True))))))"

end
