(* ===== verification/Debug_Properties.thy ===== *)
theory Debug_Properties
  imports Debug_Allocator
begin

text \<open>
  What the debug allocator promises: the count of damaged bytes is exact, a release succeeds exactly when
  both guards are intact, and the contract of \<open>Alloc_Interface\<close> holds as long as blocks do not shrink.
\<close>

subsection \<open>The guards\<close>

lemma length_filter_below: "length (filter P [i..<j]) \<le> j - i"
  using length_filter_le [of P "[i..<j]"] by simp

lemma count_step:
  "unat x + 1 < 2 ^ 32 \<Longrightarrow> unat ((if b then 1 else 0) + x) = (if b then 1 else 0) + unat x" for x :: u32
  by (cases b) (simp_all add: unat_add_exact)

lemma filter_none: "length (filter P [i..<j]) = 0 \<longleftrightarrow> (\<forall>k\<in>{i..<j}. \<not> P k)"
  by (simp only: length_0_conv filter_empty_conv set_upt)

lemma damaged_lower_count:
  "unat i < 2 ^ 31 \<Longrightarrow> unat (damaged_lower m p i) = length (filter (\<lambda>j. m (p + of_nat j) \<noteq> 0xFF) [16..<Suc (unat i)])"
proof (induction m p i rule: damaged_lower.induct)
  case (1 m p i)
  show ?case
  proof (cases "i \<ge> sizeof_MemBlockInfo")
    case True
    let ?l = "\<lambda>k. filter (\<lambda>j. m (p + of_nat j) \<noteq> 0xFF) [16..<k]"
    have i: "16 \<le> unat i" "unat (i - 1) = unat i - 1"
      using True by (simp_all add: sizeof_MemBlockInfo_def word_le_nat_alt unat_sub_exact)
    then have s: "Suc (unat (i - 1)) = unat i" "unat (i - 1) < 2 ^ 31" using "1.prems" by simp_all
    note IH = "1.IH" [OF True s(2), unfolded s(1)]
    have e: "damaged_lower m p i = (if m (p + ucast i) \<noteq> 0xFF then 1 else 0) + damaged_lower m p (i - 1)"
      using True by (subst damaged_lower.simps) simp
    have n: "length (?l (unat i)) \<le> unat i" using length_filter_below [of _ 16 "unat i"] by (rule order_trans) simp
    have "unat (damaged_lower m p i) = (if m (p + ucast i) \<noteq> 0xFF then 1 else 0) + length (?l (unat i))"
      unfolding e IH [symmetric] using IH n "1.prems" by (intro count_step) simp
    moreover have "[16..<Suc (unat i)] = [16..<unat i] @ [unat i]" using i(1) by simp
    ultimately show ?thesis by simp
  next
    case False
    then have "unat i < 16" by (simp add: sizeof_MemBlockInfo_def word_le_nat_alt)
    then show ?thesis using False by (subst damaged_lower.simps) simp
  qed
qed

lemma damaged_upper_count:
  "unat e - unat p < 2 ^ 32 \<Longrightarrow>
   unat (damaged_upper m p e) = length (filter (\<lambda>j. m (p + of_nat j) \<noteq> 0xFF) [0..<unat e - unat p])"
proof (induction m p e rule: damaged_upper.induct)
  case (1 m p e)
  show ?case
  proof (cases "p < e")
    case False
    then show ?thesis by (subst damaged_upper.simps) (simp add: word_less_nat_alt)
  next
    case True
    let ?P = "\<lambda>q j. m (q + of_nat j) \<noteq> 0xFF"
    have lt: "unat p < unat e" using True by (simp add: word_less_nat_alt)
    then have "unat (p + 1) = unat p + 1" using unat_u64_bound [of e] by (subst unat_add_exact) simp_all
    note p = this lt
    let ?k = "unat e - unat (p + 1)"
    have k: "unat e - unat p = Suc ?k" using p by simp
    have IH: "unat (damaged_upper m (p + 1) e) = length (filter (?P (p + 1)) [0..<?k])" using 1 True p by simp
    have "filter (?P p) [0..<Suc ?k] = filter (?P p) (0 # map Suc [0..<?k])"
      by (simp only: upt_conv_Cons [of 0 "Suc ?k"] map_Suc_upt zero_less_Suc)
    also have "length \<dots> = (if m p \<noteq> 0xFF then 1 else 0) + length (filter (?P (p + 1)) [0..<?k])"
      by (simp add: filter_map o_def add.assoc add.commute [of 1])
    finally have R: "length (filter (?P p) [0..<unat e - unat p]) =
        (if m p \<noteq> 0xFF then 1 else 0) + length (filter (?P (p + 1)) [0..<?k])" unfolding k .
    have n: "length (filter (?P (p + 1)) [0..<?k]) \<le> ?k" using length_filter_below [of _ 0 ?k] by simp
    have "damaged_upper m p e = (if m p \<noteq> 0xFF then 1 else 0) + damaged_upper m (p + 1) e"
      using True by (subst damaged_upper.simps) simp
    then show ?thesis unfolding R using IH n k "1.prems" count_step [of "damaged_upper m (p + 1) e"] by simp
  qed
qed

definition guard_bytes :: "u64 \<Rightarrow> u32 \<Rightarrow> u64 set" where
  "guard_bytes a n = {x. unat a \<le> unat x + 32 \<and> unat x < unat a \<or>
     unat a + unat n \<le> unat x \<and> unat x < unat a + unat n + 32}"

definition guards_ok :: "(u64 \<Rightarrow> u8) \<Rightarrow> u64 \<Rightarrow> u32 \<Rightarrow> bool" where
  "guards_ok m a n \<longleftrightarrow> (\<forall>x\<in>guard_bytes a n. m x = 0xFF)"

definition dbg_live :: "libc \<Rightarrow> u64 \<Rightarrow> u32 \<Rightarrow> bool" where
  "dbg_live s a n \<longleftrightarrow> unat n + 80 < 2 ^ 32 \<and> 48 < unat a \<and> lc_blocks s (region_from_block a) = Some (unat n + 80)"

lemma memsize_exact: "unat n + 80 < 2 ^ 32 \<Longrightarrow> unat (dbg_memsize n) = unat n + 80"
  unfolding dbg_memsize_def sizeof_MemBlockInfo_def BUBBLEWRAP_def
  by (subst unat_add_exact; simp add: unat_add_exact)

lemma region_address: "48 \<le> unat a \<Longrightarrow> unat (region_from_block a) = unat a - 48"
  unfolding region_from_block_def sizeof_MemBlockInfo_def BUBBLEWRAP_def
  by (simp add: unat_sub_exact)

lemma guards_split:
  assumes "unat p + 48 = unat a" and "unat a + unat n + 32 \<le> 2 ^ 64"
  shows "guards_ok m a n \<longleftrightarrow>
    (\<forall>j\<in>{16..<48}. m (p + of_nat j) = 0xFF) \<and> (\<forall>j\<in>{0..<32}. m (a + ucast n + of_nat j) = 0xFF)"
proof -
  have lo: "unat (p + of_nat j) = unat p + j" if "j < 48" for j
    using byte_at [of p 48 j] assms that by simp
  have an: "unat (a + ucast n) = unat a + unat n" using assms(2) by (subst unat_add_exact) simp_all
  have hi: "unat (a + ucast n + of_nat j) = unat a + unat n + j" if "j < 32" for j
    using byte_at [of "a + ucast n" 32 j] an assms(2) that by simp
  have "x \<in> guard_bytes a n \<longleftrightarrow> (\<exists>j\<in>{16..<48}. x = p + of_nat j) \<or> (\<exists>j\<in>{0..<32}. x = a + ucast n + of_nat j)" for x
  proof
    assume "x \<in> guard_bytes a n"
    then consider "unat a \<le> unat x + 32" "unat x < unat a" | "unat a + unat n \<le> unat x" "unat x < unat a + unat n + 32"
      by (auto simp: guard_bytes_def)
    then show "(\<exists>j\<in>{16..<48}. x = p + of_nat j) \<or> (\<exists>j\<in>{0..<32}. x = a + ucast n + of_nat j)"
    proof cases
      case 1
      then have "x = p + of_nat (unat x - unat p)" "unat x - unat p \<in> {16..<48}"
        using assms(1) lo [of "unat x - unat p"] by (auto simp: word_unat_eq_iff)
      then show ?thesis by blast
    next
      case 2
      let ?j = "unat x - (unat a + unat n)"
      have "x = a + ucast n + of_nat ?j" "?j \<in> {0..<32}"
        using 2 hi [of ?j] by (auto simp: word_unat_eq_iff)
      then show ?thesis by blast
    qed
  next
    assume "(\<exists>j\<in>{16..<48}. x = p + of_nat j) \<or> (\<exists>j\<in>{0..<32}. x = a + ucast n + of_nat j)"
    then show "x \<in> guard_bytes a n" using lo hi assms(1) by (auto simp: guard_bytes_def)
  qed
  then have "guard_bytes a n = (\<lambda>j. p + of_nat j) ` {16..<48} \<union> (\<lambda>j. a + ucast n + of_nat j) ` {0..<32}"
    by (simp only: set_eq_iff Un_iff image_iff) blast
  then show ?thesis by (simp only: guards_ok_def ball_Un ball_simps)
qed

lemma check_region_exact:
  assumes "blocks_wf (lc_blocks s)" and "dbg_live s a n"
  shows "check_region s a n = (if guards_ok (lc_mem s) a n then Inr s else Inl Abort)"
proof -
  let ?p = "region_from_block a"
  have live: "unat n + 80 < 2 ^ 32" "48 < unat a" "lc_blocks s ?p = Some (unat n + 80)"
    using assms(2) by (auto simp: dbg_live_def)
  have p: "unat ?p + 48 = unat a" using region_address [of a] live(2) by simp
  have top: "unat ?p + (unat n + 80) < 2 ^ 64" by (rule blocks_wfD(2) [OF assms(1) live(3)])
  have ms: "unat (dbg_memsize n) = unat n + 80" by (rule memsize_exact [OF live(1)])
  have a: "block_from_region ?p = a"
    by (simp add: block_from_region_def region_from_block_def)
  have e: "unat (?p + ucast (dbg_memsize n)) = unat a + unat n + 32"
    using top ms p by (subst unat_add_exact) simp_all
  have b: "unat (a + ucast n) = unat a + unat n" using top p by (subst unat_add_exact) simp_all
  have l16: "unat (?p + ucast sizeof_MemBlockInfo) = unat ?p + 16"
    using top by (subst unat_add_exact) (simp_all add: sizeof_MemBlockInfo_def)
  have lower: "damaged_lower (lc_mem s) ?p (sizeof_MemBlockInfo + BUBBLEWRAP - 1) = 0 \<longleftrightarrow>
      (\<forall>j\<in>{16..<48}. lc_mem s (?p + of_nat j) = 0xFF)"
  proof -
    have i: "sizeof_MemBlockInfo + BUBBLEWRAP - 1 = 47" by (simp add: sizeof_MemBlockInfo_def BUBBLEWRAP_def)
    have "unat (47 :: u32) < 2 ^ 31" "Suc (unat (47 :: u32)) = 48" by simp_all
    then show ?thesis unfolding i unat_eq_0 [symmetric] damaged_lower_count [OF \<open>unat 47 < 2 ^ 31\<close>] filter_none
      by simp
  qed
  have upper: "damaged_upper (lc_mem s) (a + ucast n) (?p + ucast (dbg_memsize n)) = 0 \<longleftrightarrow>
      (\<forall>j\<in>{0..<32}. lc_mem s (a + ucast n + of_nat j) = 0xFF)"
  proof -
    have k: "unat (?p + ucast (dbg_memsize n)) - unat (a + ucast n) = 32" using e b by simp
    then have "unat (?p + ucast (dbg_memsize n)) - unat (a + ucast n) < 2 ^ 32" by simp
    then show ?thesis unfolding unat_eq_0 [symmetric] by (simp only: damaged_upper_count filter_none k not_not)
  qed
  have acc: "in_block s ?p (?p + ucast sizeof_MemBlockInfo) (unat BUBBLEWRAP)"
    "in_block s ?p (a + ucast n) (unat (?p + ucast (dbg_memsize n)) - unat (a + ucast n))"
    using live(3) l16 e b p by (simp_all add: in_block_def BUBBLEWRAP_def)
  have "unat a + unat n + 32 \<le> 2 ^ 64" using top p by simp
  from guards_split [OF p this, of "lc_mem s"] show ?thesis
    using acc lower upper by (auto simp: check_region_def Let_def a)
qed

subsection \<open>The contract\<close>

definition dbg_contract :: "pick_fun \<Rightarrow> libc \<Rightarrow> block set \<Rightarrow> bool" where
  "dbg_contract pick s B \<longleftrightarrow> pick_ok pick \<and> blocks_wf (lc_blocks s) \<and> finite B \<and> lc_count s = of_nat (card B) \<and>
     (\<forall>(a, n)\<in>B. dbg_live s a n \<and> guards_ok (lc_mem s) a n)"

lemma dbg_contractD:
  assumes "dbg_contract pick s B"
  shows "pick_ok pick" "blocks_wf (lc_blocks s)" "finite B" "lc_count s = of_nat (card B)"
    and "(a, n) \<in> B \<Longrightarrow> dbg_live s a n" "(a, n) \<in> B \<Longrightarrow> guards_ok (lc_mem s) a n"
  using assms by (auto simp: dbg_contract_def)

text \<open>The region of a block: its header, the guards and the block itself.\<close>

definition dbg_region :: "u64 \<Rightarrow> u32 \<Rightarrow> u64 set" where
  "dbg_region a n = {x. unat a \<le> unat x + 48 \<and> unat x < unat a + unat n + 32}"

lemma in_region: "x \<in> block_bytes (a, n) \<or> x \<in> guard_bytes a n \<Longrightarrow> x \<in> dbg_region a n"
  by (auto simp: dbg_region_def guard_bytes_def block_bytes_range)

lemma dbg_live_facts:
  assumes "blocks_wf (lc_blocks s)" and "dbg_live s a n"
  shows "unat (region_from_block a) + 48 = unat a" and "unat a + unat n + 32 < 2 ^ 64"
    and "lc_blocks s (region_from_block a) = Some (unat n + 80)"
    and "x \<in> dbg_region a n \<longleftrightarrow> unat (region_from_block a) \<le> unat x \<and>
      unat x < unat (region_from_block a) + (unat n + 80)"
proof -
  show p: "unat (region_from_block a) + 48 = unat a" and r: "lc_blocks s (region_from_block a) = Some (unat n + 80)"
    using assms(2) region_address [of a] by (simp_all add: dbg_live_def)
  from blocks_wfD(2) [OF assms(1) r] p show "unat a + unat n + 32 < 2 ^ 64" by simp
  show "x \<in> dbg_region a n \<longleftrightarrow> unat (region_from_block a) \<le> unat x \<and>
      unat x < unat (region_from_block a) + (unat n + 80)"
    unfolding dbg_region_def using p by auto
qed

lemma dbg_functional:
  assumes "dbg_live s a n" and "dbg_live s d k" and "region_from_block a = region_from_block d"
  shows "a = d" and "n = k"
proof -
  show "a = d" using assms(3) by (simp add: region_from_block_def)
  then have "unat n = unat k" using assms(1,2) by (simp add: dbg_live_def)
  then show "n = k" by (simp add: word_unat_eq_iff)
qed

lemma dbg_regions_apart:
  assumes "blocks_wf (lc_blocks s)" and "dbg_live s a n" and "dbg_live s d k" and "(a, n) \<noteq> (d, k)"
  shows "dbg_region a n \<inter> dbg_region d k = {}"
proof -
  have "region_from_block a \<noteq> region_from_block d" using dbg_functional [OF assms(2,3)] assms(4) by auto
  from blocks_wfD(3) [OF assms(1) dbg_live_facts(3) [OF assms(1,2)] dbg_live_facts(3) [OF assms(1,3)] this]
  show ?thesis by (auto simp: dbg_live_facts(4) [OF assms(1,2)] dbg_live_facts(4) [OF assms(1,3)] apart_def)
qed

lemma guards_ok_same:
  "guards_ok m a n \<Longrightarrow> (\<And>x. x \<in> dbg_region a n \<Longrightarrow> m' x = m x) \<Longrightarrow> guards_ok m' a n"
  using in_region by (auto simp: guards_ok_def)

lemma dbg_separate:
  assumes "dbg_contract pick s B" and "b \<in> B" and "c \<in> B" and "b \<noteq> c"
  shows "block_bytes b \<inter> block_bytes c = {}"
proof -
  obtain a n d k where e: "b = (a, n)" "c = (d, k)" by (cases b, cases c)
  note C = dbg_contractD [OF assms(1)]
  have "dbg_region a n \<inter> dbg_region d k = {}"
    using dbg_regions_apart [OF C(2) C(5) C(5), of a n d k] assms(2-4) e by simp
  then show ?thesis using in_region unfolding e by blast
qed

text \<open>The memory of a new region.\<close>

definition guarded_mem :: "(u64 \<Rightarrow> u8) \<Rightarrow> u64 \<Rightarrow> u32 \<Rightarrow> bool \<Rightarrow> (u64 \<Rightarrow> u8)" where
  "guarded_mem m p n clean =
     (let m = (if clean then filled m p (unat n + 80) 0 else m)
      in store_le (store_le (filled (filled m p 48 0xFF) (p + 48 + ucast n) 32 0xFF) p 8 (p + 48)) (p + 8) 4 (ucast n))"

lemma guarded_mem_facts:
  assumes "unat p + (unat n + 80) < 2 ^ 64"
  shows "x \<notin> dbg_region (p + 48) n \<Longrightarrow> guarded_mem m p n clean x = m x"
    and "guards_ok (guarded_mem m p n clean) (p + 48) n"
    and "clean \<Longrightarrow> x \<in> block_bytes (p + 48, n) \<Longrightarrow> guarded_mem m p n clean x = 0"
proof -
  have u: "unat (p + 48) = unat p + 48" "unat (p + 8) = unat p + 8"
    using assms by (subst unat_add_exact; simp)+
  have e: "unat (p + 48 + ucast n) = unat p + 48 + unat n"
    using assms u by (subst unat_add_exact) simp_all
  note D = guarded_mem_def store_le_def filled_def dbg_region_def guard_bytes_def block_bytes_range Let_def
  show "x \<notin> dbg_region (p + 48) n \<Longrightarrow> guarded_mem m p n clean x = m x"
    by (auto simp: D u e)
  show "guards_ok (guarded_mem m p n clean) (p + 48) n"
    unfolding guards_ok_def by (auto simp: D u e)
  show "clean \<Longrightarrow> x \<in> block_bytes (p + 48, n) \<Longrightarrow> guarded_mem m p n clean x = 0"
    by (auto simp: D u e)
qed

lemma dbg_allocate_eq:
  assumes "pick_ok pick" and "blocks_wf (lc_blocks s)" and "unat n + 80 < 2 ^ 32"
    and "p = pick (lc_blocks s) (unat n + 80)" and "p \<noteq> 0"
  shows "dbg_allocate pick s n clean = Inr (s\<lparr>lc_blocks := (lc_blocks s)(p \<mapsto> unat n + 80),
    lc_mem := guarded_mem (lc_mem s) p n clean, lc_count := lc_count s + 1\<rparr>, p + 48)"
proof -
  have ms: "unat (dbg_memsize n) = unat n + 80" by (rule memsize_exact [OF assms(3)])
  have P: "unat p + (unat n + 80) < 2 ^ 64" using pick_okD(2) [OF assms(1,2)] assms(4,5) by auto
  have c: "p + ucast sizeof_MemBlockInfo + ucast BUBBLEWRAP = p + 48"
    by (simp add: sizeof_MemBlockInfo_def BUBBLEWRAP_def)
  have u: "unat (p + 48) = unat p + 48" using P by (subst unat_add_exact) simp_all
  have e: "unat (p + ucast (dbg_memsize n)) = unat p + unat n + 80" using P ms by (subst unat_add_exact) simp_all
  have b: "unat (p + 48 + ucast n) = unat p + 48 + unat n" using P u by (subst unat_add_exact) simp_all
  have "unat (p + ucast (dbg_memsize n) - (p + 48 + ucast n)) = 32"
    using e b by (subst unat_sub_exact) simp_all
  then have l: "unat (p + 48 - p) = 48" "unat (p + ucast (dbg_memsize n) - (p + 48 + ucast n)) = 32"
    "\<not> p + ucast (dbg_memsize n) \<le> p + 48 + ucast n"
    using e b by (simp_all add: word_le_nat_alt)
  have "(if clean then c_calloc pick s 1 (unat (dbg_memsize n)) else c_malloc pick s (unat (dbg_memsize n))) =
      (s\<lparr>lc_blocks := (lc_blocks s)(p \<mapsto> unat n + 80),
         lc_mem := (if clean then filled (lc_mem s) p (unat n + 80) 0 else lc_mem s)\<rparr>, p)"
    using assms(4,5) by (simp add: ms c_calloc_def c_malloc_def Let_def)
  then show ?thesis using assms(5) u b l
    by (simp add: dbg_allocate_def Let_def c c_memset_def in_block_def guarded_mem_def)
qed

lemma dbg_keep:
  assumes "blocks_wf (lc_blocks s)" and "dbg_live s d k" and "guards_ok (lc_mem s) d k"
    and "lc_blocks t (region_from_block d) = lc_blocks s (region_from_block d)"
    and "\<And>x. x \<in> dbg_region d k \<Longrightarrow> lc_mem t x = lc_mem s x"
  shows "dbg_live t d k" and "guards_ok (lc_mem t) d k"
  using assms(2,4) guards_ok_same [OF assms(3,5)] by (simp_all add: dbg_live_def)

lemma dbg_allocate_ok:
  assumes "dbg_contract pick s B" and "unat n + 80 < 2 ^ 32"
  shows "\<exists>t a. dbg_allocate pick s n clean = Inr (t, a) \<and>
    (\<forall>b\<in>B. \<forall>x\<in>block_bytes b. lc_mem t x = lc_mem s x) \<and>
    (if a = 0 then dbg_contract pick t B
     else (a, n) \<notin> B \<and> dbg_contract pick t (insert (a, n) B) \<and>
       (clean \<longrightarrow> (\<forall>x\<in>block_bytes (a, n). lc_mem t x = 0)))"
proof (cases "pick (lc_blocks s) (unat n + 80) = 0")
  case True
  then have "dbg_allocate pick s n clean = Inr (s, 0)"
    by (simp add: dbg_allocate_def c_calloc_def c_malloc_def Let_def memsize_exact [OF assms(2)])
  then show ?thesis using assms(1) by simp
next
  case False
  note C = dbg_contractD [OF assms(1)]
  define p where "p = pick (lc_blocks s) (unat n + 80)"
  define t where "t = s\<lparr>lc_blocks := (lc_blocks s)(p \<mapsto> unat n + 80), lc_mem := guarded_mem (lc_mem s) p n clean,
    lc_count := lc_count s + 1\<rparr>"
  note P = pick_okD [OF C(1,2) False, folded p_def]
  note M = guarded_mem_facts [OF P(2)]
  have u: "unat (p + 48) = unat p + 48" using P(2) by (subst unat_add_exact) simp_all
  have rp: "region_from_block (p + 48) = p"
    by (simp add: region_from_block_def sizeof_MemBlockInfo_def BUBBLEWRAP_def)
  have p0: "p \<noteq> 0" using False by (simp add: p_def)
  have wt: "blocks_wf (lc_blocks t)" using P(4) by (simp add: t_def)
  have live: "dbg_live t (p + 48) n" using assms(2) u p0 by (simp add: dbg_live_def rp t_def unat_gt_0)
  have rest: "region_from_block d \<noteq> p" "dbg_region d k \<inter> dbg_region (p + 48) n = {}" if "(d, k) \<in> B" for d k
  proof -
    note L = dbg_live_facts [OF C(2) C(5) [OF that]]
    show "region_from_block d \<noteq> p" using L(3) P(1) by auto
    show "dbg_region d k \<inter> dbg_region (p + 48) n = {}"
      using P(3) [OF L(3)] by (auto simp: L(4) dbg_live_facts(4) [OF wt live] rp apart_def)
  qed
  have new: "(p + 48, m) \<notin> B" for m using rest(1) [of "p + 48" m] rp by blast
  have keep: "lc_mem t x = lc_mem s x" if "(d, k) \<in> B" "x \<in> dbg_region d k" for d k x
    using M(1) rest(2) [OF that(1)] that(2) by (auto simp: t_def)
  have "dbg_allocate pick s n clean = Inr (t, p + 48)"
    using dbg_allocate_eq [OF C(1,2) assms(2) p_def p0] by (simp add: t_def)
  moreover have "p + 48 \<noteq> 0" using u by (auto simp: word_unat_eq_iff)
  moreover have "dbg_live t d k \<and> guards_ok (lc_mem t) d k" if "(d, k) \<in> insert (p + 48, n) B" for d k
  proof (cases "(d, k) = (p + 48, n)")
    case True
    then show ?thesis using live M(2) by (simp add: t_def)
  next
    case False
    then have b: "(d, k) \<in> B" using that by auto
    then show ?thesis
      using dbg_keep [OF C(2) C(5) [OF b] C(6) [OF b], of t] rest(1) [OF b] keep [OF b] by (simp add: t_def)
  qed
  then have "dbg_contract pick t (insert (p + 48, n) B)"
    using C(1,3,4) wt new by (auto simp: dbg_contract_def t_def add.commute)
  moreover have "\<forall>b\<in>B. \<forall>x\<in>block_bytes b. lc_mem t x = lc_mem s x" using keep in_region by fast
  ultimately show ?thesis using new M(3) by (auto simp: t_def)
qed

text \<open>A release in a state where only the memory of client blocks and guards may have changed.\<close>

lemma dbg_release_exact:
  assumes "blocks_wf (lc_blocks s)" and "dbg_live s a n"
  shows "dbg_release s a n =
    (if guards_ok (lc_mem s) a n
     then Inr (s\<lparr>lc_blocks := (lc_blocks s)(region_from_block a := None), lc_count := lc_count s - 1\<rparr>, 0)
     else Inl Abort)"
proof -
  note L = dbg_live_facts [OF assms]
  have "a \<noteq> 0" using assms(2) by (auto simp: dbg_live_def)
  moreover have "region_from_block a \<noteq> 0" by (rule blocks_wfD(1) [OF assms(1) L(3)])
  ultimately show ?thesis using L(3) by (simp add: dbg_release_def check_region_exact [OF assms] c_free_def)
qed

lemma dbg_release_ok:
  assumes "dbg_contract pick s B" and "(a, n) \<in> B"
  shows "\<exists>t. dbg_release s a n = Inr (t, 0) \<and> dbg_contract pick t (B - {(a, n)}) \<and>
    (\<forall>b\<in>B. \<forall>x\<in>block_bytes b. lc_mem t x = lc_mem s x)"
proof -
  note C = dbg_contractD [OF assms(1)]
  let ?t = "s\<lparr>lc_blocks := (lc_blocks s)(region_from_block a := None), lc_count := lc_count s - 1\<rparr>"
  have "dbg_release s a n = Inr (?t, 0)"
    using dbg_release_exact [OF C(2) C(5) [OF assms(2)]] C(6) [OF assms(2)] by simp
  moreover have "lc_count s - 1 = of_nat (card (B - {(a, n)}))"
    using C(4) card.remove [OF C(3) assms(2)] by simp
  moreover have "dbg_live ?t d k \<and> guards_ok (lc_mem ?t) d k" if "(d, k) \<in> B - {(a, n)}" for d k
  proof -
    have b: "(d, k) \<in> B" "(d, k) \<noteq> (a, n)" using that by simp_all
    then have "region_from_block d \<noteq> region_from_block a"
      using dbg_functional [OF C(5) C(5) [OF assms(2)], of d k] by auto
    then show ?thesis using dbg_keep [OF C(2) C(5) C(6), of d k ?t] b(1) by simp
  qed
  ultimately show ?thesis
    using C(1,3) blocks_wf_remove [OF C(2)] unfolding dbg_contract_def by (intro exI [of _ ?t]) auto
qed

text \<open>The owner of a block may write to it.\<close>

lemma dbg_client_write:
  assumes "dbg_contract pick s B" and "(a, n) \<in> B" and "\<And>x. x \<notin> block_bytes (a, n) \<Longrightarrow> m x = lc_mem s x"
  shows "dbg_contract pick (s\<lparr>lc_mem := m\<rparr>) B"
proof -
  note C = dbg_contractD [OF assms(1)]
  have "guards_ok m d k" if b: "(d, k) \<in> B" for d k
  proof -
    have "m x = lc_mem s x" if x: "x \<in> guard_bytes d k" for x
    proof -
      have "x \<notin> block_bytes (a, n)"
      proof (cases "(d, k) = (a, n)")
        case True
        then show ?thesis using x by (auto simp: guard_bytes_def block_bytes_range)
      next
        case False
        then show ?thesis using dbg_regions_apart [OF C(2) C(5) [OF b] C(5) [OF assms(2)]] x in_region by blast
      qed
      then show ?thesis by (rule assms(3))
    qed
    then show ?thesis using C(6) [OF b] by (simp add: guards_ok_def)
  qed
  then show ?thesis using C(1-5) by (auto simp: dbg_contract_def dbg_live_def)
qed

lemma dbg_in_block:
  assumes "dbg_contract pick s B" and "(a, n) \<in> B" and "k \<le> unat n"
  shows "in_block s (region_from_block a) a k"
  using dbg_live_facts [OF dbg_contractD(2) [OF assms(1)] dbg_contractD(5) [OF assms(1,2)]] assms(3)
  by (simp add: in_block_def)

lemma dbg_move:
  assumes "dbg_contract pick s B" and "(a, old) \<in> B" and "(a', new) \<in> B" and "a' \<noteq> a" and "unat old \<le> unat new"
  shows "\<exists>t. bindE (c_memcpy s (region_from_block a') a' (region_from_block a) a (unat old)) (\<lambda>s.
      bindE (dbg_release s a old) (\<lambda>(s, _).
      bindE (if clean then c_memset s (region_from_block a') (a' + ucast old) 0 (unat (new - old)) else Inr s)
      (\<lambda>s. Inr (s, a', True, True)))) = Inr (t, a', True, True) \<and> dbg_contract pick t (B - {(a, old)}) \<and>
    (\<forall>x. x \<notin> block_bytes (a', new) \<longrightarrow> lc_mem t x = lc_mem s x) \<and>
    (\<forall>i < unat old. lc_mem t (a' + of_nat i) = lc_mem s (a + of_nat i)) \<and>
    (clean \<longrightarrow> (\<forall>i. unat old \<le> i \<and> i < unat new \<longrightarrow> lc_mem t (a' + of_nat i) = 0))"
proof -
  note C = dbg_contractD [OF assms(1)]
  note L = dbg_live_facts [OF C(2) C(5) [OF assms(3)]]
  define s2 where "s2 = s\<lparr>lc_mem := copied (lc_mem s) a' a (unat old)\<rparr>"
  have s2: "dbg_contract pick s2 B" unfolding s2_def
    by (rule dbg_client_write [OF assms(1,3)]) (use assms(5) in \<open>auto simp: block_bytes_range copied_def\<close>)
  have cp: "c_memcpy s (region_from_block a') a' (region_from_block a) a (unat old) = Inr s2"
    using dbg_in_block [OF assms(1,3,5)] dbg_in_block [OF assms(1,2) order_refl] by (simp add: c_memcpy_def s2_def)
  define s3 where "s3 = s2\<lparr>lc_blocks := (lc_blocks s2)(region_from_block a := None), lc_count := lc_count s2 - 1\<rparr>"
  have rl: "dbg_release s2 a old = Inr (s3, 0)"
    using dbg_release_exact [OF dbg_contractD(2,5) [OF s2] ] dbg_contractD(6) [OF s2 assms(2)] assms(2) by (simp add: s3_def)
  have s3: "dbg_contract pick s3 (B - {(a, old)})"
    using dbg_release_ok [OF s2 assms(2)] rl by auto
  have mem3: "lc_mem s3 = copied (lc_mem s) a' a (unat old)" by (simp add: s3_def s2_def)
  have b3: "(a', new) \<in> B - {(a, old)}" using assms(3,4) by simp
  have off: "unat (a' + ucast old) = unat a' + unat old" "unat (new - old) = unat new - unat old"
    using L(2) assms(5) by (subst unat_add_exact, simp_all add: unat_sub_exact)
  define m where "m = (if clean then filled (lc_mem s3) (a' + ucast old) (unat new - unat old) 0 else lc_mem s3)"
  have "in_block s3 (region_from_block a') (a' + ucast old) (unat new - unat old)"
    using dbg_in_block [OF s3 b3 order_refl] off assms(5) by (auto simp: in_block_def split: option.splits)
  then have ms: "(if clean then c_memset s3 (region_from_block a') (a' + ucast old) 0 (unat (new - old)) else Inr s3) =
      Inr (s3\<lparr>lc_mem := m\<rparr>)" by (simp add: c_memset_def off(2) m_def)
  have at: "unat (a' + of_nat i) = unat a' + i" if "i < unat new" for i
    using byte_at [of a' "unat new" i] L(2) that by simp
  have "dbg_contract pick (s3\<lparr>lc_mem := m\<rparr>) (B - {(a, old)})"
    by (rule dbg_client_write [OF s3 b3]) (use off assms(5) in \<open>auto simp: m_def filled_def block_bytes_range\<close>)
  moreover have "m x = lc_mem s x" if "x \<notin> block_bytes (a', new)" for x
    using that off assms(5) by (auto simp: m_def filled_def block_bytes_range mem3 copied_def)
  moreover have "m (a' + of_nat i) = lc_mem s (a + of_nat i)" if "i < unat old" for i
    using that at [of i] off assms(5) by (simp add: m_def filled_def mem3 copied_def)
  moreover have "m (a' + of_nat i) = 0" if "clean" "unat old \<le> i" "i < unat new" for i
    using that at [of i] off by (simp add: m_def filled_def)
  ultimately show ?thesis using cp rl ms by (intro exI [of _ "s3\<lparr>lc_mem := m\<rparr>"]) auto
qed

lemma dbg_reallocate_ok:
  assumes "dbg_contract pick s B" and "(a, old) \<in> B" and "unat new + 80 < 2 ^ 32" and "unat old \<le> unat new"
  shows "\<exists>t a' changed ok. dbg_reallocate pick s a old new clean = Inr (t, a', changed, ok) \<and>
    changed = (a' \<noteq> a) \<and> (\<forall>b\<in>B - {(a, old)}. \<forall>x\<in>block_bytes b. lc_mem t x = lc_mem s x) \<and>
    (if ok then a' \<noteq> 0 \<and> dbg_contract pick t (insert (a', new) (B - {(a, old)})) \<and>
       (\<forall>i < min (unat old) (unat new). lc_mem t (a' + of_nat i) = lc_mem s (a + of_nat i)) \<and>
       (clean \<longrightarrow> (\<forall>i. unat old \<le> i \<and> i < unat new \<longrightarrow> lc_mem t (a' + of_nat i) = 0))
     else a' = a \<and> dbg_contract pick t B \<and> (\<forall>x\<in>block_bytes (a, old). lc_mem t x = lc_mem s x))"
proof (cases "old = new")
  case True
  have a: "a \<noteq> 0" using dbg_contractD(5) [OF assms(1,2)] by (auto simp: dbg_live_def)
  show ?thesis
    by (rule exI [of _ s], rule exI [of _ a], rule exI [of _ False], rule exI [of _ True])
      (use a True assms(1,2) in \<open>auto simp: dbg_reallocate_def insert_absorb\<close>)
next
  case differ: False
  note C = dbg_contractD [OF assms(1)]
  have a: "a \<noteq> 0" using C(5) [OF assms(2)] by (auto simp: dbg_live_def)
  obtain s1 a' where s1: "dbg_allocate pick s new False = Inr (s1, a')"
    "\<forall>b\<in>B. \<forall>x\<in>block_bytes b. lc_mem s1 x = lc_mem s x"
    "a' = 0 \<Longrightarrow> dbg_contract pick s1 B"
    "a' \<noteq> 0 \<Longrightarrow> (a', new) \<notin> B \<and> dbg_contract pick s1 (insert (a', new) B)"
    using dbg_allocate_ok [OF assms(1,3), of False] by (auto split: if_splits)
  show ?thesis
  proof (cases "a' = 0")
    case True
    have "dbg_reallocate pick s a old new clean = Inr (s1, a, False, False)"
      using differ a s1(1) True by (simp add: dbg_reallocate_def)
    then show ?thesis using s1(2,3) True assms(2) by auto
  next
    case False
    let ?B = "insert (a', new) B"
    have c1: "dbg_contract pick s1 ?B" "(a', new) \<notin> B" using s1(4) False by simp_all
    have ab: "(a, old) \<in> ?B" "(a', new) \<in> ?B" using assms(2) by simp_all
    have ne: "a' \<noteq> a"
      using dbg_functional(2) [OF dbg_contractD(5) [OF c1(1) ab(2)] dbg_contractD(5) [OF c1(1) ab(1)]] differ by auto
    obtain t where t: "dbg_reallocate pick s a old new clean = Inr (t, a', True, True)"
      "dbg_contract pick t (?B - {(a, old)})" "\<forall>x. x \<notin> block_bytes (a', new) \<longrightarrow> lc_mem t x = lc_mem s1 x"
      "\<forall>i < unat old. lc_mem t (a' + of_nat i) = lc_mem s1 (a + of_nat i)"
      "clean \<longrightarrow> (\<forall>i. unat old \<le> i \<and> i < unat new \<longrightarrow> lc_mem t (a' + of_nat i) = 0)"
      using dbg_move [OF c1(1) ab ne assms(4), of clean] differ a s1(1) False by (auto simp: dbg_reallocate_def)
    have set: "?B - {(a, old)} = insert (a', new) (B - {(a, old)})" using c1(2) assms(2) by auto
    have others: "lc_mem t x = lc_mem s x" if "b \<in> B" "x \<in> block_bytes b" for b x
    proof -
      have "x \<notin> block_bytes (a', new)"
        using dbg_separate [OF c1(1), of b "(a', new)"] that c1(2) by auto
      then show ?thesis using t(3) s1(2) that by simp
    qed
    have "a + of_nat i \<in> block_bytes (a, old)" if "i < unat old" for i
      using byte_at [of a "unat old" i] dbg_live_facts(2) [OF C(2) C(5) [OF assms(2)]] that by (simp add: block_bytes_range)
    then have "\<forall>i < unat old. lc_mem t (a' + of_nat i) = lc_mem s (a + of_nat i)" using t(4) s1(2) assms(2) by auto
    then have "(if True then a' \<noteq> 0 \<and> dbg_contract pick t (insert (a', new) (B - {(a, old)})) \<and>
       (\<forall>i < min (unat old) (unat new). lc_mem t (a' + of_nat i) = lc_mem s (a + of_nat i)) \<and>
       (clean \<longrightarrow> (\<forall>i. unat old \<le> i \<and> i < unat new \<longrightarrow> lc_mem t (a' + of_nat i) = 0))
     else a' = a \<and> dbg_contract pick t B \<and> (\<forall>x\<in>block_bytes (a, old). lc_mem t x = lc_mem s x))"
      using t(2,5) False by (simp add: set)
    moreover have "\<forall>b\<in>B - {(a, old)}. \<forall>x\<in>block_bytes b. lc_mem t x = lc_mem s x" using others by blast
    ultimately show ?thesis using t(1) ne by blast
  qed
qed

interpretation dbg: resizing_allocator "dbg_contract pick" lc_mem "\<lambda>n. unat n + 80 < 2 ^ 32" "dbg_allocate pick"
  dbg_release "\<lambda>old new. unat old \<le> unat new" "dbg_reallocate pick"
  for pick :: pick_fun
  by unfold_locales (rule dbg_separate dbg_allocate_ok dbg_release_ok dbg_reallocate_ok; assumption)+

subsection \<open>What the guards are good for\<close>

text \<open>
  C29. Whatever a program has written over memory since a block was allocated, \<open>_release\<close> of the block ends
  the program exactly when one of the 64 bytes around the block is not 0xFF any more; otherwise the block
  is gone and the counter is one less.
\<close>

theorem dbg_release_detects_damage:
  assumes "dbg_contract pick s B" and "(a, n) \<in> B"
  shows "dbg_release (s\<lparr>lc_mem := m\<rparr>) a n =
    (if \<forall>x\<in>guard_bytes a n. m x = 0xFF
     then Inr (s\<lparr>lc_mem := m, lc_blocks := (lc_blocks s)(region_from_block a := None), lc_count := lc_count s - 1\<rparr>, 0)
     else Inl Abort)"
proof -
  have "blocks_wf (lc_blocks (s\<lparr>lc_mem := m\<rparr>))" "dbg_live (s\<lparr>lc_mem := m\<rparr>) a n"
    using dbg_contractD(2,5) [OF assms(1)] assms(2) by (simp_all add: dbg_live_def)
  from dbg_release_exact [OF this] show ?thesis by (simp add: guards_ok_def)
qed

text \<open>
  C30. \<open>_allocate\<close> of the debug allocator gives a block in a region of its own with intact guards, zeroed on
  request, or null. A growing \<open>_reallocate\<close> of any live block moves it: the new block holds, byte for byte,
  what the old one held, and zeroes behind it on request; or nothing changes. Both keep the guards and the
  bytes of every other live block. Sizes are those whose region is smaller than 4 GiB.
\<close>

theorem dbg_grow_keeps_contents:
  assumes "dbg_contract pick s B" and "unat m + 80 < 2 ^ 32" and "(a, n) \<in> B" and "n \<le> m"
  shows "(\<exists>t b. dbg_allocate pick s m clean = Inr (t, b) \<and> (\<forall>v\<in>B. \<forall>x\<in>block_bytes v. lc_mem t x = lc_mem s x) \<and>
      (if b = 0 then dbg_contract pick t B
       else (b, m) \<notin> B \<and> dbg_contract pick t (insert (b, m) B) \<and> (clean \<longrightarrow> (\<forall>x\<in>block_bytes (b, m). lc_mem t x = 0)))) \<and>
    (\<exists>t b changed ok. dbg_reallocate pick s a n m clean = Inr (t, b, changed, ok) \<and>
      changed = (b \<noteq> a) \<and> (\<forall>v\<in>B - {(a, n)}. \<forall>x\<in>block_bytes v. lc_mem t x = lc_mem s x) \<and>
      (if ok then b \<noteq> 0 \<and> dbg_contract pick t (insert (b, m) (B - {(a, n)})) \<and>
         (\<forall>i < unat n. lc_mem t (b + of_nat i) = lc_mem s (a + of_nat i)) \<and>
         (clean \<longrightarrow> (\<forall>i. unat n \<le> i \<and> i < unat m \<longrightarrow> lc_mem t (b + of_nat i) = 0))
       else b = a \<and> dbg_contract pick t B \<and> (\<forall>x\<in>block_bytes (a, n). lc_mem t x = lc_mem s x)))"
proof
  have le: "unat n \<le> unat m" using assms(4) by (simp add: word_le_nat_alt)
  show "\<exists>t b. dbg_allocate pick s m clean = Inr (t, b) \<and> (\<forall>v\<in>B. \<forall>x\<in>block_bytes v. lc_mem t x = lc_mem s x) \<and>
      (if b = 0 then dbg_contract pick t B
       else (b, m) \<notin> B \<and> dbg_contract pick t (insert (b, m) B) \<and> (clean \<longrightarrow> (\<forall>x\<in>block_bytes (b, m). lc_mem t x = 0)))"
    by (rule dbg.alloc_law [OF assms(1,2)])
  show "\<exists>t b changed ok. dbg_reallocate pick s a n m clean = Inr (t, b, changed, ok) \<and>
      changed = (b \<noteq> a) \<and> (\<forall>v\<in>B - {(a, n)}. \<forall>x\<in>block_bytes v. lc_mem t x = lc_mem s x) \<and>
      (if ok then b \<noteq> 0 \<and> dbg_contract pick t (insert (b, m) (B - {(a, n)})) \<and>
         (\<forall>i < unat n. lc_mem t (b + of_nat i) = lc_mem s (a + of_nat i)) \<and>
         (clean \<longrightarrow> (\<forall>i. unat n \<le> i \<and> i < unat m \<longrightarrow> lc_mem t (b + of_nat i) = 0))
       else b = a \<and> dbg_contract pick t B \<and> (\<forall>x\<in>block_bytes (a, n). lc_mem t x = lc_mem s x))"
    using dbg.resize_law [OF assms(1,3,2) le, of clean] unfolding min_absorb1 [OF le] .
qed

text \<open>A heap with one block of 8 bytes.\<close>

definition dbg_demo :: libc where
  "dbg_demo = \<lparr>lc_mem = (\<lambda>x. 0xFF), lc_blocks = [0x10000 \<mapsto> 88], lc_count = 1\<rparr>"

lemma dbg_demo_ok: "dbg_contract few_places dbg_demo {(0x10030, 8)}"
proof -
  have "region_from_block 0x10030 = 0x10000" by code_simp
  then show ?thesis
    by (simp add: dbg_contract_def few_places_ok dbg_demo_def blocks_wf_def dbg_live_def guards_ok_def)
qed

theorem dbg_release_detects_damage_witness:
  "dbg_release (dbg_demo\<lparr>lc_mem := (\<lambda>x. 0xFF)(0x10038 := 0)\<rparr>) 0x10030 8 = Inl Abort \<and>
   dbg_release (dbg_demo\<lparr>lc_mem := (\<lambda>x. 0xFF)(0x10037 := 0)\<rparr>) 0x10030 8 \<noteq> Inl Abort"
proof -
  note D = dbg_release_detects_damage [OF dbg_demo_ok, of "0x10030" 8]
  have "0x10038 \<in> guard_bytes 0x10030 8" "0x10037 \<notin> guard_bytes 0x10030 8" by (simp_all add: guard_bytes_def)
  then show ?thesis by (auto simp: D)
qed

theorem dbg_grow_keeps_contents_witness:
  "\<exists>t b changed ok. dbg_reallocate few_places dbg_demo 0x10030 8 12 True = Inr (t, b, changed, ok) \<and>
    (if ok then dbg_contract few_places t {(b, 12)} \<and> lc_mem t (b + 7) = 0xFF \<and> lc_mem t (b + 8) = 0 else b = 0x10030)"
proof -
  have m: "lc_mem dbg_demo x = 0xFF" for x by (simp add: dbg_demo_def)
  have le: "unat (12 :: u32) + 80 < 2 ^ 32" "(8 :: u32) \<le> 12" by simp_all
  from dbg_grow_keeps_contents [OF dbg_demo_ok le(1) singletonI le(2), of True, THEN conjunct2]
  obtain t b changed ok where t: "dbg_reallocate few_places dbg_demo 0x10030 8 12 True = Inr (t, b, changed, ok)"
    "if ok then b \<noteq> 0 \<and> dbg_contract few_places t (insert (b, 12) ({(0x10030, 8)} - {(0x10030, 8)})) \<and>
       (\<forall>i < unat (8 :: u32). lc_mem t (b + of_nat i) = lc_mem dbg_demo (0x10030 + of_nat i)) \<and>
       (True \<longrightarrow> (\<forall>i. unat (8 :: u32) \<le> i \<and> i < unat (12 :: u32) \<longrightarrow> lc_mem t (b + of_nat i) = 0))
     else b = 0x10030 \<and> dbg_contract few_places t {(0x10030, 8)} \<and>
       (\<forall>x\<in>block_bytes (0x10030, 8). lc_mem t x = lc_mem dbg_demo x)" by blast
  show ?thesis
  proof (cases ok)
    case True
    then have c: "dbg_contract few_places t {(b, 12)}" "\<forall>i<8. lc_mem t (b + of_nat i) = 0xFF"
      "\<forall>i. 8 \<le> i \<and> i < 12 \<longrightarrow> lc_mem t (b + of_nat i) = 0" using t(2) by (simp_all add: m)
    then show ?thesis using t(1) True spec [OF c(2), of 7] spec [OF c(3), of 8] by auto
  qed (use t in auto)
qed

text \<open>
  A shrinking \<open>_reallocate\<close> copies the old size: up to 32 bytes of the old contents land in the upper guard
  of the new block, and its release then ends the program.
\<close>

lemma dbg_shrink_damages_guard:
  assumes "dbg_contract pick s B" and "(a, old) \<in> B" and "unat new < unat old" and "unat old \<le> unat new + 32"
    and "pick (lc_blocks s) (unat new + 80) \<noteq> 0" and "unat new \<le> i" "i < unat old" and "lc_mem s (a + of_nat i) \<noteq> 0xFF"
  shows "\<exists>t a'. dbg_reallocate pick s a old new False = Inr (t, a', True, True) \<and> dbg_release t a' new = Inl Abort"
proof -
  note C = dbg_contractD [OF assms(1)]
  have small: "unat new + 80 < 2 ^ 32" using C(5) [OF assms(2)] assms(3) by (simp add: dbg_live_def)
  have a0: "a \<noteq> 0" using C(5) [OF assms(2)] by (auto simp: dbg_live_def)
  define p where "p = pick (lc_blocks s) (unat new + 80)"
  have P: "unat p + (unat new + 80) < 2 ^ 64" using pick_okD(2) [OF C(1,2)] assms(5) by (auto simp: p_def)
  obtain s1 where s1: "dbg_allocate pick s new False = Inr (s1, p + 48)"
    using dbg_allocate_eq [OF C(1,2) small p_def] assms(5) by (simp add: p_def)
  have p48: "unat (p + 48) = unat p + 48" using P by (subst unat_add_exact) simp_all
  then have nz: "p + 48 \<noteq> 0" by (auto simp: word_unat_eq_iff)
  let ?B = "insert (p + 48, new) B"
  have c1: "dbg_contract pick s1 ?B" "\<forall>b\<in>B. \<forall>x\<in>block_bytes b. lc_mem s1 x = lc_mem s x"
    using dbg_allocate_ok [OF assms(1) small, of False] s1 nz by auto
  note C1 = dbg_contractD [OF c1(1)]
  have ab: "(a, old) \<in> ?B" "(p + 48, new) \<in> ?B" using assms(2) by simp_all
  define s2 where "s2 = s1\<lparr>lc_mem := copied (lc_mem s1) (p + 48) a (unat old)\<rparr>"
  have "in_block s1 (region_from_block (p + 48)) (p + 48) (unat old)"
    using dbg_live_facts [OF C1(2,5), OF ab(2)] assms(4) by (simp add: in_block_def)
  then have cp: "c_memcpy s1 (region_from_block (p + 48)) (p + 48) (region_from_block a) a (unat old) = Inr s2"
    using dbg_in_block [OF c1(1) ab(1) order_refl] by (simp add: c_memcpy_def s2_def)
  have ne: "(a, old) \<noteq> (p + 48, new)" using assms(3) by auto
  have "dbg_region a old \<inter> dbg_region (p + 48) new = {}" by (rule dbg_regions_apart [OF C1(2) C1(5) C1(5) ne]) (rule ab)+
  moreover have "x \<in> dbg_region (p + 48) new \<or> lc_mem s2 x = lc_mem s1 x" for x
    using assms(4) by (auto simp: s2_def copied_def dbg_region_def)
  ultimately have "guards_ok (lc_mem s2) a old" using guards_ok_same [OF C1(6) [OF ab(1)]] by blast
  moreover have l2: "blocks_wf (lc_blocks s2)" "dbg_live s2 a old" "dbg_live s2 (p + 48) new"
    using C1(2,5) ab by (auto simp: s2_def dbg_live_def)
  ultimately obtain s3 where s3: "dbg_release s2 a old = Inr (s3, 0)"
    "s3 = s2\<lparr>lc_blocks := (lc_blocks s2)(region_from_block a := None), lc_count := lc_count s2 - 1\<rparr>"
    using dbg_release_exact [OF l2(1,2)] by simp
  have re: "dbg_reallocate pick s a old new False = Inr (s3, p + 48, True, True)"
    using assms(3) a0 s1 nz cp s3(1) by (auto simp: dbg_reallocate_def)
  have "region_from_block (p + 48) \<noteq> region_from_block a" using dbg_functional [OF l2(3,2)] ne by auto
  then have l3: "blocks_wf (lc_blocks s3)" "dbg_live s3 (p + 48) new"
    using l2 blocks_wf_remove by (simp_all add: s3(2) dbg_live_def)
  have i: "unat (p + 48 + of_nat i) = unat p + 48 + i"
    using byte_at [of "p + 48" "unat new + 32" i] P p48 assms(4,7) by simp
  then have g: "p + 48 + of_nat i \<in> guard_bytes (p + 48) new"
    using assms(4,6,7) p48 by (simp add: guard_bytes_def)
  have "a + of_nat i \<in> block_bytes (a, old)"
    using byte_at [of a "unat old" i] dbg_live_facts(2) [OF C(2) C(5) [OF assms(2)]] assms(7) by (simp add: block_bytes_range)
  then have "lc_mem s3 (p + 48 + of_nat i) = lc_mem s (a + of_nat i)"
    using c1(2) assms(2,7) i p48 by (simp add: s3(2) s2_def copied_def)
  then have "\<not> guards_ok (lc_mem s3) (p + 48) new" using g assms(8) unfolding guards_ok_def by metis
  with dbg_release_exact [OF l3] re show ?thesis by auto
qed

end
