(* ===== verification/Sync_Event.thy ===== *)
theory Sync_Event
  imports Alloc_Interface
begin

text \<open>
  Events, \<^verbatim>\<open>src/sync_event.c\<close>. \<open>create_event\<close> and \<open>delete_event\<close> are functions on the state of the default
  allocator. The operations on an event run in any number of threads, so they are a step relation: a step
  is one access to the flag or one call of the thread library by one thread. The library keeps its
  promises: a mutex has one owner, \<open>cnd_wait\<close> releases the mutex and falls asleep in one step and takes
  the mutex again before it returns, and a sleeper wakes up by a broadcast, by its timeout, or for no
  reason.
\<close>

subsection \<open>Creation and deletion\<close>

text \<open>
  Whether \<open>cnd_init\<close> and \<open>mtx_init\<close> succeed for the event at an address is an argument, as is the size of
  the structure. \<open>errno\<close> is not modelled.
\<close>

record thread_lib =
  cnd_init_ok :: "u64 \<Rightarrow> bool"
  mtx_init_ok :: "u64 \<Rightarrow> bool"
  sizeof_Event :: u32

text \<open>
  The objects of the thread library that events have: the numbers of condition variables and of mutexes that
  are initialised and not destroyed.
\<close>

record sync_objects =
  so_conds :: nat
  so_mtxs :: nat

definition cond_made :: "sync_objects \<Rightarrow> sync_objects" where
  "cond_made ob = ob\<lparr>so_conds := so_conds ob + 1\<rparr>"

definition mtx_made :: "sync_objects \<Rightarrow> sync_objects" where
  "mtx_made ob = ob\<lparr>so_mtxs := so_mtxs ob + 1\<rparr>"

definition create_event ::
  "thread_lib \<Rightarrow> ('s \<Rightarrow> u32 \<Rightarrow> bool \<Rightarrow> ('s \<times> u64) res) \<Rightarrow> ('s \<Rightarrow> u64 \<Rightarrow> u32 \<Rightarrow> ('s \<times> u64) res) \<Rightarrow> 's \<Rightarrow>
   sync_objects \<Rightarrow> ('s \<times> sync_objects \<times> u64) res" where
  "create_event L alloc free s ob =
     bindE (alloc s (sizeof_Event L) True) (\<lambda>(s, event).
     if event = 0 then Inr (s, ob, 0)
     else if \<not> cnd_init_ok L event
     then bindE (free s event (sizeof_Event L)) (\<lambda>(s, _). Inr (s, ob, 0))
     else (let ob = cond_made ob
           in if \<not> mtx_init_ok L event
              then bindE (free s event (sizeof_Event L)) (\<lambda>(s, _). Inr (s, ob, 0))
              else Inr (s, mtx_made ob, event)))"

text \<open>The argument is the address of a pointer in the code: \<open>None\<close> when it is null, or the pointer.\<close>

definition delete_event ::
  "thread_lib \<Rightarrow> ('s \<Rightarrow> u64 \<Rightarrow> u32 \<Rightarrow> ('s \<times> u64) res) \<Rightarrow> 's \<Rightarrow> sync_objects \<Rightarrow> u64 option \<Rightarrow> ('s \<times> sync_objects) res" where
  "delete_event L free s ob event_ptr =
     (case event_ptr of None \<Rightarrow> Inr (s, ob)
      | Some event \<Rightarrow>
          if event \<noteq> 0
          then (let ob = ob\<lparr>so_mtxs := so_mtxs ob - 1\<rparr>; ob = ob\<lparr>so_conds := so_conds ob - 1\<rparr>
                in bindE (free s event (sizeof_Event L)) (\<lambda>(s, _). Inr (s, ob)))
          else Inr (s, ob))"

subsection \<open>The operations as steps of threads\<close>

text \<open>
  The place of a thread. The first argument says whether the wait has a timeout, the second of \<open>Woken\<close>
  whether the timeout has woken it; the argument of the last two is the result.
\<close>

datatype event_pc =
    Out
  | Setting
  | Locking bool
  | Holding bool
  | Deciding bool
  | Asleep bool
  | Woken bool bool
  | Unlocking bool
  | Returned bool

record event =
  ev_flag :: bool
  ev_owner :: "nat option"
  ev_pc :: "nat \<Rightarrow> event_pc"

definition goto :: "event \<Rightarrow> nat \<Rightarrow> event_pc \<Rightarrow> event" where
  "goto e t pc = e\<lparr>ev_pc := (ev_pc e)(t := pc)\<rparr>"

fun wake :: "event_pc \<Rightarrow> event_pc" where
  "wake (Asleep timed) = Woken timed False"
| "wake pc = pc"

inductive event_step :: "event \<Rightarrow> nat \<Rightarrow> event \<Rightarrow> bool" where
  set_flag: "ev_pc e t = Out \<Longrightarrow> event_step e t (goto (e\<lparr>ev_flag := True\<rparr>) t Setting)"
| broadcast: "ev_pc e t = Setting \<Longrightarrow> event_step e t (goto (e\<lparr>ev_pc := wake \<circ> ev_pc e\<rparr>) t Out)"
| clear: "ev_pc e t = Out \<Longrightarrow> event_step e t (e\<lparr>ev_flag := False\<rparr>)"
| enter: "ev_pc e t = Out \<Longrightarrow> event_step e t (goto e t (Locking timed))"
| lock: "ev_pc e t = Locking timed \<Longrightarrow> ev_owner e = None \<Longrightarrow>
     event_step e t (goto (e\<lparr>ev_owner := Some t\<rparr>) t (Holding timed))"
| seen: "ev_pc e t = Holding timed \<Longrightarrow> ev_flag e \<Longrightarrow> event_step e t (goto e t (Unlocking True))"
| unseen: "ev_pc e t = Holding timed \<Longrightarrow> \<not> ev_flag e \<Longrightarrow> event_step e t (goto e t (Deciding timed))"
| sleep: "ev_pc e t = Deciding timed \<Longrightarrow> event_step e t (goto (e\<lparr>ev_owner := None\<rparr>) t (Asleep timed))"
| timeout: "ev_pc e t = Asleep True \<Longrightarrow> event_step e t (goto e t (Woken True True))"
| spurious: "ev_pc e t = Asleep timed \<Longrightarrow> event_step e t (goto e t (Woken timed False))"
| relock: "ev_pc e t = Woken timed out \<Longrightarrow> ev_owner e = None \<Longrightarrow>
     event_step e t (goto (e\<lparr>ev_owner := Some t\<rparr>) t (Unlocking (timed \<and> \<not> out)))"
| unlock: "ev_pc e t = Unlocking r \<Longrightarrow> event_step e t (goto (e\<lparr>ev_owner := None\<rparr>) t (Returned r))"
| return: "ev_pc e t = Returned r \<Longrightarrow> event_step e t (goto e t Out)"

text \<open>\<open>event_is_set\<close> reads the flag.\<close>

definition event_is_set :: "event \<Rightarrow> bool" where
  "event_is_set e = ev_flag e"

inductive event_run :: "event \<Rightarrow> event \<Rightarrow> bool" where
  event_start: "event_run e e"
| event_next: "event_run e f \<Longrightarrow> event_step f t g \<Longrightarrow> event_run e g"

inductive_cases event_stepE: "event_step e t f"
inductive_simps event_asleep: "event_step e t (goto f u (Asleep timed))"

lemma ev_pc_goto [simp]: "ev_pc (goto e t pc) u = (if u = t then pc else ev_pc e u)"
  "ev_owner (goto e t pc) = ev_owner e" "ev_flag (goto e t pc) = ev_flag e"
  by (simp_all add: goto_def)

lemma wake_simps [simp]: "wake pc \<noteq> Asleep timed" "wake pc = Holding timed \<longleftrightarrow> pc = Holding timed"
  "wake pc = Deciding timed \<longleftrightarrow> pc = Deciding timed" "wake pc = Unlocking r \<longleftrightarrow> pc = Unlocking r"
  "wake pc = Out \<longleftrightarrow> pc = Out" "wake pc = Setting \<longleftrightarrow> pc = Setting"
  by (cases pc; simp)+

subsection \<open>The mutex\<close>

fun owns :: "event_pc \<Rightarrow> bool" where
  "owns (Holding timed) = True"
| "owns (Deciding timed) = True"
| "owns (Unlocking r) = True"
| "owns _ = False"

definition event_inv :: "event \<Rightarrow> bool" where
  "event_inv e \<longleftrightarrow> (\<forall>t. owns (ev_pc e t) \<longleftrightarrow> ev_owner e = Some t)"

lemma owns_wake [simp]: "owns (wake pc) = owns pc"
  by (cases pc) simp_all

text \<open>A step keeps the place of the owner, takes the mutex when it is free, or gives it back.\<close>

lemma inv_goto: "event_inv e \<Longrightarrow> ev_pc e t = pc \<Longrightarrow> owns pc' = owns pc \<Longrightarrow> event_inv (goto e t pc')"
  by (auto simp: event_inv_def)

lemma inv_take: "event_inv e \<Longrightarrow> ev_owner e = None \<Longrightarrow> owns pc \<Longrightarrow> event_inv (goto (e\<lparr>ev_owner := Some t\<rparr>) t pc)"
  by (auto simp: event_inv_def goto_def)

lemma inv_drop:
  "event_inv e \<Longrightarrow> ev_pc e t = pc \<Longrightarrow> owns pc \<Longrightarrow> \<not> owns pc' \<Longrightarrow> event_inv (goto (e\<lparr>ev_owner := None\<rparr>) t pc')"
  unfolding event_inv_def goto_def by (simp, metis option.inject)

lemma inv_flag: "event_inv e \<Longrightarrow> event_inv (e\<lparr>ev_flag := b\<rparr>)"
  by (simp add: event_inv_def)

lemma inv_wake: "event_inv e \<Longrightarrow> event_inv (e\<lparr>ev_pc := wake \<circ> ev_pc e\<rparr>)"
  by (simp add: event_inv_def)

lemma event_step_inv: "event_step e t f \<Longrightarrow> event_inv e \<Longrightarrow> event_inv f"
proof (induction rule: event_step.induct)
  case (set_flag e t)
  show ?case by (rule inv_goto [OF inv_flag [OF set_flag.prems], of _ t Out]) (use set_flag in simp_all)
next
  case (broadcast e t)
  show ?case by (rule inv_goto [OF inv_wake [OF broadcast.prems] refl]) (use broadcast in simp)
next
  case (clear e t)
  then show ?case by (simp add: inv_flag)
next
  case (sleep e t timed)
  then show ?case by (auto intro: inv_drop)
next
  case (unlock e t r)
  then show ?case by (auto intro: inv_drop)
next
  case (lock e t timed)
  then show ?case by (simp add: inv_take)
next
  case (relock e t timed out)
  then show ?case by (simp add: inv_take)
qed (auto intro: inv_goto)

lemma event_run_inv: "event_run e f \<Longrightarrow> event_inv e \<Longrightarrow> event_inv f"
  by (induction rule: event_run.induct) (auto intro: event_step_inv)

definition idle_event :: "bool \<Rightarrow> event" where
  "idle_event flag = \<lparr>ev_flag = flag, ev_owner = None, ev_pc = \<lambda>t. Out\<rparr>"

lemma idle_inv: "event_inv (idle_event flag)"
  by (simp add: event_inv_def idle_event_def)

subsection \<open>Results and wake-ups\<close>

text \<open>The result of a wait is decided when it saw the flag, or when it has taken the mutex again.\<close>

lemma event_result:
  assumes "event_step e t f" and "ev_pc f u = Unlocking r" and "ev_pc e u \<noteq> Unlocking r"
  shows "u = t \<and> ((\<exists>timed. ev_pc e t = Holding timed) \<and> ev_flag e \<and> r \<or>
    (\<exists>timed out. ev_pc e t = Woken timed out \<and> r = (timed \<and> \<not> out)))"
  using assms by (cases rule: event_step.cases) (auto split: if_splits)

lemma broadcast_wakes_all:
  assumes "event_step e t f" and "ev_pc e t = Setting"
  shows "ev_pc f u \<noteq> Asleep timed"
  using assms by (cases rule: event_step.cases) (auto split: if_splits)

text \<open>A step that puts a thread to sleep, seen from the thread.\<close>

lemma falls_asleep:
  assumes "event_step e t f" and "ev_pc f u = Asleep timed" and "ev_pc e u \<noteq> Asleep timed"
  shows "u = t \<and> ev_pc e u = Deciding timed"
  using assms by (cases rule: event_step.cases) (auto split: if_splits)

lemma event_steps: "event_run e f \<Longrightarrow> event_step f t g \<Longrightarrow> event_step g u h \<Longrightarrow> event_run e h"
  by (blast intro: event_run.event_next)

lemma woken_returns:
  assumes "ev_pc e u = Woken timed out" and "ev_owner e = None"
  shows "\<exists>g. event_run e g \<and> ev_pc g u = Returned (timed \<and> \<not> out)"
proof -
  let ?f = "goto (e\<lparr>ev_owner := Some u\<rparr>) u (Unlocking (timed \<and> \<not> out))"
  let ?g = "goto (?f\<lparr>ev_owner := None\<rparr>) u (Returned (timed \<and> \<not> out))"
  have "event_step e u ?f" by (rule event_step.relock [OF assms])
  moreover have "event_step ?f u ?g" by (rule event_step.unlock) simp
  ultimately have "event_run e ?g" by (rule event_steps [OF event_run.event_start])
  then show ?thesis by (intro exI [of _ ?g]) simp
qed

text \<open>
  C31. In every interleaving of \<open>set_event\<close>, \<open>clear_event\<close> and \<open>wait_event\<close> by any number of threads, only one
  thread at a time is between locking and unlocking the mutex, and the result of \<open>wait_event\<close> is decided by
  the thread that holds it: true when it saw the flag; otherwise true exactly when the wait had a timeout
  and the timeout is not what woke it. A wait without timeout that slept returns false.
\<close>

theorem event_wait_result:
  assumes "event_run (idle_event flag) e" and "event_step e t f" and "ev_pc f u = Unlocking r"
    and "ev_pc e u \<noteq> Unlocking r"
  shows "(\<forall>v. owns (ev_pc f v) \<longleftrightarrow> v = u) \<and> u = t \<and>
    ((\<exists>timed. ev_pc e t = Holding timed) \<and> ev_flag e \<and> r \<or>
     (\<exists>timed out. ev_pc e t = Woken timed out \<and> r = (timed \<and> \<not> out)))"
proof -
  have inv: "event_inv f" using event_step_inv [OF assms(2) event_run_inv [OF assms(1) idle_inv]] .
  then have "ev_owner f = Some u" using assms(3) by (metis event_inv_def owns.simps(3))
  then have "\<forall>v. owns (ev_pc f v) \<longleftrightarrow> v = u" using inv by (auto simp: event_inv_def)
  with event_result [OF assms(2-4)] show ?thesis by blast
qed

text \<open>
  \<open>cnd_broadcast\<close> in \<open>set_event\<close> wakes every thread that sleeps in \<open>wait_event\<close>; each of them can then
  return as soon as the mutex is free, with true when it waited with a timeout.
\<close>

theorem event_broadcast_wakes:
  assumes "event_run (idle_event flag) e" and "event_step e t f" and "ev_pc e t = Setting" and "ev_pc e u = Asleep timed"
  shows "ev_flag f = ev_flag e \<and> ev_pc f t = Out \<and> (\<forall>v b. ev_pc f v \<noteq> Asleep b) \<and>
    (ev_owner f = None \<longrightarrow> (\<exists>g. event_run f g \<and> ev_pc g u = Returned timed))"
proof -
  have f: "f = goto (e\<lparr>ev_pc := wake \<circ> ev_pc e\<rparr>) t Out" using assms(2,3) by (cases rule: event_step.cases) simp_all
  moreover have "u \<noteq> t" using assms(3,4) by auto
  ultimately have "ev_pc f u = Woken timed False" using assms(4) by simp
  from woken_returns [OF this] broadcast_wakes_all [OF assms(2,3)] f show ?thesis by auto
qed

text \<open>
  \<open>set_event\<close> does not take the mutex. When the flag is set and broadcast between the test of the flag and
  the call of \<open>cnd_wait\<close>, the waiter falls asleep although the event is set, and no thread is left that
  would wake it.
\<close>

definition asleep_and_set :: event where
  "asleep_and_set = \<lparr>ev_flag = True, ev_owner = None, ev_pc = (\<lambda>t. Out)(1 := Asleep False)\<rparr>"

fun at :: "bool \<Rightarrow> nat option \<Rightarrow> event_pc \<Rightarrow> event_pc \<Rightarrow> event" where
  "at flag owner pc1 pc2 = \<lparr>ev_flag = flag, ev_owner = owner, ev_pc = (\<lambda>t. Out)(1 := pc1, 2 := pc2)\<rparr>"

lemma run_append: "event_run e f \<Longrightarrow> event_step f t g \<Longrightarrow> g = h \<Longrightarrow> event_run e h"
  by (blast intro: event_run.event_next)

text \<open>Thread 1 enters a wait, takes the mutex, and finds the flag not set.\<close>

lemma run_holding: "event_run (idle_event flag) (at flag (Some 1) (Holding timed) Out)"
proof -
  have "event_run (idle_event flag) (at flag None Out Out)"
    using event_run.event_start [of "idle_event flag"] by (simp add: idle_event_def fun_upd_idem)
  then have "event_run (idle_event flag) (at flag None (Locking timed) Out)"
    by (rule run_append [OF _ event_step.enter [where t = 1 and timed = timed]]) (simp_all add: goto_def fun_eq_iff)
  then show ?thesis
    by (rule run_append [OF _ event_step.lock [where t = 1 and timed = timed]]) (simp_all add: goto_def fun_eq_iff)
qed

lemma run_deciding: "event_run (idle_event False) (at False (Some 1) (Deciding timed) Out)"
  by (rule run_append [OF run_holding [of False timed] event_step.unseen [where t = 1 and timed = timed]]) (simp_all add: goto_def fun_eq_iff)

lemma event_wakeup_lost: "event_run (idle_event False) asleep_and_set"
proof -
  have "event_run (idle_event False) (at True (Some 1) (Deciding False) Setting)"
    by (rule run_append [OF run_deciding [of False] event_step.set_flag [where t = 2]]) (simp_all add: goto_def fun_eq_iff)
  then have "event_run (idle_event False) (at True (Some 1) (Deciding False) Out)"
    by (rule run_append [OF _ event_step.broadcast [where t = 2]]) (simp_all add: goto_def fun_eq_iff)
  then show ?thesis
    by (rule run_append [OF _ event_step.sleep [where t = 1 and timed = False]])
      (simp_all add: goto_def fun_eq_iff asleep_and_set_def)
qed

lemma event_wakeup_lost_nobody: "ev_flag asleep_and_set \<and> ev_pc asleep_and_set 1 = Asleep False \<and>
    (\<forall>t. t \<noteq> 1 \<longrightarrow> ev_pc asleep_and_set t = Out)"
  by (simp add: asleep_and_set_def)

text \<open>Thread 1 sleeps and thread 2 has stored the flag.\<close>

lemma run_sleeping: "event_run (idle_event False) (at True None (Asleep True) Setting)"
proof -
  have "event_run (idle_event False) (at False None (Asleep True) Out)"
    by (rule run_append [OF run_deciding [of True] event_step.sleep [where t = 1 and timed = True]]) (simp_all add: goto_def fun_eq_iff)
  then show ?thesis
    by (rule run_append [OF _ event_step.set_flag [where t = 2]]) (simp_all add: goto_def fun_eq_iff)
qed

theorem event_wait_result_witness:
  "\<exists>e f. event_run (idle_event True) e \<and> event_step e 1 f \<and> ev_pc f 1 = Unlocking True \<and>
    (\<forall>v. owns (ev_pc f v) \<longleftrightarrow> v = 1)"
proof -
  let ?e = "at True (Some 1) (Holding False) Out"
  let ?f = "goto ?e 1 (Unlocking True)"
  have s: "event_step ?e 1 ?f" by (rule event_step.seen [where timed = False]) simp_all
  have "\<forall>v. owns (ev_pc ?f v) \<longleftrightarrow> v = 1" using event_wait_result [OF run_holding s, of 1 True] by simp
  then show ?thesis using run_holding s by (intro exI [of _ ?e] exI [of _ ?f]) simp
qed

theorem event_broadcast_wakes_witness:
  "\<exists>e f g. event_run (idle_event False) e \<and> event_step e 2 f \<and> event_run f g \<and> ev_pc e 1 = Asleep True \<and>
    ev_pc g 1 = Returned True"
proof -
  let ?e = "at True None (Asleep True) Setting"
  let ?f = "goto (?e\<lparr>ev_pc := wake \<circ> ev_pc ?e\<rparr>) 2 Out"
  have s: "event_step ?e 2 ?f" by (rule event_step.broadcast) simp
  obtain g where "event_run ?f g" "ev_pc g 1 = Returned True"
    using event_broadcast_wakes [OF run_sleeping s, of 1 True] by auto
  then show ?thesis using run_sleeping s by (intro exI [of _ ?e] exI [of _ ?f] exI [of _ g]) simp
qed

end
