(* ===== verification/Sync_Ring.thy ===== *)
theory Sync_Ring
  imports Ring_On_Pet Stdlib_Allocator Debug_Properties Sync_Event
begin

text \<open>
  The ring buffer with synchronization, \<^verbatim>\<open>src/ringbuffer_sync.c\<close>. Creation and deletion are functions on the
  state of the default allocator, the structures by address, and the flags of the events by address. The
  operations run in any number of threads: a step relation in which an operation reads the ring buffer and
  writes it back in two steps, so that nothing but the mutex keeps threads apart. \<open>sy_log\<close> records the
  operations in the order in which they changed the ring buffer; the code does not have it.
\<close>

subsection \<open>Creation and deletion\<close>

record sync_ring_buffer =
  sr_ringbuf :: ring_buffer
  sr_more :: u64
  sr_less :: u64

text \<open>
  What creation and deletion work on: the state of the allocator, the structures and the flags of the events
  by address, and the numbers of the objects of events, of locks and of mappings that are there.
\<close>

record 's srb_world =
  sw_heap :: 's
  sw_srbs :: "u64 \<Rightarrow> sync_ring_buffer option"
  sw_flags :: "u64 \<Rightarrow> bool"
  sw_objects :: sync_objects
  sw_locks :: nat
  sw_maps :: nat

text \<open>Whether \<open>mtx_init\<close> of the lock succeeds, and the size of the structure, are arguments.\<close>

record srb_lib = thread_lib +
  lock_init_ok :: bool
  sizeof_SyncRingBuffer :: u32

type_synonym 's alloc_fun = "'s \<Rightarrow> u32 \<Rightarrow> bool \<Rightarrow> ('s \<times> u64) res"
type_synonym 's free_fun = "'s \<Rightarrow> u64 \<Rightarrow> u32 \<Rightarrow> ('s \<times> u64) res"

text \<open>A new event is zeroed memory, so its flag is not set.\<close>

definition new_event :: "srb_lib \<Rightarrow> 's alloc_fun \<Rightarrow> 's free_fun \<Rightarrow> 's srb_world \<Rightarrow> ('s srb_world \<times> u64) res" where
  "new_event L alloc free w =
     bindE (create_event (thread_lib.truncate L) alloc free (sw_heap w) (sw_objects w)) (\<lambda>(s, ob, e).
     Inr (w\<lparr>sw_heap := s, sw_objects := ob, sw_flags := if e \<noteq> 0 then (sw_flags w)(e := False) else sw_flags w\<rparr>, e))"

definition drop_event :: "srb_lib \<Rightarrow> 's free_fun \<Rightarrow> 's srb_world \<Rightarrow> u64 \<Rightarrow> 's srb_world res" where
  "drop_event L free w e =
     bindE (delete_event (thread_lib.truncate L) free (sw_heap w) (sw_objects w) (Some e)) (\<lambda>(s, ob).
     Inr (w\<lparr>sw_heap := s, sw_objects := ob\<rparr>))"

definition drop_ringbuf :: "'s srb_world \<Rightarrow> sync_ring_buffer \<Rightarrow> 's srb_world \<times> sync_ring_buffer" where
  "drop_ringbuf w srb =
     (let (maps, rb) = fini_ringbuffer (sw_maps w) (sr_ringbuf srb) in (w\<lparr>sw_maps := maps\<rparr>, srb\<lparr>sr_ringbuf := rb\<rparr>))"

definition srb_init ::
  "u32 \<Rightarrow> kernel_map \<Rightarrow> srb_lib \<Rightarrow> 's alloc_fun \<Rightarrow> 's free_fun \<Rightarrow> 's srb_world \<Rightarrow> sync_ring_buffer \<Rightarrow> u32 \<Rightarrow>
   ('s srb_world \<times> sync_ring_buffer \<times> bool) res" where
  "srb_init ps km L alloc free w srb n =
     (let (maps, rb, ok) = init_ringbuffer ps km (sw_maps w) (sr_ringbuf srb) n;
          w = w\<lparr>sw_maps := maps\<rparr>; srb = srb\<lparr>sr_ringbuf := rb\<rparr>
      in if \<not> ok then Inr (w, srb, False)
         else if \<not> lock_init_ok L then (let (w, srb) = drop_ringbuf w srb in Inr (w, srb, False))
         else (let w = w\<lparr>sw_locks := sw_locks w + 1\<rparr>
               in bindE (new_event L alloc free w) (\<lambda>(w, emore).
                  bindE (new_event L alloc free w) (\<lambda>(w, eless).
                  let srb = srb\<lparr>sr_more := emore, sr_less := eless\<rparr>
                  in if emore \<noteq> 0 \<and> eless \<noteq> 0 then Inr (w\<lparr>sw_flags := (sw_flags w)(eless := True)\<rparr>, srb, True)
                     else bindE (drop_event L free w emore) (\<lambda>w.
                          bindE (drop_event L free w eless) (\<lambda>w.
                          let (w, srb) = drop_ringbuf w srb in Inr (w, srb, False)))))))"

definition srb_fini :: "srb_lib \<Rightarrow> 's free_fun \<Rightarrow> 's srb_world \<Rightarrow> sync_ring_buffer \<Rightarrow> ('s srb_world \<times> sync_ring_buffer) res" where
  "srb_fini L free w srb =
     (if rb_data (sr_ringbuf srb) \<noteq> Null
      then (let w = w\<lparr>sw_locks := sw_locks w - 1\<rparr>
            in bindE (drop_event L free w (sr_more srb)) (\<lambda>w.
               bindE (drop_event L free w (sr_less srb)) (\<lambda>w.
               Inr (drop_ringbuf w srb))))
      else Inr (w, srb))"

definition zeroed_srb :: sync_ring_buffer where
  "zeroed_srb = \<lparr>sr_ringbuf = \<lparr>rb_data = Null, rb_size = 0, rb_head = 0, rb_tail = 0\<rparr>, sr_more = 0, sr_less = 0\<rparr>"

definition srb_create ::
  "u32 \<Rightarrow> kernel_map \<Rightarrow> srb_lib \<Rightarrow> 's alloc_fun \<Rightarrow> 's free_fun \<Rightarrow> 's srb_world \<Rightarrow> u32 \<Rightarrow> ('s srb_world \<times> u64) res" where
  "srb_create ps km L alloc free w n =
     (if ps = 0 then Inl Abort
      else bindE (alloc (sw_heap w) (sizeof_SyncRingBuffer L) True) (\<lambda>(s, srb).
           let w = w\<lparr>sw_heap := s\<rparr>
           in if srb = 0 then Inr (w, 0)
              else bindE (srb_init ps km L alloc free w zeroed_srb n) (\<lambda>(w, sr, ok).
                   if ok then Inr (w\<lparr>sw_srbs := (sw_srbs w)(srb \<mapsto> sr)\<rparr>, srb)
                   else bindE (free (sw_heap w) srb (sizeof_SyncRingBuffer L)) (\<lambda>(s, _).
                        Inr (w\<lparr>sw_heap := s\<rparr>, 0)))))"

definition srb_delete :: "srb_lib \<Rightarrow> 's free_fun \<Rightarrow> 's srb_world \<Rightarrow> u64 \<Rightarrow> ('s srb_world \<times> u64) res" where
  "srb_delete L free w srb =
     (if srb \<noteq> 0
      then (case sw_srbs w srb of None \<Rightarrow> Inl Bad_Access
            | Some sr \<Rightarrow>
                bindE (srb_fini L free w sr) (\<lambda>(w, sr).
                bindE (free (sw_heap w) srb (sizeof_SyncRingBuffer L)) (\<lambda>(s, _).
                Inr (w\<lparr>sw_heap := s, sw_srbs := (sw_srbs w)(srb := None)\<rparr>, 0))))
      else Inr (w, 0))"

subsection \<open>Nothing is leaked\<close>

text \<open>The blocks after two events were created, either of which may be missing.\<close>

definition two_events :: "block set \<Rightarrow> u32 \<Rightarrow> u64 \<Rightarrow> u64 \<Rightarrow> block set" where
  "two_events B n e f = (let C = (if e = 0 then B else insert (e, n) B) in if f = 0 then C else insert (f, n) C)"

text \<open>A new buffer: empty, with two events in blocks of their own, of which \<open>less\<close> is set.\<close>

definition srb_fresh :: "u32 \<Rightarrow> u32 \<Rightarrow> block set \<Rightarrow> (u64 \<Rightarrow> bool) \<Rightarrow> sync_ring_buffer \<Rightarrow> bool" where
  "srb_fresh ps n B flags sr \<longleftrightarrow> ring_ok ps (sr_ringbuf sr) \<and> ring_contents (sr_ringbuf sr) = [] \<and>
     sr_more sr \<noteq> 0 \<and> sr_less sr \<noteq> 0 \<and> sr_less sr \<noteq> sr_more sr \<and> (sr_more sr, n) \<notin> B \<and> (sr_less sr, n) \<notin> B \<and>
     flags (sr_less sr) \<and> \<not> flags (sr_more sr)"

text \<open>The objects of a new event, and without an event.\<close>

definition event_made :: "sync_objects \<Rightarrow> sync_objects" where
  "event_made ob = mtx_made (cond_made ob)"

definition event_gone :: "sync_objects \<Rightarrow> sync_objects" where
  "event_gone ob = ob\<lparr>so_mtxs := so_mtxs ob - 1, so_conds := so_conds ob - 1\<rparr>"

text \<open>
  What a failure leaves behind: the mutexes are as before, and so are the condition variables unless the
  mutex of an event cannot be initialised.
\<close>

definition mtxs_ok :: "'a thread_lib_scheme \<Rightarrow> bool" where
  "mtxs_ok L \<longleftrightarrow> (\<forall>p. cnd_init_ok L p \<longrightarrow> mtx_init_ok L p)"

definition only_conds :: "bool \<Rightarrow> sync_objects \<Rightarrow> sync_objects \<Rightarrow> bool" where
  "only_conds ok ob ob' \<longleftrightarrow> so_mtxs ob' = so_mtxs ob \<and> so_conds ob \<le> so_conds ob' \<and> (ok \<longrightarrow> ob' = ob)"

lemma truncate_lib [simp]: "sizeof_Event (thread_lib.truncate L) = sizeof_Event L"
  "mtxs_ok (thread_lib.truncate L) = mtxs_ok L"
  by (simp_all add: thread_lib.truncate_def mtxs_ok_def)

lemma event_gone_made [simp]: "event_gone (event_made ob) = ob"
  by (simp add: event_gone_def event_made_def mtx_made_def cond_made_def)

lemma only_conds_refl [simp]: "only_conds ok ob ob"
  by (simp add: only_conds_def)

lemma only_conds_trans: "only_conds ok ob ob' \<Longrightarrow> only_conds ok ob' ob'' \<Longrightarrow> only_conds ok ob ob''"
  by (auto simp: only_conds_def)

lemma only_conds_gone: "only_conds ok (event_made ob) ob' \<Longrightarrow> only_conds ok ob (event_gone ob')"
  by (auto simp: only_conds_def event_made_def event_gone_def mtx_made_def cond_made_def)

text \<open>A pointer to an event, or null, that comes with what was made for it.\<close>

definition made_or_not :: "bool \<Rightarrow> u64 \<Rightarrow> sync_objects \<Rightarrow> sync_objects \<Rightarrow> bool" where
  "made_or_not ok e ob ob' \<longleftrightarrow> (if e = 0 then only_conds ok ob ob' else ob' = event_made ob)"

text \<open>A world with the objects of one more buffer.\<close>

definition one_more :: "'s srb_world \<Rightarrow> 's srb_world \<Rightarrow> bool" where
  "one_more w w' \<longleftrightarrow> sw_objects w' = event_made (event_made (sw_objects w)) \<and> sw_locks w' = sw_locks w + 1 \<and>
     sw_maps w' = sw_maps w + 1"

text \<open>Creation gets as far as a lock: the structure is allocated, its buffer is mapped and the lock initialised.\<close>

definition lock_reached :: "u32 \<Rightarrow> kernel_map \<Rightarrow> srb_lib \<Rightarrow> 's alloc_fun \<Rightarrow> 's srb_world \<Rightarrow> u32 \<Rightarrow> bool" where
  "lock_reached ps km L alloc w n \<longleftrightarrow>
     (case alloc (sw_heap w) (sizeof_SyncRingBuffer L) True of Inl _ \<Rightarrow> False | Inr (_, srb) \<Rightarrow> srb \<noteq> 0) \<and>
     snd (snd (init_ringbuffer ps km (sw_maps w) (sr_ringbuf zeroed_srb) n)) \<and> lock_init_ok L"

context allocator begin

lemma create_event_law:
  assumes "inv s B" and "valid (sizeof_Event L)"
  obtains t ob' e where "create_event L alloc free s ob = Inr (t, ob', e)" and "made_or_not (mtxs_ok L) e ob ob'"
    and "e = 0 \<Longrightarrow> inv t B" and "e \<noteq> 0 \<Longrightarrow> (e, sizeof_Event L) \<notin> B \<and> inv t (insert (e, sizeof_Event L) B)"
proof -
  let ?n = "sizeof_Event L"
  from alloc_law [OF assms, of True] obtain t e where
    t: "alloc s ?n True = Inr (t, e)" "if e = 0 then inv t B else (e, ?n) \<notin> B \<and> inv t (insert (e, ?n) B)"
    by (auto split: if_splits)
  show thesis
  proof (cases "e = 0 \<or> cnd_init_ok L e \<and> mtx_init_ok L e")
    case True
    let ?ob = "if e = 0 then ob else event_made ob"
    have "create_event L alloc free s ob = Inr (t, ?ob, e)" using True t(1) by (auto simp: create_event_def event_made_def)
    then show thesis by (rule that) (use t(2) in \<open>auto simp: made_or_not_def split: if_splits\<close>)
  next
    case False
    then have B: "insert (e, ?n) B - {(e, ?n)} = B" using t(2) by auto
    obtain u where u: "free t e ?n = Inr (u, 0)" "inv u B"
      using free_law [of t "insert (e, ?n) B" e ?n] False t(2) unfolding B by auto
    let ?ob = "if cnd_init_ok L e then cond_made ob else ob"
    have "create_event L alloc free s ob = Inr (u, ?ob, 0)" using False t(1) u(1) by (auto simp: create_event_def Let_def)
    then show thesis
      by (rule that) (use u(2) False in \<open>auto simp: made_or_not_def only_conds_def mtxs_ok_def cond_made_def\<close>)
  qed
qed

lemma delete_event_law:
  assumes "inv s B" and "e \<noteq> 0 \<Longrightarrow> (e, sizeof_Event L) \<in> B"
  obtains t where "delete_event L free s ob (Some e) = Inr (t, if e = 0 then ob else event_gone ob)"
    and "inv t (if e = 0 then B else B - {(e, sizeof_Event L)})"
proof (cases "e = 0")
  case True
  then show thesis using that [of s] assms(1) by (simp add: delete_event_def)
next
  case False
  then obtain t where t: "free s e (sizeof_Event L) = Inr (t, 0)" "inv t (B - {(e, sizeof_Event L)})"
    using free_law [OF assms(1), of e "sizeof_Event L"] assms(2) by blast
  then have "delete_event L free s ob (Some e) = Inr (t, event_gone ob)"
    using False by (simp add: delete_event_def event_gone_def)
  then show thesis using that [of t] False t(2) by simp
qed

lemma new_event_law:
  assumes "inv (sw_heap w) B" and "valid (sizeof_Event L)"
  obtains w' e where "new_event L alloc free w = Inr (w', e)" and "made_or_not (mtxs_ok L) e (sw_objects w) (sw_objects w')"
    and "sw_srbs w' = sw_srbs w" "sw_locks w' = sw_locks w" "sw_maps w' = sw_maps w"
    and "sw_flags w' = (if e = 0 then sw_flags w else (sw_flags w)(e := False))"
    and "e = 0 \<Longrightarrow> inv (sw_heap w') B"
    and "e \<noteq> 0 \<Longrightarrow> (e, sizeof_Event L) \<notin> B \<and> inv (sw_heap w') (insert (e, sizeof_Event L) B)"
proof (rule create_event_law [OF assms(1), of "thread_lib.truncate L" "sw_objects w"])
  show "valid (sizeof_Event (thread_lib.truncate L))" using assms(2) by simp
next
  fix t ob' e
  assume c: "create_event (thread_lib.truncate L) alloc free (sw_heap w) (sw_objects w) = Inr (t, ob', e)"
    "made_or_not (mtxs_ok (thread_lib.truncate L)) e (sw_objects w) ob'" "e = 0 \<Longrightarrow> inv t B"
    "e \<noteq> 0 \<Longrightarrow> (e, sizeof_Event (thread_lib.truncate L)) \<notin> B \<and> inv t (insert (e, sizeof_Event (thread_lib.truncate L)) B)"
  let ?w = "w\<lparr>sw_heap := t, sw_objects := ob', sw_flags := if e \<noteq> 0 then (sw_flags w)(e := False) else sw_flags w\<rparr>"
  have "new_event L alloc free w = Inr (?w, e)" using c(1) by (simp add: new_event_def)
  then show thesis by (rule that) (use c in simp_all)
qed

lemma drop_event_law:
  assumes "inv (sw_heap w) B" and "e \<noteq> 0 \<Longrightarrow> (e, sizeof_Event L) \<in> B"
  obtains t where "drop_event L free w e =
      Inr (w\<lparr>sw_heap := t, sw_objects := if e = 0 then sw_objects w else event_gone (sw_objects w)\<rparr>)"
    and "inv t (if e = 0 then B else B - {(e, sizeof_Event L)})"
proof -
  from delete_event_law [OF assms(1), of e "thread_lib.truncate L" "sw_objects w"] assms(2) obtain t where
    "delete_event (thread_lib.truncate L) free (sw_heap w) (sw_objects w) (Some e) =
      Inr (t, if e = 0 then sw_objects w else event_gone (sw_objects w))"
    "inv t (if e = 0 then B else B - {(e, sizeof_Event L)})" unfolding truncate_lib by blast
  then show thesis using that [of t] by (simp add: drop_event_def)
qed

text \<open>Two events made one after the other.\<close>

lemma new_events_law:
  assumes "inv (sw_heap w) B" and "valid (sizeof_Event L)"
  obtains v w' emore eless where "new_event L alloc free w = Inr (v, emore)" and "new_event L alloc free v = Inr (w', eless)"
    and "made_or_not (mtxs_ok L) emore (sw_objects w) (sw_objects v)"
    and "made_or_not (mtxs_ok L) eless (sw_objects v) (sw_objects w')"
    and "sw_srbs w' = sw_srbs w" "sw_locks w' = sw_locks w" "sw_maps w' = sw_maps w"
    and "inv (sw_heap w') (two_events B (sizeof_Event L) emore eless)"
    and "emore \<noteq> 0 \<Longrightarrow> eless \<noteq> 0 \<Longrightarrow> \<not> sw_flags w' emore"
    and "emore \<noteq> 0 \<Longrightarrow> (emore, sizeof_Event L) \<notin> B"
    and "eless \<noteq> 0 \<Longrightarrow> (eless, sizeof_Event L) \<notin> B \<and> eless \<noteq> emore"
proof (rule new_event_law [OF assms])
  let ?n = "sizeof_Event L"
  fix v e
  assume v: "new_event L alloc free w = Inr (v, e)" "made_or_not (mtxs_ok L) e (sw_objects w) (sw_objects v)"
    "sw_srbs v = sw_srbs w" "sw_locks v = sw_locks w" "sw_maps v = sw_maps w"
    "sw_flags v = (if e = 0 then sw_flags w else (sw_flags w)(e := False))"
    "e = 0 \<Longrightarrow> inv (sw_heap v) B" "e \<noteq> 0 \<Longrightarrow> (e, ?n) \<notin> B \<and> inv (sw_heap v) (insert (e, ?n) B)"
  let ?C = "if e = 0 then B else insert (e, ?n) B"
  have C: "inv (sw_heap v) ?C" using v(7,8) by simp
  show thesis
  proof (rule new_event_law [OF C assms(2)])
    fix x e'
    assume x: "new_event L alloc free v = Inr (x, e')" "made_or_not (mtxs_ok L) e' (sw_objects v) (sw_objects x)"
      "sw_srbs x = sw_srbs v" "sw_locks x = sw_locks v" "sw_maps x = sw_maps v"
      "sw_flags x = (if e' = 0 then sw_flags v else (sw_flags v)(e' := False))"
      "e' = 0 \<Longrightarrow> inv (sw_heap x) ?C" "e' \<noteq> 0 \<Longrightarrow> (e', ?n) \<notin> ?C \<and> inv (sw_heap x) (insert (e', ?n) ?C)"
    have two: "inv (sw_heap x) (two_events B ?n e e')"
      using x(7,8) unfolding two_events_def Let_def by (cases "e' = 0") simp_all
    have new: "(e', ?n) \<notin> B \<and> e' \<noteq> e" if "e' \<noteq> 0" using x(8) [OF that] that by (auto split: if_splits)
    show thesis
      by (rule that [OF v(1) x(1) v(2) x(2)]) (use v x two new in simp_all)
  qed
qed

lemma drop_events_law:
  assumes "inv (sw_heap w) (two_events B (sizeof_Event L) e f)" and "e \<noteq> 0 \<Longrightarrow> (e, sizeof_Event L) \<notin> B"
    and "f \<noteq> 0 \<Longrightarrow> (f, sizeof_Event L) \<notin> B \<and> f \<noteq> e"
  obtains v w' where "drop_event L free w e = Inr v" and "drop_event L free v f = Inr w'" and "inv (sw_heap w') B"
    and "sw_objects w' = (let ob = if e = 0 then sw_objects w else event_gone (sw_objects w) in if f = 0 then ob else event_gone ob)"
    and "sw_srbs w' = sw_srbs w" "sw_locks w' = sw_locks w" "sw_maps w' = sw_maps w"
proof -
  let ?n = "sizeof_Event L" and ?D = "two_events B (sizeof_Event L) e f"
  let ?C = "if f = 0 then B else insert (f, ?n) B"
  have "e \<noteq> 0 \<Longrightarrow> (e, ?n) \<in> ?D" by (simp add: two_events_def Let_def)
  from drop_event_law [OF assms(1) this] obtain t where
    t: "drop_event L free w e = Inr (w\<lparr>sw_heap := t, sw_objects := if e = 0 then sw_objects w else event_gone (sw_objects w)\<rparr>)"
    "inv t (if e = 0 then ?D else ?D - {(e, ?n)})" by blast
  let ?v = "w\<lparr>sw_heap := t, sw_objects := if e = 0 then sw_objects w else event_gone (sw_objects w)\<rparr>"
  have "(if e = 0 then ?D else ?D - {(e, ?n)}) = ?C" using assms(2,3) by (auto simp: two_events_def)
  then have C: "inv (sw_heap ?v) ?C" using t(2) by simp
  have "f \<noteq> 0 \<Longrightarrow> (f, ?n) \<in> ?C" by simp
  from drop_event_law [OF C this] obtain u where
    u: "drop_event L free ?v f = Inr (?v\<lparr>sw_heap := u, sw_objects := if f = 0 then sw_objects ?v else event_gone (sw_objects ?v)\<rparr>)"
    "inv u (if f = 0 then ?C else ?C - {(f, ?n)})" by blast
  have "(if f = 0 then ?C else ?C - {(f, ?n)}) = B" using assms(3) by auto
  then have "inv u B" using u(2) by simp
  then show thesis by (intro that [OF t(1) u(1)]) (simp_all add: Let_def)
qed

text \<open>
  Initialisation. A failure keeps nothing but the lock, when an event cannot be created, and the condition
  variables whose mutexes fail.
\<close>

lemma srb_init_law:
  assumes "inv (sw_heap w) B" and "valid (sizeof_Event L)" and "is_power_of_two ps" and "1 < ps" and "kmap_ok km"
  obtains w' srb' ok where "srb_init ps km L alloc free w srb n = Inr (w', srb', ok)" and "sw_srbs w' = sw_srbs w"
    and "ok \<Longrightarrow> ring_ok ps (sr_ringbuf srb') \<and> ring_contents (sr_ringbuf srb') = [] \<and>
       sr_more srb' \<noteq> 0 \<and> sr_less srb' \<noteq> 0 \<and> sr_less srb' \<noteq> sr_more srb' \<and>
       (sr_more srb', sizeof_Event L) \<notin> B \<and> (sr_less srb', sizeof_Event L) \<notin> B \<and>
       inv (sw_heap w') (two_events B (sizeof_Event L) (sr_more srb') (sr_less srb')) \<and>
       sw_flags w' (sr_less srb') \<and> \<not> sw_flags w' (sr_more srb') \<and>
       sw_objects w' = event_made (event_made (sw_objects w)) \<and> sw_locks w' = sw_locks w + 1 \<and> sw_maps w' = sw_maps w + 1"
    and "\<not> ok \<Longrightarrow> inv (sw_heap w') B \<and> only_conds (mtxs_ok L) (sw_objects w) (sw_objects w') \<and> sw_maps w' = sw_maps w \<and>
       sw_locks w' = (if snd (snd (init_ringbuffer ps km (sw_maps w) (sr_ringbuf srb) n)) \<and> lock_init_ok L
         then sw_locks w + 1 else sw_locks w)"
proof (rule init_cases [OF assms(3-5), of "sw_maps w" "sr_ringbuf srb" n])
  let ?n = "sizeof_Event L"
  fix rb ok
  assume rb: "init_ringbuffer ps km (sw_maps w) (sr_ringbuf srb) n = (if ok then sw_maps w + 1 else sw_maps w, rb, ok)"
    "ok \<Longrightarrow> ring_ok ps rb \<and> ring_contents rb = [] \<and> \<not> wrapped rb"
  let ?m = "if ok then sw_maps w + 1 else sw_maps w"
  let ?srb = "srb\<lparr>sr_ringbuf := rb\<rparr>" and ?gone = "rb\<lparr>rb_data := Null\<rparr>"
  show thesis
  proof (cases "ok \<and> lock_init_ok L")
    case False
    have "srb_init ps km L alloc free w srb n =
        Inr (w\<lparr>sw_maps := sw_maps w\<rparr>, if ok then ?srb\<lparr>sr_ringbuf := ?gone\<rparr> else ?srb, False)"
      using False fini_ok(1) [of ps rb "sw_maps w + 1"] rb(2)
      by (cases ok) (simp_all add: srb_init_def rb(1) drop_ringbuf_def)
    then show thesis by (rule that) (use False assms(1) rb(1) in auto)
  next
    case True
    let ?w = "w\<lparr>sw_maps := sw_maps w + 1, sw_locks := sw_locks w + 1\<rparr>"
    have r: "ring_ok ps rb" "ring_contents rb = []" using rb(2) True by blast+
    have w: "inv (sw_heap ?w) B" using assms(1) by simp
    obtain v x e e' where
      ev: "new_event L alloc free ?w = Inr (v, e)" "new_event L alloc free v = Inr (x, e')"
      "made_or_not (mtxs_ok L) e (sw_objects ?w) (sw_objects v)" "made_or_not (mtxs_ok L) e' (sw_objects v) (sw_objects x)"
      "sw_srbs x = sw_srbs ?w" "sw_locks x = sw_locks ?w" "sw_maps x = sw_maps ?w"
      "inv (sw_heap x) (two_events B ?n e e')"
      "e \<noteq> 0 \<Longrightarrow> e' \<noteq> 0 \<Longrightarrow> \<not> sw_flags x e" "e \<noteq> 0 \<Longrightarrow> (e, ?n) \<notin> B" "e' \<noteq> 0 \<Longrightarrow> (e', ?n) \<notin> B \<and> e' \<noteq> e"
      by (rule new_events_law [OF w assms(2)]) (erule (1) that; blast)
    let ?new = "srb\<lparr>sr_ringbuf := rb, sr_more := e, sr_less := e'\<rparr>"
    have init: "srb_init ps km L alloc free w srb n =
        (if e \<noteq> 0 \<and> e' \<noteq> 0 then Inr (x\<lparr>sw_flags := (sw_flags x)(e' := True)\<rparr>, ?new, True)
         else bindE (drop_event L free x e) (\<lambda>w. bindE (drop_event L free w e') (\<lambda>w.
              let (w, srb) = drop_ringbuf w ?new in Inr (w, srb, False))))"
      using True ev(1,2) by (simp add: srb_init_def rb(1) Let_def)
    show thesis
    proof (cases "e \<noteq> 0 \<and> e' \<noteq> 0")
      case both: True
      have ob: "sw_objects x = event_made (event_made (sw_objects w))" using ev(3,4) both by (simp add: made_or_not_def)
      have ne: "e \<noteq> e'" using ev(11) both by blast
      have "srb_init ps km L alloc free w srb n = Inr (x\<lparr>sw_flags := (sw_flags x)(e' := True)\<rparr>, ?new, True)"
        unfolding init using both by simp
      then show thesis by (rule that) (use both ev r ob ne in simp_all)
    next
      case missing: False
      from drop_events_law [OF ev(8,10,11)] obtain y z where
        d: "drop_event L free x e = Inr y" "drop_event L free y e' = Inr z" "inv (sw_heap z) B"
        "sw_objects z = (let ob = if e = 0 then sw_objects x else event_gone (sw_objects x) in if e' = 0 then ob else event_gone ob)"
        "sw_srbs z = sw_srbs x" "sw_locks z = sw_locks x" "sw_maps z = sw_maps x" by metis
      have oc: "only_conds (mtxs_ok L) (sw_objects w) (sw_objects z)"
        using missing ev(3,4) only_conds_trans only_conds_gone unfolding d(4) made_or_not_def
        by (auto split: if_splits)
      have "srb_init ps km L alloc free w srb n =
          Inr (z\<lparr>sw_maps := sw_maps z - 1\<rparr>, ?new\<lparr>sr_ringbuf := ?gone\<rparr>, False)"
        unfolding init using missing d(1,2) fini_ok(1) [OF r(1), of "sw_maps z"] by (simp add: drop_ringbuf_def)
      then show thesis by (rule that) (use oc True rb(1) d(3,5-7) ev(5-7) in simp_all)
    qed
  qed
qed

lemma srb_create_law:
  assumes "inv (sw_heap w) B" and "valid (sizeof_Event L)" and "valid (sizeof_SyncRingBuffer L)"
    and "is_power_of_two ps" and "1 < ps" and "kmap_ok km"
  obtains w' p where "srb_create ps km L alloc free w n = Inr (w', p)"
    and "p = 0 \<Longrightarrow> inv (sw_heap w') B \<and> sw_srbs w' = sw_srbs w \<and> only_conds (mtxs_ok L) (sw_objects w) (sw_objects w') \<and>
       sw_maps w' = sw_maps w \<and> sw_locks w' = (if lock_reached ps km L alloc w n then sw_locks w + 1 else sw_locks w)"
    and "p \<noteq> 0 \<Longrightarrow> (p, sizeof_SyncRingBuffer L) \<notin> B \<and> one_more w w' \<and> (\<exists>sr. sw_srbs w' = (sw_srbs w)(p \<mapsto> sr) \<and>
       srb_fresh ps (sizeof_Event L) (insert (p, sizeof_SyncRingBuffer L) B) (sw_flags w') sr \<and>
       inv (sw_heap w') (two_events (insert (p, sizeof_SyncRingBuffer L) B) (sizeof_Event L) (sr_more sr) (sr_less sr)))"
proof -
  let ?S = "sizeof_SyncRingBuffer L"
  have ps: "ps \<noteq> 0" using assms(5) by auto
  from alloc_law [OF assms(1,3), of True] obtain t p where
    t: "alloc (sw_heap w) ?S True = Inr (t, p)" "if p = 0 then inv t B else (p, ?S) \<notin> B \<and> inv t (insert (p, ?S) B)"
    by (auto split: if_splits)
  let ?w = "w\<lparr>sw_heap := t\<rparr>"
  show thesis
  proof (cases "p = 0")
    case True
    have "srb_create ps km L alloc free w n = Inr (?w, 0)" using True t(1) ps by (simp add: srb_create_def)
    moreover have "\<not> lock_reached ps km L alloc w n" using True t(1) by (simp add: lock_reached_def)
    ultimately show thesis by (intro that [of ?w 0]) (use True t(2) in simp_all)
  next
    case False
    then have p: "(p, ?S) \<notin> B" "inv (sw_heap ?w) (insert (p, ?S) B)" using t(2) by simp_all
    show thesis
    proof (rule srb_init_law [OF p(2) assms(2,4-6), of zeroed_srb n])
      fix x sr ok
      assume i: "srb_init ps km L alloc free ?w zeroed_srb n = Inr (x, sr, ok)" "sw_srbs x = sw_srbs ?w"
        "ok \<Longrightarrow> ring_ok ps (sr_ringbuf sr) \<and> ring_contents (sr_ringbuf sr) = [] \<and>
          sr_more sr \<noteq> 0 \<and> sr_less sr \<noteq> 0 \<and> sr_less sr \<noteq> sr_more sr \<and>
          (sr_more sr, sizeof_Event L) \<notin> insert (p, ?S) B \<and> (sr_less sr, sizeof_Event L) \<notin> insert (p, ?S) B \<and>
          inv (sw_heap x) (two_events (insert (p, ?S) B) (sizeof_Event L) (sr_more sr) (sr_less sr)) \<and>
          sw_flags x (sr_less sr) \<and> \<not> sw_flags x (sr_more sr) \<and>
          sw_objects x = event_made (event_made (sw_objects ?w)) \<and> sw_locks x = sw_locks ?w + 1 \<and> sw_maps x = sw_maps ?w + 1"
        "\<not> ok \<Longrightarrow> inv (sw_heap x) (insert (p, ?S) B) \<and> only_conds (mtxs_ok L) (sw_objects ?w) (sw_objects x) \<and>
          sw_maps x = sw_maps ?w \<and> sw_locks x = (if snd (snd (init_ringbuffer ps km (sw_maps ?w) (sr_ringbuf zeroed_srb) n)) \<and>
            lock_init_ok L then sw_locks ?w + 1 else sw_locks ?w)"
      show thesis
      proof (cases ok)
        case True
        let ?x = "x\<lparr>sw_srbs := (sw_srbs x)(p \<mapsto> sr)\<rparr>"
        have "srb_create ps km L alloc free w n = Inr (?x, p)"
          using ps False t(1) i(1) True by (simp add: srb_create_def)
        moreover have "srb_fresh ps (sizeof_Event L) (insert (p, ?S) B) (sw_flags ?x) sr"
          using i(3) [OF True] by (simp add: srb_fresh_def)
        moreover have "one_more w ?x" using i(3) [OF True] by (simp add: one_more_def)
        moreover have "sw_srbs ?x = (sw_srbs w)(p \<mapsto> sr)" using i(2) by simp
        moreover have "inv (sw_heap ?x) (two_events (insert (p, ?S) B) (sizeof_Event L) (sr_more sr) (sr_less sr))"
          using i(3) [OF True] by simp
        ultimately show thesis using False p(1) by (intro that [of ?x p]) blast+
      next
        case failed: False
        have m: "(p, ?S) \<in> insert (p, ?S) B" and B: "insert (p, ?S) B - {(p, ?S)} = B" using p(1) by auto
        obtain v where v: "free (sw_heap x) p ?S = Inr (v, 0)" "inv v B"
          using free_law [OF i(4) [OF failed, THEN conjunct1] m] unfolding B by blast
        have "srb_create ps km L alloc free w n = Inr (x\<lparr>sw_heap := v\<rparr>, 0)"
          using ps False t(1) i(1) failed v(1) by (simp add: srb_create_def)
        moreover have "sw_locks x = (if lock_reached ps km L alloc w n then sw_locks w + 1 else sw_locks w)"
          using i(4) [OF failed] t(1) False by (simp add: lock_reached_def)
        ultimately show thesis using v(2) i(2) i(4) [OF failed] by (intro that [of "x\<lparr>sw_heap := v\<rparr>" 0]) simp_all
      qed
    qed
  qed
qed

text \<open>Deletion, whatever has been done with the buffer: its mapping, its lock, its events and the three blocks are gone.\<close>

lemma srb_delete_law:
  assumes "p \<noteq> 0" and "(p, sizeof_SyncRingBuffer L) \<notin> B" and "sw_srbs w p = Some sr"
    and "srb_fresh ps (sizeof_Event L) (insert (p, sizeof_SyncRingBuffer L) B) f sr"
    and "inv (sw_heap w) (two_events (insert (p, sizeof_SyncRingBuffer L) B) (sizeof_Event L) (sr_more sr) (sr_less sr))"
  obtains w' where "srb_delete L free w p = Inr (w', 0)" and "inv (sw_heap w') B" and "sw_srbs w' = (sw_srbs w)(p := None)"
    and "sw_objects w' = event_gone (event_gone (sw_objects w))" and "sw_locks w' = sw_locks w - 1"
    and "sw_maps w' = sw_maps w - 1"
proof -
  let ?S = "sizeof_SyncRingBuffer L"
  let ?w = "w\<lparr>sw_locks := sw_locks w - 1\<rparr>"
  have F: "ring_ok ps (sr_ringbuf sr)" "sr_more sr \<noteq> 0" "sr_less sr \<noteq> 0" "(sr_more sr, sizeof_Event L) \<notin> insert (p, ?S) B"
    "(sr_less sr, sizeof_Event L) \<notin> insert (p, ?S) B \<and> sr_less sr \<noteq> sr_more sr"
    using assms(4) by (simp_all add: srb_fresh_def)
  have "inv (sw_heap ?w) (two_events (insert (p, ?S) B) (sizeof_Event L) (sr_more sr) (sr_less sr))" using assms(5) by simp
  from drop_events_law [OF this F(4,5)] obtain y z where
    d: "drop_event L free ?w (sr_more sr) = Inr y" "drop_event L free y (sr_less sr) = Inr z" "inv (sw_heap z) (insert (p, ?S) B)"
    "sw_objects z = (let ob = if sr_more sr = 0 then sw_objects ?w else event_gone (sw_objects ?w)
       in if sr_less sr = 0 then ob else event_gone ob)"
    "sw_srbs z = sw_srbs ?w" "sw_locks z = sw_locks ?w" "sw_maps z = sw_maps ?w" by metis
  have m: "(p, ?S) \<in> insert (p, ?S) B" and B: "insert (p, ?S) B - {(p, ?S)} = B" using assms(2) by auto
  obtain v where v: "free (sw_heap z) p ?S = Inr (v, 0)" "inv v B" using free_law [OF d(3) m] unfolding B by blast
  have "srb_fini L free w sr = Inr (z\<lparr>sw_maps := sw_maps z - 1\<rparr>, sr\<lparr>sr_ringbuf := (sr_ringbuf sr)\<lparr>rb_data := Null\<rparr>\<rparr>)"
    using fini_ok(1) [OF F(1), of "sw_maps z"] fini_ok(2) [OF F(1)] d(1,2) by (simp add: srb_fini_def drop_ringbuf_def)
  then have "srb_delete L free w p =
      Inr (z\<lparr>sw_maps := sw_maps z - 1, sw_heap := v, sw_srbs := (sw_srbs z)(p := None)\<rparr>, 0)"
    using assms(1,3) v(1) by (simp add: srb_delete_def)
  then show thesis by (rule that) (use v(2) d(4-7) F(2,3) in simp_all)
qed

lemma srb_create_then_delete:
  assumes "inv (sw_heap w) B" and "valid (sizeof_Event L)" and "valid (sizeof_SyncRingBuffer L)"
    and "is_power_of_two ps" and "1 < ps" and "kmap_ok km"
    and "\<forall>q. sw_srbs w q \<noteq> None \<longrightarrow> (q, sizeof_SyncRingBuffer L) \<in> B"
  shows "\<exists>w' p. srb_create ps km L alloc free w n = Inr (w', p) \<and>
    (if p = 0 then inv (sw_heap w') B \<and> sw_srbs w' = sw_srbs w \<and> sw_maps w' = sw_maps w \<and>
       only_conds (mtxs_ok L) (sw_objects w) (sw_objects w') \<and>
       sw_locks w' = (if lock_reached ps km L alloc w n then sw_locks w + 1 else sw_locks w)
     else one_more w w' \<and> (\<exists>sr w''. sw_srbs w' p = Some sr \<and>
       srb_fresh ps (sizeof_Event L) (insert (p, sizeof_SyncRingBuffer L) B) (sw_flags w') sr \<and>
       inv (sw_heap w') (two_events (insert (p, sizeof_SyncRingBuffer L) B) (sizeof_Event L) (sr_more sr) (sr_less sr)) \<and>
       srb_delete L free w' p = Inr (w'', 0) \<and> inv (sw_heap w'') B \<and> sw_srbs w'' = sw_srbs w \<and>
       sw_objects w'' = sw_objects w \<and> sw_locks w'' = sw_locks w \<and> sw_maps w'' = sw_maps w))"
proof (rule srb_create_law [OF assms(1-6), of n])
  let ?S = "sizeof_SyncRingBuffer L"
  fix w' p
  assume c: "srb_create ps km L alloc free w n = Inr (w', p)"
    "p = 0 \<Longrightarrow> inv (sw_heap w') B \<and> sw_srbs w' = sw_srbs w \<and> only_conds (mtxs_ok L) (sw_objects w) (sw_objects w') \<and>
       sw_maps w' = sw_maps w \<and> sw_locks w' = (if lock_reached ps km L alloc w n then sw_locks w + 1 else sw_locks w)"
    "p \<noteq> 0 \<Longrightarrow> (p, ?S) \<notin> B \<and> one_more w w' \<and> (\<exists>sr. sw_srbs w' = (sw_srbs w)(p \<mapsto> sr) \<and>
       srb_fresh ps (sizeof_Event L) (insert (p, ?S) B) (sw_flags w') sr \<and>
       inv (sw_heap w') (two_events (insert (p, ?S) B) (sizeof_Event L) (sr_more sr) (sr_less sr)))"
  show ?thesis
  proof (cases "p = 0")
    case True
    then show ?thesis using c by (intro exI [of _ w'] exI [of _ p]) simp
  next
    case False
    from c(3) [OF False] obtain sr where sr: "(p, ?S) \<notin> B" "one_more w w'" "sw_srbs w' = (sw_srbs w)(p \<mapsto> sr)"
      "srb_fresh ps (sizeof_Event L) (insert (p, ?S) B) (sw_flags w') sr"
      "inv (sw_heap w') (two_events (insert (p, ?S) B) (sizeof_Event L) (sr_more sr) (sr_less sr))" by blast
    have s: "sw_srbs w' p = Some sr" using sr(3) by simp
    have none: "sw_srbs w p = None" using assms(7) sr(1) by blast
    from srb_delete_law [OF False sr(1) s sr(4,5)] obtain w'' where
      w'': "srb_delete L free w' p = Inr (w'', 0)" "inv (sw_heap w'') B" "sw_srbs w'' = (sw_srbs w')(p := None)"
      "sw_objects w'' = event_gone (event_gone (sw_objects w'))" "sw_locks w'' = sw_locks w' - 1" "sw_maps w'' = sw_maps w' - 1"
      by blast
    have "sw_srbs w'' = sw_srbs w" using w''(3) sr(3) none by (simp add: fun_upd_idem)
    moreover have "sw_objects w'' = sw_objects w" "sw_locks w'' = sw_locks w" "sw_maps w'' = sw_maps w"
      using w''(4-6) sr(2) by (simp_all add: one_more_def)
    ultimately show ?thesis using False c(1) s sr(2,4,5) w''(1,2) by (intro exI [of _ w'] exI [of _ p]) auto
  qed
qed

end

end
