(* ===== verification/Sync_Ring_Threads.thy ===== *)
theory Sync_Ring_Threads
  imports Sync_Ring
begin

text \<open>
  The operations of the synchronized ring buffer in any number of threads. An operation reads the ring
  buffer in one step and writes it back in a later one, so that nothing but the mutex keeps threads apart.
  \<open>sy_log\<close> records the operations, with their results, in the order of the second step; the code does not
  have it. A thread whose access fails makes no further step.
\<close>

datatype srb_op = Grow u32 | Shrink u32 | Read "u8 list" u32 | Write "u8 list" u32
datatype srb_result = Done | Flag bool | Bytes "u8 list" u32

definition srb_grow :: "u32 \<Rightarrow> kernel_remap \<Rightarrow> ring_buffer \<Rightarrow> u32 \<Rightarrow> (ring_buffer \<times> srb_result) res" where
  "srb_grow ps kr rb n = bindE (grow_ringbuffer ps kr rb n) (\<lambda>(rb, ok). Inr (rb, Flag ok))"

definition srb_shrink :: "u32 \<Rightarrow> kernel_remap \<Rightarrow> ring_buffer \<Rightarrow> u32 \<Rightarrow> (ring_buffer \<times> srb_result) res" where
  "srb_shrink ps kr rb n = bindE (shrink_ringbuffer ps kr rb n) (\<lambda>rb. Inr (rb, Done))"

definition srb_read :: "ring_buffer \<Rightarrow> u8 list \<Rightarrow> u32 \<Rightarrow> (ring_buffer \<times> srb_result) res" where
  "srb_read rb buffer n = bindE (read_ringbuffer rb buffer n) (\<lambda>(rb, buffer, len). Inr (rb, Bytes buffer len))"

definition srb_write :: "ring_buffer \<Rightarrow> u8 list \<Rightarrow> u32 \<Rightarrow> (ring_buffer \<times> srb_result) res" where
  "srb_write rb data n = bindE (write_ringbuffer rb data n) (\<lambda>(rb, ok). Inr (rb, Flag ok))"

fun srb_run :: "u32 \<Rightarrow> kernel_remap \<Rightarrow> ring_buffer \<Rightarrow> srb_op \<Rightarrow> (ring_buffer \<times> srb_result) res" where
  "srb_run ps kr rb (Grow n) = srb_grow ps kr rb n"
| "srb_run ps kr rb (Shrink n) = srb_shrink ps kr rb n"
| "srb_run ps kr rb (Read buffer n) = srb_read rb buffer n"
| "srb_run ps kr rb (Write data n) = srb_write rb data n"

datatype srb_pc =
    Idle
  | Entering srb_op
  | Working srb_op
  | Storing srb_op ring_buffer srb_result
  | Signalling srb_op srb_result
  | Unlocks srb_result
  | Finished srb_result

record sync_ring =
  sy_ring :: ring_buffer
  sy_lock :: "nat option"
  sy_more :: bool
  sy_less :: bool
  sy_pc :: "nat \<Rightarrow> srb_pc"
  sy_log :: "(nat \<times> srb_op \<times> srb_result) list"

definition moves :: "sync_ring \<Rightarrow> nat \<Rightarrow> srb_pc \<Rightarrow> sync_ring" where
  "moves y t pc = y\<lparr>sy_pc := (sy_pc y)(t := pc)\<rparr>"

text \<open>\<open>srb_write\<close> sets \<open>more\<close>, \<open>srb_read\<close> and \<open>srb_grow\<close> set \<open>less\<close>.\<close>

fun signal :: "srb_op \<Rightarrow> sync_ring \<Rightarrow> sync_ring" where
  "signal (Write data n) y = y\<lparr>sy_more := True\<rparr>"
| "signal (Read buffer n) y = y\<lparr>sy_less := True\<rparr>"
| "signal (Grow n) y = y\<lparr>sy_less := True\<rparr>"
| "signal (Shrink n) y = y"

inductive srb_step :: "u32 \<Rightarrow> kernel_remap \<Rightarrow> sync_ring \<Rightarrow> nat \<Rightarrow> sync_ring \<Rightarrow> bool" for ps kr where
  srb_call: "sy_pc y t = Idle \<Longrightarrow> srb_step ps kr y t (moves y t (Entering op))"
| srb_lock: "sy_pc y t = Entering op \<Longrightarrow> sy_lock y = None \<Longrightarrow>
     srb_step ps kr y t (moves (y\<lparr>sy_lock := Some t\<rparr>) t (Working op))"
| srb_load: "sy_pc y t = Working op \<Longrightarrow> srb_run ps kr (sy_ring y) op = Inr (rb, r) \<Longrightarrow>
     srb_step ps kr y t (moves y t (Storing op rb r))"
| srb_store: "sy_pc y t = Storing op rb r \<Longrightarrow>
     srb_step ps kr y t (moves (y\<lparr>sy_ring := rb, sy_log := sy_log y @ [(t, op, r)]\<rparr>) t (Signalling op r))"
| srb_signal: "sy_pc y t = Signalling op r \<Longrightarrow> srb_step ps kr y t (moves (signal op y) t (Unlocks r))"
| srb_unlock: "sy_pc y t = Unlocks r \<Longrightarrow> srb_step ps kr y t (moves (y\<lparr>sy_lock := None\<rparr>) t (Finished r))"
| srb_return: "sy_pc y t = Finished r \<Longrightarrow> srb_step ps kr y t (moves y t Idle)"

inductive srb_runs :: "u32 \<Rightarrow> kernel_remap \<Rightarrow> sync_ring \<Rightarrow> sync_ring \<Rightarrow> bool" for ps kr where
  srb_start: "srb_runs ps kr y y"
| srb_next: "srb_runs ps kr x y \<Longrightarrow> srb_step ps kr y t z \<Longrightarrow> srb_runs ps kr x z"

inductive_cases srb_stepE: "srb_step ps kr y t z"

text \<open>The operations of the log one after the other, with the results they must have.\<close>

fun replay :: "u32 \<Rightarrow> kernel_remap \<Rightarrow> ring_buffer \<Rightarrow> (nat \<times> srb_op \<times> srb_result) list \<Rightarrow> ring_buffer option" where
  "replay ps kr rb [] = Some rb"
| "replay ps kr rb ((t, op, r) # log) =
     (case srb_run ps kr rb op of Inl e \<Rightarrow> None
      | Inr (rb, r') \<Rightarrow> if r' = r then replay ps kr rb log else None)"

lemma replay_append: "replay ps kr rb (xs @ ys) = Option.bind (replay ps kr rb xs) (\<lambda>rb. replay ps kr rb ys)"
  by (induction ps kr rb xs rule: replay.induct) (auto split: sum.splits prod.splits)

fun holds_lock :: "srb_pc \<Rightarrow> bool" where
  "holds_lock (Working op) = True"
| "holds_lock (Storing op rb r) = True"
| "holds_lock (Signalling op r) = True"
| "holds_lock (Unlocks r) = True"
| "holds_lock _ = False"

definition sync_inv :: "u32 \<Rightarrow> kernel_remap \<Rightarrow> ring_buffer \<Rightarrow> sync_ring \<Rightarrow> bool" where
  "sync_inv ps kr rb0 y \<longleftrightarrow> (\<forall>t. holds_lock (sy_pc y t) \<longleftrightarrow> sy_lock y = Some t) \<and>
     (\<forall>t op rb r. sy_pc y t = Storing op rb r \<longrightarrow> srb_run ps kr (sy_ring y) op = Inr (rb, r)) \<and>
     replay ps kr rb0 (sy_log y) = Some (sy_ring y)"

lemma moves_simps [simp]:
  "sy_pc (moves y t pc) u = (if u = t then pc else sy_pc y u)" "sy_lock (moves y t pc) = sy_lock y"
  "sy_ring (moves y t pc) = sy_ring y" "sy_log (moves y t pc) = sy_log y"
  by (simp_all add: moves_def)

lemma signal_simps [simp]:
  "sy_pc (signal op y) = sy_pc y" "sy_lock (signal op y) = sy_lock y" "sy_ring (signal op y) = sy_ring y"
  "sy_log (signal op y) = sy_log y"
  by (cases op; simp)+

text \<open>Only one thread holds the lock, so no other thread is about to write back.\<close>

lemma only_holder:
  assumes "sync_inv ps kr rb0 y" and "holds_lock (sy_pc y t)" and "holds_lock (sy_pc y u)"
  shows "u = t"
  using assms by (auto simp: sync_inv_def)

lemma sync_step_inv: "srb_step ps kr y t z \<Longrightarrow> sync_inv ps kr rb0 y \<Longrightarrow> sync_inv ps kr rb0 z"
proof (induction rule: srb_step.induct)
  case (srb_store y t op rb r)
  have run: "srb_run ps kr (sy_ring y) op = Inr (rb, r)" and L: "replay ps kr rb0 (sy_log y) = Some (sy_ring y)"
    using srb_store by (auto simp: sync_inv_def)
  have none: "sy_pc y u \<noteq> Storing op' rb' r'" if "u \<noteq> t" for u op' rb' r'
    using only_holder [OF srb_store.prems, of t u] srb_store.hyps that by auto
  have "\<forall>u. holds_lock (sy_pc y u) \<longleftrightarrow> sy_lock y = Some u" using srb_store.prems by (simp add: sync_inv_def)
  moreover have "holds_lock (sy_pc y t)" using srb_store.hyps by simp
  ultimately show ?case using run L none by (auto simp: sync_inv_def replay_append)
next
  case (srb_lock y t op)
  then show ?case by (auto simp: sync_inv_def)
next
  case (srb_unlock y t r)
  have "\<forall>u. holds_lock (sy_pc y u) \<longrightarrow> u = t"
    using only_holder [OF srb_unlock.prems, of t] srb_unlock.hyps by auto
  then show ?case using srb_unlock by (auto simp: sync_inv_def)
next
  case (srb_load y t op rb r)
  then have "sy_lock y = Some t" by (metis holds_lock.simps(1) sync_inv_def)
  then show ?case using srb_load by (auto simp: sync_inv_def)
next
  case (srb_signal y t op r)
  then have "sy_lock y = Some t" by (metis holds_lock.simps(3) sync_inv_def)
  then show ?case using srb_signal by (auto simp: sync_inv_def)
next
  case (srb_call y t op)
  then have "sy_lock y \<noteq> Some t" by (metis holds_lock.simps(5) sync_inv_def)
  then show ?case using srb_call by (auto simp: sync_inv_def)
next
  case (srb_return y t r)
  then have "sy_lock y \<noteq> Some t" by (metis holds_lock.simps(7) sync_inv_def)
  then show ?case using srb_return by (auto simp: sync_inv_def)
qed

end
