(* ===== verification/Sync_Ring_Claims.thy ===== *)
theory Sync_Ring_Claims
  imports Sync_Ring_Threads
begin

text \<open>
  What the synchronized ring buffer promises: operations take effect one after the other, bytes of
  concurrent writers are neither lost nor torn, deletion gives back what creation took, and what a failed
  creation leaves behind, on each of the three allocators.
\<close>

lemma srb_runs_inv: "srb_runs ps kr x y \<Longrightarrow> sync_inv ps kr rb0 x \<Longrightarrow> sync_inv ps kr rb0 y"
  by (induction rule: srb_runs.induct) (auto intro: sync_step_inv)

definition idle_ring :: "ring_buffer \<Rightarrow> sync_ring" where
  "idle_ring rb = \<lparr>sy_ring = rb, sy_lock = None, sy_more = False, sy_less = True, sy_pc = \<lambda>t. Idle, sy_log = []\<rparr>"

lemma idle_ring_inv: "sync_inv ps kr rb (idle_ring rb)"
  by (simp add: sync_inv_def idle_ring_def)

text \<open>
  C33. However the threads interleave, the lock has one holder at a time, and the ring buffer is what the
  recorded operations give when they run one after the other from the start, each with the result its
  thread got: no update is lost.
\<close>

theorem srb_operations_serialise:
  assumes "srb_runs ps kr (idle_ring rb) y"
  shows "replay ps kr rb (sy_log y) = Some (sy_ring y) \<and>
    (\<forall>t u. holds_lock (sy_pc y t) \<and> holds_lock (sy_pc y u) \<longrightarrow> t = u)"
  using srb_runs_inv [OF assms idle_ring_inv] only_holder by (auto simp: sync_inv_def)

text \<open>The bytes of the writes that were accepted.\<close>

fun written :: "(nat \<times> srb_op \<times> srb_result) list \<Rightarrow> u8 list" where
  "written [] = []"
| "written ((t, Write data n, Flag True) # log) = data @ written log"
| "written (_ # log) = written log"

definition whole_write :: "srb_op \<Rightarrow> bool" where
  "whole_write op \<longleftrightarrow> (\<exists>data. op = Write data (of_nat (length data)) \<and> length data < 2 ^ 32)"

lemma replay_writes:
  assumes "replay ps kr rb log = Some rb'" and "ring_ok ps rb" and "\<forall>(t, op, r)\<in>set log. whole_write op"
  shows "ring_ok ps rb' \<and> ring_contents rb' = ring_contents rb @ written log"
  using assms
proof (induction log arbitrary: rb)
  case Nil
  then show ?case by simp
next
  case (Cons x log)
  obtain t op r where x: "x = (t, op, r)" by (cases x)
  then obtain xs where w: "op = Write xs (of_nat (length xs))" "length xs < 2 ^ 32"
    using Cons.prems(3) by (auto simp: whole_write_def)
  obtain rb1 where p: "ring_put rb xs = Inr (rb1, length xs \<le> ring_room rb)" "ring_ok ps rb1"
    "ring_contents rb1 = ring_contents rb @ (if length xs \<le> ring_room rb then xs else [])"
    using ring.put_law [OF Cons.prems(2) w(2)] Cons.prems(2) by (auto split: if_splits)
  have r: "r = Flag (length xs \<le> ring_room rb)" and l: "replay ps kr rb1 log = Some rb'"
    using Cons.prems(1) p(1) by (auto simp: x w(1) srb_write_def split: if_splits)
  have "ring_ok ps rb' \<and> ring_contents rb' = ring_contents rb1 @ written log"
    using Cons.IH [OF l p(2)] Cons.prems(3) by simp
  then show ?case using p(3) by (cases "length xs \<le> ring_room rb") (simp_all add: x w(1) r)
qed

text \<open>
  C34. When all operations so far were writes, the ring buffer holds, behind what it held at the start, the
  bytes of the accepted writes, each write in one piece, in the order in which the writers held the lock.
\<close>

theorem srb_writers_keep_bytes:
  assumes "srb_runs ps kr (idle_ring rb) y" and "ring_ok ps rb" and "\<forall>(t, op, r)\<in>set (sy_log y). whole_write op"
  shows "ring_ok ps (sy_ring y) \<and> ring_contents (sy_ring y) = ring_contents rb @ written (sy_log y)"
proof -
  have "replay ps kr rb (sy_log y) = Some (sy_ring y)"
    using srb_runs_inv [OF assms(1) idle_ring_inv] by (simp add: sync_inv_def)
  then show ?thesis by (rule replay_writes [OF _ assms(2,3)])
qed

text \<open>
  C35. \<open>srb_create\<close> gives a buffer that is empty, whose event \<open>less\<close> is set and \<open>more\<close> is not, in three
  blocks of their own, with one mapping, one lock and two events more than before; \<open>srb_delete\<close> of it gives
  back the blocks, the mapping, the lock, the condition variables and the mutexes of the events. Or
  \<open>srb_create\<close> returns null. Then it has given back the blocks, the mapping and the mutexes of the events,
  whichever step failed; it leaves the lock behind exactly when it got as far as a lock, that is, when an
  event cannot be created, and it leaves no condition variable behind unless the mutex of an event cannot
  be initialised after its condition variable. Here on the C heap.
\<close>

theorem srb_created_and_deleted:
  assumes "std_contract pick move (sw_heap w) B" and "is_power_of_two ps" and "1 < ps" and "kmap_ok km"
    and "\<forall>q. sw_srbs w q \<noteq> None \<longrightarrow> (q, sizeof_SyncRingBuffer L) \<in> B"
  shows "\<exists>w' p. srb_create ps km L (std_allocate pick) std_release w n = Inr (w', p) \<and>
    (if p = 0 then std_contract pick move (sw_heap w') B \<and> sw_srbs w' = sw_srbs w \<and> sw_maps w' = sw_maps w \<and>
       only_conds (mtxs_ok L) (sw_objects w) (sw_objects w') \<and>
       sw_locks w' = (if lock_reached ps km L (std_allocate pick) w n then sw_locks w + 1 else sw_locks w)
     else one_more w w' \<and> (\<exists>sr w''. sw_srbs w' p = Some sr \<and>
       srb_fresh ps (sizeof_Event L) (insert (p, sizeof_SyncRingBuffer L) B) (sw_flags w') sr \<and>
       std_contract pick move (sw_heap w')
         (two_events (insert (p, sizeof_SyncRingBuffer L) B) (sizeof_Event L) (sr_more sr) (sr_less sr)) \<and>
       srb_delete L std_release w' p = Inr (w'', 0) \<and> std_contract pick move (sw_heap w'') B \<and> sw_srbs w'' = sw_srbs w \<and>
       sw_objects w'' = sw_objects w \<and> sw_locks w'' = sw_locks w \<and> sw_maps w'' = sw_maps w))"
  by (rule std.srb_create_then_delete [OF assms(1) TrueI TrueI assms(2-5)])

text \<open>The same on the bitmap allocator and on the debug allocator.\<close>

lemmas srb_created_and_deleted_elsewhere = pet.srb_create_then_delete dbg.srb_create_then_delete

subsection \<open>Examples\<close>

lemma runs_append: "srb_runs ps kr x y \<Longrightarrow> srb_step ps kr y t z \<Longrightarrow> z' = z \<Longrightarrow> srb_runs ps kr x z'"
  by (blast intro: srb_runs.srb_next)

text \<open>One thread writes two bytes while another waits for the lock.\<close>

definition demo_ring :: ring_buffer where
  "demo_ring = ring_of [0, 0, 0, 0] 0 0"

definition demo_sync :: "nat option \<Rightarrow> srb_pc \<Rightarrow> sync_ring" where
  "demo_sync lck pc = (idle_ring demo_ring)\<lparr>sy_lock := lck, sy_pc := (\<lambda>t. Idle)(2 := Entering (Write [7] 1), 1 := pc)\<rparr>"

lemma demo_write: "srb_run 4 simple_kremap demo_ring (Write [5, 6] 2) = Inr (ring_of [5, 6, 0, 0] 0 2, Flag True)"
  by code_simp

lemma demo_run:
  "\<exists>y. srb_runs 4 simple_kremap (idle_ring demo_ring) y \<and> sy_log y = [(1, Write [5, 6] 2, Flag True)] \<and>
     sy_ring y = ring_of [5, 6, 0, 0] 0 2 \<and> holds_lock (sy_pc y 1)"
proof -
  let ?W = "Write [5, 6] 2" and ?i = "idle_ring demo_ring"
  note D = demo_sync_def moves_def idle_ring_def fun_eq_iff
  have "srb_runs 4 simple_kremap ?i (moves ?i 2 (Entering (Write [7] 1)))"
    by (rule runs_append [OF srb_runs.srb_start srb_step.srb_call]) (simp_all add: idle_ring_def)
  then have "srb_runs 4 simple_kremap ?i (demo_sync None (Entering ?W))"
    by (rule runs_append [OF _ srb_step.srb_call [where t = 1 and op = ?W]]) (simp_all add: D)
  then have "srb_runs 4 simple_kremap ?i (demo_sync (Some 1) (Working ?W))"
    by (rule runs_append [OF _ srb_step.srb_lock [where t = 1 and op = ?W]]) (simp_all add: D)
  then have "srb_runs 4 simple_kremap ?i (demo_sync (Some 1) (Storing ?W (ring_of [5, 6, 0, 0] 0 2) (Flag True)))"
    by (rule runs_append [OF _ srb_step.srb_load [where t = 1 and op = ?W]])
      (use demo_write in \<open>simp_all add: D\<close>)
  from srb_runs.srb_next [OF this srb_step.srb_store [where t = 1 and op = ?W]]
  show ?thesis by (auto simp: demo_sync_def idle_ring_def)
qed

theorem srb_operations_serialise_witness:
  "\<exists>y. srb_runs 4 simple_kremap (idle_ring demo_ring) y \<and> sy_log y = [(1, Write [5, 6] 2, Flag True)] \<and>
     replay 4 simple_kremap demo_ring (sy_log y) = Some (sy_ring y)"
  using demo_run srb_operations_serialise by blast

theorem srb_writers_keep_bytes_witness:
  "\<exists>y. srb_runs 4 simple_kremap (idle_ring demo_ring) y \<and> ring_contents (sy_ring y) = [5, 6]"
proof -
  obtain y where y: "srb_runs 4 simple_kremap (idle_ring demo_ring) y" "sy_log y = [(1, Write [5, 6] 2, Flag True)]"
    using demo_run by blast
  have ok: "ring_ok 4 demo_ring" "ring_contents demo_ring = []" by code_simp+
  have "whole_write (Write [5, 6] 2)" by (auto simp: whole_write_def intro: exI [of _ "[5, 6]"])
  then show ?thesis using srb_writers_keep_bytes [OF y(1) ok(1)] y ok(2) by auto
qed

text \<open>A buffer on an empty heap, on pages of four bytes.\<close>

definition demo_lib :: srb_lib where
  "demo_lib = \<lparr>cnd_init_ok = \<lambda>p. True, mtx_init_ok = \<lambda>p. True, sizeof_Event = 96, lock_init_ok = True,
     sizeof_SyncRingBuffer = 80\<rparr>"

definition empty_heap :: "libc srb_world" where
  "empty_heap = \<lparr>sw_heap = \<lparr>lc_mem = \<lambda>x. 7, lc_blocks = Map.empty, lc_count = 0\<rparr>, sw_srbs = \<lambda>p. None,
     sw_flags = \<lambda>p. True, sw_objects = \<lparr>so_conds = 0, so_mtxs = 0\<rparr>, sw_locks = 0, sw_maps = 0\<rparr>"

lemma demo_create:
  "\<exists>w. srb_create 4 (\<lambda>n. Some (replicate (unat n) 0)) demo_lib (std_allocate few_places) std_release empty_heap 6 =
     Inr (w, 0x10000)"
proof -
  have i: "\<exists>rb. init_ringbuffer 4 (\<lambda>n. Some (replicate (unat n) 0)) 0 rb0 6 = (1, rb, True)" for rb0
    by (simp add: init_ringbuffer_def Let_def)
  obtain rb where "init_ringbuffer 4 (\<lambda>n. Some (replicate (unat n) 0)) 0 (sr_ringbuf zeroed_srb) 6 = (1, rb, True)"
    using i by blast
  then show ?thesis
    by (simp add: srb_create_def srb_init_def new_event_def create_event_def demo_lib_def empty_heap_def
        std_allocate_def c_calloc_def c_malloc_def few_places_def thread_lib.truncate_def Let_def)
qed

theorem srb_created_and_deleted_witness:
  "\<exists>w sr w'. srb_create 4 (\<lambda>n. Some (replicate (unat n) 0)) demo_lib (std_allocate few_places) std_release empty_heap 6 =
      Inr (w, 0x10000) \<and> sw_srbs w 0x10000 = Some sr \<and> ring_contents (sr_ringbuf sr) = [] \<and>
    sw_maps w = 1 \<and> sw_locks w = 1 \<and> sw_objects w = \<lparr>so_conds = 2, so_mtxs = 2\<rparr> \<and>
    srb_delete demo_lib std_release w 0x10000 = Inr (w', 0) \<and>
    std_contract few_places (\<lambda>p. few_places) (sw_heap w') {} \<and>
    sw_maps w' = 0 \<and> sw_locks w' = 0 \<and> sw_objects w' = \<lparr>so_conds = 0, so_mtxs = 0\<rparr>"
proof -
  let ?km = "\<lambda>n. Some (replicate (unat n) 0)"
  obtain w where w: "srb_create 4 ?km demo_lib (std_allocate few_places) std_release empty_heap 6 = Inr (w, 0x10000)"
    using demo_create by blast
  have c: "std_contract few_places (\<lambda>p. few_places) (sw_heap empty_heap) {}"
    by (simp add: std_contract_def few_places_ok empty_heap_def blocks_wf_def)
  have p: "is_power_of_two (4 :: u32)" by code_simp
  have k: "kmap_ok ?km" by (simp add: kmap_ok_def)
  have e: "\<forall>q. sw_srbs empty_heap q \<noteq> None \<longrightarrow> (q, sizeof_SyncRingBuffer demo_lib) \<in> {}" by (simp add: empty_heap_def)
  have o: "sw_objects empty_heap = \<lparr>so_conds = 0, so_mtxs = 0\<rparr>" "sw_locks empty_heap = 0" "sw_maps empty_heap = 0"
    by (simp_all add: empty_heap_def)
  from srb_created_and_deleted [OF c p _ k e, of 6] w show ?thesis
    by (auto simp: srb_fresh_def one_more_def o event_made_def mtx_made_def cond_made_def)
qed

end
