(* ===== verification/Default_Allocator.thy ===== *)
theory Default_Allocator
  imports Pet_Properties Stdlib_Allocator Debug_Properties
begin

text \<open>
  The structure \<open>Allocator\<close>, the variable \<open>default_allocator\<close> and the wrappers that call through it
  (\<^verbatim>\<open>include/allocator.h\<close>). A program is the state of its allocator together with the variable; a function
  pointer is \<open>None\<close> when it is null, and calling it fails. Statistics, \<open>dump\<close> and the flags for messages are
  left out.

  Whatever contract an allocator keeps, the wrappers keep it once \<open>init_allocator\<close> was called; this is shown
  once for every \<open>resizing_allocator\<close> and holds for the three allocators of the library.
\<close>

record 's alloc_functions =
  fn_init :: "('s \<Rightarrow> 's res) option"
  fn_allocate :: "('s \<Rightarrow> u32 \<Rightarrow> bool \<Rightarrow> ('s \<times> u64) res) option"
  fn_reallocate :: "('s \<Rightarrow> u64 \<Rightarrow> u32 \<Rightarrow> u32 \<Rightarrow> bool \<Rightarrow> ('s \<times> u64 \<times> bool \<times> bool) res) option"
  fn_release :: "('s \<Rightarrow> u64 \<Rightarrow> u32 \<Rightarrow> ('s \<times> u64) res) option"

text \<open>The static variable \<open>default_allocator\<close> starts as zeros.\<close>

definition no_functions :: "'s alloc_functions" where
  "no_functions = \<lparr>fn_init = None, fn_allocate = None, fn_reallocate = None, fn_release = None\<rparr>"

definition pet_allocator :: "mmap_fun \<Rightarrow> mremap_fun \<Rightarrow> pet alloc_functions" where
  "pet_allocator mm mr = \<lparr>fn_init = Some (pet_init mm), fn_allocate = Some (pet_allocate mm),
     fn_reallocate = Some (pet_reallocate mm mr), fn_release = Some pet_release\<rparr>"

definition stdlib_allocator :: "pick_fun \<Rightarrow> (u64 \<Rightarrow> pick_fun) \<Rightarrow> libc alloc_functions" where
  "stdlib_allocator pick move = \<lparr>fn_init = None, fn_allocate = Some (std_allocate pick),
     fn_reallocate = Some (std_reallocate pick move), fn_release = Some std_release\<rparr>"

definition debug_allocator :: "pick_fun \<Rightarrow> libc alloc_functions" where
  "debug_allocator pick = \<lparr>fn_init = None, fn_allocate = Some (dbg_allocate pick),
     fn_reallocate = Some (dbg_reallocate pick), fn_release = Some dbg_release\<rparr>"

subsection \<open>The wrappers\<close>

type_synonym 's program = "'s \<times> 's alloc_functions"

definition init_allocator :: "'s alloc_functions \<Rightarrow> 's program \<Rightarrow> 's program res" where
  "init_allocator functions p =
     (case p of (s, default_allocator) \<Rightarrow>
        bindE (case fn_init functions of None \<Rightarrow> Inr s | Some init \<Rightarrow> init s) (\<lambda>s. Inr (s, functions)))"

definition call_pointer :: "'f option \<Rightarrow> ('f \<Rightarrow> 'a res) \<Rightarrow> 'a res" where
  "call_pointer f k = bindE (or_fail Bad_Access f) k"

definition allocate :: "'s program \<Rightarrow> u32 \<Rightarrow> bool \<Rightarrow> ('s program \<times> u64) res" where
  "allocate p nbytes clean =
     (case p of (s, default_allocator) \<Rightarrow>
        call_pointer (fn_allocate default_allocator) (\<lambda>f.
        bindE (f s nbytes clean) (\<lambda>(s, addr). Inr ((s, default_allocator), addr))))"

definition reallocate ::
  "'s program \<Rightarrow> u64 \<Rightarrow> u32 \<Rightarrow> u32 \<Rightarrow> bool \<Rightarrow> ('s program \<times> u64 \<times> bool \<times> bool) res" where
  "reallocate p addr old_nbytes new_nbytes clean =
     (case p of (s, default_allocator) \<Rightarrow>
        call_pointer (fn_reallocate default_allocator) (\<lambda>f.
        bindE (f s addr old_nbytes new_nbytes clean) (\<lambda>(s, r). Inr ((s, default_allocator), r))))"

definition release :: "'s program \<Rightarrow> u64 \<Rightarrow> u32 \<Rightarrow> ('s program \<times> u64) res" where
  "release p addr nbytes =
     (case p of (s, default_allocator) \<Rightarrow>
        call_pointer (fn_release default_allocator) (\<lambda>f.
        bindE (f s addr nbytes) (\<lambda>(s, addr). Inr ((s, default_allocator), addr))))"

lemma call_pointer_simps [simp]: "call_pointer None k = Inl Bad_Access" "call_pointer (Some f) k = k f"
  by (simp_all add: call_pointer_def)

lemmas wrapper_defs = allocate_def release_def reallocate_def

subsection \<open>The contract through the wrappers\<close>

definition through :: "'s alloc_functions \<Rightarrow> ('s \<Rightarrow> block set \<Rightarrow> bool) \<Rightarrow> 's program \<Rightarrow> block set \<Rightarrow> bool" where
  "through t ok p B \<longleftrightarrow> ok (fst p) B \<and> snd p = t"

context resizing_allocator
begin

lemma wrappers_keep_contract:
  assumes "fn_allocate t = Some alloc" and "fn_reallocate t = Some resize" and "fn_release t = Some free"
  shows "resizing_allocator (through t inv) (\<lambda>p. bytes (fst p)) valid allocate release can reallocate"
proof unfold_locales
  fix p B b c assume "through t inv p B" "b \<in> B" "c \<in> B" "b \<noteq> c"
  then show "block_bytes b \<inter> block_bytes c = {}" using separate [of "fst p" B b c] by (simp add: through_def)
next
  fix p B n clean assume p: "through t inv p B" "valid n"
  obtain s where s: "p = (s, t)" "inv s B" using p(1) by (cases p) (auto simp: through_def)
  from alloc_law [OF s(2) p(2), of clean] obtain u a where "alloc s n clean = Inr (u, a)"
    "\<forall>b\<in>B. \<forall>x\<in>block_bytes b. bytes u x = bytes s x"
    "if a = 0 then inv u B else (a, n) \<notin> B \<and> inv u (insert (a, n) B) \<and>
       (clean \<longrightarrow> (\<forall>x\<in>block_bytes (a, n). bytes u x = 0))" by blast
  then show "\<exists>q a. allocate p n clean = Inr (q, a) \<and>
      (\<forall>b\<in>B. \<forall>x\<in>block_bytes b. bytes (fst q) x = bytes (fst p) x) \<and>
      (if a = 0 then through t inv q B
       else (a, n) \<notin> B \<and> through t inv q (insert (a, n) B) \<and>
         (clean \<longrightarrow> (\<forall>x\<in>block_bytes (a, n). bytes (fst q) x = 0)))"
    using s by (intro exI [of _ "(u, t)"] exI [of _ a]) (simp add: allocate_def assms through_def)
next
  fix p B a n assume p: "through t inv p B" "(a, n) \<in> B"
  obtain s where s: "p = (s, t)" "inv s B" using p(1) by (cases p) (auto simp: through_def)
  from free_law [OF s(2) p(2)] obtain u where "free s a n = Inr (u, 0)" "inv u (B - {(a, n)})"
    "\<forall>b\<in>B. \<forall>x\<in>block_bytes b. bytes u x = bytes s x" by blast
  then show "\<exists>q. release p a n = Inr (q, 0) \<and> through t inv q (B - {(a, n)}) \<and>
      (\<forall>b\<in>B. \<forall>x\<in>block_bytes b. bytes (fst q) x = bytes (fst p) x)"
    using s by (intro exI [of _ "(u, t)"]) (simp add: release_def assms through_def)
next
  fix p B a old new clean
  assume p: "through t inv p B" "(a, old) \<in> B" "valid new" "can old new"
  obtain s where s: "p = (s, t)" "inv s B" using p(1) by (cases p) (auto simp: through_def)
  from resize_law [OF s(2) p(2-4), of clean] obtain u a' changed ok where
    "resize s a old new clean = Inr (u, a', changed, ok)" "changed = (a' \<noteq> a)"
    "\<forall>b\<in>B - {(a, old)}. \<forall>x\<in>block_bytes b. bytes u x = bytes s x"
    "if ok then a' \<noteq> 0 \<and> inv u (insert (a', new) (B - {(a, old)})) \<and>
       (\<forall>i < min (unat old) (unat new). bytes u (a' + of_nat i) = bytes s (a + of_nat i)) \<and>
       (clean \<longrightarrow> (\<forall>i. unat old \<le> i \<and> i < unat new \<longrightarrow> bytes u (a' + of_nat i) = 0))
     else a' = a \<and> inv u B \<and> (\<forall>x\<in>block_bytes (a, old). bytes u x = bytes s x)" by blast
  then show "\<exists>q a' changed ok. reallocate p a old new clean = Inr (q, a', changed, ok) \<and> changed = (a' \<noteq> a) \<and>
      (\<forall>b\<in>B - {(a, old)}. \<forall>x\<in>block_bytes b. bytes (fst q) x = bytes (fst p) x) \<and>
      (if ok then a' \<noteq> 0 \<and> through t inv q (insert (a', new) (B - {(a, old)})) \<and>
         (\<forall>i < min (unat old) (unat new). bytes (fst q) (a' + of_nat i) = bytes (fst p) (a + of_nat i)) \<and>
         (clean \<longrightarrow> (\<forall>i. unat old \<le> i \<and> i < unat new \<longrightarrow> bytes (fst q) (a' + of_nat i) = 0))
       else a' = a \<and> through t inv q B \<and> (\<forall>x\<in>block_bytes (a, old). bytes (fst q) x = bytes (fst p) x))"
    using s by (intro exI [of _ "(u, t)"] exI [of _ a'] exI [of _ changed] exI [of _ ok])
      (simp add: reallocate_def assms through_def)
qed

end

interpretation def_pet: resizing_allocator "through (pet_allocator mm mr) (pet_contract mm mr ps)"
  "\<lambda>p. mem (fst p)" "pet_valid ps" allocate release "pet_can ps" reallocate
  for mm :: mmap_fun and mr :: mremap_fun and ps :: u32
  by (rule pet.wrappers_keep_contract) (simp_all add: pet_allocator_def)

interpretation def_std: resizing_allocator "through (stdlib_allocator pick move) (std_contract pick move)"
  "\<lambda>p. lc_mem (fst p)" "\<lambda>n. True" allocate release "\<lambda>old new. new \<noteq> 0" reallocate
  for pick :: pick_fun and move :: "u64 \<Rightarrow> pick_fun"
  by (rule std.wrappers_keep_contract) (simp_all add: stdlib_allocator_def)

interpretation def_dbg: resizing_allocator "through (debug_allocator pick) (dbg_contract pick)"
  "\<lambda>p. lc_mem (fst p)" "\<lambda>n. unat n + 80 < 2 ^ 32" allocate release "\<lambda>old new. unat old \<le> unat new" reallocate
  for pick :: pick_fun
  by (rule dbg.wrappers_keep_contract) (simp_all add: debug_allocator_def)

lemma allocate_before_init: "allocate (s, no_functions) nbytes clean = Inl Bad_Access"
  by (simp add: allocate_def no_functions_def)

text \<open>
  C5. After \<open>init_allocator\<close> on the bitmap allocator every sequence of calls of \<open>allocate\<close>, \<open>release\<close> and
  \<open>reallocate\<close> that the contract allows is carried out without a failure, with and without cleaning: the
  heap stays well-formed, the blocks held lie apart, and a block that no call gives away keeps its place and
  its bytes through every sequence that follows. Allowed are sizes other than 0 whose rounding to pages does
  not wrap, blocks that are held, and resizes but those from a block mapped directly to a size of the
  sub-allocator. \<open>init_allocator\<close> ends the program when the kernel gives no page for the superblock.
\<close>

theorem default_allocator_serves:
  assumes "unat ps = 2 ^ k" and "10 \<le> k" "k \<le> 31" and "mmap_ok ps mm" and "mremap_ok ps mr"
  shows "if mm {} ps = 0 then init_allocator (pet_allocator mm mr) (static_state ps m, no_functions) = Inl Abort
    else \<exists>p q r B C. init_allocator (pet_allocator mm mr) (static_state ps m, no_functions) = Inr p \<and>
      make_calls allocate release reallocate (pet_valid ps) (pet_can ps) p {} cs = Inr (q, B) \<and>
      make_calls allocate release reallocate (pet_valid ps) (pet_can ps) q B ds = Inr (r, C) \<and>
      heap_ok (fst q) B \<and> heap_ok (fst r) C \<and>
      (\<forall>b\<in>B. \<forall>c\<in>B. b \<noteq> c \<longrightarrow> block_bytes b \<inter> block_bytes c = {}) \<and>
      (\<forall>b\<in>B. (\<forall>d\<in>set ds. target d \<noteq> Some b) \<longrightarrow> b \<in> C \<and> (\<forall>x\<in>block_bytes b. mem (fst r) x = mem (fst q) x))"
proof -
  have i: "init_allocator (pet_allocator mm mr) (s, no_functions) =
      bindE (pet_init mm s) (\<lambda>s. Inr (s, pet_allocator mm mr))" for s
    by (simp add: init_allocator_def pet_allocator_def)
  show ?thesis
  proof (cases "mm {} ps = 0")
    case True
    then show ?thesis by (simp add: i pet_init_abort)
  next
    case False
    from pet_init_ok [where mm = mm and m = m, OF assms(1-3) False] obtain s where
      s: "pet_init mm (static_state ps m) = Inr s" "heap_ok s {}" "sys_page_size s = ps" by metis
    let ?T = "pet_allocator mm mr"
    have "through ?T (pet_contract mm mr ps) (s, ?T) {}"
      using s(2,3) assms(4,5) by (simp add: through_def pet_contract_def)
    from def_pet.make_calls_ok [OF this, of cs] obtain q B where
      q: "make_calls allocate release reallocate (pet_valid ps) (pet_can ps) (s, ?T) {} cs = Inr (q, B)"
      "through ?T (pet_contract mm mr ps) q B" by blast
    from def_pet.make_calls_ok [OF q(2), of ds] obtain r C where
      r: "make_calls allocate release reallocate (pet_valid ps) (pet_can ps) q B ds = Inr (r, C)"
      "through ?T (pet_contract mm mr ps) r C"
      "\<forall>b\<in>B. (\<forall>d\<in>set ds. target d \<noteq> Some b) \<longrightarrow> b \<in> C \<and> (\<forall>x\<in>block_bytes b. mem (fst r) x = mem (fst q) x)" by blast
    have "heap_ok (fst q) B" "heap_ok (fst r) C" using q(2) r(2) by (simp_all add: through_def pet_contract_def)
    moreover have "\<forall>b\<in>B. \<forall>c\<in>B. b \<noteq> c \<longrightarrow> block_bytes b \<inter> block_bytes c = {}"
      using def_pet.separate [OF q(2)] by blast
    moreover have "init_allocator (pet_allocator mm mr) (static_state ps m, no_functions) = Inr (s, ?T)"
      by (simp add: i s(1))
    ultimately show ?thesis unfolding if_not_P [OF False] using q(1) r(1,3) by blast
  qed
qed

text \<open>The first unit behind the header of the first page is at \<open>0x200000040\<close>.\<close>

theorem default_allocator_serves_witness:
  "\<exists>p q r B C. init_allocator (pet_allocator simple_mmap simple_mremap) (static_state 4096 (\<lambda>a. 0), no_functions) = Inr p \<and>
     make_calls allocate release reallocate (pet_valid 4096) (pet_can 4096) p {}
       [Allocating 24 True, Allocating 5000 False, Reallocating 0x200000040 24 300 True] = Inr (q, B) \<and>
     make_calls allocate release reallocate (pet_valid 4096) (pet_can 4096) q B [Releasing 0x200000040 300] = Inr (r, C) \<and>
     heap_ok (fst r) C"
proof -
  have k: "unat (4096 :: u32) = 2 ^ 12" "(10 :: nat) \<le> 12" "(12 :: nat) \<le> 31" "simple_mmap {} 4096 \<noteq> 0"
    by (simp_all add: simple_mmap_def addresses_def)
  from default_allocator_serves [OF k(1-3) simple_mmap_ok simple_mremap_ok, unfolded if_not_P [OF k(4)]]
  show ?thesis by blast
qed

end
