(* ===== verification/Text_Output.thy ===== *)
theory Text_Output
  imports Pussy_Prelude
begin

text \<open>
  What the dump functions share. Text written to a stream is the string of its characters; the functions
  return what they add to the stream. Memory is read byte by byte: \<open>None\<close> is an address that the program
  may not read. A program that reads a dump back needs lines and digits, defined here as well.
\<close>

type_synonym memory = "u64 \<Rightarrow> u8 option"

abbreviation newline :: char where "newline \<equiv> CHR 0x0A"

definition load :: "memory \<Rightarrow> u64 \<Rightarrow> nat list \<Rightarrow> u8 list option" where
  "load m addr js = those (map (\<lambda>j. m (addr + of_nat j)) js)"

text \<open>The bytes \<open>xs\<close> can be read from \<open>addr\<close> on.\<close>

definition holds :: "memory \<Rightarrow> u64 \<Rightarrow> u8 list \<Rightarrow> bool" where
  "holds m addr xs \<longleftrightarrow> (\<forall>j<length xs. m (addr + of_nat j) = Some (xs ! j))"

lemma load_Some: "(\<And>j. j \<in> set js \<Longrightarrow> m (addr + of_nat j) = Some (f j)) \<Longrightarrow> load m addr js = Some (map f js)"
  by (induction js) (auto simp: load_def)

lemma load_holds:
  "holds m addr xs \<Longrightarrow> i \<le> k \<Longrightarrow> k \<le> length xs \<Longrightarrow> load m addr [i..<k] = Some (take (k - i) (drop i xs))"
  by (subst load_Some [where f = "nth xs"])
    (auto simp: holds_def intro!: nth_equalityI)

lemma holds_append: "holds m addr (xs @ ys) \<longleftrightarrow> holds m addr xs \<and> holds m (addr + of_nat (length xs)) ys"
proof
  assume h: "holds m addr (xs @ ys)"
  have "m (addr + of_nat (length xs) + of_nat j) = Some (ys ! j)" if "j < length ys" for j
    using h [unfolded holds_def, rule_format, of "length xs + j"] that by (simp add: add.assoc)
  moreover have "m (addr + of_nat j) = Some (xs ! j)" if "j < length xs" for j
    using h [unfolded holds_def, rule_format, of j] that by (simp add: nth_append)
  ultimately show "holds m addr xs \<and> holds m (addr + of_nat (length xs)) ys"
    by (simp add: holds_def)
next
  assume h: "holds m addr xs \<and> holds m (addr + of_nat (length xs)) ys"
  have "m (addr + of_nat j) = Some ((xs @ ys) ! j)" if "j < length xs + length ys" for j
  proof (cases "j < length xs")
    case True
    with h show ?thesis by (simp add: holds_def nth_append)
  next
    case False
    define k where "k = j - length xs"
    have j: "j = length xs + k" "k < length ys" using False that by (simp_all add: k_def)
    then show ?thesis using h by (simp add: holds_def nth_append add.assoc)
  qed
  then show "holds m addr (xs @ ys)" by (simp add: holds_def)
qed

lemma holds_take: "holds m addr xs \<Longrightarrow> holds m addr (take n xs)"
  by (auto simp: holds_def)

lemma holds_drop:
  assumes "holds m addr xs" "n \<le> length xs"
  shows "holds m (addr + of_nat n) (drop n xs)"
proof -
  have "holds m addr (take n xs @ drop n xs)" using assms(1) by simp
  then show ?thesis using assms(2) unfolding holds_append by simp
qed

text \<open>A memory with nothing but the bytes \<open>xs\<close>, from \<open>base\<close> on.\<close>

definition only_bytes :: "u64 \<Rightarrow> u8 list \<Rightarrow> memory" where
  "only_bytes base xs = (\<lambda>a. if unat (a - base) < length xs then Some (xs ! unat (a - base)) else None)"

lemma holds_only_bytes: "length xs < 2 ^ 64 \<Longrightarrow> holds (only_bytes base xs) base xs"
  by (simp add: holds_def only_bytes_def unat_of_nat)

text \<open>The bytes of the words of a bitmap; the target is little-endian.\<close>

definition word_bytes :: "u64 \<Rightarrow> u8 list" where
  "word_bytes w = map (\<lambda>k. ucast (drop_bit (8 * k) w)) [0..<8]"

definition bitmap_bytes :: "u64 list \<Rightarrow> u8 list" where
  "bitmap_bytes bm = concat (map word_bytes bm)"

lemma length_bitmap_bytes: "length (bitmap_bytes bm) = 8 * length bm"
  by (induction bm) (simp_all add: bitmap_bytes_def word_bytes_def)

subsection \<open>Numbers\<close>

text \<open>The digits of \<^verbatim>\<open>%u\<close>.\<close>

fun dec_text :: "nat \<Rightarrow> string" where
  "dec_text n = (if n < 10 then [] else dec_text (n div 10)) @ [char_of (48 + n mod 10)]"

declare dec_text.simps [simp del]

lemma newline_dec_text: "newline \<notin> set (dec_text n)"
proof (induction n rule: dec_text.induct)
  case (1 n)
  have "char_of (48 + n mod 10) \<noteq> newline"
  proof
    assume "char_of (48 + n mod 10) = newline"
    then have "of_char (char_of (48 + n mod 10) :: char) = (of_char newline :: nat)" by simp
    moreover have "48 + n mod 10 < 256" using mod_less_divisor [of 10 n] by linarith
    ultimately show False by simp
  qed
  with 1 show ?case by (subst dec_text.simps) auto
qed

subsection \<open>Reading text back\<close>

fun lines_of :: "string \<Rightarrow> string list" where
  "lines_of [] = []"
| "lines_of (c # s) = (if c = newline then [] # lines_of s
     else case lines_of s of [] \<Rightarrow> [[c]] | l # ls \<Rightarrow> (c # l) # ls)"

lemma lines_of_line: "newline \<notin> set l \<Longrightarrow> lines_of (l @ newline # s) = l # lines_of s"
  by (induction l) auto

lemma lines_of_lines:
  "(\<And>l. l \<in> set ls \<Longrightarrow> newline \<notin> set l) \<Longrightarrow> lines_of (concat (map (\<lambda>l. l @ [newline]) ls)) = ls"
  by (induction ls) (simp_all add: lines_of_line)

end
