(* ===== verification/Hex_Dump.thy ===== *)
theory Hex_Dump
  imports Text_Output
begin

text \<open>
  \<^verbatim>\<open>src/dump_hex.c\<close>. Every function gives the text it writes. The rows of 16 bytes that it prints are
  read from memory first, so a row is the list of its bytes; the result of a dump is \<open>None\<close> when it reads
  a byte it may not read or asks \<^verbatim>\<open>__builtin_clzl\<close> for the leading zeros of 0, which is undefined.
\<close>

definition first_leading_one :: "u64 \<Rightarrow> u32 option" where
  "first_leading_one value =
     (if value = 0 then None
      else Some (64 - of_nat (length (takeWhile (\<lambda>i. \<not> bit value (63 - i)) [0..<64])) - 1))"

definition print_indent :: "u32 \<Rightarrow> string" where
  "print_indent indent = replicate (nat (sint indent)) (CHR '' '')"

definition hexdigits :: string where
  "hexdigits = ''0123456789ABCDEF''"

primrec addr_digits :: "u64 \<Rightarrow> nat \<Rightarrow> u32 \<Rightarrow> string" where
  "addr_digits addr 0 shift = []"
| "addr_digits addr (Suc n) shift =
     (let shift = shift - 4
      in hexdigits ! unat (signed_drop_bit (unat shift) addr AND 15) # addr_digits addr n shift)"

definition print_addr :: "u64 \<Rightarrow> u32 \<Rightarrow> string" where
  "print_addr addr addr_width = addr_digits addr (unat addr_width) (push_bit 2 addr_width) @ '': ''"

definition print_hex :: "u8 \<Rightarrow> string" where
  "print_hex data = [hexdigits ! unat (drop_bit 4 data), hexdigits ! unat (data AND 15)]"

text \<open>One cell of a row: a byte, or blanks where the row has no byte. \<open>shown\<close> is the character column.\<close>

definition byte_cell :: "nat \<Rightarrow> u8 \<Rightarrow> string" where
  "byte_cell i b = (if i = 8 then ''- '' else []) @ print_hex b @ '' ''"

definition blank_cell :: "nat \<Rightarrow> string" where
  "blank_cell j = (if j = 8 then ''  '' else []) @ ''   ''"

definition shown :: "u8 \<Rightarrow> char" where
  "shown c = (if c < 32 \<or> c > 127 then CHR ''.'' else char_of (unat c))"

definition print_row :: "u8 list \<Rightarrow> u64 \<Rightarrow> u32 \<Rightarrow> bool \<Rightarrow> string" where
  "print_row row display_addr addr_width with_chars =
     print_addr display_addr addr_width @ concat (map (\<lambda>i. byte_cell i (row ! i)) [0..<16]) @
     (if with_chars then map (\<lambda>i. shown (row ! i)) [0..<16] else []) @ [newline]"

subsection \<open>Equal rows\<close>

text \<open>
  The loop \<^verbatim>\<open>do ... while (num_same_rows--)\<close>: its body runs for the count and for every smaller number
  down to 0.
\<close>

primrec same_rows_loop :: "u32 \<Rightarrow> u8 list \<Rightarrow> u64 \<Rightarrow> u32 \<Rightarrow> bool \<Rightarrow> nat \<Rightarrow> string" where
  "same_rows_loop indent row display_addr addr_width with_chars 0 =
     print_indent indent @ print_row row (display_addr - ucast (16 * 0 :: u32)) addr_width with_chars"
| "same_rows_loop indent row display_addr addr_width with_chars (Suc n) =
     print_indent indent @ print_row row (display_addr - ucast (16 * of_nat (Suc n) :: u32)) addr_width with_chars @
     same_rows_loop indent row display_addr addr_width with_chars n"

definition print_same_rows :: "u32 \<Rightarrow> u32 \<Rightarrow> u8 list \<Rightarrow> u64 \<Rightarrow> u32 \<Rightarrow> bool \<Rightarrow> string" where
  "print_same_rows indent num_same_rows row display_addr addr_width with_chars =
     (if num_same_rows > 3 then
        print_indent indent @ ''-- '' @ dec_text (unat (num_same_rows - 1)) @ '' same rows --'' @ [newline] @
        print_indent indent @ print_row row (display_addr - 16) addr_width with_chars
      else if num_same_rows \<noteq> 0 then
        same_rows_loop indent row display_addr addr_width with_chars (unat num_same_rows)
      else [])"

subsection \<open>The dump\<close>

text \<open>
  A row whose bytes start at the column \<open>lo\<close> and end before the column \<open>hi\<close>. The code writes it out
  twice, for the first row of an aligned dump and for the last row.
\<close>

definition print_part_row :: "memory \<Rightarrow> u32 \<Rightarrow> u64 \<Rightarrow> u64 \<Rightarrow> u32 \<Rightarrow> nat \<Rightarrow> nat \<Rightarrow> bool \<Rightarrow> string option" where
  "print_part_row m indent addr display_addr addr_width lo hi with_chars =
     do { bytes \<leftarrow> load m addr [lo..<hi];
          Some (print_indent indent @ print_addr display_addr addr_width @
            concat (map blank_cell [0..<lo]) @
            concat (map (\<lambda>j. byte_cell j (bytes ! (j - lo))) [lo..<hi]) @
            concat (map blank_cell [max lo hi..<16]) @
            (if with_chars then replicate lo (CHR '' '') @ map shown bytes else []) @ [newline]) }"

partial_function (option) full_rows ::
  "memory \<Rightarrow> u32 \<Rightarrow> u32 \<Rightarrow> bool \<Rightarrow> u32 \<Rightarrow> u32 \<Rightarrow> u64 \<Rightarrow> u64 \<Rightarrow> u32 \<Rightarrow> u32 \<Rightarrow> u8 list \<Rightarrow> string \<Rightarrow>
   (u64 \<times> u64 \<times> u32 \<times> u8 list \<times> string) option" where
  "full_rows m indent addr_width with_chars nbytes i addr display_addr num_rows num_same_rows prev_row out =
     (if i < nbytes then
        do { row \<leftarrow> load m addr [0..<16];
             if num_rows \<noteq> 0 \<and> row = prev_row
             then full_rows m indent addr_width with_chars nbytes (i + 16) (addr + 16) (display_addr + 16)
                    (num_rows + 1) (num_same_rows + 1) prev_row out
             else
               let same = (if num_rows \<noteq> 0
                           then print_same_rows indent num_same_rows prev_row display_addr addr_width with_chars
                           else []);
                   num_same_rows = (if num_rows \<noteq> 0 then 0 else num_same_rows)
               in full_rows m indent addr_width with_chars nbytes (i + 16) (addr + 16) (display_addr + 16)
                    (num_rows + 1) num_same_rows row
                    (out @ same @ print_indent indent @ print_row row display_addr addr_width with_chars) }
      else Some (addr, display_addr, num_same_rows, prev_row, out))"

definition dump_rows ::
  "memory \<Rightarrow> u32 \<Rightarrow> u32 \<Rightarrow> bool \<Rightarrow> u32 \<Rightarrow> u32 \<Rightarrow> u64 \<Rightarrow> u64 \<Rightarrow> string \<Rightarrow> string option" where
  "dump_rows m indent addr_width with_chars nbytes i addr display_addr out =
     (let remainder = nbytes AND 15;
          nbytes = nbytes - remainder
      in do { (addr, display_addr, num_same_rows, prev_row, out) \<leftarrow>
                full_rows m indent addr_width with_chars nbytes i addr display_addr 0 0 [] out;
              let out = out @ print_same_rows indent num_same_rows prev_row display_addr addr_width with_chars;
              if remainder \<noteq> 0
              then do { tail \<leftarrow> print_part_row m indent addr display_addr addr_width 0 (unat remainder) with_chars;
                        Some (out @ tail) }
              else Some out })"

definition dump_hex :: "memory \<Rightarrow> u32 \<Rightarrow> u64 \<Rightarrow> u32 \<Rightarrow> u64 \<Rightarrow> bool \<Rightarrow> bool \<Rightarrow> string option" where
  "dump_hex m indent addr nbytes display_addr aligned with_chars =
     (let offset = (if aligned then ucast (addr AND 15) else 0 :: u32);
          addr = addr - ucast offset;
          display_addr = display_addr - ucast offset;
          nbytes = nbytes + offset;
          max_addr = display_addr + ucast nbytes
      in do { one \<leftarrow> first_leading_one max_addr;
              let addr_width = drop_bit 2 (one + 3);
              let addr_width = (if addr_width < 4 then 4 else addr_width);
              if offset \<noteq> 0
              then do { let sz = (if nbytes < 16 then nbytes else 16);
                        out \<leftarrow> print_part_row m indent addr display_addr addr_width
                                 (unat offset) (unat sz) with_chars;
                        if nbytes < 16 then Some out
                        else dump_rows m indent addr_width with_chars nbytes 16
                               (addr + 16) (display_addr + 16) out }
              else dump_rows m indent addr_width with_chars nbytes 0 addr display_addr [] })"

definition dump_hex_simple :: "memory \<Rightarrow> u64 \<Rightarrow> u32 \<Rightarrow> string option" where
  "dump_hex_simple m data nbytes = dump_hex m 0 data nbytes data True True"

end
