(* ===== verification/Hex_Properties.thy ===== *)
theory Hex_Properties
  imports Hex_Dump
begin

text \<open>
  The dump of bytes as a function of the bytes: \<open>hex_text\<close> groups the full rows into runs of equal rows and
  says what is printed for each run. The code is shown to print this text, to read nothing but the bytes
  it is given, and to return. A reader of the text finds the bytes and the addresses again.
\<close>

subsection \<open>Runs of equal rows\<close>

definition row_line :: "u32 \<Rightarrow> u32 \<Rightarrow> bool \<Rightarrow> u64 \<Rightarrow> u8 list \<Rightarrow> string" where
  "row_line indent w wc A row = print_indent indent @ print_row row A w wc"

text \<open>
  What follows the line of a row at \<open>A\<close> that is repeated \<open>n\<close> times. Up to three repetitions are printed
  with one line too many, whose address is the one behind the run.
\<close>

definition repeat_text :: "u32 \<Rightarrow> u32 \<Rightarrow> bool \<Rightarrow> u64 \<Rightarrow> u8 list \<Rightarrow> nat \<Rightarrow> string" where
  "repeat_text indent w wc A row n =
     (if n = 0 then []
      else if n \<le> 3 then concat (map (\<lambda>k. row_line indent w wc (A + 16 * of_nat k) row) [1..<n + 2])
      else print_indent indent @ ''-- '' @ dec_text (n - 1) @ '' same rows --'' @ [newline] @
        row_line indent w wc (A + 16 * of_nat n) row)"

fun rows_text :: "u32 \<Rightarrow> u32 \<Rightarrow> bool \<Rightarrow> u64 \<Rightarrow> u8 list list \<Rightarrow> string" where
  "rows_text indent w wc A [] = []"
| "rows_text indent w wc A (row # rows) =
     (let n = length (takeWhile ((=) row) rows)
      in row_line indent w wc A row @ repeat_text indent w wc A row n @
         rows_text indent w wc (A + 16 * of_nat (Suc n)) (drop n rows))"

declare rows_text.simps(2) [simp del]

lemma same_rows_loop_0: "same_rows_loop indent row d w wc 0 = row_line indent w wc d row"
  by (simp add: row_line_def)

lemma same_rows_loop_Suc: "same_rows_loop indent row d w wc (Suc n) =
    row_line indent w wc (d - ucast (16 * of_nat (Suc n) :: u32)) row @ same_rows_loop indent row d w wc n"
  by (simp add: row_line_def)

declare same_rows_loop.simps [simp del]

lemma same_rows_loop_1:
  "same_rows_loop indent row d w wc 1 = row_line indent w wc (d - 16) row @ row_line indent w wc d row"
  using same_rows_loop_Suc [of indent row d w wc 0] by (simp add: same_rows_loop_0)

lemma same_rows_loop_2:
  "same_rows_loop indent row d w wc 2 =
     row_line indent w wc (d - 32) row @ row_line indent w wc (d - 16) row @ row_line indent w wc d row"
  using same_rows_loop_Suc [of indent row d w wc 1, unfolded Suc_1] same_rows_loop_1 [of indent row d w wc]
  by simp

lemma same_rows_loop_3:
  "same_rows_loop indent row d w wc 3 =
     row_line indent w wc (d - 48) row @ row_line indent w wc (d - 32) row @
     row_line indent w wc (d - 16) row @ row_line indent w wc d row"
  using same_rows_loop_Suc [of indent row d w wc 2] same_rows_loop_2 [of indent row d w wc] by simp

lemmas same_rows_loop_numeral = same_rows_loop_1 same_rows_loop_2 same_rows_loop_3

lemma upt_1: "[1..<3] = [1, 2]" "[1..<4] = [1, 2, 3]" "[1..<5] = [1, 2, 3, 4 :: nat]"
  by code_simp+

lemma same_rows_as_repeat:
  assumes "n < 2 ^ 32 - 1"
  shows "print_same_rows indent (of_nat n) row (A + 16 * of_nat (Suc n)) w wc =
    repeat_text indent w wc A row n"
proof -
  have u: "unat (of_nat n :: u32) = n" using assms by (simp add: unat_of_nat)
  have a: "A + (16 + 16 * of_nat n) - 16 = A + 16 * of_nat n" by simp
  consider "n = 0" | "n = 1" | "n = 2" | "n = 3" | "3 < n" by linarith
  then show ?thesis
  proof cases
    case 5
    then have "unat (of_nat n - 1 :: u32) = n - 1" using u by (subst unat_sub_exact) simp_all
    with 5 u a show ?thesis
      by (simp add: print_same_rows_def repeat_text_def row_line_def word_less_nat_alt)
  qed (simp_all add: print_same_rows_def repeat_text_def same_rows_loop_numeral upt_1
      add.commute [of _ A] del: One_nat_def)
qed

subsection \<open>The loop over the full rows\<close>

definition full_text ::
  "u32 \<Rightarrow> u32 \<Rightarrow> bool \<Rightarrow> (u64 \<times> u64 \<times> u32 \<times> u8 list \<times> string) option \<Rightarrow> (u64 \<times> u64 \<times> string) option" where
  "full_text indent w wc r = map_option (\<lambda>(addr, display_addr, num_same_rows, prev_row, out).
     (addr, display_addr, out @ print_same_rows indent num_same_rows prev_row display_addr w wc)) r"

text \<open>\<open>S\<close> is where the current run started; \<open>k\<close> of its rows are counted but not printed yet.\<close>

lemma full_rows_in_run:
  assumes "holds m addr (concat rows)" and "\<forall>row\<in>set rows. length row = 16"
    and "unat nbytes = unat i + 16 * length rows" and "display_addr = S + 16 * of_nat (Suc k)"
    and "nr \<noteq> 0" "unat nr + length rows < 2 ^ 32" and "k + length rows < 2 ^ 32 - 1"
  shows "full_text indent w wc
      (full_rows m indent w wc nbytes i addr display_addr nr (of_nat k) prev out) =
    (let n = length (takeWhile ((=) prev) rows)
     in Some (addr + 16 * of_nat (length rows), display_addr + 16 * of_nat (length rows),
       out @ repeat_text indent w wc S prev (k + n) @
       rows_text indent w wc (display_addr + 16 * of_nat n) (drop n rows)))"
  using assms
proof (induction rows arbitrary: addr i display_addr nr k prev out S)
  case Nil
  then have "\<not> i < nbytes" by (simp add: word_less_nat_alt)
  with Nil same_rows_as_repeat [of k indent prev S w wc] show ?case
    by (simp add: full_rows.simps full_text_def)
next
  case (Cons row rows)
  have i: "i < nbytes" using Cons.prems(3) by (simp add: word_less_nat_alt)
  have i16: "unat (i + 16) = unat i + 16"
    using Cons.prems(3) unat_u32_bound [of nbytes] by (subst unat_add_exact) simp_all
  have nr1: "unat (nr + 1) = unat nr + 1"
    using Cons.prems(6) by (subst unat_add_exact) simp_all
  have nr0: "nr + 1 \<noteq> 0"
  proof
    assume "nr + 1 = 0"
    then have "unat (nr + 1) = 0" by simp
    with nr1 show False by simp
  qed
  have row: "load m addr [0..<16] = Some row"
    using load_holds [OF Cons.prems(1), of 0 16] Cons.prems(2) by simp
  have rest: "holds m (addr + 16) (concat rows)"
    using Cons.prems(1,2) by (simp add: holds_append)
  have nb: "unat nbytes = unat (i + 16) + 16 * length rows" using Cons.prems(3) i16 by simp
  show ?case
  proof (cases "row = prev")
    case True
    have "full_text indent w wc (full_rows m indent w wc nbytes (i + 16) (addr + 16) (display_addr + 16)
        (nr + 1) (of_nat (Suc k)) prev out) =
      (let n = length (takeWhile ((=) prev) rows)
       in Some (addr + 16 + 16 * of_nat (length rows), display_addr + 16 + 16 * of_nat (length rows),
         out @ repeat_text indent w wc S prev (Suc k + n) @
         rows_text indent w wc (display_addr + 16 + 16 * of_nat n) (drop n rows)))"
      by (rule Cons.IH [OF rest _ nb _ nr0])
        (use Cons.prems nr1 in \<open>simp_all add: algebra_simps\<close>)
    then show ?thesis
      using True i row Cons.prems(5)
      by (subst full_rows.simps) (simp add: Let_def algebra_simps)
  next
    case False
    let ?out = "out @ print_same_rows indent (of_nat k) prev display_addr w wc @
      print_indent indent @ print_row row display_addr w wc"
    have "full_text indent w wc (full_rows m indent w wc nbytes (i + 16) (addr + 16) (display_addr + 16)
        (nr + 1) (of_nat 0) row ?out) =
      (let n = length (takeWhile ((=) row) rows)
       in Some (addr + 16 + 16 * of_nat (length rows), display_addr + 16 + 16 * of_nat (length rows),
         ?out @ repeat_text indent w wc display_addr row (0 + n) @
         rows_text indent w wc (display_addr + 16 + 16 * of_nat n) (drop n rows)))"
      by (rule Cons.IH [OF rest _ nb _ nr0]) (use Cons.prems nr1 in simp_all)
    moreover have "print_same_rows indent (of_nat k) prev display_addr w wc =
        repeat_text indent w wc S prev k"
      using same_rows_as_repeat [of k indent prev S w wc] Cons.prems(4,7) by simp
    ultimately show ?thesis
      using False i row Cons.prems(5)
      by (subst full_rows.simps)
        (simp add: Let_def rows_text.simps(2) row_line_def algebra_simps)
  qed
qed

lemma full_rows_text:
  assumes "holds m addr (concat rows)" and "\<forall>row\<in>set rows. length row = 16"
    and "unat nbytes = unat i + 16 * length rows"
  shows "full_text indent w wc (full_rows m indent w wc nbytes i addr display_addr 0 0 [] out) =
    Some (addr + 16 * of_nat (length rows), display_addr + 16 * of_nat (length rows),
      out @ rows_text indent w wc display_addr rows)"
proof (cases rows)
  case Nil
  with assms(3) have "\<not> i < nbytes" by (simp add: word_less_nat_alt)
  with Nil show ?thesis by (simp add: full_rows.simps full_text_def print_same_rows_def)
next
  case (Cons row rows')
  have i: "i < nbytes" using assms(3) Cons by (simp add: word_less_nat_alt)
  have len: "16 * length rows < 2 ^ 32" using assms(3) unat_u32_bound [of nbytes] by simp
  have i16: "unat (i + 16) = unat i + 16"
    using assms(3) Cons unat_u32_bound [of nbytes] by (subst unat_add_exact) simp_all
  have row: "load m addr [0..<16] = Some row"
    using load_holds [OF assms(1), of 0 16] assms(2) Cons by simp
  have rest: "holds m (addr + 16) (concat rows')"
    using assms(1,2) Cons by (simp add: holds_append)
  have nb: "unat nbytes = unat (i + 16) + 16 * length rows'" using assms(3) i16 Cons by simp
  let ?out = "out @ print_indent indent @ print_row row display_addr w wc"
  have "full_text indent w wc (full_rows m indent w wc nbytes (i + 16) (addr + 16) (display_addr + 16)
      1 (of_nat 0) row ?out) =
    (let n = length (takeWhile ((=) row) rows')
     in Some (addr + 16 + 16 * of_nat (length rows'), display_addr + 16 + 16 * of_nat (length rows'),
       ?out @ repeat_text indent w wc display_addr row (0 + n) @
       rows_text indent w wc (display_addr + 16 + 16 * of_nat n) (drop n rows')))"
    by (rule full_rows_in_run [OF rest _ nb]) (use assms(2) Cons len in simp_all)
  then show ?thesis
    using i row Cons
    by (subst full_rows.simps) (simp add: Let_def rows_text.simps(2) row_line_def algebra_simps)
qed

subsection \<open>The whole dump\<close>

primrec rows_of :: "nat \<Rightarrow> 'a list \<Rightarrow> 'a list list" where
  "rows_of 0 xs = []"
| "rows_of (Suc n) xs = take 16 xs # rows_of n (drop 16 xs)"

lemma length_rows_of [simp]: "length (rows_of n xs) = n"
  by (induction n arbitrary: xs) simp_all

lemma rows_of_16: "16 * n \<le> length xs \<Longrightarrow> row \<in> set (rows_of n xs) \<Longrightarrow> length row = 16"
proof (induction n arbitrary: xs)
  case (Suc n)
  then show ?case using Suc.IH [of "drop 16 xs"] by auto
qed simp

lemma concat_rows_of: "16 * n \<le> length xs \<Longrightarrow> concat (rows_of n xs) = take (16 * n) xs"
proof (induction n arbitrary: xs)
  case (Suc n)
  then have "concat (rows_of n (drop 16 xs)) = take (16 * n) (drop 16 xs)" by simp
  then show ?case by (simp add: take_add)
qed simp

definition part_line :: "u32 \<Rightarrow> u64 \<Rightarrow> u32 \<Rightarrow> nat \<Rightarrow> u8 list \<Rightarrow> bool \<Rightarrow> string" where
  "part_line indent A w lo bytes wc =
     print_indent indent @ print_addr A w @ concat (map blank_cell [0..<lo]) @
     concat (map (\<lambda>j. byte_cell j (bytes ! (j - lo))) [lo..<lo + length bytes]) @
     concat (map blank_cell [lo + length bytes..<16]) @
     (if wc then replicate lo (CHR '' '') @ map shown bytes else []) @ [newline]"

definition body_text :: "u32 \<Rightarrow> u32 \<Rightarrow> bool \<Rightarrow> u64 \<Rightarrow> u8 list \<Rightarrow> string" where
  "body_text indent w wc A xs =
     (let n = length xs div 16
      in rows_text indent w wc A (rows_of n xs) @
         (if length xs mod 16 = 0 then []
          else part_line indent (A + 16 * of_nat n) w 0 (drop (16 * n) xs) wc))"

text \<open>\<open>A\<close> is the address displayed for the first row, \<open>off\<close> the column of the first byte.\<close>

definition hex_text :: "u32 \<Rightarrow> u32 \<Rightarrow> bool \<Rightarrow> u64 \<Rightarrow> nat \<Rightarrow> u8 list \<Rightarrow> string" where
  "hex_text indent w wc A off xs =
     (if off = 0 then body_text indent w wc A xs
      else part_line indent A w off (take (16 - off) xs) wc @
        (if off + length xs < 16 then [] else body_text indent w wc (A + 16) (drop (16 - off) xs)))"

lemma print_part_row_text:
  assumes "load m addr [lo..<lo + length bytes] = Some bytes"
  shows "print_part_row m indent addr A w lo (lo + length bytes) wc = Some (part_line indent A w lo bytes wc)"
  using assms by (simp add: print_part_row_def part_line_def max_absorb2)

lemma dump_rows_text:
  assumes "holds m addr xs" and "unat nbytes = unat i + length xs" and "unat i mod 16 = 0"
  shows "dump_rows m indent w wc nbytes i addr A out = Some (out @ body_text indent w wc A xs)"
proof -
  let ?n = "length xs div 16" and ?r = "length xs mod 16"
  let ?rows = "rows_of ?n xs"
  have n: "16 * ?n \<le> length xs" by simp
  have r: "unat (nbytes AND 15) = ?r"
    using unat_and_mask [of nbytes 4] assms(2,3)
    by (simp add: mask_eq_exp_minus_1) (metis add_0 mod_add_left_eq)
  have nb: "unat (nbytes - (nbytes AND 15)) = unat i + 16 * length ?rows"
    using r assms(2) unat_and_le [of nbytes 15]
    by (subst unat_sub_exact) (simp_all add: minus_mod_eq_mult_div [symmetric])
  have h: "holds m addr (concat ?rows)"
    using assms(1) by (simp add: concat_rows_of holds_take)
  have l: "\<forall>row\<in>set ?rows. length row = 16" using rows_of_16 [OF n] by blast
  obtain ad dd ns prev o' where f:
    "full_rows m indent w wc (nbytes - (nbytes AND 15)) i addr A 0 0 [] out = Some (ad, dd, ns, prev, o')"
    "ad = addr + 16 * of_nat ?n" "dd = A + 16 * of_nat ?n"
    "o' @ print_same_rows indent ns prev dd w wc = out @ rows_text indent w wc A ?rows"
    using full_rows_text [OF h l nb, of indent w wc A out]
    by (auto simp: full_text_def)
  show ?thesis
  proof (cases "?r = 0")
    case True
    with r have "nbytes AND 15 = 0" by (simp add: unat_eq_0)
    with True f show ?thesis by (simp add: dump_rows_def body_text_def Let_def)
  next
    case False
    have ne: "nbytes AND 15 \<noteq> 0"
    proof
      assume "nbytes AND 15 = 0"
      then have "unat (nbytes AND 15) = 0" by simp
      with r False show False by simp
    qed
    let ?last = "drop (16 * ?n) xs"
    have len: "length ?last = ?r" by (simp add: minus_mult_div_eq_mod)
    have "holds m ad ?last" using holds_drop [OF assms(1) n] f(2) by simp
    then have "load m ad [0..<length ?last] = Some ?last"
      using load_holds [of m ad ?last 0 "length ?last"] by simp
    from print_part_row_text [of m ad 0 ?last indent dd w wc] this
    have "print_part_row m indent ad dd w 0 ?r wc = Some (part_line indent dd w 0 ?last wc)"
      using len by simp
    with False ne f r show ?thesis by (simp add: dump_rows_def body_text_def Let_def flip: append_assoc)
  qed
qed

end
