(* ===== verification/Hex_Reader.thy ===== *)
theory Hex_Reader
  imports Hex_Properties
begin

text \<open>
  A reader of the dumps: it takes a line apart by the width of its cells, and turns the digits into bytes
  and addresses.
\<close>

subsection \<open>Digits\<close>

definition hex_value :: "char \<Rightarrow> nat option" where
  "hex_value c = (let i = length (takeWhile (\<lambda>d. d \<noteq> c) hexdigits) in if i < 16 then Some i else None)"

lemma below_16: "n < 16 \<Longrightarrow> n \<in> set [0..<16]" for n :: nat
  by simp

lemma hexdigits_values: "\<forall>n\<in>set [0..<16]. hex_value (hexdigits ! n) = Some n \<and> hexdigits ! n \<noteq> newline"
  by code_simp

lemma hex_value_digit [simp]: "n < 16 \<Longrightarrow> hex_value (hexdigits ! n) = Some n"
  using hexdigits_values below_16 by blast

lemma newline_digit: "n < 16 \<Longrightarrow> newline \<noteq> hexdigits ! n"
  using hexdigits_values below_16 by metis

lemma hex_value_space [simp]: "hex_value (CHR '' '') = None"
  by code_simp

lemma unat_and_15: "unat (x AND 15) = unat x mod 16" for x :: "'a::len word"
  using unat_and_mask [of x 4] by (simp add: mask_eq_exp_minus_1)

lemma unat_drop_bit_div: "unat (drop_bit n x) = unat x div 2 ^ n" for x :: "'a::len word"
  unfolding unat_drop_bit_eq by (rule drop_bit_eq_div)

lemma unat_drop_4: "unat (drop_bit 4 x) = unat x div 16" for x :: "'a::len word"
  by (simp only: unat_drop_bit_div) simp

lemma unat_u8_bound: "unat (b :: u8) < 256"
  using unsigned_less [of b] by simp

lemma nibbles:
  "hexdigits ! unat (drop_bit 4 b) = hexdigits ! (unat b div 16)"
  "hexdigits ! unat (b AND 15) = hexdigits ! (unat b mod 16)"
  "unat b div 16 < 16" "unat b mod 16 < 16" for b :: u8
  using unat_u8_bound [of b] by (simp_all add: unat_and_15 unat_drop_4 less_mult_imp_div_less)

subsection \<open>Addresses\<close>

definition addr_value :: "string \<Rightarrow> nat" where
  "addr_value s = foldl (\<lambda>v c. 16 * v + the (hex_value c)) 0 s"

lemma addr_value_from:
  "foldl (\<lambda>v c. 16 * v + the (hex_value c)) a s = a * 16 ^ length s + addr_value s"
proof (induction s arbitrary: a)
  case (Cons c s)
  have "addr_value (c # s) = the (hex_value c) * 16 ^ length s + addr_value s"
    using Cons.IH [of "the (hex_value c)"] by (simp only: addr_value_def foldl_Cons mult_0_right add_0)
  then show ?case
    by (simp only: foldl_Cons Cons.IH length_Cons power_Suc) (simp add: distrib_right)
qed (simp add: addr_value_def)

lemma addr_value_Cons:
  "addr_value (c # s) = the (hex_value c) * 16 ^ length s + addr_value s"
  using addr_value_from [of "the (hex_value c)" s] by (simp only: addr_value_def foldl_Cons mult_0_right add_0)

lemma length_addr_digits [simp]: "length (addr_digits addr n shift) = n"
  by (induction n arbitrary: shift) (simp_all add: Let_def)

lemma shifted_digit:
  fixes addr :: u64
  assumes "s + 4 \<le> 64"
  shows "signed_drop_bit s addr AND 15 = drop_bit s addr AND 15"
proof (rule bit_word_eqI)
  fix i :: nat
  have "bit (15 :: u64) i \<longleftrightarrow> i < 4"
    using bit_mask_iff [of 4 i, where 'a = u64] by (auto simp: mask_eq_exp_minus_1)
  then show "bit (signed_drop_bit s addr AND 15) i \<longleftrightarrow> bit (drop_bit s addr AND 15) i"
    using assms by (auto simp: bit_simps)
qed

lemma unat_shifted_digit:
  "s + 4 \<le> 64 \<Longrightarrow> unat (signed_drop_bit s addr AND 15) = unat addr div 2 ^ s mod 16" for addr :: u64
  by (simp only: shifted_digit unat_and_15 unat_drop_bit_div)

lemma addr_digits_value:
  "n \<le> 16 \<Longrightarrow> unat shift = 4 * n \<Longrightarrow> addr_value (addr_digits addr n shift) = unat addr mod 16 ^ n"
proof (induction n arbitrary: shift)
  case 0
  then show ?case by (simp add: addr_value_def)
next
  case (Suc n)
  have s: "unat (shift - 4) = 4 * n" using Suc.prems by (subst unat_sub_exact) simp_all
  have d: "unat (signed_drop_bit (4 * n) addr AND 15) = unat addr div 16 ^ n mod 16"
    using Suc.prems by (simp add: unat_shifted_digit power_mult)
  have "addr_value (addr_digits addr (Suc n) shift) =
      unat addr div 16 ^ n mod 16 * 16 ^ n + unat addr mod 16 ^ n"
    using Suc.IH [OF _ s] Suc.prems(1) by (simp add: Let_def addr_value_Cons s d)
  also have "\<dots> = unat addr mod 16 ^ Suc n"
    using mod_mult2_eq [of "unat addr" "16 ^ n" 16] by (simp add: mult.commute)
  finally show ?case .
qed

lemma newline_addr_digits:
  "n \<le> 16 \<Longrightarrow> unat shift = 4 * n \<Longrightarrow> newline \<notin> set (addr_digits addr n shift)"
proof (induction n arbitrary: shift)
  case (Suc n)
  have s: "unat (shift - 4) = 4 * n" using Suc.prems by (subst unat_sub_exact) simp_all
  have "unat (signed_drop_bit (4 * n) addr AND 15) < 16"
    using Suc.prems by (simp add: unat_shifted_digit)
  with Suc s show ?case by (auto simp: Let_def dest: newline_digit)
qed simp

text \<open>The number of digits, from the address behind the last byte.\<close>

definition hex_width :: "u64 \<Rightarrow> u32" where
  "hex_width max_addr = (let w = drop_bit 2 (the (first_leading_one max_addr) + 3) in if w < 4 then 4 else w)"

lemma first_leading_one_Some:
  assumes "v \<noteq> 0"
  obtains k where "first_leading_one v = Some (of_nat k)" "k < 64" "2 ^ k \<le> unat v" "unat v < 2 ^ Suc k"
proof -
  let ?P = "\<lambda>i. \<not> bit v (63 - i)"
  let ?n = "length (takeWhile ?P [0..<64])"
  obtain j where j: "j < 64" "bit v j"
    using assms bit_word_eqI [of v 0] by auto
  have n: "?n < 64"
  proof (rule ccontr)
    assume "\<not> ?n < 64"
    then have "?n = length [0..<64]" using length_takeWhile_le [of ?P "[0..<64]"] by simp
    then have "takeWhile ?P [0..<64] = [0..<64]"
      by (metis append_eq_append_conv append_Nil2 takeWhile_dropWhile_id)
    then have "\<forall>x\<in>set [0..<64]. ?P x" by (metis set_takeWhileD)
    moreover have "63 - j \<in> set [0..<64]" "63 - (63 - j) = j" using j by simp_all
    ultimately show False using j(2) by metis
  qed
  define k where "k = 63 - ?n"
  have k: "k < 64" "?n = 63 - k" using n by (simp_all add: k_def)
  have "\<not> ?P ([0..<64] ! ?n)" using n by (intro nth_length_takeWhile) simp
  then have b: "bit v k" using n by (simp add: k_def)
  have z: "\<not> bit v i" if "k < i" for i
  proof (cases "i < 64")
    case True
    have i: "63 - i < ?n" using that True k by simp
    then have "takeWhile ?P [0..<64] ! (63 - i) \<in> set (takeWhile ?P [0..<64])" by (rule nth_mem)
    moreover have "takeWhile ?P [0..<64] ! (63 - i) = 63 - i"
      using i n by (simp add: takeWhile_nth)
    ultimately have "?P (63 - i)" by (metis (mono_tags, lifting) set_takeWhileD)
    then show ?thesis using True by simp
  qed (simp add: bit_word.rep_eq)
  have "v = take_bit (Suc k) v"
    by (rule bit_word_eqI) (use z not_le in \<open>auto simp: bit_simps less_Suc_eq_le\<close>)
  then have "unat v = take_bit (Suc k) (unat v)" by (metis unsigned_take_bit_eq)
  then have u: "unat v < 2 ^ Suc k" by (metis take_bit_nat_less_exp)
  have l: "2 ^ k \<le> unat v"
  proof (rule ccontr)
    assume "\<not> 2 ^ k \<le> unat v"
    then have "unat v div 2 ^ k = 0" by simp
    then have "\<not> bit (unat v) k" by (simp add: bit_iff_odd)
    with b show False by (simp add: bit_unsigned_iff)
  qed
  have "first_leading_one v = Some (of_nat k)"
    using assms n by (simp add: first_leading_one_def k_def of_nat_diff)
  with that k(1) l u show ?thesis by blast
qed

lemma hex_width_eq:
  assumes "v \<noteq> 0"
  obtains k where "k < 64" "2 ^ k \<le> unat v" "unat v < 2 ^ Suc k" "unat (hex_width v) = max 4 ((k + 3) div 4)"
proof -
  from first_leading_one_Some [OF assms] obtain k where
    k: "first_leading_one v = Some (of_nat k)" "k < 64" "2 ^ k \<le> unat v" "unat v < 2 ^ Suc k" .
  have "unat (of_nat k + 3 :: u32) = k + 3"
    using k(2) by (subst unat_add_exact) (simp_all add: unat_of_nat)
  then have "unat (drop_bit 2 (of_nat k + 3 :: u32)) = (k + 3) div 4"
    by (simp only: unat_drop_bit_div) simp
  then have "unat (hex_width v) = max 4 ((k + 3) div 4)"
    using k(1) by (simp add: hex_width_def Let_def word_less_nat_alt)
  with that k show ?thesis by blast
qed

lemma hex_width_le: "v \<noteq> 0 \<Longrightarrow> unat (hex_width v) \<le> 16"
  by (erule hex_width_eq) simp

subsection \<open>Cells\<close>

fun read_cells :: "nat \<Rightarrow> string \<Rightarrow> u8 list" where
  "read_cells (Suc n) (c # d # e # s) =
     (case (hex_value c, hex_value d) of (Some h, Some l) \<Rightarrow> [of_nat (16 * h + l)] | _ \<Rightarrow> []) @ read_cells n s"
| "read_cells n s = []"

definition read_line :: "string \<Rightarrow> u8 list" where
  "read_line s = read_cells 8 s @ read_cells 8 (drop 26 s)"

definition read_dump :: "nat \<Rightarrow> string \<Rightarrow> u8 list" where
  "read_dump k text = concat (map (\<lambda>l. read_line (drop k l)) (lines_of text))"

definition cell :: "u8 option \<Rightarrow> string" where
  "cell b = (case b of None \<Rightarrow> ''   '' | Some b \<Rightarrow> print_hex b @ '' '')"

definition sep :: "nat \<Rightarrow> u8 option \<Rightarrow> string" where
  "sep j b = (if j = 8 then case b of None \<Rightarrow> ''  '' | Some _ \<Rightarrow> ''- '' else [])"

lemma cell_texts: "blank_cell j = sep j None @ cell None" "byte_cell j b = sep j (Some b) @ cell (Some b)"
  by (simp_all add: blank_cell_def byte_cell_def sep_def cell_def)

lemma length_cell [simp]: "length (cell b) = 3"
  by (simp add: cell_def print_hex_def split: option.split)

lemma newline_cell: "newline \<notin> set (cell b)" "newline \<notin> set (sep j b)"
  by (auto simp: cell_def sep_def print_hex_def nibbles newline_digit split: option.split)

definition opt_list :: "'a option \<Rightarrow> 'a list" where
  "opt_list b = (case b of None \<Rightarrow> [] | Some b \<Rightarrow> [b])"

lemma read_cell: "read_cells (Suc n) (cell b @ s) = opt_list b @ read_cells n s"
  by (simp add: cell_def opt_list_def print_hex_def nibbles split: option.split)

lemma read_cells_append:
  "read_cells (length bs) (concat (map cell bs) @ s) = concat (map opt_list bs)"
  by (induction bs) (simp_all add: read_cell)

lemma length_cells [simp]: "length (concat (map cell bs)) = 3 * length bs"
  by (induction bs) simp_all

subsection \<open>Lines\<close>

text \<open>The sixteen cells of a line whose bytes start at the column \<open>lo\<close>.\<close>

definition line_cells :: "nat \<Rightarrow> u8 list \<Rightarrow> u8 option list" where
  "line_cells lo bytes = replicate lo None @ map Some bytes @ replicate (16 - (lo + length bytes)) None"

definition cells_text :: "u8 option list \<Rightarrow> string" where
  "cells_text bs = concat (map (\<lambda>j. sep j (bs ! j) @ cell (bs ! j)) [0..<16])"

lemma cells_text_split:
  assumes "length bs = 16"
  shows "cells_text bs = concat (map cell (take 8 bs)) @ sep 8 (bs ! 8) @ concat (map cell (drop 8 bs))"
proof -
  have s: "sep j b = []" if "j \<noteq> 8" for j b using that by (simp add: sep_def)
  have "[0..<16] = [0..<8] @ 8 # [9..<16]" by code_simp
  then have "cells_text bs = concat (map (\<lambda>j. sep j (bs ! j) @ cell (bs ! j)) [0..<8]) @
      (sep 8 (bs ! 8) @ cell (bs ! 8)) @ concat (map (\<lambda>j. sep j (bs ! j) @ cell (bs ! j)) [9..<16])"
    by (simp only: cells_text_def map_append list.map concat_append concat.simps append_assoc)
  also have "map (\<lambda>j. sep j (bs ! j) @ cell (bs ! j)) [0..<8] = map cell (map (nth bs) [0..<8])"
    by (simp add: s)
  also have "map (\<lambda>j. sep j (bs ! j) @ cell (bs ! j)) [9..<16] = map cell (map (nth bs) [9..<16])"
    by (simp add: s)
  also have "map (nth bs) [0..<8] = take 8 bs"
    using assms by (intro nth_equalityI) simp_all
  finally have "cells_text bs = concat (map cell (take 8 bs)) @ sep 8 (bs ! 8) @
      concat (map cell (bs ! 8 # map (nth bs) [9..<16]))" by simp
  also have "bs ! 8 # map (nth bs) [9..<16] = drop 8 bs"
    using assms by (intro nth_equalityI) (simp_all add: nth_Cons split: nat.split)
  finally show ?thesis .
qed

lemma part_line_cells:
  assumes "lo + length bytes \<le> 16"
  shows "part_line indent A w lo bytes wc = print_indent indent @ print_addr A w @
    cells_text (line_cells lo bytes) @ (if wc then replicate lo (CHR '' '') @ map shown bytes else []) @ [newline]"
proof -
  let ?f = "\<lambda>j. sep j (line_cells lo bytes ! j) @ cell (line_cells lo bytes ! j)"
  let ?hi = "lo + length bytes"
  have "[0..<16] = [0..<lo] @ [lo..<?hi] @ [?hi..<16]"
    using assms upt_add_eq_append [of 0 lo "length bytes"] upt_add_eq_append [of 0 ?hi "16 - ?hi"] by simp
  then have "cells_text (line_cells lo bytes) =
      concat (map ?f [0..<lo]) @ concat (map ?f [lo..<?hi]) @ concat (map ?f [?hi..<16])"
    by (simp only: cells_text_def map_append concat_append)
  also have "map ?f [0..<lo] = map blank_cell [0..<lo]"
    by (simp add: cell_texts line_cells_def nth_append)
  also have "map ?f [lo..<?hi] = map (\<lambda>j. byte_cell j (bytes ! (j - lo))) [lo..<?hi]"
    by (auto simp: cell_texts line_cells_def nth_append)
  also have "map ?f [?hi..<16] = map blank_cell [?hi..<16]"
    using assms by (auto simp: cell_texts line_cells_def nth_append)
  finally show ?thesis by (simp add: part_line_def)
qed

lemma row_line_cells:
  assumes "length row = 16"
  shows "row_line indent w wc A row = part_line indent A w 0 row wc"
proof -
  have "map (\<lambda>i. shown (row ! i)) [0..<16] = map shown row"
    by (rule nth_equalityI) (use assms in simp_all)
  then show ?thesis using assms by (simp add: row_line_def print_row_def part_line_def)
qed

lemma length_print_addr [simp]: "length (print_addr A w) = unat w + 2"
  by (simp add: print_addr_def)

lemma unat_shift_2: "unat w \<le> 16 \<Longrightarrow> unat (push_bit 2 w :: u32) = 4 * unat w"
  by (simp add: push_bit_eq_mult unat_mult_exact)

lemma newline_shown: "shown c \<noteq> newline"
proof
  assume "shown c = newline"
  then have "of_char (shown c) = (10 :: nat)" by simp
  then show False
    by (auto simp: shown_def word_less_nat_alt split: if_splits)
qed

lemma newline_line:
  assumes "unat w \<le> 16"
  shows "newline \<notin> set (print_indent indent @ print_addr A w @ cells_text bs @
    (if wc then replicate lo (CHR '' '') @ map shown bytes else []))"
proof -
  have "newline \<notin> set (print_addr A w)"
    using assms newline_addr_digits [OF assms, of "push_bit 2 w" A] by (simp add: print_addr_def unat_shift_2)
  moreover have "newline \<notin> set (cells_text bs)"
    using newline_cell by (auto simp: cells_text_def)
  ultimately show ?thesis using newline_shown [symmetric] by (auto simp: print_indent_def)
qed

lemma read_line_cells:
  assumes "length bs = 16"
  shows "read_line (cells_text bs @ s) = concat (map opt_list bs)"
proof -
  have l: "length (take 8 bs) = 8" "length (drop 8 bs) = 8" "length (sep 8 b) = 2" for b
    using assms by (simp_all add: sep_def split: option.split)
  have "drop 26 (cells_text bs @ s) = concat (map cell (drop 8 bs)) @ s"
    using l by (simp add: cells_text_split [OF assms])
  moreover have "read_cells 8 (cells_text bs @ s) = concat (map opt_list (take 8 bs))"
    using read_cells_append [of "take 8 bs"] l by (simp add: cells_text_split [OF assms])
  ultimately show ?thesis
    using read_cells_append [of "drop 8 bs" s] l
    by (simp add: read_line_def flip: concat_append map_append)
qed

lemma opt_list_line_cells: "concat (map opt_list (line_cells lo bytes)) = bytes"
proof -
  have "opt_list (None :: u8 option) = []"
    by (simp add: opt_list_def)
  moreover have "concat (map opt_list (map Some bytes)) = bytes"
    by (induction bytes) (simp_all add: opt_list_def)
  ultimately show ?thesis by (simp add: line_cells_def)
qed

text \<open>The width of the indentation and the address, with the colon and the space.\<close>

definition margin :: "u32 \<Rightarrow> u32 \<Rightarrow> nat" where
  "margin indent w = nat (sint indent) + unat w + 2"

lemma read_part_line:
  assumes "lo + length bytes \<le> 16" and "unat w \<le> 16"
  shows "read_dump (margin indent w) (part_line indent A w lo bytes wc @ s) =
    bytes @ read_dump (margin indent w) s"
proof -
  let ?l = "print_indent indent @ print_addr A w @ cells_text (line_cells lo bytes) @
    (if wc then replicate lo (CHR '' '') @ map shown bytes else [])"
  have len: "length (line_cells lo bytes) = 16" using assms(1) by (simp add: line_cells_def)
  have "lines_of (part_line indent A w lo bytes wc @ s) = ?l # lines_of s"
    using lines_of_line [OF newline_line [OF assms(2)], of indent A "line_cells lo bytes" wc lo bytes s]
    by (simp add: part_line_cells [OF assms(1)])
  moreover have "drop (margin indent w) ?l = cells_text (line_cells lo bytes) @
      (if wc then replicate lo (CHR '' '') @ map shown bytes else [])"
    by (simp add: margin_def print_indent_def)
  ultimately show ?thesis
    by (simp add: read_dump_def read_line_cells [OF len] opt_list_line_cells)
qed

lemma read_row_line:
  assumes "length row = 16" and "unat w \<le> 16"
  shows "read_dump (margin indent w) (row_line indent w wc A row @ s) = row @ read_dump (margin indent w) s"
  using assms by (simp add: row_line_cells read_part_line)

lemma read_rows_text:
  assumes "successively (\<noteq>) rows" and "\<forall>row\<in>set rows. length row = 16" and "unat w \<le> 16"
  shows "read_dump (margin indent w) (rows_text indent w wc A rows @ s) =
    concat rows @ read_dump (margin indent w) s"
  using assms
proof (induction rows arbitrary: A)
  case (Cons row rows)
  have "takeWhile ((=) row) rows = []"
    using Cons.prems(1) by (cases rows) auto
  moreover have "successively (\<noteq>) rows" using Cons.prems(1) by (cases rows) auto
  ultimately show ?case
    using Cons by (simp add: rows_text.simps(2) repeat_text_def read_row_line)
qed simp

end
