(* ===== verification/Hex_Claims.thy ===== *)
theory Hex_Claims
  imports Hex_Reader
begin

text \<open>
  What \<^verbatim>\<open>dump_hex\<close> promises: which text it prints for which bytes, that the bytes and the addresses are
  found again in the text, and where they are not.
\<close>

lemma dump_hex_text:
  assumes "holds m addr xs" and "length xs = unat nbytes"
    and "off = (if aligned then unat addr mod 16 else 0)" and "unat nbytes + off < 2 ^ 32"
    and "display_addr + ucast nbytes \<noteq> 0"
  shows "dump_hex m indent addr nbytes display_addr aligned wc =
    Some (hex_text indent (hex_width (display_addr + ucast nbytes)) wc (display_addr - of_nat off) off xs)"
proof -
  define offset :: u32 where "offset = (if aligned then ucast (addr AND 15) else 0)"
  have off16: "off < 16" using assms(3) by simp
  have offset: "unat offset = off" "(ucast offset :: u64) = of_nat off"
  proof -
    show u: "unat offset = off"
    proof (cases aligned)
      case True
      have "unat (ucast (addr AND 15) :: u32) = unat addr mod 16"
        using unat_and_15 [of addr] by (simp add: unsigned_ucast_eq take_bit_nat_eq_self)
      with True show ?thesis by (simp add: offset_def assms(3))
    qed (simp add: offset_def assms(3))
    show "(ucast offset :: u64) = of_nat off" by (simp add: u [symmetric])
  qed
  have n: "unat (nbytes + offset) = off + length xs"
    using assms(2,4) offset by (subst unat_add_exact) simp_all
  have u: "(ucast (nbytes + offset) :: u64) = ucast nbytes + of_nat off"
    using n assms(2) by (simp only: unat_eq_iff unat_ucast_u64)
      (subst unat_add_exact, use off16 unat_u32_bound [of nbytes] in \<open>simp_all add: unat_of_nat\<close>)
  have max: "display_addr - of_nat off + ucast (nbytes + offset) = display_addr + ucast nbytes"
    by (simp add: u)
  let ?w = "hex_width (display_addr + ucast nbytes)"
  from first_leading_one_Some [OF assms(5)] obtain k where
    one: "first_leading_one (display_addr + ucast nbytes) = Some (of_nat k)" by blast
  have w: "(if drop_bit 2 (of_nat k + 3 :: u32) < 4 then 4 else drop_bit 2 (of_nat k + 3)) = ?w"
    using one by (simp only: hex_width_def option.sel Let_def)
  have E: "dump_hex m indent addr nbytes display_addr aligned wc =
      (if offset \<noteq> 0
       then do { out \<leftarrow> print_part_row m indent (addr - of_nat off) (display_addr - of_nat off) ?w off
                          (unat (if nbytes + offset < 16 then nbytes + offset else 16)) wc;
                 if nbytes + offset < 16 then Some out
                 else dump_rows m indent ?w wc (nbytes + offset) 16 (addr - of_nat off + 16)
                        (display_addr - of_nat off + 16) out }
       else dump_rows m indent ?w wc (nbytes + offset) 0 (addr - of_nat off) (display_addr - of_nat off) [])"
    by (simp only: dump_hex_def Let_def offset_def [symmetric] offset max one w Option.bind.bind_lunit)
  show ?thesis
  proof (cases "off = 0")
    case True
    then have o: "offset = 0" using offset by (simp add: unat_eq_0)
    have "dump_rows m indent ?w wc nbytes 0 addr display_addr [] =
        Some (body_text indent ?w wc display_addr xs)"
      using dump_rows_text [OF assms(1), of nbytes 0 indent ?w wc display_addr "[]"] assms(2) by simp
    with True o show ?thesis by (simp add: E hex_text_def)
  next
    case False
    then have o: "offset \<noteq> 0" using offset by auto
    let ?bs = "take (16 - off) xs"
    have h: "load m (addr - of_nat off) [off..<off + length ?bs] = Some ?bs"
    proof -
      have "m (addr - of_nat off + of_nat j) = Some (xs ! (j - off))" if "off \<le> j" "j < off + length xs" for j
        using assms(1) [unfolded holds_def, rule_format, of "j - off"] that
        by (simp add: of_nat_diff add_diff_eq diff_add_eq)
      then have "load m (addr - of_nat off) [off..<off + length ?bs] =
          Some (map (\<lambda>j. xs ! (j - off)) [off..<off + length ?bs])"
        by (intro load_Some) auto
      also have "map (\<lambda>j. xs ! (j - off)) [off..<off + length ?bs] = ?bs"
        by (rule nth_equalityI) simp_all
      finally show ?thesis .
    qed
    have sz: "unat (if nbytes + offset < 16 then nbytes + offset else 16) = off + length ?bs"
      using n off16 by (auto simp: word_less_nat_alt min_def)
    have p: "print_part_row m indent (addr - of_nat off) (display_addr - of_nat off) ?w off
        (unat (if nbytes + offset < 16 then nbytes + offset else 16)) wc =
        Some (part_line indent (display_addr - of_nat off) ?w off ?bs wc)"
      unfolding sz by (rule print_part_row_text [OF h])
    show ?thesis
    proof (cases "off + length xs < 16")
      case True
      then have "nbytes + offset < 16" using n by (simp add: word_less_nat_alt)
      with True False o p show ?thesis by (simp add: E hex_text_def)
    next
      case ge: False
      then have sm: "\<not> nbytes + offset < 16" using n by (simp add: word_less_nat_alt)
      have "holds m (addr + of_nat (16 - off)) (drop (16 - off) xs)"
        using holds_drop [OF assms(1), of "16 - off"] ge by simp
      then have h2: "holds m (addr - of_nat off + 16) (drop (16 - off) xs)"
        using off16 by (simp add: of_nat_diff algebra_simps)
      have "dump_rows m indent ?w wc (nbytes + offset) 16 (addr - of_nat off + 16)
          (display_addr - of_nat off + 16) out =
          Some (out @ body_text indent ?w wc (display_addr - of_nat off + 16) (drop (16 - off) xs))" for out
        by (rule dump_rows_text [OF h2]) (use n ge off16 in simp_all)
      with ge sm False o p show ?thesis by (simp add: E hex_text_def)
    qed
  qed
qed

lemma hex_text_read:
  assumes "unat w \<le> 16" and "off < 16"
    and "successively (\<noteq>) (let ys = (if off = 0 then xs else drop (16 - off) xs) in rows_of (length ys div 16) ys)"
  shows "read_dump (margin indent w) (hex_text indent w wc A off xs) = xs"
proof -
  have nil: "read_dump k [] = []" for k by (simp add: read_dump_def)
  have b: "read_dump (margin indent w) (body_text indent w wc A ys) = ys"
    if "successively (\<noteq>) (rows_of (length ys div 16) ys)" for A ys
  proof -
    let ?n = "length ys div 16" and ?last = "drop (16 * (length ys div 16)) ys"
    have n: "16 * ?n \<le> length ys" by simp
    have r: "\<forall>row\<in>set (rows_of ?n ys). length row = 16" using rows_of_16 [OF n] by blast
    have l: "length ?last = length ys mod 16" by (simp add: minus_mult_div_eq_mod)
    have t: "read_dump (margin indent w) (part_line indent B w 0 ?last wc) = ?last" for B
      using read_part_line [of 0 ?last w indent B wc "[]"] assms(1) l by (simp add: nil)
    have e: "length ys mod 16 = 0 \<Longrightarrow> ?last = []" using l by simp
    show ?thesis
      using read_rows_text [OF that r assms(1), of indent wc A] t e concat_rows_of [OF n]
      by (simp add: body_text_def Let_def) (metis append.right_neutral append_take_drop_id nil)
  qed
  show ?thesis
  proof (cases "off = 0")
    case True
    with assms(3) b show ?thesis by (simp add: hex_text_def)
  next
    case False
    have p: "read_dump (margin indent w) (part_line indent A w off (take (16 - off) xs) wc @ s) =
        take (16 - off) xs @ read_dump (margin indent w) s" for s
      by (rule read_part_line) (use assms(1,2) in simp_all)
    from False assms(3) b [of "drop (16 - off) xs"] show ?thesis
      using p [of "[]"] by (simp add: hex_text_def Let_def nil p)
  qed
qed

text \<open>
  C37. \<open>dump_hex\<close> returns and reads nothing but the \<open>nbytes\<close> bytes it is given, wherever they start in a
  row. It prints a line for the bytes up to the first full row, the full rows as runs of equal rows, and a
  line for the rest; \<open>display_addr\<close> is the address of the first byte in the text.
\<close>

theorem hex_dump_by_runs:
  assumes "holds m addr xs" and "length xs = unat nbytes" and "unat nbytes + 15 < 2 ^ 32"
    and "display_addr + ucast nbytes \<noteq> 0"
  shows "dump_hex m indent addr nbytes display_addr aligned wc =
    (let off = (if aligned then unat addr mod 16 else 0);
         w = hex_width (display_addr + ucast nbytes)
     in Some (hex_text indent w wc (display_addr - of_nat off) off xs))"
proof -
  have "unat nbytes + (if aligned then unat addr mod 16 else 0) < 2 ^ 32"
    using assms(3) mod_less_divisor [of 16 "unat addr"] by auto
  from dump_hex_text [OF assms(1,2) refl this assms(4)] show ?thesis by (simp add: Let_def)
qed

theorem hex_dump_by_runs_witness:
  "dump_hex (only_bytes 0x1C [72, 105, 33, 10, 200]) 2 0x1C 5 0x1C True True =
   Some (''  0010:                                       48 69 21 0A             Hi!.'' @ [newline] @
         ''  0020: C8                                                .'' @ [newline])"
proof -
  have "dump_hex (only_bytes 0x1C [72, 105, 33, 10, 200]) 2 0x1C 5 0x1C True True =
      Some (hex_text 2 (hex_width 0x21) True 0x10 12 [72, 105, 33, 10, 200])"
    using hex_dump_by_runs [of "only_bytes 0x1C [72, 105, 33, 10, 200]" "0x1C" "[72, 105, 33, 10, 200]" 5 "0x1C" 2 True True]
    by (simp add: holds_only_bytes)
  also have "\<dots> = Some (''  0010:                                       48 69 21 0A             Hi!.'' @ [newline] @
         ''  0020: C8                                                .'' @ [newline])"
    by code_simp
  finally show ?thesis .
qed

text \<open>
  C38. Reading a dump back gives the bytes, at any alignment and indentation, when no full row equals the
  one before it.
\<close>

theorem hex_dump_read_back:
  assumes "holds m addr xs" and "length xs = unat nbytes" and "unat nbytes + 15 < 2 ^ 32"
    and "display_addr + ucast nbytes \<noteq> 0" and "off = (if aligned then unat addr mod 16 else 0)"
    and "successively (\<noteq>) (let ys = (if off = 0 then xs else drop (16 - off) xs) in rows_of (length ys div 16) ys)"
  shows "\<exists>text. dump_hex m indent addr nbytes display_addr aligned wc = Some text \<and>
    read_dump (margin indent (hex_width (display_addr + ucast nbytes))) text = xs"
proof -
  have off: "off < 16" using assms(5) by simp
  then have "unat nbytes + off < 2 ^ 32" using assms(3) by simp
  from dump_hex_text [OF assms(1,2,5) this assms(4)] hex_text_read [OF hex_width_le [OF assms(4)] off assms(6)]
  show ?thesis by blast
qed

theorem hex_dump_read_back_witness:
  "\<exists>text. dump_hex (only_bytes 0x1C [72, 105, 33, 10, 200]) 2 0x1C 5 0x1C True True = Some text \<and>
    read_dump (margin 2 (hex_width 0x21)) text = [72, 105, 33, 10, 200]"
  using hex_dump_read_back [of "only_bytes 0x1C [72, 105, 33, 10, 200]" "0x1C" "[72, 105, 33, 10, 200]" 5 "0x1C" 12 True 2 True]
  by (simp add: holds_only_bytes)

text \<open>
  Two to four equal rows are printed with one line too many: a reader finds the row once more than it
  is in memory.
\<close>

theorem hex_dump_repeats_row:
  assumes "holds m addr (concat (replicate n row))" and "length row = 16" and "2 \<le> n" "n \<le> 4"
    and "display_addr + 16 * of_nat n \<noteq> 0"
  shows "\<exists>text. dump_hex m indent addr (16 * of_nat n) display_addr False wc = Some text \<and>
    read_dump (margin indent (hex_width (display_addr + 16 * of_nat n))) text = concat (replicate (n + 1) row)"
proof -
  let ?w = "hex_width (display_addr + 16 * of_nat n)"
  have len: "length (concat (replicate n row)) = 16 * n"
    using assms(2) by (induction n) simp_all
  have u: "unat (16 * of_nat n :: u32) = 16 * n"
    using assms(4) by (subst unat_mult_exact) (simp_all add: unat_of_nat)
  have uc: "(ucast (16 * of_nat n :: u32) :: u64) = 16 * of_nat n"
  proof -
    have "(ucast (16 * of_nat n :: u32) :: u64) = of_nat (unat (16 * of_nat n :: u32))" by simp
    then show ?thesis by (simp only: u of_nat_mult) simp
  qed
  have rows: "rows_of n (concat (replicate n row)) = replicate n row"
    using assms(2) by (induction n) simp_all
  have w: "unat ?w \<le> 16" by (rule hex_width_le [OF assms(5)])
  have "dump_hex m indent addr (16 * of_nat n) display_addr False wc =
      Some (rows_text indent ?w wc display_addr (replicate n row))"
    using dump_hex_text [OF assms(1), of "16 * of_nat n" 0 False display_addr indent wc] assms(4,5)
    by (simp add: len u uc hex_text_def body_text_def rows)
  moreover obtain k where k: "n = Suc k" "1 \<le> k" "k \<le> 3"
    using assms(3,4) by (cases n) auto
  have "length (takeWhile ((=) row) (replicate k row)) = k" by (simp add: takeWhile_eq_all_conv)
  then have "rows_text indent ?w wc display_addr (replicate n row) = row_line indent ?w wc display_addr row @
      concat (map (\<lambda>k. row_line indent ?w wc (display_addr + 16 * of_nat k) row) [1..<k + 2])"
    using k by (simp add: rows_text.simps(2) repeat_text_def)
  moreover have r: "read_dump (margin indent ?w)
      (concat (map (\<lambda>k. row_line indent ?w wc (display_addr + 16 * of_nat k) row) ks) @ []) =
      concat (replicate (length ks) row)" for ks
    by (induction ks) (use read_row_line [OF assms(2) w] in \<open>simp_all add: read_dump_def\<close>)
  ultimately show ?thesis
    using k r [of "[1..<k + 2]"] read_row_line [OF assms(2) w] by simp
qed

theorem hex_dump_repeats_row_witness:
  "\<exists>text. dump_hex (\<lambda>a. Some 7) 0 0x1000 32 0x1000 False True = Some text \<and>
    read_dump (margin 0 (hex_width 0x1020)) text = replicate 48 7"
proof -
  have c: "concat (replicate 2 (replicate 16 (7 :: u8))) = replicate 32 7"
    "concat (replicate (2 + 1) (replicate 16 (7 :: u8))) = replicate 48 7" by code_simp+
  have h: "holds (\<lambda>a. Some 7) 0x1000 (concat (replicate 2 (replicate 16 7)))"
    unfolding c holds_def length_replicate by (auto simp only: nth_replicate)
  show ?thesis
    using hex_dump_repeats_row [OF h, where display_addr = "0x1000" and indent = 0 and wc = True]
    unfolding c by simp
qed

text \<open>
  The digits of an address are its value, unless the address behind the last byte lies strictly between
  a power of 16 from \<open>16 ^ 4\<close> on and its double: then the leading digit of some addresses is missing.
\<close>

theorem hex_address_complete:
  assumes "max_addr \<noteq> 0"
  shows "(\<forall>A. unat A < unat max_addr \<longrightarrow>
      addr_value (take (unat (hex_width max_addr)) (print_addr A (hex_width max_addr))) = unat A) \<longleftrightarrow>
    \<not> (\<exists>j\<ge>4. 16 ^ j < unat max_addr \<and> unat max_addr < 2 * 16 ^ j)"
proof -
  let ?w = "hex_width max_addr"
  have w: "unat ?w \<le> 16" by (rule hex_width_le [OF assms])
  have v: "addr_value (take (unat ?w) (print_addr A ?w)) = unat A mod 16 ^ unat ?w" for A
    using addr_digits_value [OF w unat_shift_2 [OF w], of A] by (simp add: print_addr_def)
  have full: "(\<forall>A :: u64. unat A < unat max_addr \<longrightarrow> unat A mod 16 ^ unat ?w = unat A) \<longleftrightarrow>
      unat max_addr \<le> 16 ^ unat ?w" (is "?L \<longleftrightarrow> ?R")
  proof
    assume ?L
    show ?R
    proof (rule ccontr)
      assume "\<not> ?R"
      then have gt: "16 ^ unat ?w < unat max_addr" by simp
      then have "unat (of_nat (16 ^ unat ?w) :: u64) = 16 ^ unat ?w"
        using unat_u64_bound [of max_addr] by (subst unat_of_nat) simp
      then obtain A :: u64 where A: "unat A = 16 ^ unat ?w" by blast
      with \<open>?L\<close> [rule_format, of A] gt show False by simp
    qed
  qed auto
  from hex_width_eq [OF assms] obtain k where
    k: "2 ^ k \<le> unat max_addr" "unat max_addr < 2 ^ Suc k" "unat ?w = max 4 ((k + 3) div 4)" by blast
  have p: "(16 :: nat) ^ j = 2 ^ (4 * j)" for j by (simp add: power_mult)
  have between: "k = 4 * j" if "16 ^ j < unat max_addr" "unat max_addr < 2 * 16 ^ j" for j
  proof -
    have a: "(2::nat) ^ (4 * j) < 2 ^ Suc k" "(2::nat) ^ k < 2 ^ Suc (4 * j)"
      using that k(1,2) by (simp_all add: p)
    have "4 * j < Suc k" using a(1) by (rule power_less_imp_less_exp [rotated]) simp
    moreover have "k < Suc (4 * j)" using a(2) by (rule power_less_imp_less_exp [rotated]) simp
    ultimately show ?thesis by simp
  qed
  have "unat max_addr \<le> 16 ^ unat ?w \<longleftrightarrow>
      \<not> (\<exists>j\<ge>4. 16 ^ j < unat max_addr \<and> unat max_addr < 2 * 16 ^ j)"
  proof (cases "\<exists>j\<ge>4. k = 4 * j")
    case True
    then obtain j where j: "4 \<le> j" "k = 4 * j" by blast
    then have w: "unat ?w = j" using k(3) by simp
    have m: "16 ^ j \<le> unat max_addr" "unat max_addr < 2 * 16 ^ j" using j(2) k(1,2) by (simp_all add: p)
    have "i = j" if "16 ^ i < unat max_addr" "unat max_addr < 2 * 16 ^ i" for i
      using between [OF that] j(2) by simp
    then show ?thesis unfolding w using m j(1) by (metis leD le_neq_implies_less order_refl)
  next
    case False
    then have "Suc k \<le> 4 * unat ?w" using k(3) by presburger
    then have "(2::nat) ^ Suc k \<le> 2 ^ (4 * unat ?w)" by (intro power_increasing) simp_all
    then have "unat max_addr \<le> 16 ^ unat ?w" using k(2) unfolding p by linarith
    then show ?thesis using False between by blast
  qed
  with full v show ?thesis by simp
qed

theorem hex_address_complete_witness:
  "\<not> (\<forall>A. unat A < 0x10010 \<longrightarrow>
      addr_value (take (unat (hex_width 0x10010)) (print_addr A (hex_width 0x10010))) = unat A)"
proof -
  have "\<exists>j\<ge>4. 16 ^ j < (0x10010 :: nat) \<and> 0x10010 < 2 * (16 :: nat) ^ j"
    by (rule exI [of _ 4]) simp
  then show ?thesis using hex_address_complete [of "0x10010"] by simp
qed

end
