(* ===== verification/Bitmap_Dump.thy ===== *)
theory Bitmap_Dump
  imports Hex_Reader
begin

text \<open>
  \<^verbatim>\<open>src/dump_bitmap.c\<close>: the bits of a bitmap as stars and dots, 16 bytes on a line, least significant bit
  first; rows of zeros or of ones after an equal row are left out. How \<^verbatim>\<open>%p\<close> shows a pointer is up to the
  implementation of C, so it is the argument \<open>fmt_p\<close>. The result is \<open>None\<close> when a byte is read that may
  not be read.
\<close>

primrec same_chars :: "memory \<Rightarrow> u64 \<Rightarrow> u8 \<Rightarrow> nat list \<Rightarrow> bool option" where
  "same_chars m block chr [] = Some True"
| "same_chars m block chr (i # is) =
     do { b \<leftarrow> m (block + of_nat i); if b \<noteq> chr then Some False else same_chars m block chr is }"

definition same_16_chars :: "memory \<Rightarrow> u64 \<Rightarrow> u8 \<Rightarrow> bool option" where
  "same_16_chars m block chr = same_chars m block chr [0..<16]"

primrec bit_chars :: "nat \<Rightarrow> u8 \<Rightarrow> string" where
  "bit_chars 0 b = []"
| "bit_chars (Suc n) b = (if b AND 1 \<noteq> 0 then CHR ''*'' else CHR ''.'') # bit_chars n (drop_bit 1 b)"

partial_function (option) bitmap_loop ::
  "memory \<Rightarrow> (u64 \<Rightarrow> string) \<Rightarrow> u64 \<Rightarrow> u32 \<Rightarrow> u32 \<Rightarrow> u32 \<Rightarrow> bool \<Rightarrow> u8 \<Rightarrow> bool \<Rightarrow> string \<Rightarrow> string option" where
  "bitmap_loop m fmt_p data nbytes i column prev_row_same_char prev_row_char skipping out =
     (if i < nbytes then
        do { skip \<leftarrow> (if column = 0 \<and> prev_row_same_char \<and> nbytes - i > 16 \<and>
                       (prev_row_char = 0 \<or> prev_row_char = 0xFF)
                     then same_16_chars m (data + ucast i) prev_row_char else Some False);
             if skip
             then bitmap_loop m fmt_p data nbytes (i + 16) column prev_row_same_char prev_row_char True
                    (out @ (if \<not> skipping then ''---'' @ [newline] else []))
             else do {
               b \<leftarrow> m (data + ucast i);
               let (prev_row_same_char, prev_row_char, skipping, out) =
                 (if column = 0 then (True, b, False, out @ fmt_p (data + ucast i) @ '': '')
                  else (prev_row_same_char, prev_row_char, skipping, out));
               let prev_row_same_char = (if prev_row_char \<noteq> b then False else prev_row_same_char);
               let column = column + 1;
               if column = 8
               then bitmap_loop m fmt_p data nbytes (i + 1) column prev_row_same_char prev_row_char skipping
                      (out @ bit_chars 8 b @ '' '')
               else if column = 16
               then bitmap_loop m fmt_p data nbytes (i + 1) 0 prev_row_same_char prev_row_char skipping
                      (out @ bit_chars 8 b @ [newline])
               else bitmap_loop m fmt_p data nbytes (i + 1) column prev_row_same_char prev_row_char skipping
                      (out @ bit_chars 8 b @ '' '') } }
      else Some (out @ (if column < 16 then [newline] else [])))"

definition dump_bitmap :: "memory \<Rightarrow> (u64 \<Rightarrow> string) \<Rightarrow> u64 \<Rightarrow> u32 \<Rightarrow> string option" where
  "dump_bitmap m fmt_p data nbytes = bitmap_loop m fmt_p data nbytes 0 0 False 0 False []"

subsection \<open>The text as a function of the bytes\<close>

definition byte_text :: "nat \<Rightarrow> u8 \<Rightarrow> string" where
  "byte_text j b = bit_chars 8 b @ [if j = 15 then newline else CHR '' '']"

fun bytes_text :: "nat \<Rightarrow> u8 list \<Rightarrow> string" where
  "bytes_text j [] = []"
| "bytes_text j (b # bs) = byte_text j b @ bytes_text (Suc j) bs"

text \<open>The byte that a row to be left out must consist of.\<close>

definition row_mark :: "u8 list \<Rightarrow> u8 option" where
  "row_mark row = (if (\<forall>b\<in>set row. b = hd row) \<and> (hd row = 0 \<or> hd row = 0xFF) then Some (hd row) else None)"

function bitmap_text :: "(u64 \<Rightarrow> string) \<Rightarrow> u64 \<Rightarrow> u8 option \<Rightarrow> bool \<Rightarrow> u8 list \<Rightarrow> string" where
  "bitmap_text fmt_p A prev skipping xs =
     (if xs = [] then [newline]
      else if 16 < length xs \<and> prev \<noteq> None \<and> take 16 xs = replicate 16 (the prev)
      then (if skipping then [] else ''---'' @ [newline]) @ bitmap_text fmt_p (A + 16) prev True (drop 16 xs)
      else fmt_p A @ '': '' @ bytes_text 0 (take 16 xs) @
        bitmap_text fmt_p (A + 16) (row_mark (take 16 xs)) False (drop 16 xs))"
  by pat_completeness auto
termination by (relation "measure (\<lambda>(fmt_p, A, prev, skipping, xs). length xs)") auto

declare bitmap_text.simps [simp del]

lemma same_chars_Some:
  "(\<And>j. j \<in> set js \<Longrightarrow> m (block + of_nat j) = Some (f j)) \<Longrightarrow>
   same_chars m block chr js = Some (\<forall>j\<in>set js. f j = chr)"
  by (induction js) auto

lemma same_16_chars_holds:
  assumes "holds m addr xs" and "16 \<le> length xs"
  shows "same_16_chars m addr chr = Some (take 16 xs = replicate 16 chr)"
proof -
  have "same_16_chars m addr chr = Some (\<forall>j\<in>set [0..<16]. xs ! j = chr)"
    unfolding same_16_chars_def using assms by (intro same_chars_Some) (simp add: holds_def)
  also have "(\<forall>j\<in>set [0..<16]. xs ! j = chr) = (take 16 xs = replicate 16 chr)"
    using assms(2) by (auto simp only: list_eq_iff_nth_eq length_take length_replicate nth_replicate
        nth_take min_absorb2 set_upt atLeastLessThan_iff)
  finally show ?thesis .
qed

end
