(* ===== verification/Bitmap_Dump_Claims.thy ===== *)
theory Bitmap_Dump_Claims
  imports Bitmap_Dump
begin

text \<open>
  \<^verbatim>\<open>dump_bitmap\<close> prints \<open>bitmap_text\<close> of its bytes, row by row; and although it leaves out rows, the bytes
  are determined by the text, whichever way pointers are shown.
\<close>

subsection \<open>One row\<close>

lemma bitmap_loop_byte:
  assumes "i < nbytes" and "column \<noteq> 0" and "m (data + ucast i) = Some b" and "unat column < 16"
  shows "bitmap_loop m fmt_p data nbytes i column same char skipping out =
    bitmap_loop m fmt_p data nbytes (i + 1) (if column = 15 then 0 else column + 1) (same \<and> b = char) char
      skipping (out @ byte_text (unat column) b)"
proof -
  have c: "column + 1 = 16 \<longleftrightarrow> column = 15" "unat column = 15 \<longleftrightarrow> column = 15" "column = 15 \<Longrightarrow> column + 1 \<noteq> 8"
    using assms(4) by (auto simp: unat_eq_iff [of column 15] eq_diff_eq [symmetric])
  show ?thesis
    using assms(1-3) c
    by (subst bitmap_loop.simps) (auto simp: byte_text_def Let_def)
qed

lemma bitmap_loop_first:
  assumes "i < nbytes" and "m (data + ucast i) = Some b"
    and "\<not> (same \<and> nbytes - i > 16 \<and> (char = 0 \<or> char = 0xFF) \<and> same_16_chars m (data + ucast i) char \<noteq> Some False)"
  shows "bitmap_loop m fmt_p data nbytes i 0 same char skipping out =
    bitmap_loop m fmt_p data nbytes (i + 1) 1 True b False (out @ fmt_p (data + ucast i) @ '': '' @ byte_text 0 b)"
proof -
  have "(if (0::u32) = 0 \<and> same \<and> nbytes - i > 16 \<and> (char = 0 \<or> char = 0xFF)
      then same_16_chars m (data + ucast i) char else Some False) = Some False"
    using assms(3) by auto
  then show ?thesis
    using assms(1,2) by (subst bitmap_loop.simps) (simp add: byte_text_def Let_def)
qed

lemma bitmap_loop_rest:
  assumes "holds m (data + ucast i) ys" and "unat i + length ys \<le> unat nbytes"
    and "c \<noteq> 0" "c + length ys \<le> 16" "c < 16"
  shows "bitmap_loop m fmt_p data nbytes i (of_nat c) same char skipping out =
    bitmap_loop m fmt_p data nbytes (i + of_nat (length ys)) (of_nat (if c + length ys = 16 then 0 else c + length ys))
      (same \<and> (\<forall>y\<in>set ys. y = char)) char skipping (out @ bytes_text c ys)"
  using assms
proof (induction ys arbitrary: i c same out)
  case (Cons y ys)
  have i: "i < nbytes" using Cons.prems(2) by (simp add: word_less_nat_alt)
  have i1: "unat (i + 1) = unat i + 1"
    using Cons.prems(2) unat_u32_bound [of nbytes] by (subst unat_add_exact) simp_all
  have uc: "(ucast (i + 1) :: u64) = ucast i + 1"
  proof -
    have "(ucast (i + 1) :: u64) = of_nat (unat (i + 1))" by simp
    then show ?thesis by (simp only: i1 of_nat_add) simp
  qed
  have u: "unat (of_nat c :: u32) = c" using Cons.prems(5) by (simp add: unat_of_nat)
  have y: "m (data + ucast i) = Some y"
    using Cons.prems(1) by (auto simp: holds_def)
  have rest: "holds m (data + ucast (i + 1)) ys"
    using Cons.prems(1) holds_append [of m "data + ucast i" "[y]" ys] by (simp add: uc add.assoc)
  have c0: "(of_nat c :: u32) \<noteq> 0" and c15: "(of_nat c :: u32) = 15 \<longleftrightarrow> c = 15"
    using Cons.prems(3) by (simp_all add: unat_eq_iff u)
  have step: "bitmap_loop m fmt_p data nbytes i (of_nat c) same char skipping out =
      bitmap_loop m fmt_p data nbytes (i + 1) (if c = 15 then 0 else of_nat c + 1) (same \<and> y = char) char
        skipping (out @ byte_text c y)"
    using bitmap_loop_byte [of i nbytes "of_nat c" m data y fmt_p same char skipping out] i c0 y Cons.prems(5)
    by (simp add: u c15)
  show ?case
  proof (cases "c = 15")
    case True
    with Cons.prems(4) step show ?thesis by (cases ys) simp_all
  next
    case False
    have "bitmap_loop m fmt_p data nbytes (i + 1) (of_nat (Suc c)) (same \<and> y = char) char skipping
        (out @ byte_text c y) =
      bitmap_loop m fmt_p data nbytes (i + 1 + of_nat (length ys))
        (of_nat (if Suc c + length ys = 16 then 0 else Suc c + length ys))
        ((same \<and> y = char) \<and> (\<forall>y\<in>set ys. y = char)) char skipping ((out @ byte_text c y) @ bytes_text (Suc c) ys)"
      by (rule Cons.IH [OF rest]) (use Cons.prems False i1 in simp_all)
    with step False show ?thesis by (simp add: add.assoc conj_assoc add.commute [of 1])
  qed
qed simp

definition mark :: "bool \<Rightarrow> u8 \<Rightarrow> u8 option" where
  "mark same char = (if same \<and> (char = 0 \<or> char = 0xFF) then Some char else None)"

lemma bitmap_loop_row:
  assumes "holds m (data + ucast i) row" and "unat i + length row \<le> unat nbytes"
    and "row \<noteq> []" "length row \<le> 16"
    and "\<not> (same \<and> nbytes - i > 16 \<and> (char = 0 \<or> char = 0xFF) \<and> same_16_chars m (data + ucast i) char \<noteq> Some False)"
  shows "\<exists>same' char'. mark same' char' = row_mark row \<and>
    bitmap_loop m fmt_p data nbytes i 0 same char skipping out =
    bitmap_loop m fmt_p data nbytes (i + of_nat (length row)) (of_nat (if length row = 16 then 0 else length row))
      same' char' False (out @ fmt_p (data + ucast i) @ '': '' @ bytes_text 0 row)"
proof -
  obtain b ys where row: "row = b # ys" using assms(3) by (cases row) auto
  have i: "i < nbytes" using assms(2) row by (simp add: word_less_nat_alt)
  have i1: "unat (i + 1) = unat i + 1"
    using assms(2) row unat_u32_bound [of nbytes] by (subst unat_add_exact) simp_all
  have uc: "(ucast (i + 1) :: u64) = ucast i + 1"
  proof -
    have "(ucast (i + 1) :: u64) = of_nat (unat (i + 1))" by simp
    then show ?thesis by (simp only: i1 of_nat_add) simp
  qed
  have b: "m (data + ucast i) = Some b"
    using assms(1) row by (auto simp: holds_def)
  have rest: "holds m (data + ucast (i + 1)) ys"
    using assms(1) row holds_append [of m "data + ucast i" "[b]" ys] by (simp add: uc add.assoc)
  have "mark (True \<and> (\<forall>y\<in>set ys. y = b)) b = row_mark row"
    by (auto simp: mark_def row_mark_def row)
  moreover have "bitmap_loop m fmt_p data nbytes i 0 same char skipping out =
    bitmap_loop m fmt_p data nbytes (i + of_nat (length row)) (of_nat (if length row = 16 then 0 else length row))
      (True \<and> (\<forall>y\<in>set ys. y = b)) b False (out @ fmt_p (data + ucast i) @ '': '' @ bytes_text 0 row)"
    using bitmap_loop_first [OF i b assms(5), of fmt_p skipping out]
      bitmap_loop_rest [OF rest, of nbytes 1 fmt_p True b False] i1 assms(2,4) row
    by (simp add: add.assoc)
  ultimately show ?thesis by blast
qed

subsection \<open>The whole text\<close>

lemma bitmap_loop_text:
  assumes "holds m (data + ucast i) xs" and "unat nbytes = unat i + length xs"
  shows "bitmap_loop m fmt_p data nbytes i 0 same char skipping out =
    Some (out @ bitmap_text fmt_p (data + ucast i) (mark same char) skipping xs)"
  using assms
proof (induction "length xs" arbitrary: xs i same char skipping out rule: less_induct)
  case less
  show ?case
  proof (cases "xs = []")
    case True
    with less.prems(2) have "\<not> i < nbytes" by (simp add: word_less_nat_alt)
    with True show ?thesis by (simp add: bitmap_loop.simps bitmap_text.simps)
  next
    case False
    have i: "i < nbytes" using False less.prems(2) by (simp add: word_less_nat_alt)
    have room: "nbytes - i > 16 \<longleftrightarrow> 16 < length xs"
      using less.prems(2) by (simp add: word_less_nat_alt unat_sub_exact)
    let ?row = "take 16 xs"
    let ?skip = "16 < length xs \<and> mark same char \<noteq> None \<and> ?row = replicate 16 (the (mark same char))"
    have first: "holds m (data + ucast i) ?row" using less.prems(1) by (rule holds_take)
    have cond: "same \<and> nbytes - i > 16 \<and> (char = 0 \<or> char = 0xFF) \<and>
        same_16_chars m (data + ucast i) char \<noteq> Some False \<longleftrightarrow> ?skip"
      using same_16_chars_holds [OF less.prems(1), of char] room by (auto simp: mark_def)
    show ?thesis
    proof (cases "16 < length xs")
      case True
      have i16: "unat (i + 16) = unat i + 16"
        using less.prems(2) True unat_u32_bound [of nbytes] by (subst unat_add_exact) simp_all
      have uc: "(ucast (i + 16) :: u64) = ucast i + 16"
      proof -
        have "(ucast (i + 16) :: u64) = of_nat (unat (i + 16))" by simp
        then show ?thesis by (simp only: i16 of_nat_add) simp
      qed
      have rest: "holds m (data + ucast (i + 16)) (drop 16 xs)"
        using holds_drop [OF less.prems(1), of 16] True by (simp add: uc add.assoc)
      have IH: "bitmap_loop m fmt_p data nbytes (i + 16) 0 same' char' sk out' =
          Some (out' @ bitmap_text fmt_p (data + ucast i + 16) (mark same' char') sk (drop 16 xs))"
        for same' char' sk out'
        using less.hyps [OF _ rest, of same' char' sk out'] True less.prems(2) i16 by (simp add: uc add.assoc)
      show ?thesis
      proof (cases ?skip)
        case skip: True
        then have "same" "nbytes - i > 16" "char = 0 \<or> char = 0xFF"
          "same_16_chars m (data + ucast i) char = Some True"
          using cond same_16_chars_holds [OF less.prems(1), of char] True by auto
        then have "bitmap_loop m fmt_p data nbytes i 0 same char skipping out =
            bitmap_loop m fmt_p data nbytes (i + 16) 0 same char True
              (out @ (if \<not> skipping then ''---'' @ [newline] else []))"
          using i by (subst bitmap_loop.simps) simp
        with skip IH show ?thesis by (subst bitmap_text.simps) auto
      next
        case no: False
        then have "\<not> (same \<and> nbytes - i > 16 \<and> (char = 0 \<or> char = 0xFF) \<and>
            same_16_chars m (data + ucast i) char \<noteq> Some False)" unfolding cond .
        from bitmap_loop_row [OF first _ _ _ this, of fmt_p skipping out] True less.prems(2) False obtain same' char'
          where "mark same' char' = row_mark ?row" and
            "bitmap_loop m fmt_p data nbytes i 0 same char skipping out =
             bitmap_loop m fmt_p data nbytes (i + 16) 0 same' char' False
               (out @ fmt_p (data + ucast i) @ '': '' @ bytes_text 0 ?row)" by auto
        with no False IH show ?thesis by (subst bitmap_text.simps) auto
      qed
    next
      case short: False
      then have row: "?row = xs" "drop 16 xs = []" by simp_all
      have "\<not> (same \<and> nbytes - i > 16 \<and> (char = 0 \<or> char = 0xFF) \<and>
          same_16_chars m (data + ucast i) char \<noteq> Some False)" unfolding cond using short by simp
      from bitmap_loop_row [OF less.prems(1) _ _ _ this, of fmt_p skipping out] short less.prems(2) False obtain same' char'
        where r: "bitmap_loop m fmt_p data nbytes i 0 same char skipping out =
           bitmap_loop m fmt_p data nbytes (i + of_nat (length xs)) (of_nat (if length xs = 16 then 0 else length xs))
             same' char' False (out @ fmt_p (data + ucast i) @ '': '' @ bytes_text 0 xs)" by auto
      have "unat (i + of_nat (length xs)) = unat nbytes"
        using less.prems(2) short unat_u32_bound [of nbytes]
        by (subst unat_add_exact) (simp_all add: unat_of_nat)
      then have e: "i + of_nat (length xs) = nbytes" by (simp add: unat_eq_iff)
      have "of_nat (if length xs = 16 then 0 else length xs) < (16 :: u32)"
        using short by (simp add: word_less_nat_alt unat_of_nat)
      then have "bitmap_loop m fmt_p data nbytes i 0 same char skipping out =
          Some (out @ fmt_p (data + ucast i) @ '': '' @ bytes_text 0 xs @ [newline])"
        unfolding r e by (subst bitmap_loop.simps) simp
      with short False row show ?thesis
        by (subst bitmap_text.simps) (simp add: bitmap_text.simps [of _ _ _ _ "[]"])
    qed
  qed
qed

lemma dump_bitmap_text:
  assumes "holds m data xs" and "length xs = unat nbytes"
  shows "dump_bitmap m fmt_p data nbytes = Some (bitmap_text fmt_p data None False xs)"
  using bitmap_loop_text [of m data 0 xs nbytes fmt_p False 0 False "[]"] assms
  by (simp add: dump_bitmap_def mark_def)

subsection \<open>What a reader knows\<close>

text \<open>What the reader relies on: pointers are shown differently when they differ, without a colon.\<close>

definition pointers_readable :: "(u64 \<Rightarrow> string) \<Rightarrow> bool" where
  "pointers_readable fmt_p \<longleftrightarrow>
     inj fmt_p \<and> (\<forall>a. CHR '':'' \<notin> set (fmt_p a)) \<and> (\<forall>a s. \<forall>c. fmt_p a @ '': '' @ s \<noteq> CHR ''-'' # c)"

lemma pointer_split:
  assumes "pointers_readable fmt_p" and "fmt_p a @ '': '' @ s = fmt_p b @ '': '' @ t"
  shows "a = b \<and> s = t"
proof -
  have c: "CHR '':'' \<notin> set (fmt_p a)" "CHR '':'' \<notin> set (fmt_p b)" "inj fmt_p"
    using assms(1) by (simp_all add: pointers_readable_def)
  have "takeWhile (\<lambda>c. c \<noteq> CHR '':'') (fmt_p x @ '': '' @ u) = fmt_p x" if "CHR '':'' \<notin> set (fmt_p x)" for x u
    using that by (subst takeWhile_append2) auto
  then have "fmt_p a = fmt_p b" using assms(2) c(1,2) by metis
  with c(3) assms(2) show ?thesis by (simp add: inj_eq)
qed

lemma bit_chars_bits: "bit_chars n b = map (\<lambda>j. if bit b j then CHR ''*'' else CHR ''.'') [0..<n]"
proof (induction n arbitrary: b)
  case (Suc n)
  have "b AND 1 \<noteq> 0 \<longleftrightarrow> bit b 0"
    unfolding and_one_eq bit_0 even_iff_mod_2_eq_zero ..
  then show ?case
    by (simp only: bit_chars.simps Suc.IH map_upt_Suc bit_drop_bit_eq plus_1_eq_Suc comp_def)
qed simp

lemma bit_chars_inj:
  assumes "bit_chars 8 b = bit_chars 8 c"
  shows "b = c"
proof (rule bit_word_eqI)
  fix j assume j: "j < LENGTH(8)"
  then have "bit_chars 8 b ! j = bit_chars 8 c ! j" using assms by simp
  with j show "bit b j = bit c j" by (simp add: bit_chars_bits split: if_splits)
qed

lemma length_bit_chars [simp]: "length (bit_chars n b) = n"
  by (induction n arbitrary: b) simp_all

lemma bytes_text_inj:
  "length xs = length ys \<Longrightarrow> bytes_text j xs @ s = bytes_text j ys @ t \<Longrightarrow> xs = ys \<and> s = t"
proof (induction xs ys arbitrary: j rule: list_induct2)
  case (Cons x xs y ys)
  have l: "length (byte_text j x) = length (byte_text j y)" by (simp add: byte_text_def)
  from Cons.prems have "byte_text j x @ (bytes_text (Suc j) xs @ s) = byte_text j y @ (bytes_text (Suc j) ys @ t)"
    by simp
  then have "byte_text j x = byte_text j y \<and> bytes_text (Suc j) xs @ s = bytes_text (Suc j) ys @ t"
    using l by (subst (asm) append_eq_append_conv) auto
  then show ?case using Cons.IH bit_chars_inj [of x y] by (auto simp: byte_text_def)
qed simp

lemma text_after_skip:
  assumes "ys \<noteq> []"
  shows "\<exists>k t. 16 * k < length ys \<and> bitmap_text fmt_p A prev True ys = fmt_p (A + 16 * of_nat k) @ '': '' @ t"
  using assms
proof (induction "length ys" arbitrary: ys A rule: less_induct)
  case less
  show ?case
  proof (cases "16 < length ys \<and> prev \<noteq> None \<and> take 16 ys = replicate 16 (the prev)")
    case True
    then have "length (drop 16 ys) < length ys" "drop 16 ys \<noteq> []" by auto
    then obtain k t where "16 * k < length (drop 16 ys)"
      "bitmap_text fmt_p (A + 16) prev True (drop 16 ys) = fmt_p (A + 16 + 16 * of_nat k) @ '': '' @ t"
      using less.hyps by blast
    then have "16 * Suc k < length ys \<and>
        bitmap_text fmt_p A prev True ys = fmt_p (A + 16 * of_nat (Suc k)) @ '': '' @ t"
      using True by (subst bitmap_text.simps) (auto simp: algebra_simps)
    then show ?thesis by blast
  next
    case False
    then have "\<exists>t. bitmap_text fmt_p A prev True ys = fmt_p (A + 16 * of_nat 0) @ '': '' @ t"
      using less.prems by (subst bitmap_text.simps) auto
    with less.prems show ?thesis by (metis length_greater_0_conv mult_0_right)
  qed
qed

lemma skip_is_seen:
  assumes "pointers_readable fmt_p" and "length xs < 2 ^ 64"
    and "16 < length xs" "prev \<noteq> None" "take 16 xs = replicate 16 (the prev)"
  shows "bitmap_text fmt_p A prev sk xs \<noteq> fmt_p A @ '': '' @ s"
proof
  assume e: "bitmap_text fmt_p A prev sk xs = fmt_p A @ '': '' @ s"
  have l: "bitmap_text fmt_p A prev sk xs =
      (if sk then [] else ''---'' @ [newline]) @ bitmap_text fmt_p (A + 16) prev True (drop 16 xs)"
    using assms(3-5) by (subst bitmap_text.simps) auto
  show False
  proof (cases sk)
    case False
    with e l assms(1) show False unfolding pointers_readable_def by auto
  next
    case True
    from assms(3) obtain k t where k: "16 * k < length (drop 16 xs)"
      "bitmap_text fmt_p (A + 16) prev True (drop 16 xs) = fmt_p (A + 16 + 16 * of_nat k) @ '': '' @ t"
      using text_after_skip [of "drop 16 xs" fmt_p "A + 16" prev] by auto
    then have "A + 16 + 16 * of_nat k = A"
      using e l True pointer_split [OF assms(1), of "A + 16 + 16 * of_nat k" t A s] by simp
    then have "(of_nat (16 + 16 * k) :: u64) = 0" by (simp add: add.assoc)
    then have "unat (of_nat (16 + 16 * k) :: u64) = 0" by simp
    moreover have "16 + 16 * k < 2 ^ 64" using k(1) assms(2) by simp
    ultimately show False by (subst (asm) unat_of_nat) simp
  qed
qed

lemma bitmap_text_inj:
  assumes "pointers_readable fmt_p"
    and "length xs = length ys" and "length xs < 2 ^ 64"
    and "bitmap_text fmt_p A prev sk xs = bitmap_text fmt_p A prev sk ys"
  shows "xs = ys"
  using assms(2-)
proof (induction "length xs" arbitrary: xs ys A prev sk rule: less_induct)
  case less
  let ?skip = "\<lambda>xs. 16 < length xs \<and> prev \<noteq> None \<and> take 16 xs = replicate 16 (the prev)"
  have row: "bitmap_text fmt_p A prev sk xs = fmt_p A @ '': '' @ bytes_text 0 (take 16 xs) @
      bitmap_text fmt_p (A + 16) (row_mark (take 16 xs)) False (drop 16 xs)"
    if "\<not> ?skip xs" "xs \<noteq> []" for xs
    using that by (subst bitmap_text.simps) auto
  show ?case
  proof (cases "xs = []")
    case True
    then show ?thesis using less.prems(1) by simp
  next
    case False
    then have ne: "xs \<noteq> []" "ys \<noteq> []" using less.prems(1) by auto
    consider "?skip xs" "?skip ys" | "?skip xs" "\<not> ?skip ys" | "\<not> ?skip xs" "?skip ys"
      | "\<not> ?skip xs" "\<not> ?skip ys" by blast
    then show ?thesis
    proof cases
      case 1
      then have l: "bitmap_text fmt_p A prev sk zs =
          (if sk then [] else ''---'' @ [newline]) @ bitmap_text fmt_p (A + 16) prev True (drop 16 zs)"
        if "zs = xs \<or> zs = ys" for zs
        using that by (subst bitmap_text.simps) auto
      have "drop 16 xs = drop 16 ys"
        by (rule less.hyps [of _ _ "A + 16" prev True]) (use 1 ne less.prems l in auto)
      with 1 show ?thesis by (metis append_take_drop_id)
    next
      case 2
      with row [OF 2(2) ne(2)] skip_is_seen [OF assms(1), of xs prev A sk] less.prems show ?thesis by auto
    next
      case 3
      with row [OF 3(1) ne(1)] skip_is_seen [OF assms(1), of ys prev A sk] less.prems show ?thesis by auto
    next
      case 4
      have "length (take 16 xs) = length (take 16 ys)" using less.prems(1) by simp
      then have e: "take 16 xs = take 16 ys \<and>
          bitmap_text fmt_p (A + 16) (row_mark (take 16 xs)) False (drop 16 xs) =
          bitmap_text fmt_p (A + 16) (row_mark (take 16 ys)) False (drop 16 ys)"
        using less.prems(3) unfolding row [OF 4(1) ne(1)] row [OF 4(2) ne(2)]
        by (intro bytes_text_inj) (auto dest: pointer_split [OF assms(1)])
      have "drop 16 xs = drop 16 ys"
        by (rule less.hyps [of _ _ "A + 16" "row_mark (take 16 ys)" False]) (use e ne less.prems in auto)
      with e show ?thesis by (metis append_take_drop_id)
    qed
  qed
qed

subsection \<open>What a dump promises\<close>

text \<open>Pointers shown as 16 hexadecimal digits.\<close>

definition pointer_digits :: "u64 \<Rightarrow> string" where
  "pointer_digits a = addr_digits a 16 64"

lemma addr_digits_hex:
  "n \<le> 16 \<Longrightarrow> unat shift = 4 * n \<Longrightarrow> set (addr_digits addr n shift) \<subseteq> set hexdigits"
proof (induction n arbitrary: shift)
  case (Suc n)
  have s: "unat (shift - 4) = 4 * n" using Suc.prems by (subst unat_sub_exact) simp_all
  have "unat (signed_drop_bit (4 * n) addr AND 15) < length hexdigits"
    using Suc.prems by (simp add: unat_shifted_digit hexdigits_def)
  then show ?case using Suc s by (simp add: Let_def del: length_greater_0_conv)
qed simp

lemma pointer_digits_readable: "pointers_readable pointer_digits"
proof -
  have h: "set (pointer_digits a) \<subseteq> set hexdigits" for a
    unfolding pointer_digits_def by (rule addr_digits_hex) simp_all
  have n: "CHR '':'' \<notin> set hexdigits" "CHR ''-'' \<notin> set hexdigits" by code_simp+
  have "addr_value (pointer_digits a) = unat a" for a
    unfolding pointer_digits_def using addr_digits_value [of 16 64 a] unat_u64_bound [of a] by simp
  then have "inj pointer_digits" by (metis injI unat_eq_iff)
  moreover have "CHR '':'' \<notin> set (pointer_digits a)" for a
    using h n(1) by blast
  moreover have "pointer_digits a @ '': '' @ s \<noteq> CHR ''-'' # c" for a s c
  proof
    assume e: "pointer_digits a @ '': '' @ s = CHR ''-'' # c"
    have "length (pointer_digits a) = 16" by (simp add: pointer_digits_def)
    then obtain d ds where "pointer_digits a = d # ds" by (cases "pointer_digits a") auto
    with e h [of a] n(2) show False by auto
  qed
  ultimately show ?thesis by (simp add: pointers_readable_def)
qed

text \<open>
  \<open>dump_bitmap\<close> returns, reads nothing but its bytes, and prints 16 of them on a line behind the address
  of the first. A full row, but the last, that repeats a row of zeros or ones is left out, and one line of
  dashes stands for all of them. After the last line comes a line break of its own, even if the row is full.
\<close>

theorem bitmap_dump_rows:
  assumes "holds m data xs" and "length xs = unat nbytes"
  shows "dump_bitmap m fmt_p data nbytes = Some (bitmap_text fmt_p data None False xs)"
  by (rule dump_bitmap_text [OF assms])

theorem bitmap_dump_rows_witness:
  "dump_bitmap (only_bytes 0x1000 (replicate 48 0 @ [5])) (\<lambda>a. ''p'') 0x1000 49 =
   Some (''p: '' @ concat (replicate 15 ''........ '') @ ''........'' @ [newline] @ ''---'' @ [newline] @
         ''p: *.*..... '' @ [newline])"
proof -
  have "dump_bitmap (only_bytes 0x1000 (replicate 48 0 @ [5])) (\<lambda>a. ''p'') 0x1000 49 =
      Some (bitmap_text (\<lambda>a. ''p'') 0x1000 None False (replicate 48 0 @ [5]))"
    by (rule bitmap_dump_rows) (simp_all add: holds_only_bytes)
  also have "\<dots> = Some (''p: '' @ concat (replicate 15 ''........ '') @ ''........'' @ [newline] @ ''---'' @ [newline] @
      ''p: *.*..... '' @ [newline])"
    by code_simp
  finally show ?thesis .
qed

text \<open>
  C39. The rows that are left out can be told from the text: bitmaps of the same size and place whose dumps
  are equal are equal.
\<close>

theorem bitmap_dump_determines:
  assumes "pointers_readable fmt_p"
    and "holds m data xs" "length xs = unat nbytes" and "holds m' data ys" "length ys = unat nbytes"
    and "dump_bitmap m fmt_p data nbytes = dump_bitmap m' fmt_p data nbytes"
  shows "xs = ys"
proof -
  have "bitmap_text fmt_p data None False xs = bitmap_text fmt_p data None False ys"
    using assms(6) dump_bitmap_text [OF assms(2,3), of fmt_p] dump_bitmap_text [OF assms(4,5), of fmt_p] by simp
  moreover have "length xs < 2 ^ 64" using assms(3) unat_u32_bound [of nbytes] by simp
  ultimately show ?thesis using bitmap_text_inj [OF assms(1)] assms(3,5) by simp
qed

theorem bitmap_dump_determines_witness:
  "dump_bitmap (only_bytes 0x1000 (replicate 33 0)) pointer_digits 0x1000 33 \<noteq>
   dump_bitmap (only_bytes 0x1000 (replicate 17 0 @ [1] @ replicate 15 0)) pointer_digits 0x1000 33"
proof
  assume e: "dump_bitmap (only_bytes 0x1000 (replicate 33 0)) pointer_digits 0x1000 33 =
    dump_bitmap (only_bytes 0x1000 (replicate 17 0 @ [1] @ replicate 15 0)) pointer_digits 0x1000 33"
  have "replicate 33 0 = replicate 17 0 @ [1] @ replicate 15 (0 :: u8)"
    by (rule bitmap_dump_determines [OF pointer_digits_readable holds_only_bytes _ holds_only_bytes _ e]) simp_all
  moreover have "replicate 33 0 \<noteq> replicate 17 0 @ [1] @ replicate 15 (0 :: u8)" by code_simp
  ultimately show False by contradiction
qed

end
