(* ===== verification/Double_Rounding.thy ===== *)
theory Double_Rounding
  imports Complex_Main
begin

text \<open>
  Arithmetic of \<open>double\<close> as the code uses it: a finite \<open>double\<close> is a rational number, and the result of an
  operation is rounded to the nearest number with 53 significant bits, ties to even. Exponents are not
  bounded: the numbers here are far from overflow, or are out of range of the integer they are converted
  to; and a subnormal result is far below one nanosecond.

  What the clients need of rounding is the locale \<open>rounding\<close>: it keeps the order and does not change integers
  up to \<open>2 ^ 53\<close>.
\<close>

definition half_even :: "rat \<Rightarrow> int" where
  "half_even x = (let n = \<lfloor>x\<rfloor>; d = x - of_int n
     in if d < 1 / 2 then n else if d > 1 / 2 then n + 1 else if even n then n else n + 1)"

fun bit_length :: "nat \<Rightarrow> nat" where
  "bit_length n = (if n = 0 then 0 else Suc (bit_length (n div 2)))"

declare bit_length.simps [simp del]

text \<open>The exponent of the largest power of 2 that is at most \<open>x\<close>.\<close>

definition exponent :: "rat \<Rightarrow> int" where
  "exponent x = (let (p, q) = quotient_of x; k = int (bit_length (nat p)) - int (bit_length (nat q))
     in if x < 2 powi k then k - 1 else k)"

definition round_pos :: "rat \<Rightarrow> rat" where
  "round_pos x = (let e = exponent x - 52 in of_int (half_even (x / 2 powi e)) * 2 powi e)"

definition round_double :: "rat \<Rightarrow> rat" where
  "round_double x = (if x = 0 then 0 else if x > 0 then round_pos x else - round_pos (- x))"

subsection \<open>The interface\<close>

locale rounding =
  fixes rnd :: "rat \<Rightarrow> rat"
  assumes mono: "x \<le> y \<Longrightarrow> rnd x \<le> rnd y"
    and exact: "\<bar>n\<bar> \<le> 2 ^ 53 \<Longrightarrow> rnd (of_int n) = of_int n"
begin

lemma between:
  assumes "of_int a \<le> x" "x \<le> of_int b" "\<bar>a\<bar> \<le> 2 ^ 53" "\<bar>b\<bar> \<le> 2 ^ 53"
  shows "of_int a \<le> rnd x" "rnd x \<le> of_int b"
  using mono [OF assms(1)] mono [OF assms(2)] unfolding exact [OF assms(3)] exact [OF assms(4)] .

text \<open>Rounding does not cross an integer.\<close>

lemma floor_ceiling:
  assumes "0 \<le> x" "x \<le> 2 ^ 53"
  shows "of_int \<lfloor>x\<rfloor> \<le> rnd x" "rnd x \<le> of_int \<lceil>x\<rceil>"
proof -
  have "0 \<le> \<lfloor>x\<rfloor>" "\<lfloor>x\<rfloor> \<le> 2 ^ 53" "0 \<le> \<lceil>x\<rceil>" "\<lceil>x\<rceil> \<le> 2 ^ 53"
    using assms by (simp_all add: floor_le_iff ceiling_le_iff le_ceiling_iff)
  then show "of_int \<lfloor>x\<rfloor> \<le> rnd x" "rnd x \<le> of_int \<lceil>x\<rceil>"
    using between [of "\<lfloor>x\<rfloor>" x "\<lceil>x\<rceil>"] by simp_all
qed

end

subsection \<open>Rounding to 53 bits keeps the contract\<close>

lemma half_even_int [simp]: "half_even (of_int n) = n"
  by (simp add: half_even_def)

lemma half_even_mono:
  assumes "x \<le> y"
  shows "half_even x \<le> half_even y"
proof (cases "\<lfloor>x\<rfloor> = \<lfloor>y\<rfloor>")
  case True
  with assms show ?thesis by (auto simp: half_even_def Let_def)
next
  case False
  with floor_mono [OF assms] have "\<lfloor>x\<rfloor> + 1 \<le> \<lfloor>y\<rfloor>" by simp
  moreover have "half_even x \<le> \<lfloor>x\<rfloor> + 1" "\<lfloor>y\<rfloor> \<le> half_even y" by (simp_all add: half_even_def Let_def)
  ultimately show ?thesis by simp
qed

lemma bit_length_bounds: "0 < n \<Longrightarrow> 2 ^ (bit_length n - 1) \<le> n \<and> n < 2 ^ bit_length n"
proof (induction n rule: bit_length.induct)
  case (1 n)
  show ?case
  proof (cases "n = 1")
    case True
    then show ?thesis by (simp add: bit_length.simps)
  next
    case False
    with 1 have IH: "2 ^ (bit_length (n div 2) - 1) \<le> n div 2" "n div 2 < 2 ^ bit_length (n div 2)" by auto
    have s: "bit_length n = Suc (bit_length (n div 2))" using 1 by (subst bit_length.simps) simp
    have "bit_length (n div 2) \<noteq> 0" using False 1 by (subst bit_length.simps) auto
    then have "2 ^ bit_length (n div 2) = 2 * (2 ^ (bit_length (n div 2) - 1) :: nat)"
      by (cases "bit_length (n div 2)") simp_all
    with IH show ?thesis unfolding s by simp linarith
  qed
qed

lemma exponent_bounds:
  assumes "0 < x"
  shows "2 powi exponent x \<le> x" "x < 2 powi (exponent x + 1)"
proof -
  obtain p q where pq: "quotient_of x = (p, q)" by fastforce
  have q: "0 < q" using quotient_of_denom_pos [OF pq] .
  have x: "x = of_int p / of_int q" using quotient_of_div [OF pq] .
  have p: "0 < p" using assms q x by (simp add: zero_less_divide_iff)
  let ?bp = "bit_length (nat p)" and ?bq = "bit_length (nat q)"
  define k where "k = int ?bp - int ?bq"
  have P: "2 ^ (?bp - 1) \<le> nat p" "nat p < 2 ^ ?bp" "?bp \<noteq> 0"
    using bit_length_bounds [of "nat p"] p by (simp_all add: bit_length.simps [of "nat p"])
  have Q: "2 ^ (?bq - 1) \<le> nat q" "nat q < 2 ^ ?bq" "?bq \<noteq> 0"
    using bit_length_bounds [of "nat q"] q by (simp_all add: bit_length.simps [of "nat q"])
  have "(2::int) ^ (?bp - 1) \<le> p" "p < 2 ^ ?bp" "(2::int) ^ (?bq - 1) \<le> q" "q < 2 ^ ?bq"
    using P(1,2) Q(1,2) p q by (simp_all add: le_nat_iff nat_less_iff)
  then have "(of_int (2 ^ (?bp - 1)) :: rat) \<le> of_int p" "of_int p < (of_int (2 ^ ?bp) :: rat)"
    "(of_int (2 ^ (?bq - 1)) :: rat) \<le> of_int q" "of_int q < (of_int (2 ^ ?bq) :: rat)"
    by (simp_all only: of_int_le_iff of_int_less_iff)
  then have rat: "(2::rat) ^ (?bp - 1) \<le> of_int p" "of_int p < (2::rat) ^ ?bp"
    "(2::rat) ^ (?bq - 1) \<le> of_int q" "of_int q < (2::rat) ^ ?bq"
    by (simp_all only: of_int_power of_int_numeral)
  have lo: "2 powi (k - 1) < x"
  proof -
    have "(2::rat) powi (k - 1) = 2 ^ (?bp - 1) / 2 ^ ?bq"
      using P(3) by (simp add: k_def power_int_diff flip: power_int_of_nat)
    also have "\<dots> < of_int p / of_int q" using rat q by (intro frac_less2) simp_all
    finally show ?thesis by (simp add: x)
  qed
  have hi: "x < 2 powi (k + 1)"
  proof -
    have "of_int p / of_int q < (2::rat) ^ ?bp / 2 ^ (?bq - 1)"
      using rat p by (intro frac_less) simp_all
    also have "\<dots> = 2 powi (k + 1)"
      using Q(3) by (simp add: k_def power_int_diff flip: power_int_of_nat)
        (simp add: of_nat_diff power_int_diff power_int_add)
    finally show ?thesis by (simp add: x)
  qed
  have e: "exponent x = (if x < 2 powi k then k - 1 else k)"
    by (simp add: exponent_def pq k_def)
  show "2 powi exponent x \<le> x" "x < 2 powi (exponent x + 1)"
    using lo hi by (auto simp: e)
qed

lemma exponent_mono:
  assumes "0 < x" "x \<le> y"
  shows "exponent x \<le> exponent y"
proof (rule ccontr)
  assume "\<not> ?thesis"
  then have "(2::rat) powi (exponent y + 1) \<le> 2 powi exponent x" by (intro power_int_increasing) simp_all
  then show False using exponent_bounds [of x] exponent_bounds [of y] assms by linarith
qed

lemma exponent_of_power:
  assumes "0 < x" "x < 2 powi e"
  shows "exponent x < e"
proof (rule ccontr)
  assume "\<not> ?thesis"
  then have "(2::rat) powi e \<le> 2 powi exponent x" by (intro power_int_increasing) simp_all
  then show False using exponent_bounds [of x] assms by linarith
qed

lemma powi_52: "(2::rat) powi e = 2 ^ 52 * 2 powi (e - 52)"
  using power_int_add [of "2::rat" "e - 52" 52] by simp

lemma round_pos_bounds:
  assumes "0 < x"
  shows "2 powi exponent x \<le> round_pos x" "round_pos x \<le> 2 powi (exponent x + 1)"
proof -
  let ?e = "exponent x - 52"
  have p: "(0::rat) < 2 powi ?e" by simp
  have "2 ^ 52 \<le> x / 2 powi ?e"
    using exponent_bounds(1) [OF assms] p by (simp add: powi_52 [of "exponent x"] le_divide_eq)
  then have lo: "half_even (of_int (2 ^ 52)) \<le> half_even (x / 2 powi ?e)"
    by (intro half_even_mono) simp
  have "x / 2 powi ?e \<le> 2 ^ 53"
    using exponent_bounds(2) [OF assms] p
    by (simp add: power_int_add powi_52 [of "exponent x"] divide_le_eq)
  then have hi: "half_even (x / 2 powi ?e) \<le> half_even (of_int (2 ^ 53))"
    by (intro half_even_mono) simp
  have "(2::rat) ^ 52 \<le> of_int (half_even (x / 2 powi ?e))" "of_int (half_even (x / 2 powi ?e)) \<le> (2::rat) ^ 53"
    using lo hi by (simp_all only: half_even_int flip: of_int_le_iff [where 'a = rat]) simp_all
  then show "2 powi exponent x \<le> round_pos x" "round_pos x \<le> 2 powi (exponent x + 1)"
    using p by (simp_all add: round_pos_def Let_def power_int_add powi_52 [of "exponent x"])
qed

lemma round_pos_mono:
  assumes "0 < x" "x \<le> y"
  shows "round_pos x \<le> round_pos y"
proof (cases "exponent x = exponent y")
  case True
  have "half_even (x / 2 powi (exponent y - 52)) \<le> half_even (y / 2 powi (exponent y - 52))"
    using assms by (intro half_even_mono divide_right_mono) simp_all
  with True show ?thesis by (simp add: round_pos_def Let_def mult_right_mono)
next
  case False
  with exponent_mono [OF assms] have "(2::rat) powi (exponent x + 1) \<le> 2 powi exponent y"
    by (intro power_int_increasing) simp_all
  then show ?thesis using round_pos_bounds [of x] round_pos_bounds [of y] assms by linarith
qed

lemma round_pos_int:
  assumes "0 < n" "n \<le> 2 ^ 53"
  shows "round_pos (of_int n) = of_int n"
proof -
  let ?x = "of_int n :: rat"
  have x: "0 < ?x" using assms by simp
  have scaled: "round_pos ?x = ?x" if "?x / 2 powi (exponent ?x - 52) = of_int m" for m
  proof -
    have "(2::rat) powi (exponent ?x - 52) \<noteq> 0" by simp
    with that have "?x = of_int m * 2 powi (exponent ?x - 52)" by (simp add: divide_eq_eq)
    with that show ?thesis by (simp add: round_pos_def Let_def)
  qed
  have "?x \<le> of_int (2 ^ 53)" using assms(2) by (simp only: of_int_le_iff)
  then have le: "?x \<le> 2 ^ 53" by simp
  show ?thesis
  proof (cases "exponent ?x \<le> 52")
    case True
    define k where "k = nat (52 - exponent ?x)"
    have "exponent ?x - 52 = - int k" using True by (simp add: k_def)
    then have "?x / 2 powi (exponent ?x - 52) = of_int (n * 2 ^ k)"
      by (simp add: power_int_minus divide_inverse)
    then show ?thesis by (rule scaled)
  next
    case False
    have "exponent ?x < 54" using le by (intro exponent_of_power [OF x]) simp
    with False have e: "exponent ?x = 53" by simp
    then have "2 ^ 53 \<le> ?x" using exponent_bounds(1) [OF x] by simp
    with le have "?x = 2 ^ 53" by simp
    then have "?x / 2 powi (exponent ?x - 52) = of_int (2 ^ 52)" using e by simp
    then show ?thesis by (rule scaled)
  qed
qed

lemma round_pos_nonneg: "0 < x \<Longrightarrow> 0 \<le> round_pos x"
  using round_pos_bounds(1) [of x] by (rule order_trans [rotated]) simp_all

lemma round_double_mono: "x \<le> y \<Longrightarrow> round_double x \<le> round_double y"
proof -
  assume le: "x \<le> y"
  consider "0 < x" | "x \<le> 0" "0 \<le> y" | "y < 0" using le by linarith
  then show ?thesis
  proof cases
    case 1
    with le round_pos_mono [of x y] show ?thesis by (simp add: round_double_def)
  next
    case 2
    have "round_double x \<le> 0" "0 \<le> round_double y"
      using 2 round_pos_nonneg [of "- x"] round_pos_nonneg [of y] by (auto simp: round_double_def)
    then show ?thesis by simp
  next
    case 3
    with le round_pos_mono [of "- y" "- x"] show ?thesis by (simp add: round_double_def)
  qed
qed

lemma round_double_int: "\<bar>n\<bar> \<le> 2 ^ 53 \<Longrightarrow> round_double (of_int n) = of_int n"
  using round_pos_int [of n] round_pos_int [of "- n"] by (cases "n = 0"; cases "0 < n") (auto simp: round_double_def)

interpretation double: rounding round_double
  by unfold_locales (auto simp: round_double_mono intro: round_double_int)

end
