(* ===== verification/Timespec.thy ===== *)
theory Timespec
  imports Double_Rounding "HOL-Library.Monad_Syntax"
begin

text \<open>
  \<^verbatim>\<open>src/timespec.c\<close>. \<open>time_t\<close> and \<open>long\<close> are signed 64-bit integers; a result that does not fit is undefined
  in C and is \<open>None\<close> here. \<open>timespec_add\<close> mixes integers and \<open>double\<close>: the integer is converted, the sum is
  rounded, and the result is cut off towards zero when it is stored.
\<close>

record timespec =
  tv_sec :: int
  tv_nsec :: int

definition s64 :: "int \<Rightarrow> int option" where
  "s64 x = (if - (2 ^ 63) \<le> x \<and> x < 2 ^ 63 then Some x else None)"

text \<open>An unsigned 64-bit result stored into a signed integer.\<close>

definition to_s64 :: "int \<Rightarrow> int" where
  "to_s64 x = (let u = x mod 2 ^ 64 in if u < 2 ^ 63 then u else u - 2 ^ 64)"

definition truncate :: "rat \<Rightarrow> int" where
  "truncate x = (if x < 0 then \<lceil>x\<rceil> else \<lfloor>x\<rfloor>)"

text \<open>\<open>modf\<close>: both parts have the sign of the number and are exact.\<close>

definition modf :: "rat \<Rightarrow> rat \<times> rat" where
  "modf x = (x - of_int (truncate x), of_int (truncate x))"

text \<open>The C statement \<^verbatim>\<open>n += x\<close> for an integer \<open>n\<close> and a \<open>double\<close> \<open>x\<close>.\<close>

definition add_double :: "int \<Rightarrow> rat \<Rightarrow> int option" where
  "add_double n x = s64 (truncate (round_double (round_double (of_int n) + x)))"

definition timespec_add :: "timespec \<Rightarrow> rat \<Rightarrow> timespec option" where
  "timespec_add ts increment =
     (let (frac, integral) = modf increment;
          frac = round_double (frac * 1000000000)
      in do { sec \<leftarrow> add_double (tv_sec ts) integral;
              nsec \<leftarrow> add_double (tv_nsec ts) frac;
              if nsec \<ge> 1000000000
              then do { nsec \<leftarrow> s64 (nsec - 1000000000);
                        sec \<leftarrow> s64 (sec + 1);
                        Some \<lparr>tv_sec = sec, tv_nsec = nsec\<rparr> }
              else Some \<lparr>tv_sec = sec, tv_nsec = nsec\<rparr> })"

definition timespec_sub :: "timespec \<Rightarrow> timespec \<Rightarrow> timespec option" where
  "timespec_sub a b =
     do { sec \<leftarrow> s64 (tv_sec a - tv_sec b);
          (sec, nsec) \<leftarrow> (if tv_nsec a < tv_nsec b
                        then do { sec \<leftarrow> s64 (sec - 1); Some (sec, to_s64 (tv_nsec a + 1000000000)) }
                        else Some (sec, tv_nsec a));
          nsec \<leftarrow> s64 (nsec - tv_nsec b);
          Some \<lparr>tv_sec = sec, tv_nsec = nsec\<rparr> }"

subsection \<open>Times as numbers of nanoseconds\<close>

definition normalised :: "timespec \<Rightarrow> bool" where
  "normalised ts \<longleftrightarrow> 0 \<le> tv_nsec ts \<and> tv_nsec ts < 1000000000"

definition nanoseconds :: "timespec \<Rightarrow> int" where
  "nanoseconds ts = 1000000000 * tv_sec ts + tv_nsec ts"

lemma to_s64_id: "0 \<le> x \<Longrightarrow> x < 2 ^ 63 \<Longrightarrow> to_s64 x = x"
  by (simp add: to_s64_def)

text \<open>
  C40. The difference of two normalised times is normalised and exact, also when nanoseconds are borrowed,
  and there is one exactly when its seconds fit.
\<close>

theorem timespec_sub_exact:
  assumes "normalised a" and "normalised b"
  shows "case timespec_sub a b of
      None \<Rightarrow> tv_sec a - tv_sec b < - (2 ^ 63) \<or> tv_sec a - tv_sec b \<ge> 2 ^ 63 \<or>
        tv_sec a - tv_sec b = - (2 ^ 63) \<and> tv_nsec a < tv_nsec b
    | Some d \<Rightarrow> normalised d \<and> nanoseconds d = nanoseconds a - nanoseconds b"
  using assms
  by (auto simp: timespec_sub_def normalised_def nanoseconds_def s64_def to_s64_id split: option.split)

theorem timespec_sub_exact_witness:
  "timespec_sub \<lparr>tv_sec = 5, tv_nsec = 100\<rparr> \<lparr>tv_sec = 2, tv_nsec = 700\<rparr> =
     Some \<lparr>tv_sec = 2, tv_nsec = 999999400\<rparr> \<and>
   nanoseconds \<lparr>tv_sec = 2, tv_nsec = 999999400\<rparr> =
     nanoseconds \<lparr>tv_sec = 5, tv_nsec = 100\<rparr> - nanoseconds \<lparr>tv_sec = 2, tv_nsec = 700\<rparr>"
proof -
  have "timespec_sub \<lparr>tv_sec = 5, tv_nsec = 100\<rparr> \<lparr>tv_sec = 2, tv_nsec = 700\<rparr> =
      Some \<lparr>tv_sec = 2, tv_nsec = 999999400\<rparr>" by code_simp
  then show ?thesis
    using timespec_sub_exact [of "\<lparr>tv_sec = 5, tv_nsec = 100\<rparr>" "\<lparr>tv_sec = 2, tv_nsec = 700\<rparr>"]
    by (simp add: normalised_def)
qed

subsection \<open>Adding seconds given as a floating-point number\<close>

lemma truncate_nonneg: "0 \<le> x \<Longrightarrow> truncate x = \<lfloor>x\<rfloor>"
  by (simp add: truncate_def)

lemma s64_small: "0 \<le> k \<Longrightarrow> k \<le> 2 ^ 53 \<Longrightarrow> s64 k = Some k"
  by (simp add: s64_def)

lemma add_double_int:
  assumes "0 \<le> n" "0 \<le> k" "n + k \<le> 2 ^ 53"
  shows "add_double n (of_int k) = Some (n + k)"
proof -
  have "round_double (of_int n) = of_int n" using assms by (intro round_double_int) simp
  moreover have "round_double (of_int (n + k)) = of_int (n + k)" using assms by (intro round_double_int) simp
  ultimately show ?thesis using assms by (simp add: add_double_def truncate_nonneg s64_def)
qed

lemma add_double_close:
  assumes "0 \<le> n" "n < 2 ^ 40" "0 \<le> x" "x \<le> 2 ^ 40"
  shows "\<exists>r. add_double n (round_double x) = Some r \<and> n + \<lfloor>x\<rfloor> \<le> r \<and> r \<le> n + \<lceil>x\<rceil>"
proof -
  have x53: "x \<le> 2 ^ 53" using assms(4) by (rule order_trans) simp
  have n: "round_double (of_int n) = of_int n" using assms(1,2) by (intro round_double_int) simp
  have f: "of_int \<lfloor>x\<rfloor> \<le> round_double x" "round_double x \<le> of_int \<lceil>x\<rceil>"
    using double.floor_ceiling [OF assms(3) x53] .
  have c: "0 \<le> \<lfloor>x\<rfloor>" "\<lfloor>x\<rfloor> \<le> \<lceil>x\<rceil>" "\<lceil>x\<rceil> \<le> 2 ^ 40"
    using assms(3,4) by (simp_all add: ceiling_le_iff)
  let ?y = "round_double (of_int n + round_double x)"
  have "n + \<lceil>x\<rceil> \<le> 2 ^ 40 + 2 ^ 40" using c(3) assms(2) by (intro add_mono) simp_all
  then have "n + \<lceil>x\<rceil> \<le> 2 ^ 53" by simp
  with f c assms(1,2) have "of_int (n + \<lfloor>x\<rfloor>) \<le> ?y" "?y \<le> of_int (n + \<lceil>x\<rceil>)"
    using double.between [of "n + \<lfloor>x\<rfloor>" "of_int n + round_double x" "n + \<lceil>x\<rceil>"] by simp_all
  then have t: "n + \<lfloor>x\<rfloor> \<le> \<lfloor>?y\<rfloor>" "\<lfloor>?y\<rfloor> \<le> n + \<lceil>x\<rceil>"
    by (simp_all only: le_floor_iff) (metis floor_mono floor_of_int)
  have "0 \<le> ?y" using t(1) c(1) assms(1) by (metis add_nonneg_nonneg order_trans zero_le_floor)
  moreover have "\<lfloor>?y\<rfloor> \<le> 2 ^ 53" using t(2) \<open>n + \<lceil>x\<rceil> \<le> 2 ^ 53\<close> by (rule order_trans)
  moreover have "0 \<le> \<lfloor>?y\<rfloor>" using t(1) c(1) assms(1) by linarith
  ultimately have "add_double n (round_double x) = Some \<lfloor>?y\<rfloor>"
    unfolding add_double_def n by (simp only: truncate_nonneg s64_small)
  with t show ?thesis by blast
qed

lemma timespec_add_near:
  assumes "normalised ts" and "0 \<le> tv_sec ts" and "0 \<le> x" and "of_int (tv_sec ts) + x < 2 ^ 53 - 1"
  shows "\<exists>r. timespec_add ts x = Some r \<and> normalised r \<and>
    \<bar>of_int (nanoseconds r) - (of_int (nanoseconds ts) + x * 1000000000)\<bar> < 1"
proof -
  let ?k = "\<lfloor>x\<rfloor>" and ?f = "x - of_int \<lfloor>x\<rfloor>"
  let ?y = "?f * 1000000000"
  have k: "0 \<le> ?k" using assms(3) by simp
  have f: "0 \<le> ?f" "?f < 1" by linarith+
  have "of_int (tv_sec ts + ?k) \<le> (of_int (tv_sec ts) + x :: rat)" by simp
  also have "\<dots> < of_int (2 ^ 53 - 1)" using assms(4) by simp
  finally have sec: "tv_sec ts + ?k < 2 ^ 53 - 1" by (simp only: of_int_less_iff)
  have y: "0 \<le> ?y" "?y < 1000000000" using f by simp_all
  then have cy: "\<lceil>?y\<rceil> \<le> 1000000000" by (simp add: ceiling_le_iff)
  have ns: "0 \<le> tv_nsec ts" "tv_nsec ts < 1000000000" using assms(1) by (simp_all add: normalised_def)
  obtain r where r: "add_double (tv_nsec ts) (round_double ?y) = Some r"
    "tv_nsec ts + \<lfloor>?y\<rfloor> \<le> r" "r \<le> tv_nsec ts + \<lceil>?y\<rceil>"
    using add_double_close [of "tv_nsec ts" ?y] ns y by auto
  have s: "add_double (tv_sec ts) (of_int ?k) = Some (tv_sec ts + ?k)"
    using add_double_int assms(2) k sec by simp
  have r0: "0 \<le> r" "r < 2000000000" using r(2,3) ns y(1) cy by (simp_all, linarith+)
  have err: "\<bar>of_int r - (of_int (tv_nsec ts) + ?y)\<bar> < 1"
  proof -
    have "of_int (tv_nsec ts + \<lfloor>?y\<rfloor>) \<le> (of_int r :: rat)" "(of_int r :: rat) \<le> of_int (tv_nsec ts + \<lceil>?y\<rceil>)"
      using r(2,3) by (simp_all only: of_int_le_iff)
    then show ?thesis by simp linarith
  qed
  let ?r = "if r \<ge> 1000000000 then \<lparr>tv_sec = tv_sec ts + ?k + 1, tv_nsec = r - 1000000000\<rparr>
    else \<lparr>tv_sec = tv_sec ts + ?k, tv_nsec = r\<rparr>"
  have "timespec_add ts x = Some ?r"
    using s r(1) r0 assms(2,3) k sec
    by (simp add: timespec_add_def modf_def truncate_nonneg s64_def)
  moreover have "normalised ?r" using r0 by (simp add: normalised_def)
  moreover have "\<bar>of_int (nanoseconds ?r) - (of_int (nanoseconds ts) + x * 1000000000)\<bar> < 1"
    using err by (simp add: nanoseconds_def algebra_simps)
  ultimately show ?thesis by blast
qed

text \<open>
  Adding a duration that is not negative to a normalised time gives a normalised time, less than one
  nanosecond away from the exact sum, as long as the seconds stay below \<open>2 ^ 53\<close>.
\<close>

theorem timespec_add_close:
  assumes "normalised ts" and "0 \<le> tv_sec ts" and "0 \<le> x" and "of_int (tv_sec ts) + x < 2 ^ 53 - 1"
  shows "\<exists>r. timespec_add ts x = Some r \<and> normalised r \<and>
    \<bar>of_int (nanoseconds r) - (of_int (nanoseconds ts) + x * 1000000000)\<bar> < 1"
  by (rule timespec_add_near [OF assms])

lemma round_double_numeral [simp]:
  "numeral k \<le> (2 ^ 53 :: int) \<Longrightarrow> round_double (numeral k) = numeral k"
  "numeral k \<le> (2 ^ 53 :: int) \<Longrightarrow> round_double (- numeral k) = - numeral k"
  using round_double_int [of "numeral k"] round_double_int [of "- numeral k"] by simp_all

lemma round_double_0 [simp]: "round_double 0 = 0"
  by (simp add: round_double_def)

lemma parts_eval: "\<lfloor>5 / 4 :: rat\<rfloor> = 1" "\<lceil>- (1 / 2) :: rat\<rceil> = 0"
  by (simp_all add: floor_eq_iff ceiling_eq_iff)

lemmas timespec_eval = parts_eval Let_def timespec_add_def modf_def truncate_def add_double_def s64_def

theorem timespec_add_close_witness:
  "timespec_add \<lparr>tv_sec = 7, tv_nsec = 900000000\<rparr> (5 / 4) = Some \<lparr>tv_sec = 9, tv_nsec = 150000000\<rparr> \<and>
   normalised \<lparr>tv_sec = 9, tv_nsec = 150000000\<rparr>"
proof -
  have "timespec_add \<lparr>tv_sec = 7, tv_nsec = 900000000\<rparr> (5 / 4) = Some \<lparr>tv_sec = 9, tv_nsec = 150000000\<rparr>"
    by (simp add: timespec_eval)
  then show ?thesis
    using timespec_add_close [of "\<lparr>tv_sec = 7, tv_nsec = 900000000\<rparr>" "5 / 4"] by (simp add: normalised_def)
qed

text \<open>A negative duration is not borrowed from the seconds: the nanoseconds become negative.\<close>

lemma timespec_add_negative:
  "timespec_add \<lparr>tv_sec = 5, tv_nsec = 0\<rparr> (- 1 / 2) = Some \<lparr>tv_sec = 5, tv_nsec = - 500000000\<rparr>"
  by (simp add: timespec_eval)

end
