(* ===== verification/Pet_Dump.thy ===== *)
theory Pet_Dump
  imports Pet_Heap Bitmap_Dump_Claims
begin

text \<open>
  The diagnostics of the bitmap allocator: \<open>dump\<close> with \<open>dump_bm_page\<close>, and the check of the units that a
  debug build makes before it clears them. The text goes to the error stream. Where the static variables
  lie is an argument: \<open>at l\<close> is the address of the list head \<open>l\<close>. The bitmap of a page lies behind the three
  pointers of its header, its words in little-endian order.
\<close>

definition dump_bm_page :: "(u64 \<Rightarrow> string) \<Rightarrow> (list_ref \<Rightarrow> u64) \<Rightarrow> pet \<Rightarrow> u64 \<Rightarrow> string option" where
  "dump_bm_page fmt_p at s bm_page =
     do { pg \<leftarrow> pages s bm_page;
          bits \<leftarrow> dump_bitmap (only_bytes (bm_page + 24) (bitmap_bytes (bp_bitmap pg))) fmt_p (bm_page + 24)
                    (units_per_page s div 8);
          Some (''Page '' @ fmt_p bm_page @ '': list='' @ fmt_p (case bp_list pg of None \<Rightarrow> 0 | Some l \<Rightarrow> at l) @
            '', next='' @ fmt_p (bp_next pg) @ '', prev='' @ fmt_p (bp_prev pg) @ [newline] @ bits) }"

partial_function (option) dump_ring ::
  "(u64 \<Rightarrow> string) \<Rightarrow> (list_ref \<Rightarrow> u64) \<Rightarrow> pet \<Rightarrow> u64 \<Rightarrow> u64 \<Rightarrow> string \<Rightarrow> string option" where
  "dump_ring fmt_p at s first_page bm_page out =
     do { text \<leftarrow> dump_bm_page fmt_p at s bm_page;
          pg \<leftarrow> pages s bm_page;
          if bp_next pg \<noteq> first_page then dump_ring fmt_p at s first_page (bp_next pg) (out @ text)
          else Some (out @ text) }"

primrec dump_entries :: "(u64 \<Rightarrow> string) \<Rightarrow> (list_ref \<Rightarrow> u64) \<Rightarrow> pet \<Rightarrow> nat list \<Rightarrow> string option" where
  "dump_entries fmt_p at s [] = Some []"
| "dump_entries fmt_p at s (i # is) =
     do { first_page \<leftarrow> (if i < length (superblock s) then Some (superblock s ! i) else None);
          text \<leftarrow> (if first_page \<noteq> 0
                  then dump_ring fmt_p at s first_page first_page
                    (''Superblock entry '' @ dec_text i @ '': '' @ fmt_p (at (SB (of_nat i))) @ '' -> '' @
                     fmt_p first_page @ [newline])
                  else Some []);
          rest \<leftarrow> dump_entries fmt_p at s is;
          Some (text @ rest) }"

definition pet_dump :: "(u64 \<Rightarrow> string) \<Rightarrow> (list_ref \<Rightarrow> u64) \<Rightarrow> pet \<Rightarrow> string option" where
  "pet_dump fmt_p at s =
     do { lru \<leftarrow> (if lru_page s \<noteq> 0
                 then do { text \<leftarrow> dump_bm_page fmt_p at s (lru_page s);
                           Some (''LRU page: '' @ fmt_p (lru_page s) @ [newline] @ text) }
                 else Some []);
          entries \<leftarrow> dump_entries fmt_p at s [0..<unat (units_per_page s)];
          Some ([newline] @ ''Allocator bm pages: '' @ dec_text (unat (num_bm_pages s)) @
            '', blocks allocated '' @ dec_text (unat (blocks_allocated s)) @ [newline] @
            lru @ entries @ [newline]) }"

text \<open>The value is whether a message is printed.\<close>

definition check_units_allocated :: "pet \<Rightarrow> u64 \<Rightarrow> u32 \<Rightarrow> u32 \<Rightarrow> bool option" where
  "check_units_allocated s bm_page offset num_units =
     do { pg \<leftarrow> pages s bm_page;
          n \<leftarrow> count_nonzero_bits (units_per_page s) (bp_bitmap pg) offset num_units;
          Some (n < num_units) }"

subsection \<open>Walking a ring\<close>

text \<open>
  The links of the pages on well-formed rings are a permutation, so following them from a page comes back
  to it.
\<close>

definition step_on :: "pet \<Rightarrow> u64 set \<Rightarrow> u64 \<Rightarrow> u64" where
  "step_on s P p = (if p \<in> P then nxt s p else p)"

lemma step_on_inj:
  assumes "rings s P"
  shows "inj (step_on s P)"
proof (rule injI)
  note D = ringsD [OF assms]
  fix p q assume e: "step_on s P p = step_on s P q"
  show "p = q"
    using e D(3,5) by (cases "p \<in> P"; cases "q \<in> P") (auto simp: step_on_def, metis)
qed

lemma ring_closes:
  assumes "rings s P" and "p \<in> P"
  obtains n where "0 < n" and "(step_on s P ^^ n) p = p" and "\<And>k. 0 < k \<Longrightarrow> k < n \<Longrightarrow> (step_on s P ^^ k) p \<noteq> p"
    and "\<And>k. (step_on s P ^^ k) p \<in> P" and "\<And>k. lst s ((step_on s P ^^ k) p) = lst s p"
    and "distinct (map (\<lambda>k. (step_on s P ^^ k) p) [0..<n])"
proof -
  note D = ringsD [OF assms(1)]
  let ?f = "step_on s P"
  let ?R = "\<lambda>n. 0 < n \<and> (?f ^^ n) p = p"
  from funpow_inj_finite [OF step_on_inj [OF assms(1)], of p] obtain m where "?R m" by auto
  then have L: "?R (LEAST n. ?R n)" by (rule LeastI)
  have min: "(?f ^^ k) p \<noteq> p" if "0 < k" "k < (LEAST n. ?R n)" for k
    using not_less_Least [OF that(2)] that(1) by blast
  have mem: "(?f ^^ k) p \<in> P \<and> lst s ((?f ^^ k) p) = lst s p" for k
    using assms(2) D(3,7) by (induction k) (auto simp: step_on_def)
  have "distinct (map (\<lambda>k. (?f ^^ k) p) [0..<LEAST n. ?R n])"
  proof -
    have ne: "(?f ^^ i) p \<noteq> (?f ^^ j) p" if "i < j" "j < (LEAST n. ?R n)" for i j
    proof
      assume "(?f ^^ i) p = (?f ^^ j) p"
      also have "\<dots> = (?f ^^ i) ((?f ^^ (j - i)) p)"
        using that(1) by (metis comp_apply funpow_add le_add_diff_inverse less_imp_le)
      finally have "(?f ^^ (j - i)) p = p"
        using inj_fn [OF step_on_inj [OF assms(1)], of i] by (simp add: inj_eq)
      moreover have "0 < j - i" "j - i < (LEAST n. ?R n)" using that by (simp_all add: less_imp_diff_less)
      ultimately show False using min by blast
    qed
    have "inj_on (\<lambda>k. (?f ^^ k) p) (set [0..<LEAST n. ?R n])"
    proof (rule inj_onI)
      fix i j assume "i \<in> set [0..<LEAST n. ?R n]" "j \<in> set [0..<LEAST n. ?R n]" and e: "(?f ^^ i) p = (?f ^^ j) p"
      then have l: "i < (LEAST n. ?R n)" "j < (LEAST n. ?R n)" by simp_all
      show "i = j"
      proof (rule linorder_cases [of i j])
        assume "i < j" then show ?thesis using ne [OF _ l(2)] e by blast
      next
        assume "j < i" then show ?thesis using ne [OF _ l(1)] e [symmetric] by blast
      qed
    qed
    then show ?thesis by (simp only: distinct_map distinct_upt)
  qed
  with that L min mem show ?thesis by blast
qed

lemma dump_ring_pages:
  assumes "rings s P" and "p \<in> P"
    and "\<And>q. q \<in> P \<Longrightarrow> dump_bm_page fmt_p at s q = Some (text q)"
  obtains ps where "distinct ps" and "p \<in> set ps" and "set ps \<subseteq> P" and "\<And>q. q \<in> set ps \<Longrightarrow> nxt s q \<in> set ps"
    and "\<And>q. q \<in> set ps \<Longrightarrow> lst s q = lst s p"
    and "\<And>out. dump_ring fmt_p at s p p out = Some (out @ concat (map text ps))"
proof -
  let ?f = "\<lambda>k. (step_on s P ^^ k) p"
  from ring_closes [OF assms(1,2)] obtain n where n: "0 < n" "?f n = p" "\<And>k. 0 < k \<Longrightarrow> k < n \<Longrightarrow> ?f k \<noteq> p"
    "\<And>k. ?f k \<in> P" "\<And>k. lst s (?f k) = lst s p" "distinct (map ?f [0..<n])" by blast
  have nxt: "nxt s (?f k) = ?f (Suc k)" for k using n(4) [of k] by (simp add: step_on_def)
  have loop: "dump_ring fmt_p at s p (?f k) out = Some (out @ concat (map text (map ?f [k..<n])))" if "k < n" for k out
    using that
  proof (induction "n - k" arbitrary: k out)
    case (Suc d)
    obtain pg where pg: "pages s (?f k) = Some pg"
      using lst_pages ringsD(2) [OF assms(1) n(4)] by blast
    have next_page: "bp_next pg = ?f (Suc k)" using nxt [of k] pg by (simp add: nxt_def)
    have u: "[k..<n] = k # [Suc k..<n]" using Suc.prems by (rule upt_conv_Cons)
    show ?case
    proof (cases "Suc k = n")
      case True
      then have "bp_next pg = p" using next_page n(2) by simp
      with True u pg assms(3) [OF n(4)] show ?thesis by (subst dump_ring.simps) simp
    next
      case False
      then have "bp_next pg \<noteq> p" using next_page n(3) [of "Suc k"] Suc.prems by simp
      moreover have "dump_ring fmt_p at s p (?f (Suc k)) (out @ text (?f k)) =
          Some ((out @ text (?f k)) @ concat (map text (map ?f [Suc k..<n])))"
        by (rule Suc.hyps(1)) (use Suc False in auto)
      ultimately show ?thesis
        using u pg assms(3) [OF n(4)] next_page by (subst dump_ring.simps) simp
    qed
  qed simp
  show thesis
  proof (rule that [of "map ?f [0..<n]"])
    show "nxt s q \<in> set (map ?f [0..<n])" if "q \<in> set (map ?f [0..<n])" for q
    proof -
      from that obtain k where k: "k < n" "q = ?f k" by auto
      show ?thesis
      proof (cases "Suc k = n")
        case True
        then have "nxt s q = ?f 0" using nxt [of k] k n(2) by simp
        then show ?thesis unfolding set_map by (rule image_eqI) (use n(1) in simp)
      next
        case False
        then have "nxt s q = ?f (Suc k)" "Suc k < n" using nxt [of k] k by simp_all
        then show ?thesis unfolding set_map by (intro image_eqI) simp_all
      qed
    qed
    show "p \<in> set (map ?f [0..<n])"
      unfolding set_map by (rule image_eqI [of _ _ 0]) (use n(1) in simp_all)
    show "dump_ring fmt_p at s p p out = Some (out @ concat (map text (map ?f [0..<n])))" for out
      using loop [of 0 out] n(1) by simp
  qed (use n in auto)
qed

subsection \<open>The dump returns\<close>

lemma dump_bm_page_returns:
  assumes "pet_inv s" and "pages s p \<noteq> None"
  shows "\<exists>text. dump_bm_page fmt_p at s p = Some text"
proof -
  obtain pg where pg: "pages s p = Some pg" using assms(2) by auto
  have "pages_ok s" using assms(1) by (auto simp: pet_inv_def pet_core_def)
  moreover have "bitmaps s p = Some (bp_bitmap pg)" using pg by (simp add: bitmaps_def)
  ultimately have "64 * length (bp_bitmap pg) = unat (units_per_page s)"
    unfolding pages_ok_def page_ok_def page_bitmap_def by blast
  then have l: "length (bitmap_bytes (bp_bitmap pg)) = unat (units_per_page s div 8)"
    by (simp add: length_bitmap_bytes unat_div)
  have "length (bitmap_bytes (bp_bitmap pg)) < 2 ^ 64"
    using l unat_u32_bound [of "units_per_page s div 8"] by simp
  from dump_bitmap_text [OF holds_only_bytes [OF this] l] pg show ?thesis
    by (simp add: dump_bm_page_def)
qed

text \<open>
  \<open>dump\<close> comes to an end in every state of the allocator, also when pages were lost from their lists, and
  reads nothing that is not there. Each list is printed with its pages once.
\<close>

theorem pet_dump_returns:
  assumes "pet_inv s"
  shows "\<exists>text. pet_dump fmt_p at s = Some text"
proof -
  obtain P where P: "rings s P" "unat (units_per_page s) \<le> length (superblock s)"
    using assms by (auto simp: pet_inv_def pet_core_def)
  note D = ringsD [OF P(1)]
  define body where "body p = the (dump_bm_page fmt_p at s p)" for p
  have page: "dump_bm_page fmt_p at s p = Some (body p)" if "lst s p \<noteq> None" for p
    using dump_bm_page_returns [OF assms lst_pages [OF that], of fmt_p at] by (auto simp: body_def)
  have entries: "\<exists>t. dump_entries fmt_p at s js = Some t" if "\<forall>i\<in>set js. i < unat (units_per_page s)" for js
    using that
  proof (induction js)
    case (Cons i js)
    let ?p = "superblock s ! i"
    have i: "i < length (superblock s)" "unat (of_nat i :: u32) = i"
      using Cons.prems P(2) unat_u32_bound [of "units_per_page s"] by (auto simp: unat_of_nat)
    from Cons obtain t where t: "dump_entries fmt_p at s js = Some t" by auto
    show ?case
    proof (cases "?p = 0")
      case True
      with i(1) t show ?thesis by simp
    next
      case False
      then have "head s (SB (of_nat i)) \<noteq> 0" using i by simp
      then have "?p \<in> P" using D(11) [of "SB (of_nat i)"] i by simp
      from dump_ring_pages [OF P(1) this, of fmt_p at body] page D(2) obtain ps where
        "\<And>out. dump_ring fmt_p at s ?p ?p out = Some (out @ concat (map body ps))" by metis
      with i(1) t False show ?thesis by simp
    qed
  qed simp
  have "dump_bm_page fmt_p at s (lru_page s) = Some (body (lru_page s))" if "lru_page s \<noteq> 0"
    using that D(12) [of LRU] by (intro page) simp
  moreover obtain t where "dump_entries fmt_p at s [0..<unat (units_per_page s)] = Some t"
    using entries by force
  ultimately show ?thesis by (simp add: pet_dump_def)
qed

subsection \<open>The check of a debug build\<close>

text \<open>The check reports exactly the ranges that are not wholly in use.\<close>

theorem check_units_exact:
  assumes "pages s p = Some pg" and "page_bitmap (units_per_page s) (bp_bitmap pg)"
    and "unat offset + unat num_units \<le> unat (units_per_page s)"
  shows "check_units_allocated s p offset num_units =
    Some (\<exists>i. unat offset \<le> i \<and> i < unat offset + unat num_units \<and> \<not> bit_at (bp_bitmap pg) i)"
proof -
  have "unat offset \<le> unat (units_per_page s)" using assms(3) by simp
  from count_nonzero_bits_spec [OF assms(2) this, of num_units] obtain c where
    c: "count_nonzero_bits (units_per_page s) (bp_bitmap pg) offset num_units = Some c"
      "\<And>j. unat offset \<le> j \<Longrightarrow> j < unat offset + unat c \<Longrightarrow> bit_at (bp_bitmap pg) j"
      "unat c < unat num_units \<Longrightarrow>
        unat offset + unat c = unat (units_per_page s) \<or> \<not> bit_at (bp_bitmap pg) (unat offset + unat c)" by blast
  have "c < num_units \<longleftrightarrow>
      (\<exists>i. unat offset \<le> i \<and> i < unat offset + unat num_units \<and> \<not> bit_at (bp_bitmap pg) i)"
  proof
    assume "c < num_units"
    then have "unat c < unat num_units" by (simp add: word_less_nat_alt)
    with c(3) assms(3) show "\<exists>i. unat offset \<le> i \<and> i < unat offset + unat num_units \<and> \<not> bit_at (bp_bitmap pg) i"
      by (intro exI [of _ "unat offset + unat c"]) auto
  next
    assume "\<exists>i. unat offset \<le> i \<and> i < unat offset + unat num_units \<and> \<not> bit_at (bp_bitmap pg) i"
    then obtain i where i: "unat offset \<le> i" "i < unat offset + unat num_units" "\<not> bit_at (bp_bitmap pg) i" by blast
    then have "unat offset + unat c \<le> i" using c(2) [of i] by force
    with i(2) show "c < num_units" by (simp add: word_less_nat_alt)
  qed
  then show ?thesis by (simp add: check_units_allocated_def assms(1) c(1))
qed

text \<open>
  A debug build never complains about the release of a live block, and it complains when the block was
  released before and its units are still free.
\<close>

theorem live_block_passes_check:
  assumes "heap_ok s B" and "(a, n) \<in> B" and "small s n"
  shows "check_units_allocated s (bm_page_by_addr s a) (ptrdiff_to_units a (bm_page_by_addr s a)) (bytes_to_units n) =
    Some False"
proof (rule block_in_heap [OF assms])
  fix p and offset :: u32
  assume p: "bm_page_by_addr s a = p" "ptrdiff_to_units a p = offset"
    "units_of s (a, n) = block_units p (unat offset) (unat (bytes_to_units n))" "pages s p \<noteq> None"
    "unat offset + unat (bytes_to_units n) \<le> unat (units_per_page s)"
  obtain pg where pg: "pages s p = Some pg" using p(4) by auto
  have bm: "bitmaps s p = Some (bp_bitmap pg)" using pg by (simp add: bitmaps_def)
  have "pages_ok s" using heap_okD(1) [OF assms(1)] by (auto simp: pet_inv_def pet_core_def)
  with bm have ok: "page_bitmap (units_per_page s) (bp_bitmap pg)"
    unfolding pages_ok_def page_ok_def by blast
  have "block_units p (unat offset) (unat (bytes_to_units n)) \<subseteq> used s"
    using heap_okD(6) [OF assms(1,2)] p(3) by simp
  then have "bit_at (bp_bitmap pg) i" if "unat offset \<le> i" "i < unat offset + unat (bytes_to_units n)" for i
  proof -
    have "(p, i) \<in> block_units p (unat offset) (unat (bytes_to_units n))" using that by (simp add: block_units_def)
    with \<open>block_units _ _ _ \<subseteq> used s\<close> have "(p, i) \<in> used s" by blast
    then show ?thesis using bm by (simp add: used_def)
  qed
  then show ?thesis using check_units_exact [OF pg ok p(5)] p(1,2) by auto
qed

end
