(* ===== verification/Fsb_Walk.thy ===== *)
theory Fsb_Walk
  imports Fsb_Properties
begin

text \<open>
  \<open>fsb_arena_walk\<close>. A callback that leaves the arena alone is called for exactly the allocated blocks of the
  pages with free blocks, page by page along their list and in the order of their addresses; leaving a page
  early, on its last block, loses none. A callback that releases the blocks, as the header allows, can
  remove the first page from the list: then the walk does not end.
\<close>

subsection \<open>The list of pages\<close>

text \<open>The pages \<open>qs\<close> of an arena, linked in this order; the last one leads to \<open>stop\<close>.\<close>

fun page_chain :: "fsb_world \<Rightarrow> u64 \<Rightarrow> u64 list \<Rightarrow> u64 \<Rightarrow> bool" where
  "page_chain w A [] stop \<longleftrightarrow> True"
| "page_chain w A (q # qs) stop \<longleftrightarrow>
     (\<exists>pg. fw_pages w q = Some pg \<and> fp_arena pg = A \<and> fp_next pg = (case qs of [] \<Rightarrow> stop | r # _ \<Rightarrow> r)) \<and>
     page_chain w A qs stop"

definition page_ring :: "fsb_world \<Rightarrow> u64 \<Rightarrow> u64 list \<Rightarrow> bool" where
  "page_ring w A qs \<longleftrightarrow> qs \<noteq> [] \<and> distinct qs \<and> page_chain w A qs (hd qs)"

lemma page_chain_in: "page_chain w A qs stop \<Longrightarrow> q \<in> set qs \<Longrightarrow> \<exists>pg. fw_pages w q = Some pg \<and> fp_arena pg = A"
  by (induction qs) auto

text \<open>The allocated blocks of a page, in the order of their addresses.\<close>

definition page_blocks :: "fsb_world \<Rightarrow> u64 \<Rightarrow> fsb_arena \<Rightarrow> u64 \<Rightarrow> u64 list" where
  "page_blocks w A a p = map (\<lambda>k. of_nat (block_addr a p k)) (sorted_list_of_set {k. (p, k) \<in> allocated w A})"

text \<open>The callback changes its own data only.\<close>

definition observes :: "('c \<Rightarrow> u64 \<Rightarrow> 'c) \<Rightarrow> 'c callback" where
  "observes f = (\<lambda>(c, w) b. Inr (f c b, w))"

subsection \<open>One page\<close>

lemma test_bit: "j < 64 \<Longrightarrow> v AND push_bit j 1 \<noteq> 0 \<longleftrightarrow> bit v j" for v :: u64
proof -
  assume j: "j < 64"
  have "bit (v AND push_bit j 1) i \<longleftrightarrow> i = j \<and> bit v j" for i
    using one_bit [of i j] j by (cases "i < 64") (auto simp: bit_and_iff bit_push_bit_iff bit_1_iff dest: bit_imp_le_length)
  then show ?thesis by (metis bit_0_eq bot_apply bot_bool_def bit_eqI)
qed

lemma walk_bits_observes:
  assumes "fw_pages w page = Some pg" and "fw_arenas w A = Some a" and "n \<le> 64"
    and "fa_blocks_per_page a - 1 \<le> fp_num_free pg \<longrightarrow> (\<forall>x y. bit v x \<and> bit v y \<longrightarrow> x = y)" and "j \<le> n"
  shows "\<exists>ptr d. walk_bits (observes f) A page bs v [j..<n] (c, w) (base + of_nat (off + j) * ucast bs) =
      Inr ((foldl f c (map (\<lambda>k. base + of_nat (off + k) * ucast bs) (filter (bit v) [j..<n])), w), ptr, d) \<and>
    (if d then fa_blocks_per_page a - 1 \<le> fp_num_free pg \<and> filter (bit v) [j..<n] \<noteq> []
     else ptr = base + of_nat (off + n) * ucast bs)"
  using assms(5)
proof (induction "n - j" arbitrary: j c)
  case (Suc d)
  then have j: "j < n" "j < 64" using assms(3) by simp_all
  have u: "[j..<n] = j # [Suc j..<n]" using j(1) by (rule upt_conv_Cons)
  have next_ptr: "base + of_nat (off + j) * ucast bs + ucast bs = base + of_nat (off + Suc j) * ucast bs"
    by (simp add: algebra_simps)
  have IH: "\<exists>ptr d. walk_bits (observes f) A page bs v [Suc j..<n] (c, w) (base + of_nat (off + Suc j) * ucast bs) =
      Inr ((foldl f c (map (\<lambda>k. base + of_nat (off + k) * ucast bs) (filter (bit v) [Suc j..<n])), w), ptr, d) \<and>
    (if d then fa_blocks_per_page a - 1 \<le> fp_num_free pg \<and> filter (bit v) [Suc j..<n] \<noteq> []
     else ptr = base + of_nat (off + n) * ucast bs)" for c
    by (rule Suc.hyps(1)) (use Suc.hyps(2) j(1) in simp_all)
  show ?case
  proof (cases "bit v j")
    case False
    then have "v AND push_bit j 1 = 0" using test_bit [OF j(2)] by blast
    then have "walk_bits (observes f) A page bs v [j..<n] (c, w) (base + of_nat (off + j) * ucast bs) =
        walk_bits (observes f) A page bs v [Suc j..<n] (c, w) (base + of_nat (off + Suc j) * ucast bs)"
      by (simp only: u walk_bits.simps next_ptr) (simp add: read_fpage_def assms(1))
    moreover have "filter (bit v) [j..<n] = filter (bit v) [Suc j..<n]" using False u by simp
    ultimately show ?thesis using IH [of c] by (simp only:)
  next
    case True
    then have hit: "v AND push_bit j 1 \<noteq> 0" using test_bit [OF j(2)] by blast
    show ?thesis
    proof (cases "fa_blocks_per_page a - 1 \<le> fp_num_free pg")
      case early: True
      have "filter (bit v) [Suc j..<n] = []"
        using assms(4) early True by (fastforce simp: filter_empty_conv)
      with True early hit show ?thesis
        by (intro exI [of _ True] exI) (simp add: u read_fpage_def read_arena_def observes_def assms(1,2) Let_def)
    next
      case False
      let ?c = "f c (base + of_nat (off + j) * ucast bs)"
      have "walk_bits (observes f) A page bs v [j..<n] (c, w) (base + of_nat (off + j) * ucast bs) =
          walk_bits (observes f) A page bs v [Suc j..<n] (?c, w) (base + of_nat (off + Suc j) * ucast bs)"
        using hit False by (simp only: u walk_bits.simps next_ptr)
          (simp add: read_fpage_def read_arena_def assms(1,2) observes_def)
      moreover have "filter (bit v) [j..<n] = j # filter (bit v) [Suc j..<n]" using True u by simp
      moreover obtain ptr d where r: "walk_bits (observes f) A page bs v [Suc j..<n] (?c, w)
          (base + of_nat (off + Suc j) * ucast bs) =
        Inr ((foldl f ?c (map (\<lambda>k. base + of_nat (off + k) * ucast bs) (filter (bit v) [Suc j..<n])), w), ptr, d)"
        "if d then fa_blocks_per_page a - 1 \<le> fp_num_free pg \<and> filter (bit v) [Suc j..<n] \<noteq> []
         else ptr = base + of_nat (off + n) * ucast bs" using IH [of ?c] by blast
      ultimately show ?thesis
        by (intro exI [of _ ptr] exI [of _ d]) (simp only: list.map foldl.simps list.distinct simp_thms split: if_splits)
    qed
  qed
qed (auto intro!: exI)

lemma upt_word: "i < n \<Longrightarrow> [64 * i..<64 * n] = map (\<lambda>k. 64 * i + k) [0..<64] @ [64 * Suc i..<64 * n]" for i n :: nat
proof -
  assume "i < n"
  then have "64 * n = 64 * Suc i + (64 * n - 64 * Suc i)" by simp
  then have "[64 * i..<64 * n] = [64 * i..<64 * Suc i] @ [64 * Suc i..<64 * n]"
    using upt_add_eq_append [of "64 * i" "64 * Suc i" "64 * n - 64 * Suc i"] by simp
  moreover have "[64 * i..<64 * Suc i] = map (\<lambda>k. 64 * i + k) [0..<64]"
    using map_add_upt [of "64 * i" 64] by (simp add: add.commute)
  ultimately show ?thesis by simp
qed

lemma walk_words_observes:
  assumes "fw_pages w page = Some pg" and "fw_arenas w A = Some a" and "length (fp_bitmap pg) = n"
    and "fa_blocks_per_page a - 1 \<le> fp_num_free pg \<Longrightarrow>
      \<forall>x y. bit_at (fp_bitmap pg) x \<and> bit_at (fp_bitmap pg) y \<longrightarrow> x = y"
  shows "walk_words (observes f) A page bs [i..<n] (c, w) (base + of_nat (64 * i) * ucast bs) =
    Inr (foldl f c (map (\<lambda>k. base + of_nat k * ucast bs) (filter (bit_at (fp_bitmap pg)) [64 * i..<64 * n])), w)"
proof (induction "n - i" arbitrary: i c)
  case (Suc d)
  let ?bm = "fp_bitmap pg"
  from Suc have i: "i < n" "i < length ?bm" using assms(3) by simp_all
  have word: "bit_at ?bm (64 * i + k) = bit (?bm ! i) k" if "k < 64" for k
    using bit_at_word [OF i(2) that] .
  have one: "fa_blocks_per_page a - 1 \<le> fp_num_free pg \<longrightarrow> (\<forall>x y. bit (?bm ! i) x \<and> bit (?bm ! i) y \<longrightarrow> x = y)"
  proof (intro allI impI)
    fix x y assume e: "fa_blocks_per_page a - 1 \<le> fp_num_free pg" and b: "bit (?bm ! i) x \<and> bit (?bm ! i) y"
    then have "x < 64" "y < 64" using bit_imp_le_length [of "?bm ! i"] by force+
    with b assms(4) [OF e] have "64 * i + x = 64 * i + y" using word by metis
    then show "x = y" by simp
  qed
  obtain ptr d' where bits: "walk_bits (observes f) A page bs (?bm ! i) [0..<64] (c, w) (base + of_nat (64 * i + 0) * ucast bs) =
      Inr ((foldl f c (map (\<lambda>k. base + of_nat (64 * i + k) * ucast bs) (filter (bit (?bm ! i)) [0..<64])), w), ptr, d')"
    "if d' then fa_blocks_per_page a - 1 \<le> fp_num_free pg \<and> filter (bit (?bm ! i)) [0..<64] \<noteq> []
     else ptr = base + of_nat (64 * i + 64) * ucast bs"
    using walk_bits_observes [OF assms(1,2) order_refl one, of 0 f bs c base "64 * i"] by (auto simp del: of_nat_add)
  let ?here = "map (\<lambda>k. base + of_nat (64 * i + k) * ucast bs) (filter (bit (?bm ! i)) [0..<64])"
  let ?rest = "filter (bit_at ?bm) [64 * Suc i..<64 * n]"
  have "filter (bit_at ?bm) (map (\<lambda>k. 64 * i + k) [0..<64]) = map (\<lambda>k. 64 * i + k) (filter (bit (?bm ! i)) [0..<64])"
    unfolding filter_map by (intro arg_cong [where f = "map _"] filter_cong) (simp_all add: word)
  then have all: "map (\<lambda>k. base + of_nat k * ucast bs) (filter (bit_at ?bm) [64 * i..<64 * n]) =
      ?here @ map (\<lambda>k. base + of_nat k * ucast bs) ?rest"
    unfolding upt_word [OF i(1)] filter_append map_append by (simp add: comp_def)
  show ?case
  proof (cases d')
    case True
    with bits(2) have e: "fa_blocks_per_page a - 1 \<le> fp_num_free pg" "filter (bit (?bm ! i)) [0..<64] \<noteq> []" by simp_all
    define k where "k = hd (filter (bit (?bm ! i)) [0..<64])"
    from hd_in_set [OF e(2)] have k: "bit_at ?bm (64 * i + k)" "k < 64" using word by (auto simp: k_def)
    have "?rest = []"
      unfolding filter_empty_conv
    proof
      fix m assume "m \<in> set [64 * Suc i..<64 * n]"
      then show "\<not> bit_at ?bm m" using assms(4) [OF e(1)] k by fastforce
    qed
    with True bits(1) i show ?thesis
      unfolding all by (simp add: upt_conv_Cons read_fpage_def assms(1) read_word_def)
  next
    case False
    with bits(2) have "ptr = base + of_nat (64 * Suc i) * ucast bs" by (simp add: algebra_simps)
    with Suc.hyps(1) [of "Suc i" "foldl f c ?here"] Suc.hyps(2) False bits(1) i show ?thesis
      unfolding all by (simp add: upt_conv_Cons read_fpage_def assms(1) read_word_def)
  qed
qed simp

text \<open>The blocks in the order of their bits.\<close>

lemma page_blocks_bits:
  assumes "fw_pages w p = Some pg" and "fp_arena pg = A" and "length (fp_bitmap pg) = n"
  shows "page_blocks w A a p = map (\<lambda>k. of_nat (block_addr a p k)) (filter (bit_at (fp_bitmap pg)) [0..<64 * n])"
proof -
  have "{k. (p, k) \<in> allocated w A} = set (filter (bit_at (fp_bitmap pg)) [0..<64 * n])"
    using assms by (auto simp: allocated_def bits_of_def bit_at_def)
  moreover have "sorted_list_of_set (set (filter (bit_at (fp_bitmap pg)) [0..<64 * n])) =
      filter (bit_at (fp_bitmap pg)) [0..<64 * n]"
    by (rule sorted_list_of_set.idem_if_sorted_distinct) (auto intro: sorted_wrt_filter)
  ultimately show ?thesis by (simp add: page_blocks_def)
qed

lemma few_blocks:
  assumes "fpage_ok a pg" and "fa_blocks_per_page a - 1 \<le> fp_num_free pg"
  shows "\<forall>x y. bit_at (fp_bitmap pg) x \<and> bit_at (fp_bitmap pg) y \<longrightarrow> x = y"
proof -
  let ?S = "bits_of (fp_bitmap pg)"
  note ok = assms(1) [unfolded fpage_ok_def]
  have "card ?S \<le> 1"
  proof (cases "fa_blocks_per_page a = 0")
    case False
    then have "unat (fa_blocks_per_page a - 1) = unat (fa_blocks_per_page a) - 1"
      by (simp add: unat_minus_one)
    then show ?thesis using ok assms(2) by (auto simp: word_le_nat_alt)
  qed (use ok in simp)
  then have "\<forall>x\<in>?S. \<forall>y\<in>?S. x = y" using finite_bits by (simp add: card_le_Suc0_iff_eq)
  then show ?thesis by (simp add: bits_of_def)
qed

lemma walk_page_observes:
  assumes "fsb_good ps w A a" and "fw_pages w p = Some pg" and "fp_arena pg = A"
  shows "walk_words (observes f) A p (fa_block_size a) [0..<unat (fa_bitmap_size a)] (c, w)
      (p + ucast (fsb_header_size (fa_bitmap_size a) (fa_block_size a))) =
    Inr (foldl f c (page_blocks w A a p), w)"
proof -
  note G = fsb_goodD [OF assms(1)]
  have l: "length (fp_bitmap pg) = unat (fa_bitmap_size a)" using G(6) [OF assms(2,3)] by (simp add: fpage_ok_def)
  have addr: "of_nat (block_addr a p k) =
      p + ucast (fsb_header_size (fa_bitmap_size a) (fa_block_size a)) + of_nat k * ucast (fa_block_size a)" for k
    by (simp add: block_addr_def)
  show ?thesis
    using walk_words_observes [OF assms(2) G(2) l few_blocks [OF G(6) [OF assms(2,3)]], of f "fa_block_size a" 0]
    by (simp add: page_blocks_bits [OF assms(2,3) l] addr)
qed

subsection \<open>The whole walk\<close>

lemma walk_pages_observes:
  assumes "fsb_good ps w A a" and "page_chain w A (q # qs) first" and "first \<notin> set qs"
  shows "walk_pages (observes f) A first (fa_bitmap_size a) (fa_block_size a)
      (fsb_header_size (fa_bitmap_size a) (fa_block_size a)) q (c, w) =
    Some (Inr (foldl f c (concat (map (page_blocks w A a) (q # qs))), w))"
  using assms(2,3)
proof (induction qs arbitrary: q c)
  case Nil
  then obtain pg where pg: "fw_pages w q = Some pg" "fp_arena pg = A" "fp_next pg = first" by auto
  with walk_page_observes [OF assms(1) pg(1,2), of f c] show ?case by (subst walk_pages.simps) simp
next
  case (Cons r rs)
  then obtain pg where pg: "fw_pages w q = Some pg" "fp_arena pg = A" "fp_next pg = r" by auto
  from Cons have "page_chain w A (r # rs) first" "first \<notin> set rs" "r \<noteq> first" by auto
  with Cons.IH [of r] pg walk_page_observes [OF assms(1) pg(1,2), of f c] show ?case
    by (subst walk_pages.simps) simp
qed

text \<open>
  C36. \<open>fsb_arena_walk\<close> with a callback that leaves the arena alone returns, calls it once for each allocated
  block of the pages with free blocks, page by page in the order of their list and by ascending address
  within a page, and does not change the arena.
\<close>

theorem fsb_walk_visits_blocks:
  assumes "fsb_good ps w A a" and "if fa_avail_pages a = 0 then qs = [] else page_ring w A qs \<and> hd qs = fa_avail_pages a"
  shows "fsb_arena_walk (observes f) A (c, w) = Some (Inr (foldl f c (concat (map (page_blocks w A a) qs)), w))"
proof (cases "fa_avail_pages a = 0")
  case False
  then obtain rs where rs: "qs = fa_avail_pages a # rs" using assms(2) by (cases qs) (auto simp: page_ring_def)
  then have "page_chain w A (fa_avail_pages a # rs) (fa_avail_pages a)" "fa_avail_pages a \<notin> set rs"
    using False assms(2) by (auto simp: page_ring_def)
  from walk_pages_observes [OF assms(1) this] show ?thesis
    using False rs by (simp add: fsb_arena_walk_def fsb_goodD(2) [OF assms(1)])
qed (use assms(2) in \<open>simp add: fsb_arena_walk_def fsb_goodD(2) [OF assms(1)]\<close>)

subsection \<open>A walk without end\<close>

text \<open>On a page without blocks nothing happens.\<close>

lemma walk_bits_empty: "fw_pages (snd s) page \<noteq> None \<Longrightarrow> \<exists>ptr. walk_bits cb A page bs 0 js s base = Inr (s, ptr, False)"
  by (induction js arbitrary: base) (auto simp: read_fpage_def Let_def)

lemma walk_words_empty:
  assumes "fw_pages (snd s) page = Some pg" and "\<forall>i\<in>set js. i < length (fp_bitmap pg) \<and> fp_bitmap pg ! i = 0"
  shows "walk_words cb A page bs js s base = Inr s"
  using assms(2)
proof (induction js arbitrary: base)
  case (Cons i js)
  obtain ptr where "walk_bits cb A page bs 0 [0..<64] s base = Inr (s, ptr, False)"
    using walk_bits_empty [of s page] assms(1) by blast
  with Cons assms(1) show ?case by (simp add: read_fpage_def read_word_def)
qed simp

text \<open>The loop is left on \<open>first\<close> only: it never returns from pages without blocks that lead back to each other.\<close>

lemma walk_never_returns:
  assumes "first \<notin> Q"
    and "\<And>q. q \<in> Q \<Longrightarrow> \<exists>pg. fw_pages (snd s) q = Some pg \<and> fp_next pg \<in> Q \<and>
      (\<forall>i<unat n. i < length (fp_bitmap pg) \<and> fp_bitmap pg ! i = 0)"
    and "q \<in> Q"
  shows "walk_pages cb A first n bs hs q s = None"
proof -
  let ?P = "\<lambda>(cb' :: 'a callback) A' first' n' bs' hs' q' s' (y :: ('a \<times> fsb_world) res).
    \<not> (first' = first \<and> n' = n \<and> s' = s \<and> q' \<in> Q)"
  have "?P cb A first n bs hs q s y" if "walk_pages cb A first n bs hs q s = Some y" for y
  proof (rule walk_pages.raw_induct [OF _ that, of ?P], rule notI)
    fix walk and cb' :: "'a callback" and A' first' n' bs' hs' q' s' y
    assume IH: "\<And>cb A first n bs hs q s y. walk cb A first n bs hs q s = Some y \<Longrightarrow> ?P cb A first n bs hs q s y"
      and body: "(case fw_pages (snd s') q' of None \<Rightarrow> Some (Inl Bad_Access)
        | Some pg \<Rightarrow> let next_page = fp_next pg in
            case walk_words cb' A' q' bs' [0..<unat n'] s' (q' + ucast hs') of Inl e \<Rightarrow> Some (Inl e)
            | Inr s \<Rightarrow> if next_page \<noteq> first' then walk cb' A' first' n' bs' hs' next_page s else Some (Inr s)) = Some y"
      and here: "first' = first \<and> n' = n \<and> s' = s \<and> q' \<in> Q"
    then obtain pg where pg: "fw_pages (snd s) q' = Some pg" "fp_next pg \<in> Q"
      "\<forall>i<unat n. i < length (fp_bitmap pg) \<and> fp_bitmap pg ! i = 0" using assms(2) by blast
    have "walk_words cb' A' q' bs' [0..<unat n] s (q' + ucast hs') = Inr s"
      by (rule walk_words_empty [OF pg(1)]) (use pg(3) in simp)
    with body here pg assms(1) have "walk cb' A' first n bs' hs' (fp_next pg) s = Some y" by (auto simp: Let_def split: if_splits)
    with IH pg(2) show False by fastforce
  qed
  with assms(3) show ?thesis by (cases "walk_pages cb A first n bs hs q s") auto
qed

text \<open>A callback that releases each block, and an arena with one block on each of three pages.\<close>

definition releasing :: "u32 \<Rightarrow> unit callback" where
  "releasing ps = (\<lambda>(c, w) b. bindE (fsb_arena_release ps w b) (\<lambda>(w, ptr). Inr (c, w)))"

definition three_pages :: fsb_world where
  "three_pages =
     \<lparr>fw_pages =
       [65536 \<mapsto> \<lparr>fp_arena = 1, fp_next = 131072, fp_prev = 196608, fp_num_free = 251, fp_bitmap = [1, 0, 0, 0]\<rparr>,
        131072 \<mapsto> \<lparr>fp_arena = 1, fp_next = 196608, fp_prev = 65536, fp_num_free = 251, fp_bitmap = [1, 0, 0, 0]\<rparr>,
        196608 \<mapsto> \<lparr>fp_arena = 1, fp_next = 65536, fp_prev = 131072, fp_num_free = 251, fp_bitmap = [1, 0, 0, 0]\<rparr>],
      fw_arenas = [1 \<mapsto> demo_arena\<lparr>fa_avail_pages := 65536\<rparr>]\<rparr>"

definition walked :: "fsb_world \<Rightarrow> u64 \<Rightarrow> (unit \<times> fsb_world) res" where
  "walked w p = walk_words (releasing 4096) 1 p 16 [0..<4] ((), w) (p + 64)"

definition released :: "u64 list \<Rightarrow> fsb_world" where
  "released ps = foldl (\<lambda>w p. snd (projr (walked w p))) three_pages ps"

lemma three_pages_good:
  "fsb_good 4096 three_pages 1 (demo_arena\<lparr>fa_avail_pages := 65536\<rparr>)"
  "page_ring three_pages 1 [65536, 131072, 196608]"
proof -
  have h: "fsb_header_size 4 16 = 64" by code_simp
  have b: "bits_of [1, 0, 0, 0] = {0}"
    by (auto simp: bits_of_def bit_at_def bit_1_iff nth_Cons' split: if_splits)
  have l: "list_head (demo_arena\<lparr>fa_avail_pages := 65536\<rparr>) k = (if k = Avail then 65536 else 0)" for k
    by (cases k) (simp_all add: demo_arena_def)
  show "page_ring three_pages 1 [65536, 131072, 196608]"
    by (simp add: page_ring_def three_pages_def)
  show "fsb_good 4096 three_pages 1 (demo_arena\<lparr>fa_avail_pages := 65536\<rparr>)"
    by (auto simp: fsb_good_def linked_def heads_ok_def l three_pages_def fits_page_def page_place_def fpage_ok_def b
        split: if_splits) (simp_all add: demo_arena_def h)
qed

theorem fsb_walk_visits_blocks_witness:
  "fsb_arena_walk (observes (\<lambda>bs b. bs @ [b])) 1 ([], three_pages) =
    Some (Inr ([65600, 131136, 196672], three_pages))"
proof -
  let ?a = "demo_arena\<lparr>fa_avail_pages := 65536\<rparr>"
  have "bits_of [1, 0, 0, 0] = {0}"
    by (auto simp: bits_of_def bit_at_def bit_1_iff nth_Cons' split: if_splits)
  then have "{k. (p, k) \<in> allocated three_pages 1} = {0}" if "p \<in> {65536, 131072, 196608}" for p
    using that by (auto simp: allocated_def three_pages_def)
  moreover have "fsb_header_size 4 16 = 64" by code_simp
  ultimately have "map (page_blocks three_pages 1 ?a) [65536, 131072, 196608] = [[65600], [131136], [196672]]"
    by (simp add: page_blocks_def block_addr_def) (simp add: demo_arena_def)
  then show ?thesis
    using fsb_walk_visits_blocks [OF three_pages_good(1), of "[65536, 131072, 196608]" "\<lambda>bs b. bs @ [b]" "[]"]
      three_pages_good(2) by simp
qed

lemma three_walks:
  "walked three_pages 65536 = Inr ((), released [65536])"
  "walked (released [65536]) 131072 = Inr ((), released [65536, 131072])"
  "walked (released [65536, 131072]) 196608 = Inr ((), released [65536, 131072, 196608])"
proof -
  have r: "r = Inr ((), snd (projr r))" if "\<not> isl r" for r :: "(unit \<times> fsb_world) res"
    using that by (cases r) auto
  show "walked three_pages 65536 = Inr ((), released [65536])"
    by (subst r) (simp_all add: released_def, code_simp)
  show "walked (released [65536]) 131072 = Inr ((), released [65536, 131072])"
    by (subst r) (simp_all add: released_def, code_simp)
  show "walked (released [65536, 131072]) 196608 = Inr ((), released [65536, 131072, 196608])"
    by (subst r) (simp_all add: released_def, code_simp)
qed

lemma three_links:
  "map_option fp_next (fw_pages (released [65536]) 131072) = Some 196608"
  "map_option fp_next (fw_pages (released [65536, 131072]) 196608) = Some 131072"
  "map_option (\<lambda>pg. (fp_next pg, fp_bitmap pg)) (fw_pages (released [65536, 131072, 196608]) 131072) = Some (196608, [0, 0, 0, 0])"
  "map_option (\<lambda>pg. (fp_next pg, fp_bitmap pg)) (fw_pages (released [65536, 131072, 196608]) 196608) = Some (131072, [0, 0, 0, 0])"
  by code_simp+

text \<open>
  Although a callback may release the blocks, a walk that does so on three pages with one block each
  never ends: the first page is given back to the kernel, and the loop waits for it.
\<close>

theorem fsb_walk_releasing_loops:
  "fsb_good 4096 three_pages 1 (demo_arena\<lparr>fa_avail_pages := 65536\<rparr>) \<and>
   page_ring three_pages 1 [65536, 131072, 196608] \<and>
   fsb_arena_walk (releasing 4096) 1 ((), three_pages) = None"
proof -
  let ?Q = "{131072, 196608} :: u64 set" and ?s = "((), released [65536, 131072, 196608])"
  let ?walk = "walk_pages (releasing 4096) 1 65536 4 16 64"
  have bits: "\<forall>i<unat (4::u32). i < length [0, 0, 0, 0 :: u64] \<and> [0, 0, 0, 0 :: u64] ! i = 0"
  proof -
    have "[0, 0, 0, 0 :: u64] = replicate 4 0" by (simp add: numeral_eq_Suc)
    then show ?thesis by simp
  qed
  have "?walk 131072 ?s = None"
  proof (rule walk_never_returns [where Q = ?Q])
    fix q assume "q \<in> ?Q"
    then show "\<exists>pg. fw_pages (snd ?s) q = Some pg \<and> fp_next pg \<in> ?Q \<and>
        (\<forall>i<unat (4::u32). i < length (fp_bitmap pg) \<and> fp_bitmap pg ! i = 0)"
      using three_links(3,4) bits by auto
  qed simp_all
  then have "?walk 196608 ((), released [65536, 131072]) = None"
    using three_links(2) three_walks(3) by (subst walk_pages.simps) (auto simp: walked_def)
  then have "?walk 131072 ((), released [65536]) = None"
    using three_links(1) three_walks(2) by (subst walk_pages.simps) (auto simp: walked_def)
  then have "?walk 65536 ((), three_pages) = None"
    using three_walks(1) by (subst walk_pages.simps) (auto simp: walked_def three_pages_def)
  moreover have "fsb_header_size 4 16 = 64" by code_simp
  ultimately show ?thesis
    using three_pages_good by (simp add: fsb_arena_walk_def three_pages_def) (simp add: demo_arena_def)
qed

end
