(* ===== verification/Arena_Dumps.thy ===== *)
theory Arena_Dumps
  imports Fsb_Walk Arena_Properties Bitmap_Dump_Claims
begin

text \<open>
  The diagnostics of the two arenas: \<open>dump_fsb_arena\<close> with \<open>dump_page\<close> of \<^verbatim>\<open>src/fsb_arena.c\<close>, and
  \<open>arena_print\<close> of \<^verbatim>\<open>src/arena.c\<close>. The bitmap of a page lies 32 bytes behind the start of its header. The
  result is \<open>None\<close> when something is read that is not there, or when the loop along a list does not end.
\<close>

subsection \<open>The arena of fixed-size blocks\<close>

definition dump_page :: "(u64 \<Rightarrow> string) \<Rightarrow> fsb_world \<Rightarrow> u64 \<Rightarrow> string option" where
  "dump_page fmt_p w page =
     do { pg \<leftarrow> fw_pages w page;
          a \<leftarrow> fw_arenas w (fp_arena pg);
          bits \<leftarrow> dump_bitmap (only_bytes (page + 32) (bitmap_bytes (fp_bitmap pg))) fmt_p (page + 32)
                    (ucast (ucast (fa_bitmap_size a) * 8 :: u64));
          Some (''Page '' @ fmt_p page @ '': '' @ dec_text (unat (fp_num_free pg)) @ '' free blocks'' @ [newline] @ bits) }"

partial_function (option) dump_page_list ::
  "(u64 \<Rightarrow> string) \<Rightarrow> fsb_world \<Rightarrow> u64 \<Rightarrow> u64 \<Rightarrow> string \<Rightarrow> string option" where
  "dump_page_list fmt_p w first_page page out =
     do { txt \<leftarrow> dump_page fmt_p w page;
          pg \<leftarrow> fw_pages w page;
          if fp_next pg \<noteq> first_page then dump_page_list fmt_p w first_page (fp_next pg) (out @ txt)
          else Some (out @ txt) }"

definition dump_list :: "(u64 \<Rightarrow> string) \<Rightarrow> fsb_world \<Rightarrow> u64 \<Rightarrow> string option" where
  "dump_list fmt_p w head =
     (if head = 0 then Some ('' none'' @ [newline]) else dump_page_list fmt_p w head head [newline])"

definition dump_fsb_arena :: "(u64 \<Rightarrow> string) \<Rightarrow> fsb_world \<Rightarrow> u64 \<Rightarrow> string option" where
  "dump_fsb_arena fmt_p w A =
     do { a \<leftarrow> fw_arenas w A;
          avail \<leftarrow> dump_list fmt_p w (fa_avail_pages a);
          full \<leftarrow> dump_list fmt_p w (fa_full_pages a);
          Some ([newline] @ ''FSB arena: block_size='' @ dec_text (unat (fa_block_size a)) @
            '', blocks_per_page='' @ dec_text (unat (fa_blocks_per_page a)) @
            '', bitmap_size='' @ dec_text (unat (fa_bitmap_size a)) @ '', word_size='' @ dec_text 8 @ [newline] @
            ''Available pages:'' @ avail @ ''Full pages:'' @ full @ [newline]) }"

text \<open>The text of a page, and of a list, given the pages in it.\<close>

definition fpage_text :: "(u64 \<Rightarrow> string) \<Rightarrow> fsb_world \<Rightarrow> u64 \<Rightarrow> string" where
  "fpage_text fmt_p w p = (case fw_pages w p of None \<Rightarrow> [] | Some pg \<Rightarrow>
     ''Page '' @ fmt_p p @ '': '' @ dec_text (unat (fp_num_free pg)) @ '' free blocks'' @ [newline] @
     bitmap_text fmt_p (p + 32) None False (bitmap_bytes (fp_bitmap pg)))"

definition list_text :: "(u64 \<Rightarrow> string) \<Rightarrow> fsb_world \<Rightarrow> u64 list \<Rightarrow> string" where
  "list_text fmt_p w qs = (if qs = [] then '' none'' @ [newline] else [newline] @ concat (map (fpage_text fmt_p w) qs))"

text \<open>The pages of a list, which is empty when its head is null.\<close>

definition pages_from :: "fsb_world \<Rightarrow> u64 \<Rightarrow> u64 \<Rightarrow> u64 list \<Rightarrow> bool" where
  "pages_from w A head qs \<longleftrightarrow> (if head = 0 then qs = [] else page_ring w A qs \<and> hd qs = head)"

lemma dump_page_text:
  assumes "fsb_good ps w A a" and "fw_pages w p = Some pg" and "fp_arena pg = A"
  shows "dump_page fmt_p w p = Some (fpage_text fmt_p w p)"
proof -
  note G = fsb_goodD [OF assms(1)]
  let ?n = "ucast (ucast (fa_bitmap_size a) * 8 :: u64) :: u32"
  have "32 + 8 * unat (fa_bitmap_size a) < 2 ^ 32"
    using G(4) unat_u32_bound [of ps] by (simp add: fits_page_def)
  then have n: "unat ?n = 8 * unat (fa_bitmap_size a)"
    by (subst unsigned_ucast_eq, subst unat_mult_exact)
      (simp_all add: unsigned_ucast_eq take_bit_nat_eq_self)
  have l: "length (bitmap_bytes (fp_bitmap pg)) = unat ?n"
    using G(6) [OF assms(2,3)] by (simp add: fpage_ok_def length_bitmap_bytes n)
  have "length (bitmap_bytes (fp_bitmap pg)) < 2 ^ 64" unfolding l using unat_u32_bound [of ?n] by simp
  from dump_bitmap_text [OF holds_only_bytes [OF this] l] G(2) assms(2,3) show ?thesis
    by (simp add: dump_page_def fpage_text_def)
qed

lemma dump_page_list_text:
  assumes "fsb_good ps w A a" and "page_chain w A (q # qs) first" and "first \<notin> set qs"
  shows "dump_page_list fmt_p w first q out = Some (out @ concat (map (fpage_text fmt_p w) (q # qs)))"
  using assms(2,3)
proof (induction qs arbitrary: q out)
  case Nil
  then obtain pg where pg: "fw_pages w q = Some pg" "fp_arena pg = A" "fp_next pg = first" by auto
  with dump_page_text [OF assms(1) pg(1,2)] show ?case by (subst dump_page_list.simps) simp
next
  case (Cons r rs)
  then obtain pg where pg: "fw_pages w q = Some pg" "fp_arena pg = A" "fp_next pg = r" by auto
  from Cons have "page_chain w A (r # rs) first" "first \<notin> set rs" "r \<noteq> first" by auto
  with Cons.IH [of r] pg dump_page_text [OF assms(1) pg(1,2)] show ?case
    by (subst dump_page_list.simps) simp
qed

lemma dump_list_text:
  assumes "fsb_good ps w A a" and "pages_from w A head qs"
  shows "dump_list fmt_p w head = Some (list_text fmt_p w qs)"
proof (cases "head = 0")
  case False
  then obtain rs where rs: "qs = head # rs" using assms(2) by (cases qs) (auto simp: pages_from_def page_ring_def)
  then have "page_chain w A (head # rs) head" "head \<notin> set rs"
    using False assms(2) by (auto simp: pages_from_def page_ring_def)
  from dump_page_list_text [OF assms(1) this] show ?thesis using False rs by (simp add: dump_list_def list_text_def)
qed (use assms(2) in \<open>simp add: dump_list_def list_text_def pages_from_def\<close>)

text \<open>The dump of an arena shows its layout and each page of its two lists once, in their order.\<close>

theorem dump_fsb_arena_text:
  assumes "fsb_good ps w A a" and "pages_from w A (fa_avail_pages a) qs" and "pages_from w A (fa_full_pages a) rs"
  shows "\<exists>t. dump_fsb_arena fmt_p w A =
    Some (t @ ''Available pages:'' @ list_text fmt_p w qs @ ''Full pages:'' @ list_text fmt_p w rs @ [newline])"
  using dump_list_text [OF assms(1,2)] dump_list_text [OF assms(1,3)] fsb_goodD(2) [OF assms(1)]
  by (auto simp: dump_fsb_arena_def)

subsection \<open>The region arena\<close>

definition named :: "string \<Rightarrow> string \<Rightarrow> string" where
  "named name x = name @ '': '' @ x @ [newline]"

partial_function (option) print_regions :: "(u64 \<Rightarrow> string) \<Rightarrow> aworld \<Rightarrow> u64 \<Rightarrow> string \<Rightarrow> string option" where
  "print_regions fmt_p w region out =
     (if region = 0 then Some out
      else do { r \<leftarrow> aw_regions w region;
                print_regions fmt_p w (rg_next r)
                  (out @ [newline] @ ''Region '' @ fmt_p region @ [newline] @
                   named ''next region'' (fmt_p (rg_next r)) @ named ''tail'' (dec_text (unat (rg_tail r))) @
                   named ''capacity'' (dec_text (unat (rg_capacity r)))) })"

definition arena_print :: "(u64 \<Rightarrow> string) \<Rightarrow> aworld \<Rightarrow> u64 \<Rightarrow> string option" where
  "arena_print fmt_p w A =
     do { a \<leftarrow> aw_arenas w A;
          first \<leftarrow> aw_regions w (first_region A);
          print_regions fmt_p w (rg_next first)
            (''Arena at '' @ fmt_p A @ [newline] @ named ''last region'' (fmt_p (ar_last a)) @
             named ''new_region_capacity'' (dec_text (unat (ar_new_region_capacity a))) @
             named ''first region -> next'' (fmt_p (rg_next first)) @
             named ''first region -> tail'' (dec_text (unat (rg_tail first))) @
             named ''first region -> capacity'' (dec_text (unat (rg_capacity first)))) }"

definition region_text :: "(u64 \<Rightarrow> string) \<Rightarrow> aworld \<Rightarrow> u64 \<Rightarrow> string" where
  "region_text fmt_p w p = (case aw_regions w p of None \<Rightarrow> [] | Some r \<Rightarrow>
     [newline] @ ''Region '' @ fmt_p p @ [newline] @ named ''next region'' (fmt_p (rg_next r)) @
     named ''tail'' (dec_text (unat (rg_tail r))) @ named ''capacity'' (dec_text (unat (rg_capacity r))))"

lemma print_regions_text:
  "chain (aw_regions w) p qs \<Longrightarrow> print_regions fmt_p w p out = Some (out @ concat (map (region_text fmt_p w) qs))"
proof (induction qs arbitrary: p out)
  case (Cons q qs)
  then obtain r where r: "p = q" "p \<noteq> 0" "aw_regions w p = Some r" "chain (aw_regions w) (rg_next r) qs" by auto
  then have "region_text fmt_p w q = [newline] @ ''Region '' @ fmt_p p @ [newline] @
      named ''next region'' (fmt_p (rg_next r)) @ named ''tail'' (dec_text (unat (rg_tail r))) @
      named ''capacity'' (dec_text (unat (rg_capacity r)))" by (simp add: region_text_def)
  with Cons.IH [OF r(4)] r(1-3) show ?case by (subst print_regions.simps) simp
qed (simp add: print_regions.simps)

text \<open>\<open>arena_print\<close> returns and shows each region but the first, in the order of the list.\<close>

theorem arena_print_text:
  assumes "arena_ok w A (first_region A # qs)"
  shows "\<exists>t. arena_print fmt_p w A = Some (t @ concat (map (region_text fmt_p w) qs))"
proof -
  obtain a r where "aw_arenas w A = Some a" "aw_regions w (first_region A) = Some r"
    "chain (aw_regions w) (rg_next r) qs"
    using assms by (auto simp: arena_ok_def arena_list_def)
  with print_regions_text show ?thesis by (auto simp: arena_print_def)
qed

end
