(* ===== verification/Pet_Threads.thy ===== *)
theory Pet_Threads
  imports Pet_Blocks
begin

text \<open>
  The bitmap sub-allocator in any number of threads. The mutex \<open>lock\<close> guards the lists only: a thread takes
  a page out of its list under the lock, works on its bitmap without the lock, and puts it back under the
  lock. A step of a thread is one section under the lock, or the work on a page that it has in hand. Some
  local actions are joined to a step of the same thread, because no other thread can see them: looking for
  the free block on the page just taken from the superblock, mapping and filling a fresh page, giving a page
  without blocks back to the kernel after it has left the LRU slot, and counting and cleaning a block before
  it is returned.

  A thread that wants the page of a block while another thread has it in hand repeats the test under the
  lock; such a turn changes nothing and is not a step.

  \<open>th_blocks\<close> is the set of blocks, each a page, its first unit and the number of its units. The code does not
  have it; it says which blocks the callers may pass, and it changes with the bitmaps.
\<close>

type_synonym ublock = "u64 \<times> u32 \<times> u32"

text \<open>What is to be done to a block on a page that is wanted or in hand, and what has been done.\<close>

datatype todo = Clear u32 u32 | Cut u32 u32 u32 | Extend u32 u32 u32
datatype outcome = Got u32 u32 bool bool | Gone | Kept u32 u32 bool

datatype pet_pc =
    Idle
  | Seeking u32 bool
  | Has_lru u32 bool u64
  | Listing u32 bool u64 u32
  | Searching u32 bool
  | Filling u32 bool u64 u32
  | Mapping u32 bool
  | Grabbing u64 todo
  | Working u64 todo
  | Handing u64 outcome

record pet_threads =
  th_pet :: pet
  th_pc :: "nat \<Rightarrow> pet_pc"
  th_blocks :: "ublock set"

fun units :: "ublock \<Rightarrow> (u64 \<times> nat) set" where
  "units (p, offset, n) = block_units p (unat offset) (unat n)"

text \<open>The block that an operation under way has taken over from its caller, or is about to return.\<close>

fun todo_block :: "u64 \<Rightarrow> todo \<Rightarrow> ublock" where
  "todo_block p (Clear offset n) = (p, offset, n)"
| "todo_block p (Cut offset old new) = (p, offset, old)"
| "todo_block p (Extend offset old new) = (p, offset, old)"

fun outcome_block :: "u64 \<Rightarrow> outcome \<Rightarrow> ublock option" where
  "outcome_block p (Got offset n clean fresh) = Some (p, offset, n)"
| "outcome_block p Gone = None"
| "outcome_block p (Kept offset n ok) = Some (p, offset, n)"

fun owned :: "pet_pc \<Rightarrow> ublock option" where
  "owned (Grabbing p td) = Some (todo_block p td)"
| "owned (Working p td) = Some (todo_block p td)"
| "owned (Handing p r) = outcome_block p r"
| "owned _ = None"

definition callable :: "pet_threads \<Rightarrow> ublock \<Rightarrow> bool" where
  "callable y b \<longleftrightarrow> b \<in> th_blocks y \<and> (\<forall>t. owned (th_pc y t) \<noteq> Some b)"

text \<open>A fresh page with the units of its header and of the first block set, as in \<open>bm_allocate\<close>.\<close>

definition map_page :: "mmap_fun \<Rightarrow> pet \<Rightarrow> u32 \<Rightarrow> (pet \<times> u64) res" where
  "map_page mm s num_units =
     (let (s, bm_page) = call_mmap mm s (sys_page_size s) False
      in if bm_page = 0 then Inr (s, 0)
         else (let bitmap = replicate (unat (units_per_page s div WORD_WIDTH)) 0;
                   s = s\<lparr>pages := (pages s)(bm_page \<mapsto>
                            \<lparr>bp_list = None, bp_next = 0, bp_prev = 0, bp_bitmap = bitmap\<rparr>)\<rparr>
               in bindE (change_bits set_bits s bm_page 0 (bm_page_header_size_in_units s + num_units)) (\<lambda>s.
                  Inr (s, bm_page))))"

text \<open>What is left to do when the page has been handed back.\<close>

fun finish :: "u64 \<Rightarrow> outcome \<Rightarrow> pet \<Rightarrow> pet" where
  "finish p (Got offset n clean fresh) s =
     (let s = (if fresh then s\<lparr>num_bm_pages := num_bm_pages s + 1\<rparr> else s)
      in fst (bm_allocate_out n clean (s, p + ucast (offset * 16))))"
| "finish p Gone s = s\<lparr>blocks_allocated := blocks_allocated s - 1\<rparr>"
| "finish p (Kept offset n ok) s = s"

text \<open>The work on a page in hand, with the blocks that there are afterwards.\<close>

fun work :: "pet \<Rightarrow> u64 \<Rightarrow> todo \<Rightarrow> (pet \<times> outcome) res" where
  "work s p (Clear offset n) = bindE (change_bits clear_bits s p offset n) (\<lambda>s. Inr (s, Gone))"
| "work s p (Cut offset old new) =
     bindE (change_bits clear_bits s p (offset + new) (old - new)) (\<lambda>s. Inr (s, Kept offset new True))"
| "work s p (Extend offset old new) =
     (let increment = new - old
      in bindE (read_page s p) (\<lambda>pg.
         bindE (or_fail Bad_Access (count_zero_bits (units_per_page s) (bp_bitmap pg) (offset + old) increment)) (\<lambda>len.
         if len < increment then Inr (s, Kept offset old False)
         else bindE (change_bits set_bits s p (offset + old) increment) (\<lambda>s. Inr (s, Kept offset new True)))))"

fun call_ok :: "pet \<Rightarrow> todo \<Rightarrow> bool" where
  "call_ok s (Clear offset n) \<longleftrightarrow> True"
| "call_ok s (Cut offset old new) \<longleftrightarrow> 0 < new \<and> new \<le> old"
| "call_ok s (Extend offset old new) \<longleftrightarrow> old \<le> new"

definition goes :: "pet_threads \<Rightarrow> nat \<Rightarrow> pet \<Rightarrow> pet_pc \<Rightarrow> pet_threads" where
  "goes y t s pc = y\<lparr>th_pet := s, th_pc := (th_pc y)(t := pc)\<rparr>"

lemma goes_simps [simp]:
  "th_pet (goes y t s pc) = s" "th_pc (goes y t s pc) u = (if u = t then pc else th_pc y u)"
  "th_blocks (goes y t s pc) = th_blocks y"
  by (simp_all add: goes_def)

inductive pet_step :: "mmap_fun \<Rightarrow> pet_threads \<Rightarrow> nat \<Rightarrow> pet_threads \<Rightarrow> bool" for mm where
  th_allocate: "th_pc y t = Idle \<Longrightarrow> 0 < n \<Longrightarrow> n \<le> max_data_units (th_pet y) \<Longrightarrow>
     pet_step mm y t (goes y t (th_pet y) (Seeking n clean))"
| th_call: "th_pc y t = Idle \<Longrightarrow> callable y (todo_block p td) \<Longrightarrow> call_ok (th_pet y) td \<Longrightarrow>
     pet_step mm y t (goes y t (th_pet y) (Grabbing p td))"
| th_take_lru: "th_pc y t = Seeking n clean \<Longrightarrow> lru_page (th_pet y) \<noteq> 0 \<Longrightarrow>
     delete_from_list (th_pet y) (lru_page (th_pet y)) = Inr s \<Longrightarrow>
     pet_step mm y t (goes y t s (Has_lru n clean (lru_page (th_pet y))))"
| th_look: "th_pc y t = Has_lru n clean p \<Longrightarrow> page_free_block (th_pet y) p n = Inr offset \<Longrightarrow> offset \<noteq> 0 \<Longrightarrow>
     pet_step mm y t (goes y t (th_pet y) (Filling n clean p offset))"
| th_no_room: "th_pc y t = Has_lru n clean p \<Longrightarrow> page_free_block (th_pet y) p n = Inr 0 \<Longrightarrow>
     page_longest_free_block (th_pet y) p = Inr lfb \<Longrightarrow>
     pet_step mm y t (goes y t (th_pet y) (Listing n clean p lfb))"
| th_list: "th_pc y t = Listing n clean p lfb \<Longrightarrow> add_to_superblock_entry (th_pet y) p lfb = Inr s \<Longrightarrow>
     pet_step mm y t (goes y t s (Searching n clean))"
| th_found: "th_pc y t = Searching n clean \<or> th_pc y t = Seeking n clean \<and> lru_page (th_pet y) = 0 \<Longrightarrow>
     search_superblock (th_pet y) n (unat n) n = Inr (s, Some (p, offset)) \<Longrightarrow>
     pet_step mm y t (goes y t s (Filling n clean p offset))"
| th_none: "th_pc y t = Searching n clean \<or> th_pc y t = Seeking n clean \<and> lru_page (th_pet y) = 0 \<Longrightarrow>
     search_superblock (th_pet y) n (unat n) n = Inr (s, None) \<Longrightarrow>
     pet_step mm y t (goes y t s (Mapping n clean))"
| th_fill: "th_pc y t = Filling n clean p offset \<Longrightarrow> change_bits set_bits (th_pet y) p offset n = Inr s \<Longrightarrow>
     pet_step mm y t ((goes y t s (Handing p (Got offset n clean False)))
       \<lparr>th_blocks := insert (p, offset, n) (th_blocks y)\<rparr>)"
| th_no_memory: "th_pc y t = Mapping n clean \<Longrightarrow> map_page mm (th_pet y) n = Inr (s, 0) \<Longrightarrow>
     pet_step mm y t (goes y t s Idle)"
| th_map: "th_pc y t = Mapping n clean \<Longrightarrow> map_page mm (th_pet y) n = Inr (s, p) \<Longrightarrow> p \<noteq> 0 \<Longrightarrow>
     pet_step mm y t ((goes y t s (Handing p (Got (bm_page_header_size_in_units s) n clean True)))
       \<lparr>th_blocks := insert (p, bm_page_header_size_in_units s, n) (th_blocks y)\<rparr>)"
| th_grab: "th_pc y t = Grabbing p td \<Longrightarrow> grab_page (th_pet y) p = Inr s \<Longrightarrow>
     pet_step mm y t (goes y t s (Working p td))"
| th_work: "th_pc y t = Working p td \<Longrightarrow> work (th_pet y) p td = Inr (s, r) \<Longrightarrow>
     pet_step mm y t ((goes y t s (Handing p r))
       \<lparr>th_blocks := th_blocks y - {todo_block p td} \<union> set_option (outcome_block p r)\<rparr>)"
| th_hand: "th_pc y t = Handing p r \<Longrightarrow> unhand_page (th_pet y) p = Inr s \<Longrightarrow>
     pet_step mm y t (goes y t (finish p r s) Idle)"

inductive pet_runs :: "mmap_fun \<Rightarrow> pet_threads \<Rightarrow> pet_threads \<Rightarrow> bool" for mm where
  th_start: "pet_runs mm y y"
| th_next: "pet_runs mm x y \<Longrightarrow> pet_step mm y t z \<Longrightarrow> pet_runs mm x z"

end
