(* ===== verification/Pet_Threads_Invariant.thy ===== *)
theory Pet_Threads_Invariant
  imports Pet_Threads
begin

text \<open>
  The invariant of the threaded sub-allocator: the lists are in order around the pages in hand, no page is
  in the hands of two threads, and the units in use are exactly those of the blocks, which lie apart. Each
  action is first shown to succeed and to do its part while any other pages are in hand.
\<close>

subsection \<open>Actions on pages while others are in hand\<close>

lemma take_lru_ok:
  assumes C: "pet_core s P A" and "lru_page s \<noteq> 0"
  obtains t P' where "delete_from_list s (lru_page s) = Inr t" and "same_but_lists s t"
    and "pet_core t P' (insert (lru_page s) A)" and "lru_page s \<notin> A" and "pages t (lru_page s) \<noteq> None"
proof (rule lru_slot [OF C refl assms(2)])
  fix t P' assume "delete_from_list s (lru_page s) = Inr t" "same_but_lists s t"
    "pet_core t P' (insert (lru_page s) A)" "lst s (lru_page s) = Some LRU" "pages s (lru_page s) \<noteq> None"
  then show thesis
    using that [of t P'] pet_coreD(5) [OF C, of "lru_page s"] same_but_lists_pages [of s t "lru_page s"] by auto
qed

lemma look_ok:
  assumes C: "pet_core s P A" and p: "pages s p \<noteq> None" and n: "0 < n" "n \<le> max_data_units s"
  shows "(\<exists>offset. page_free_block s p n = Inr offset \<and> offset \<noteq> 0 \<and>
      unat (bm_page_header_size_in_units s) \<le> unat offset \<and> can_grow s p (unat offset) (unat n)) \<or>
    (\<exists>lfb bm. page_free_block s p n = Inr 0 \<and> page_longest_free_block s p = Inr lfb \<and>
      bitmaps s p = Some bm \<and> longest s bm = Some lfb \<and> lfb < max_data_units s)"
proof -
  note D = pet_coreD [OF C]
  have n0: "0 < unat n" using n(1) by (simp add: unat_gt_0)
  obtain bm r where r: "bitmaps s p = Some bm" "page_free_block s p n = Inr r"
    "r = 0 \<longleftrightarrow> \<not> has_block bm (unat (bm_page_header_size_in_units s)) (unat (units_per_page s)) (unat n)"
    "r \<noteq> 0 \<Longrightarrow> unat (bm_page_header_size_in_units s) \<le> unat r \<and>
       free_from bm (unat (units_per_page s)) (unat r) (unat n)"
    using page_free_block_ok [OF D(3) p n0] by metis
  obtain lfb where lfb: "page_longest_free_block s p = Inr lfb" "longest s bm = Some lfb"
    "\<And>n. has_block bm (unat (bm_page_header_size_in_units s)) (unat (units_per_page s)) n \<longleftrightarrow> n \<le> unat lfb"
    using page_longest_free_block_ok [OF D(1,3) p] r(1) by (metis option.inject)
  show ?thesis
  proof (cases "r = 0")
    case True
    then have "unat lfb < unat n" using r(3) lfb(3) [of "unat n"] by simp
    then have "lfb < max_data_units s" using n(2) by (simp add: word_less_nat_alt word_le_nat_alt)
    then show ?thesis using True r(1,2) lfb(1,2) by blast
  next
    case False
    then show ?thesis using r(1,2,4) can_grow_run [OF r(1)] by (auto simp: free_from_def)
  qed
qed

text \<open>A bitmap changed in hand: the lists stay as they are, and so do the bitmaps of the other pages.\<close>

definition edits :: "pet \<Rightarrow> u64 \<Rightarrow> pet \<Rightarrow> bool" where
  "edits s p t \<longleftrightarrow> same_params s t \<and> (\<forall>q. q \<noteq> p \<longrightarrow> bitmaps t q = bitmaps s q) \<and> bitmaps t p \<noteq> None"

lemma set_units_ok:
  assumes C: "pet_core s P A" and A: "p \<in> A" and p: "pages s p \<noteq> None"
    and range: "unat (bm_page_header_size_in_units s) \<le> unat offset"
      "unat offset + unat len \<le> unat (units_per_page s)"
  obtains t where "change_bits set_bits s p offset len = Inr t" and "pet_core t P A" and "edits s p t"
    and "used t = used s \<union> block_units p (unat offset) (unat len)"
proof -
  obtain bm where b: "bitmaps s p = Some bm" using p by (auto simp: bitmaps_def)
  have ok: "page_ok (units_per_page s) (bm_page_header_size_in_units s) bm"
    using pet_coreD(3) [OF C] b by (simp add: pages_ok_def)
  from bm.mark_law [OF ok range(2)] obtain bm' where bm': "set_bits bm offset len = Some bm'"
    "page_ok (units_per_page s) (bm_page_header_size_in_units s) bm'"
    "\<forall>i. bit_at bm' i \<longleftrightarrow> bit_at bm i \<or> (unat offset \<le> i \<and> i < unat offset + unat len)" by blast
  obtain t where t: "change_bits set_bits s p offset len = Inr t" "pet_core t P A" "same_params s t"
    "bitmaps t = (bitmaps s)(p := Some bm')"
    by (rule change_bits_ok [where f = set_bits and offset = offset and len = len, OF C A b bm'(1,2)])
  have "used t = used s \<union> block_units p (unat offset) (unat len)"
    using t(3) range(1) bm'(3) b by (auto simp: used_def block_units_def t(4) same_params_def split: if_splits)
  then show thesis using that [OF t(1,2)] t(3,4) by (simp add: edits_def)
qed

lemma clear_units_ok:
  assumes C: "pet_core s P A" and A: "p \<in> A" and p: "pages s p \<noteq> None"
    and range: "unat (bm_page_header_size_in_units s) \<le> unat offset"
      "unat offset + unat len \<le> unat (units_per_page s)"
  obtains t where "change_bits clear_bits s p offset len = Inr t" and "pet_core t P A" and "edits s p t"
    and "used t = used s - block_units p (unat offset) (unat len)"
proof -
  obtain bm where b: "bitmaps s p = Some bm" using p by (auto simp: bitmaps_def)
  have ok: "page_ok (units_per_page s) (bm_page_header_size_in_units s) bm"
    using pet_coreD(3) [OF C] b by (simp add: pages_ok_def)
  from bm.unmark_law [OF ok range] obtain bm' where bm': "clear_bits bm offset len = Some bm'"
    "page_ok (units_per_page s) (bm_page_header_size_in_units s) bm'"
    "\<forall>i. bit_at bm' i \<longleftrightarrow> bit_at bm i \<and> \<not> (unat offset \<le> i \<and> i < unat offset + unat len)" by blast
  obtain t where t: "change_bits clear_bits s p offset len = Inr t" "pet_core t P A" "same_params s t"
    "bitmaps t = (bitmaps s)(p := Some bm')"
    by (rule change_bits_ok [where f = clear_bits and offset = offset and len = len, OF C A b bm'(1,2)])
  have "used t = used s - block_units p (unat offset) (unat len)"
    using t(3) bm'(3) b by (auto simp: used_def block_units_def t(4) same_params_def split: if_splits)
  then show thesis using that [OF t(1,2)] t(3,4) by (simp add: edits_def)
qed

lemma grab_ok:
  assumes C: "pet_core s P A" and p: "pages s p \<noteq> None" "p \<notin> A"
  obtains t P' where "grab_page s p = Inr t" and "same_but_lists s t" and "pet_core t P' (insert p A)"
    and "pages t p \<noteq> None"
proof -
  obtain l where l: "lst s p = Some l" using pet_coreD(5) [OF C p(1)] p(2) by auto
  obtain pg where pg: "pages s p = Some pg" using p(1) by blast
  have g: "grab_page s p = delete_from_list s p" using l pg by (simp add: grab_page_def read_page_def lst_def)
  show thesis
  proof (rule delete_core [OF C l])
    fix t P' assume "delete_from_list s p = Inr t" "same_but_lists s t" "pet_core t P' (insert p A)"
    then show thesis using that [of t P'] g same_but_lists_pages [of s t p] p(1) by simp
  qed
qed

text \<open>The page of a block is in hand elsewhere: \<open>grab_page\<close> has to wait.\<close>

lemma grab_waits:
  assumes "pet_core s P A" and "pages s p \<noteq> None" and "p \<in> A"
  shows "grab_page s p = Inl Does_Not_Return"
  using pet_coreD(5) [OF assms(1,2)] assms(2,3) by (auto simp: grab_page_def read_page_def lst_def)

lemma map_page_ok:
  assumes C: "pet_core s P A" and A: "\<forall>q\<in>A. pages s q \<noteq> None" and mm: "mmap_ok (sys_page_size s) mm"
    and n: "0 < n" "n \<le> max_data_units s"
  obtains (no_memory) "map_page mm s n = Inr (s, 0)"
  | (mapped) t p where "map_page mm s n = Inr (t, p)" and "p \<noteq> 0" and "p \<notin> A" and "pet_core t P (insert p A)"
    and "edits s p t" and "used t = used s \<union> block_units p (unat (bm_page_header_size_in_units s)) (unat n)"
    and "can_grow s p (unat (bm_page_header_size_in_units s)) (unat n)"
proof (cases "mm (mapped s) (sys_page_size s) = 0")
  case True
  then show thesis by (intro no_memory) (simp add: map_page_def call_mmap_def)
next
  case False
  let ?p = "mm (mapped s) (sys_page_size s)"
  note D = pet_coreD [OF C]
  note G = geometry_bounds [OF D(1)]
  note M = mmap_okD [OF mm False]
  have ps: "0 < unat (sys_page_size s)" using G(2,5) by simp
  have fresh: "?p \<notin> mapped s" using M(3) page_range_self [OF ps ps, of ?p] by auto
  then have np: "pages s ?p = None"
    using D(3) by (cases "pages s ?p") (auto simp: pages_ok_def page_at_def bitmaps_def)
  then have pA: "?p \<notin> A" using A by auto
  have nl: "unat n \<le> unat (max_data_units s)" using n(2) by (simp add: word_le_nat_alt)
  obtain bm where bm:
    "set_bits (replicate (unat (units_per_page s div WORD_WIDTH)) 0) 0 (bm_page_header_size_in_units s + n) = Some bm"
    "page_ok (units_per_page s) (bm_page_header_size_in_units s) bm"
    "\<And>i. bit_at bm i \<longleftrightarrow> i < unat (bm_page_header_size_in_units s) + unat n"
    by (rule new_page_bitmap [OF D(1) nl]) blast
  let ?t = "s\<lparr>mapped := insert ?p (mapped s),
               pages := (pages s)(?p \<mapsto> \<lparr>bp_list = None, bp_next = 0, bp_prev = 0, bp_bitmap = bm\<rparr>)\<rparr>"
  have at: "page_at ?t ?p" using M(1,2) by (simp add: page_at_def)
  note N = new_page_core [OF C pA np False at bm(2) refl]
  have call: "call_mmap mm s (sys_page_size s) False = (s\<lparr>mapped := insert ?p (mapped s)\<rparr>, ?p)"
    using False by (simp add: call_mmap_def page_range_one [OF ps] Let_def)
  have "map_page mm s n = Inr (?t, ?p)"
    using False by (simp add: map_page_def call change_bits_def read_page_def write_page_def bm(1) Let_def
        del: unat_div_WORD_WIDTH)
  moreover have "used ?t = used s \<union> block_units ?p (unat (bm_page_header_size_in_units s)) (unat n)"
    unfolding N(3) block_units_def by (auto simp: bm(3))
  moreover have "can_grow s ?p (unat (bm_page_header_size_in_units s)) (unat n)"
    using np nl G(5,6) by (auto simp: can_grow_def used_def block_units_def bitmaps_def)
  moreover have "edits s ?p ?t" using N(2) by (simp add: edits_def bitmaps_def)
  ultimately show thesis using mapped [OF _ False pA N(1)] by blast
qed

subsection \<open>Blocks that lie apart\<close>

fun block_fits :: "pet \<Rightarrow> ublock \<Rightarrow> bool" where
  "block_fits s (p, offset, n) \<longleftrightarrow> 0 < n \<and> unat (bm_page_header_size_in_units s) \<le> unat offset \<and>
     unat offset + unat n \<le> unat (units_per_page s)"

definition blocks_apart :: "pet \<Rightarrow> ublock set \<Rightarrow> bool" where
  "blocks_apart s B \<longleftrightarrow> used s = (\<Union>b\<in>B. units b) \<and> (\<forall>b\<in>B. block_fits s b) \<and>
     (\<forall>b\<in>B. \<forall>c\<in>B. b \<noteq> c \<longrightarrow> units b \<inter> units c = {})"

lemma blocks_apartD:
  assumes "blocks_apart s B"
  shows "used s = (\<Union>b\<in>B. units b)" and "b \<in> B \<Longrightarrow> block_fits s b" and "b \<in> B \<Longrightarrow> units b \<subseteq> used s"
    and "b \<in> B \<Longrightarrow> c \<in> B \<Longrightarrow> b \<noteq> c \<Longrightarrow> units b \<inter> units c = {}"
  using assms by (auto simp: blocks_apart_def)

lemma units_nonempty: "block_fits s b \<Longrightarrow> units b \<noteq> {}"
  by (cases b) (auto simp: block_units_def unat_gt_0)

lemma block_fits_cong: "same_params s t \<Longrightarrow> block_fits t b = block_fits s b"
  by (cases b) (simp add: same_params_def)

lemma block_page:
  assumes "blocks_apart s B" and "(p, offset, n) \<in> B"
  shows "pages s p \<noteq> None"
proof -
  obtain x where "x \<in> units (p, offset, n)"
    using units_nonempty [OF blocks_apartD(2) [OF assms]] by blast
  moreover from this have "fst x = p" by (auto simp: block_units_def)
  ultimately have "(p, snd x) \<in> used s" using blocks_apartD(3) [OF assms] by auto
  then show ?thesis by (auto simp: used_def bitmaps_def)
qed

text \<open>One block goes, one may come.\<close>

lemma blocks_apart_replace:
  assumes B: "blocks_apart s B" and R: "R \<subseteq> B" and par: "same_params s t"
    and u: "used t = (used s - (\<Union>b\<in>R. units b)) \<union> (\<Union>b\<in>set_option new. units b)"
    and d: "(used s - (\<Union>b\<in>R. units b)) \<inter> (\<Union>b\<in>set_option new. units b) = {}"
    and N: "\<And>b. new = Some b \<Longrightarrow> block_fits s b"
  shows "blocks_apart t (B - R \<union> set_option new)" and "c \<in> B - R \<Longrightarrow> new \<noteq> Some c"
proof -
  note D = blocks_apartD [OF B]
  have old: "units b \<subseteq> used s - (\<Union>b\<in>R. units b)" if "b \<in> B - R" for b
    using that R D(3) [of b] D(4) [of b] by blast
  have apart: "units b \<inter> units c = {}" if "b \<in> B - R" "new = Some c" for b c
    using disjoint_iff d old [OF that(1)] that(2) by auto
  have "(\<Union>b\<in>B - R. units b) = used s - (\<Union>b\<in>R. units b)"
  proof
    show "(\<Union>b\<in>B - R. units b) \<subseteq> used s - (\<Union>b\<in>R. units b)" using old by (rule UN_least)
    show "used s - (\<Union>b\<in>R. units b) \<subseteq> (\<Union>b\<in>B - R. units b)" unfolding D(1) by blast
  qed
  then have "used t = (\<Union>b\<in>B - R \<union> set_option new. units b)" using u by simp
  moreover have "block_fits t b" if "b \<in> B - R \<union> set_option new" for b
    using that D(2) [of b] N [of b] by (auto simp del: block_fits.simps simp: block_fits_cong [OF par])
  moreover have "units b \<inter> units c = {}" if "b \<in> B - R \<union> set_option new" "c \<in> B - R \<union> set_option new" "b \<noteq> c" for b c
    using that D(4) [of b c] apart [of b c] apart [of c b] by auto
  ultimately show "blocks_apart t (B - R \<union> set_option new)" unfolding blocks_apart_def by blast
  show "new \<noteq> Some c" if "c \<in> B - R"
  proof
    assume n: "new = Some c"
    then have "units c = {}" using apart [OF that n] by simp
    then show False using units_nonempty [OF N [OF n]] by simp
  qed
qed

lemma units_of_range_split:
  "block_units p a (m + n) = block_units p a m \<union> block_units p (a + m) n"
  "block_units p a m \<inter> block_units p (a + m) n = {}"
  by (auto simp: block_units_def)

lemma work_ok:
  assumes C: "pet_core s P A" and A: "p \<in> A" and p: "pages s p \<noteq> None"
    and b: "block_fits s (todo_block p td)" "units (todo_block p td) \<subseteq> used s" and ok: "call_ok s td"
  obtains t r where "work s p td = Inr (t, r)" and "pet_core t P A" and "edits s p t"
    and "used t = (used s - units (todo_block p td)) \<union> (\<Union>b\<in>set_option (outcome_block p r). units b)"
    and "(used s - units (todo_block p td)) \<inter> (\<Union>b\<in>set_option (outcome_block p r). units b) = {}"
    and "\<And>c. outcome_block p r = Some c \<Longrightarrow> block_fits s c"
proof (cases td)
  case (Clear offset n)
  then have r: "unat (bm_page_header_size_in_units s) \<le> unat offset" "unat offset + unat n \<le> unat (units_per_page s)"
    using b(1) by simp_all
  show thesis
  proof (rule clear_units_ok [OF C A p r])
    fix t assume "change_bits clear_bits s p offset n = Inr t" "pet_core t P A" "edits s p t"
      "used t = used s - block_units p (unat offset) (unat n)"
    then show thesis using that [of t Gone] Clear by simp
  qed
next
  case (Cut offset old new)
  then have f: "unat (bm_page_header_size_in_units s) \<le> unat offset" "unat offset + unat old \<le> unat (units_per_page s)"
    "0 < new" "unat new \<le> unat old" using b(1) ok by (simp_all add: word_le_nat_alt)
  have tail: "unat (old - new) = unat old - unat new" using f(4) by (rule unat_sub_exact)
  have o: "unat (offset + new) = unat offset + unat new"
    using f(2,4) geometry_bounds(3) [OF pet_coreD(1) [OF C]] by (subst unat_add_exact) simp_all
  have r: "unat (bm_page_header_size_in_units s) \<le> unat (offset + new)"
    "unat (offset + new) + unat (old - new) \<le> unat (units_per_page s)"
    using f by (simp_all add: o tail)
  note split = units_of_range_split [of p "unat offset" "unat new" "unat old - unat new"]
  have whole: "units (todo_block p td) = block_units p (unat offset) (unat new) \<union>
      block_units p (unat offset + unat new) (unat old - unat new)" using Cut f(4) split(1) by simp
  show thesis
  proof (rule clear_units_ok [OF C A p r])
    fix t assume t: "change_bits clear_bits s p (offset + new) (old - new) = Inr t" "pet_core t P A" "edits s p t"
      "used t = used s - block_units p (unat (offset + new)) (unat (old - new))"
    have "used t = (used s - units (todo_block p td)) \<union> block_units p (unat offset) (unat new)"
      unfolding t(4) o tail whole using b(2) split(2) unfolding whole by blast
    moreover have "(used s - units (todo_block p td)) \<inter> block_units p (unat offset) (unat new) = {}"
      unfolding whole by blast
    ultimately show thesis using that [of t "Kept offset new True"] Cut t(1-3) f by simp
  qed
next
  case (Extend offset old new)
  then have f: "unat (bm_page_header_size_in_units s) \<le> unat offset" "unat offset + unat old \<le> unat (units_per_page s)"
    "0 < old" "unat old \<le> unat new" using b(1) ok by (simp_all add: word_le_nat_alt)
  note G = geometry_bounds(3) [OF pet_coreD(1) [OF C]]
  let ?first = "unat offset + unat old" and ?n = "unat new - unat old"
  have inc: "unat (new - old) = ?n" using f(4) by (rule unat_sub_exact)
  have o: "unat (offset + old) = ?first" using f(2) G by (subst unat_add_exact) simp_all
  obtain pg where pg: "pages s p = Some pg" using p by blast
  then have bm: "bitmaps s p = Some (bp_bitmap pg)" by (simp add: bitmaps_def)
  have pb: "page_bitmap (units_per_page s) (bp_bitmap pg)"
    using pet_coreD(3) [OF C] bm by (auto simp: pages_ok_def page_ok_def)
  obtain c where c: "count_zero_bits (units_per_page s) (bp_bitmap pg) (offset + old) (new - old) = Some c"
    "c < new - old \<longleftrightarrow> \<not> can_grow s p ?first ?n"
    by (rule count_can_grow [OF bm pb f(1,2,4) G])
  show thesis
  proof (cases "can_grow s p ?first ?n")
    case False
    then have "work s p td = Inr (s, Kept offset old False)"
      using Extend c pg by (simp add: read_page_def Let_def)
    moreover have "edits s p s" using bm by (simp add: edits_def same_params_refl)
    ultimately show thesis using that [of s "Kept offset old False"] C Extend b f by auto
  next
    case True
    note split = units_of_range_split [of p "unat offset" "unat old" ?n]
    have whole: "block_units p (unat offset) (unat new) = units (todo_block p td) \<union> block_units p ?first ?n"
      using Extend f(4) split(1) by simp
    have r: "unat (bm_page_header_size_in_units s) \<le> unat (offset + old)"
      "unat (offset + old) + unat (new - old) \<le> unat (units_per_page s)"
      using True f unfolding o inc by (simp_all add: can_grow_def)
    show thesis
    proof (rule set_units_ok [OF C A p r])
      fix t assume t: "change_bits set_bits s p (offset + old) (new - old) = Inr t" "pet_core t P A" "edits s p t"
        "used t = used s \<union> block_units p (unat (offset + old)) (unat (new - old))"
      have "used t = (used s - units (todo_block p td)) \<union> block_units p (unat offset) (unat new)"
        unfolding t(4) o inc whole using b(2) by blast
      moreover have "(used s - units (todo_block p td)) \<inter> block_units p (unat offset) (unat new) = {}"
        using True unfolding whole can_grow_def by blast
      moreover have "work s p td = Inr (t, Kept offset new True)"
        using Extend True c pg t(1) by (simp add: read_page_def Let_def)
      moreover have "0 < new" using f(3,4) by (simp add: word_less_nat_alt)
      moreover have "unat offset + unat new \<le> unat (units_per_page s)"
        using r(2) f(4) unfolding o inc by simp
      ultimately show thesis using that [of t "Kept offset new True"] t(2,3) f(1) by simp
    qed
  qed
qed

subsection \<open>The invariant\<close>

fun in_hand :: "pet_pc \<Rightarrow> u64 option" where
  "in_hand (Has_lru n clean p) = Some p"
| "in_hand (Listing n clean p lfb) = Some p"
| "in_hand (Filling n clean p offset) = Some p"
| "in_hand (Working p td) = Some p"
| "in_hand (Handing p r) = Some p"
| "in_hand _ = None"

definition hands :: "pet_threads \<Rightarrow> u64 set" where
  "hands y = {p. \<exists>t. in_hand (th_pc y t) = Some p}"

definition other_hands :: "pet_threads \<Rightarrow> nat \<Rightarrow> u64 set" where
  "other_hands y t = {p. \<exists>u. u \<noteq> t \<and> in_hand (th_pc y u) = Some p}"

definition request_ok :: "pet \<Rightarrow> u32 \<Rightarrow> bool" where
  "request_ok s n \<longleftrightarrow> 0 < n \<and> n \<le> max_data_units s"

fun pc_ok :: "pet \<Rightarrow> pet_pc \<Rightarrow> bool" where
  "pc_ok s (Seeking n clean) \<longleftrightarrow> request_ok s n"
| "pc_ok s (Has_lru n clean p) \<longleftrightarrow> request_ok s n"
| "pc_ok s (Listing n clean p lfb) \<longleftrightarrow> request_ok s n \<and>
     (\<exists>bm. bitmaps s p = Some bm \<and> longest s bm = Some lfb \<and> lfb < max_data_units s)"
| "pc_ok s (Searching n clean) \<longleftrightarrow> request_ok s n"
| "pc_ok s (Filling n clean p offset) \<longleftrightarrow> request_ok s n \<and>
     unat (bm_page_header_size_in_units s) \<le> unat offset \<and> can_grow s p (unat offset) (unat n)"
| "pc_ok s (Mapping n clean) \<longleftrightarrow> request_ok s n"
| "pc_ok s (Grabbing p td) \<longleftrightarrow> call_ok s td"
| "pc_ok s (Working p td) \<longleftrightarrow> call_ok s td"
| "pc_ok s _ \<longleftrightarrow> True"

definition threads_inv :: "u32 \<Rightarrow> pet_threads \<Rightarrow> bool" where
  "threads_inv ps y \<longleftrightarrow> sys_page_size (th_pet y) = ps \<and>
     (\<exists>P. pet_core (th_pet y) P (hands y)) \<and> (\<forall>p\<in>hands y. pages (th_pet y) p \<noteq> None) \<and>
     (\<forall>t u p. in_hand (th_pc y t) = Some p \<longrightarrow> in_hand (th_pc y u) = Some p \<longrightarrow> t = u) \<and>
     blocks_apart (th_pet y) (th_blocks y) \<and>
     (\<forall>t b. owned (th_pc y t) = Some b \<longrightarrow> b \<in> th_blocks y) \<and>
     (\<forall>t u b. owned (th_pc y t) = Some b \<longrightarrow> owned (th_pc y u) = Some b \<longrightarrow> t = u) \<and>
     (\<forall>t. pc_ok (th_pet y) (th_pc y t))"

lemma hands_split: "hands y = set_option (in_hand (th_pc y t)) \<union> other_hands y t"
  by (auto simp: hands_def other_hands_def)

lemma threads_invD:
  assumes "threads_inv ps y"
  obtains P where "pet_core (th_pet y) P (hands y)"
    and "\<And>p. p \<in> hands y \<Longrightarrow> pages (th_pet y) p \<noteq> None"
    and "\<And>t p. in_hand (th_pc y t) = Some p \<Longrightarrow> p \<notin> other_hands y t"
    and "blocks_apart (th_pet y) (th_blocks y)"
    and "\<And>t b. owned (th_pc y t) = Some b \<Longrightarrow> b \<in> th_blocks y"
    and "\<And>t u b. owned (th_pc y t) = Some b \<Longrightarrow> owned (th_pc y u) = Some b \<Longrightarrow> t = u"
    and "\<And>t. pc_ok (th_pet y) (th_pc y t)"
proof -
  obtain P where "pet_core (th_pet y) P (hands y)" using assms by (auto simp: threads_inv_def)
  then show thesis
    by (rule that) (use assms in \<open>auto simp: threads_inv_def other_hands_def\<close>)
qed

text \<open>What a thread relies on survives what the others do.\<close>

lemma pc_ok_stable:
  assumes "pc_ok s pc" and par: "same_params s t" and "\<And>p. in_hand pc = Some p \<Longrightarrow> bitmaps t p = bitmaps s p"
  shows "pc_ok t pc"
proof -
  have c: "call_ok t td = call_ok s td" for td by (cases td) simp_all
  have r: "request_ok t n = request_ok s n" for n using par by (simp add: request_ok_def same_params_def)
  have g: "can_grow t p k m = can_grow s p k m" if "bitmaps t p = bitmaps s p" for p k m
  proof -
    have "(p, i) \<in> used t \<longleftrightarrow> (p, i) \<in> used s" for i
      using par that by (simp add: used_def same_params_def)
    then show ?thesis using par by (simp add: can_grow_def disjoint_block_iff same_params_def)
  qed
  show ?thesis
    using assms(1,3) par same_params_eqs(2) [OF par]
    by (cases pc) (simp_all add: c r g same_params_def)
qed

text \<open>A step of one thread, in the terms of the invariant.\<close>

lemma threads_inv_step:
  assumes I: "threads_inv ps y" and par: "same_params (th_pet y) s"
    and core: "pet_core s P (set_option (in_hand pc) \<union> other_hands y t)"
    and mine: "\<And>p. in_hand pc = Some p \<Longrightarrow> p \<notin> other_hands y t \<and> pages s p \<noteq> None"
    and theirs: "\<And>p. p \<in> other_hands y t \<Longrightarrow> bitmaps s p = bitmaps (th_pet y) p"
    and apart: "blocks_apart s B"
    and own: "\<And>b. owned pc = Some b \<Longrightarrow> b \<in> B"
    and others: "\<And>u b. u \<noteq> t \<Longrightarrow> owned (th_pc y u) = Some b \<Longrightarrow> b \<in> B \<and> owned pc \<noteq> Some b"
    and ok: "pc_ok s pc"
  shows "threads_inv ps ((goes y t s pc)\<lparr>th_blocks := B\<rparr>)"
proof (rule threads_invD [OF I])
  let ?z = "(goes y t s pc)\<lparr>th_blocks := B\<rparr>"
  fix Q assume D: "\<And>p. p \<in> hands y \<Longrightarrow> pages (th_pet y) p \<noteq> None"
    "\<And>t p. in_hand (th_pc y t) = Some p \<Longrightarrow> p \<notin> other_hands y t"
    "\<And>t u b. owned (th_pc y t) = Some b \<Longrightarrow> owned (th_pc y u) = Some b \<Longrightarrow> t = u"
    "\<And>t. pc_ok (th_pet y) (th_pc y t)"
  have h: "hands ?z = set_option (in_hand pc) \<union> other_hands y t"
    by (auto simp: hands_def other_hands_def split: if_splits)
  have pg: "pages s p \<noteq> None" if "p \<in> hands ?z" for p
  proof (cases "in_hand pc = Some p")
    case False
    then have "p \<in> other_hands y t" using that h by auto
    then have "bitmaps s p = bitmaps (th_pet y) p" "p \<in> hands y" using theirs by (auto simp: hands_split [of y t])
    then show ?thesis using D(1) by (metis bitmaps_dom)
  qed (use mine in blast)
  have one: "u = v" if "in_hand (th_pc ?z u) = Some p" "in_hand (th_pc ?z v) = Some p" for u v p
  proof (cases "u = t \<or> v = t")
    case True
    then show ?thesis using that mine by (auto simp: other_hands_def split: if_splits)
  next
    case False
    then show ?thesis using that D(2) by (auto simp: other_hands_def)
  qed
  have ownB: "b \<in> B" if "owned (th_pc ?z u) = Some b" for u b
    using that own others by (auto split: if_splits)
  have own1: "u = v" if "owned (th_pc ?z u) = Some b" "owned (th_pc ?z v) = Some b" for u v b
    using that others [of u b] others [of v b] D(3) [of u b v] by (auto split: if_splits)
  have pcs: "pc_ok s (th_pc ?z u)" for u
  proof (cases "u = t")
    case False
    have "bitmaps s p = bitmaps (th_pet y) p" if "in_hand (th_pc y u) = Some p" for p
      using that False by (intro theirs) (auto simp: other_hands_def)
    then show ?thesis using False pc_ok_stable [OF D(4) par] by simp
  qed (simp add: ok)
  show ?thesis
    unfolding threads_inv_def
  proof (intro conjI allI impI ballI)
    show "sys_page_size (th_pet ?z) = ps" using I par by (simp add: threads_inv_def same_params_def)
    show "\<exists>P. pet_core (th_pet ?z) P (hands ?z)" using core h by auto
    show "pages (th_pet ?z) p \<noteq> None" if "p \<in> hands ?z" for p using pg [OF that] by simp
    show "u = v" if "in_hand (th_pc ?z u) = Some p" "in_hand (th_pc ?z v) = Some p" for u v p by (rule one [OF that])
    show "blocks_apart (th_pet ?z) (th_blocks ?z)" using apart by simp
    show "b \<in> th_blocks ?z" if "owned (th_pc ?z u) = Some b" for u b using ownB [OF that] by simp
    show "u = v" if "owned (th_pc ?z u) = Some b" "owned (th_pc ?z v) = Some b" for u v b by (rule own1 [OF that])
    show "pc_ok (th_pet ?z) (th_pc ?z u)" for u using pcs [of u] by simp
  qed
qed

lemma blocks_apart_cong:
  assumes "blocks_apart s B" and "same_params s t" and "used t = used s"
  shows "blocks_apart t B"
  using blocks_apart_replace(1) [OF assms(1), of "{}" t None] assms(2,3) by simp

text \<open>The two kinds of steps: the lists change, or the bitmap of a page in hand and the blocks.\<close>

lemma lists_step:
  assumes I: "threads_inv ps y" and s: "same_but_lists (th_pet y) s"
    and core: "pet_core s P (set_option (in_hand pc) \<union> other_hands y t)"
    and mine: "\<And>p. in_hand pc = Some p \<Longrightarrow> p \<notin> other_hands y t \<and> pages s p \<noteq> None"
    and own: "owned pc = owned (th_pc y t) \<or> owned pc = None"
    and ok: "pc_ok s pc"
  shows "threads_inv ps (goes y t s pc)"
proof (rule threads_invD [OF I])
  assume D: "blocks_apart (th_pet y) (th_blocks y)" "\<And>t b. owned (th_pc y t) = Some b \<Longrightarrow> b \<in> th_blocks y"
    "\<And>t u b. owned (th_pc y t) = Some b \<Longrightarrow> owned (th_pc y u) = Some b \<Longrightarrow> t = u"
  have par: "same_params (th_pet y) s" by (rule same_but_lists_params [OF s])
  have "threads_inv ps ((goes y t s pc)\<lparr>th_blocks := th_blocks y\<rparr>)"
  proof (rule threads_inv_step [OF I par core mine _ _ _ _ ok])
    show "bitmaps s p = bitmaps (th_pet y) p" for p using s by (simp add: same_but_lists_def)
    show "blocks_apart s (th_blocks y)"
      by (rule blocks_apart_cong [OF D(1) par same_but_lists_inv(4) [OF s]])
    show "b \<in> th_blocks y" if "owned pc = Some b" for b using that own D(2) by auto
    show "b \<in> th_blocks y \<and> owned pc \<noteq> Some b" if "u \<noteq> t" "owned (th_pc y u) = Some b" for u b
      using that own D(2) [of u b] D(3) [of u b t] by auto
  qed
  then show ?thesis by (simp add: goes_def)
qed

lemma edit_step:
  assumes I: "threads_inv ps y" and e: "edits (th_pet y) p s" and core: "pet_core s P (insert p (other_hands y t))"
    and p: "p \<notin> other_hands y t" and pc: "in_hand pc = Some p" "owned pc = new" "pc_ok s pc"
    and old: "set_option (owned (th_pc y t)) = R"
    and u: "used s = (used (th_pet y) - (\<Union>b\<in>R. units b)) \<union> (\<Union>b\<in>set_option new. units b)"
      "(used (th_pet y) - (\<Union>b\<in>R. units b)) \<inter> (\<Union>b\<in>set_option new. units b) = {}"
    and N: "\<And>b. new = Some b \<Longrightarrow> block_fits (th_pet y) b"
  shows "threads_inv ps ((goes y t s pc)\<lparr>th_blocks := th_blocks y - R \<union> set_option new\<rparr>)"
proof (rule threads_invD [OF I])
  assume D: "blocks_apart (th_pet y) (th_blocks y)" "\<And>t b. owned (th_pc y t) = Some b \<Longrightarrow> b \<in> th_blocks y"
    "\<And>t u b. owned (th_pc y t) = Some b \<Longrightarrow> owned (th_pc y u) = Some b \<Longrightarrow> t = u"
  have R: "R \<subseteq> th_blocks y" using D(2) old by auto
  have par: "same_params (th_pet y) s" using e by (simp add: edits_def)
  note B = blocks_apart_replace [OF D(1) R par u N]
  show ?thesis
  proof (rule threads_inv_step [OF I par, where P = P])
    show "pet_core s P (set_option (in_hand pc) \<union> other_hands y t)" using core pc(1) by simp
    show "q \<notin> other_hands y t \<and> pages s q \<noteq> None" if "in_hand pc = Some q" for q
      using that p pc(1) e bitmaps_None [of s q] by (auto simp: edits_def)
    show "bitmaps s q = bitmaps (th_pet y) q" if "q \<in> other_hands y t" for q
      using that p e by (auto simp: edits_def)
    show "blocks_apart s (th_blocks y - R \<union> set_option new)" by (rule B(1))
    show "b \<in> th_blocks y - R \<union> set_option new" if "owned pc = Some b" for b using that pc(2) by simp
    show "b \<in> th_blocks y - R \<union> set_option new \<and> owned pc \<noteq> Some b" if "v \<noteq> t" "owned (th_pc y v) = Some b" for v b
    proof -
      have "b \<in> th_blocks y - R" using that D(2) [of v b] D(3) [of v b t] old by auto
      then show ?thesis using B(2) pc(2) by auto
    qed
    show "pc_ok s pc" by (rule pc(3))
  qed
qed

subsection \<open>Every step keeps it\<close>

lemma finish_views:
  "bitmaps (finish p r s) = bitmaps s" "same_params s (finish p r s)" "used (finish p r s) = used s"
  "pet_core s P A \<Longrightarrow> pet_core (finish p r s) P A"
proof -
  have *: "nxt (finish p r s) = nxt s" "prv (finish p r s) = prv s" "lst (finish p r s) = lst s"
    "bitmaps (finish p r s) = bitmaps s" "mapped (finish p r s) = mapped s" "same_params s (finish p r s)"
    by (cases r; simp add: bm_allocate_out_def Let_def view_defs fun_eq_iff same_params_def)+
  have h: "head (finish p r s) l = head s l" for l
    by (cases r; cases l; simp add: bm_allocate_out_def Let_def)
  show "bitmaps (finish p r s) = bitmaps s" "same_params s (finish p r s)" by (rule *)+
  then show "used (finish p r s) = used s" by (intro used_eq)
  show "pet_core (finish p r s) P A" if "pet_core s P A"
    by (rule pet_core_cong [OF that *(6,1-4) ext *(5)]) (rule h)
qed

end
