(* ===== verification/Pet_Threads_Steps.thy ===== *)
theory Pet_Threads_Steps
  imports Pet_Threads_Invariant
begin

text \<open>
  The steps of the threaded sub-allocator: each keeps the invariant, each action in it succeeds, and each
  brings its operation nearer to the end.
\<close>

subsection \<open>Steps\<close>

lemma pages_bitmaps: "pages s p \<noteq> None \<Longrightarrow> \<exists>bm. bitmaps s p = Some bm"
  by (auto simp: bitmaps_def)

lemma own_page:
  assumes "threads_inv ps y" and "in_hand (th_pc y t) = Some p"
  obtains P where "pet_core (th_pet y) P (insert p (other_hands y t))" and "p \<notin> other_hands y t"
    and "pages (th_pet y) p \<noteq> None" and "hands y = insert p (other_hands y t)" and "pc_ok (th_pet y) (th_pc y t)"
proof (rule threads_invD [OF assms(1)])
  fix P assume "pet_core (th_pet y) P (hands y)" "\<And>p. p \<in> hands y \<Longrightarrow> pages (th_pet y) p \<noteq> None"
    "\<And>t p. in_hand (th_pc y t) = Some p \<Longrightarrow> p \<notin> other_hands y t" "\<And>t. pc_ok (th_pet y) (th_pc y t)"
  then show thesis using that [of P] assms(2) by (simp add: hands_split [of y t])
qed

lemma no_page:
  assumes "threads_inv ps y" and "in_hand (th_pc y t) = None"
  obtains P where "pet_core (th_pet y) P (other_hands y t)" and "pc_ok (th_pet y) (th_pc y t)"
    and "hands y = other_hands y t"
proof (rule threads_invD [OF assms(1)])
  fix P assume "pet_core (th_pet y) P (hands y)" "\<And>t. pc_ok (th_pet y) (th_pc y t)"
  then show thesis using that [of P] assms(2) by (simp add: hands_split [of y t])
qed

text \<open>Searching the superblock, in either of the two places.\<close>

definition searches :: "pet_threads \<Rightarrow> nat \<Rightarrow> u32 \<Rightarrow> bool \<Rightarrow> bool" where
  "searches y t n clean \<longleftrightarrow>
     th_pc y t = Searching n clean \<or> th_pc y t = Seeking n clean \<and> lru_page (th_pet y) = 0"

lemma request_pos: "request_ok s n \<Longrightarrow> 0 < unat n"
  by (simp add: request_ok_def word_less_nat_alt)

lemma search_step:
  assumes I: "threads_inv ps y" and "searches y t n clean"
  shows "(\<exists>s. search_superblock (th_pet y) n (unat n) n = Inr (s, None) \<and> threads_inv ps (goes y t s (Mapping n clean))) \<or>
    (\<exists>s p offset. search_superblock (th_pet y) n (unat n) n = Inr (s, Some (p, offset)) \<and>
       threads_inv ps (goes y t s (Filling n clean p offset)))"
proof -
  have h: "in_hand (th_pc y t) = None" "owned (th_pc y t) = None" using assms(2) by (auto simp: searches_def)
  obtain P where C: "pet_core (th_pet y) P (other_hands y t)" and ok: "pc_ok (th_pet y) (th_pc y t)"
    by (rule no_page [OF I h(1)])
  have n: "request_ok (th_pet y) n" using ok assms(2) by (auto simp: searches_def)
  show ?thesis
    using search_superblock_ok [OF C request_pos [OF n] order_refl refl]
  proof (elim disjE exE conjE)
    assume s: "search_superblock (th_pet y) n (unat n) n = Inr (th_pet y, None)"
    have "threads_inv ps (goes y t (th_pet y) (Mapping n clean))"
      by (rule lists_step [OF I same_but_lists_refl, of P]) (use C n in simp_all)
    with s show ?thesis by blast
  next
    fix s p offset
    assume s: "search_superblock (th_pet y) n (unat n) n = Inr (s, Some (p, offset))"
      and o: "offers_in (other_hands y t) (th_pet y) n s p offset"
    obtain Q bm where o: "same_but_lists (th_pet y) s" "pet_core s Q (insert p (other_hands y t))" "p \<notin> other_hands y t"
      "pages s p \<noteq> None" "unat (bm_page_header_size_in_units (th_pet y)) \<le> unat offset"
      "bitmaps (th_pet y) p = Some bm" "free_from bm (unat (units_per_page (th_pet y))) (unat offset) (unat n)"
      using o by (auto simp: offers_in_def)
    have g: "can_grow (th_pet y) p (unat offset) (unat n)"
      using o(7) can_grow_run [OF o(6,5)] by (simp add: free_from_def)
    have "pc_ok (th_pet y) (Filling n clean p offset)" using n o(5) g by simp
    then have "pc_ok s (Filling n clean p offset)"
      by (rule pc_ok_stable [OF _ same_but_lists_params [OF o(1)]]) (use o(1) in \<open>simp add: same_but_lists_def\<close>)
    then have "threads_inv ps (goes y t s (Filling n clean p offset))"
      by (intro lists_step [OF I o(1), of Q]) (use o(2-4) in simp_all)
    with s show ?thesis by blast
  qed
qed

lemma take_lru_step:
  assumes I: "threads_inv ps y" and pc: "th_pc y t = Seeking n clean" and "lru_page (th_pet y) \<noteq> 0"
  shows "\<exists>s. delete_from_list (th_pet y) (lru_page (th_pet y)) = Inr s \<and>
    threads_inv ps (goes y t s (Has_lru n clean (lru_page (th_pet y))))"
proof -
  obtain P where C: "pet_core (th_pet y) P (other_hands y t)" and ok: "pc_ok (th_pet y) (th_pc y t)"
    by (rule no_page [OF I, of t]) (use pc in simp_all)
  obtain s P' where s: "delete_from_list (th_pet y) (lru_page (th_pet y)) = Inr s" "same_but_lists (th_pet y) s"
    "pet_core s P' (insert (lru_page (th_pet y)) (other_hands y t))" "lru_page (th_pet y) \<notin> other_hands y t"
    "pages s (lru_page (th_pet y)) \<noteq> None"
    by (rule take_lru_ok [OF C assms(3)])
  have "request_ok s n" using ok pc s(2) by (simp add: request_ok_def same_but_lists_def)
  then have "threads_inv ps (goes y t s (Has_lru n clean (lru_page (th_pet y))))"
    by (intro lists_step [OF I s(2), of P']) (use s(3-5) in simp_all)
  with s(1) show ?thesis by blast
qed

lemma look_step:
  assumes I: "threads_inv ps y" and pc: "th_pc y t = Has_lru n clean p"
  shows "(\<exists>offset. page_free_block (th_pet y) p n = Inr offset \<and> offset \<noteq> 0 \<and>
      threads_inv ps (goes y t (th_pet y) (Filling n clean p offset))) \<or>
    (\<exists>lfb. page_free_block (th_pet y) p n = Inr 0 \<and> page_longest_free_block (th_pet y) p = Inr lfb \<and>
      threads_inv ps (goes y t (th_pet y) (Listing n clean p lfb)))"
proof -
  obtain P where C: "pet_core (th_pet y) P (insert p (other_hands y t))" "p \<notin> other_hands y t"
    "pages (th_pet y) p \<noteq> None" and ok: "pc_ok (th_pet y) (th_pc y t)"
    by (rule own_page [OF I, of t p]) (use pc in simp_all)
  then have n: "request_ok (th_pet y) n" using pc by simp
  have to: "threads_inv ps (goes y t (th_pet y) pc')" if "in_hand pc' = Some p" "owned pc' = None" "pc_ok (th_pet y) pc'" for pc'
    by (rule lists_step [OF I same_but_lists_refl, of P]) (use C that in simp_all)
  have "0 < n" "n \<le> max_data_units (th_pet y)" using n by (simp_all add: request_ok_def)
  from look_ok [OF C(1,3) this] show ?thesis
    using n by (elim disjE exE conjE) (auto intro!: to)
qed

lemma list_step:
  assumes I: "threads_inv ps y" and pc: "th_pc y t = Listing n clean p lfb"
  shows "\<exists>s. add_to_superblock_entry (th_pet y) p lfb = Inr s \<and> threads_inv ps (goes y t s (Searching n clean))"
proof -
  obtain P where C: "pet_core (th_pet y) P (insert p (other_hands y t))" "p \<notin> other_hands y t"
    and ok: "pc_ok (th_pet y) (th_pc y t)"
    by (rule own_page [OF I, of t p]) (use pc in simp_all)
  then obtain bm where n: "request_ok (th_pet y) n" "bitmaps (th_pet y) p = Some bm" "longest (th_pet y) bm = Some lfb"
    "lfb < max_data_units (th_pet y)" using pc by auto
  obtain s P' where s: "add_to_list (th_pet y) (SB lfb) p = Inr s" "same_but_lists (th_pet y) s"
    "pet_core s P' (insert p (other_hands y t) - {p})"
    by (rule add_core [OF C(1) insertI1 n(2-4)])
  have "insert p (other_hands y t) - {p} = other_hands y t" using C(2) by simp
  moreover have "request_ok s n" using n(1) s(2) by (simp add: request_ok_def same_but_lists_def)
  ultimately have "threads_inv ps (goes y t s (Searching n clean))"
    by (intro lists_step [OF I s(2), of P']) (use s(3) in simp_all)
  with s(1) show ?thesis by (simp add: add_to_superblock_entry_def)
qed

lemma fill_step:
  assumes I: "threads_inv ps y" and pc: "th_pc y t = Filling n clean p offset"
  shows "\<exists>s. change_bits set_bits (th_pet y) p offset n = Inr s \<and>
    threads_inv ps ((goes y t s (Handing p (Got offset n clean False)))\<lparr>th_blocks := insert (p, offset, n) (th_blocks y)\<rparr>)"
proof -
  obtain P where C: "pet_core (th_pet y) P (insert p (other_hands y t))" "p \<notin> other_hands y t"
    "pages (th_pet y) p \<noteq> None" and ok: "pc_ok (th_pet y) (th_pc y t)"
    by (rule own_page [OF I, of t p]) (use pc in simp_all)
  then have n: "request_ok (th_pet y) n" "unat (bm_page_header_size_in_units (th_pet y)) \<le> unat offset"
    "can_grow (th_pet y) p (unat offset) (unat n)" using pc by simp_all
  then have r: "unat offset + unat n \<le> unat (units_per_page (th_pet y))" by (simp add: can_grow_def)
  obtain s where s: "change_bits set_bits (th_pet y) p offset n = Inr s"
    "pet_core s P (insert p (other_hands y t))" "edits (th_pet y) p s"
    "used s = used (th_pet y) \<union> block_units p (unat offset) (unat n)"
    by (rule set_units_ok [OF C(1) insertI1 C(3) n(2) r])
  have "threads_inv ps ((goes y t s (Handing p (Got offset n clean False)))
      \<lparr>th_blocks := th_blocks y - {} \<union> set_option (Some (p, offset, n))\<rparr>)"
    by (rule edit_step [OF I s(3,2) C(2)])
      (use pc s(4) n r in \<open>auto simp: can_grow_def request_ok_def\<close>)
  with s(1) show ?thesis by simp
qed

lemma map_step:
  assumes I: "threads_inv ps y" and pc: "th_pc y t = Mapping n clean"
    and mm: "mmap_ok ps mm"
  shows "(map_page mm (th_pet y) n = Inr (th_pet y, 0) \<and> threads_inv ps (goes y t (th_pet y) Idle)) \<or>
    (\<exists>s p. map_page mm (th_pet y) n = Inr (s, p) \<and> p \<noteq> 0 \<and>
      threads_inv ps ((goes y t s (Handing p (Got (bm_page_header_size_in_units s) n clean True)))
        \<lparr>th_blocks := insert (p, bm_page_header_size_in_units s, n) (th_blocks y)\<rparr>))"
proof -
  obtain P where C: "pet_core (th_pet y) P (other_hands y t)" and ok: "pc_ok (th_pet y) (th_pc y t)"
    and h: "hands y = other_hands y t"
    by (rule no_page [OF I, of t]) (use pc in simp_all)
  have n: "0 < n" "n \<le> max_data_units (th_pet y)" using ok pc by (simp_all add: request_ok_def)
  have A: "\<forall>q\<in>other_hands y t. pages (th_pet y) q \<noteq> None" using I h by (simp add: threads_inv_def)
  have mm: "mmap_ok (sys_page_size (th_pet y)) mm" using mm I by (simp add: threads_inv_def)
  show ?thesis
  proof (rule map_page_ok [OF C A mm n])
    assume "map_page mm (th_pet y) n = Inr (th_pet y, 0)"
    moreover have "threads_inv ps (goes y t (th_pet y) Idle)"
      by (rule lists_step [OF I same_but_lists_refl, of P]) (use C in simp_all)
    ultimately show ?thesis by blast
  next
    fix s p
    let ?h = "bm_page_header_size_in_units (th_pet y)"
    assume s: "map_page mm (th_pet y) n = Inr (s, p)" "p \<noteq> 0" "p \<notin> other_hands y t"
      "pet_core s P (insert p (other_hands y t))" "edits (th_pet y) p s"
      "used s = used (th_pet y) \<union> block_units p (unat ?h) (unat n)" "can_grow (th_pet y) p (unat ?h) (unat n)"
    have "bm_page_header_size_in_units s = ?h" using s(5) by (simp add: edits_def same_params_def)
    moreover have "threads_inv ps ((goes y t s (Handing p (Got ?h n clean True)))
        \<lparr>th_blocks := th_blocks y - {} \<union> set_option (Some (p, ?h, n))\<rparr>)"
      by (rule edit_step [OF I s(5,4,3)]) (use pc s(6,7) n in \<open>auto simp: can_grow_def\<close>)
    ultimately show ?thesis using s(1,2) by auto
  qed
qed

lemma grab_step:
  assumes I: "threads_inv ps y" and pc: "th_pc y t = Grabbing p td"
  shows "(\<exists>s. grab_page (th_pet y) p = Inr s \<and> threads_inv ps (goes y t s (Working p td))) \<or>
    grab_page (th_pet y) p = Inl Does_Not_Return \<and> (\<exists>u. u \<noteq> t \<and> in_hand (th_pc y u) = Some p)"
proof -
  obtain P where C: "pet_core (th_pet y) P (other_hands y t)" and ok: "pc_ok (th_pet y) (th_pc y t)"
    by (rule no_page [OF I, of t]) (use pc in simp_all)
  obtain offset n where b: "todo_block p td = (p, offset, n)" by (cases td) simp_all
  have "owned (th_pc y t) = Some (p, offset, n)" using pc b by simp
  then have "(p, offset, n) \<in> th_blocks y" "blocks_apart (th_pet y) (th_blocks y)"
    using I unfolding threads_inv_def by blast+
  then have page: "pages (th_pet y) p \<noteq> None" using block_page by blast
  show ?thesis
  proof (cases "p \<in> other_hands y t")
    case True
    then show ?thesis using grab_waits [OF C page] by (simp add: other_hands_def)
  next
    case False
    obtain s P' where s: "grab_page (th_pet y) p = Inr s" "same_but_lists (th_pet y) s"
      "pet_core s P' (insert p (other_hands y t))" "pages s p \<noteq> None"
      by (rule grab_ok [OF C page False])
    have "call_ok s td" using ok pc by (cases td) simp_all
    then have "threads_inv ps (goes y t s (Working p td))"
      by (intro lists_step [OF I s(2), of P']) (use s(3,4) False pc in simp_all)
    with s(1) show ?thesis by blast
  qed
qed

lemma work_step:
  assumes I: "threads_inv ps y" and pc: "th_pc y t = Working p td"
  shows "\<exists>s r. work (th_pet y) p td = Inr (s, r) \<and>
    threads_inv ps ((goes y t s (Handing p r))
      \<lparr>th_blocks := th_blocks y - {todo_block p td} \<union> set_option (outcome_block p r)\<rparr>)"
proof -
  obtain P where C: "pet_core (th_pet y) P (insert p (other_hands y t))" "p \<notin> other_hands y t"
    "pages (th_pet y) p \<noteq> None" and ok: "pc_ok (th_pet y) (th_pc y t)"
    by (rule own_page [OF I, of t p]) (use pc in simp_all)
  have b: "block_fits (th_pet y) (todo_block p td)" "units (todo_block p td) \<subseteq> used (th_pet y)"
  proof -
    have B: "blocks_apart (th_pet y) (th_blocks y)" using I by (simp add: threads_inv_def)
    have "owned (th_pc y t) = Some (todo_block p td)" using pc by simp
    then have "todo_block p td \<in> th_blocks y" using I unfolding threads_inv_def by blast
    then show "block_fits (th_pet y) (todo_block p td)" "units (todo_block p td) \<subseteq> used (th_pet y)"
      using blocks_apartD(2,3) [OF B] by auto
  qed
  have "call_ok (th_pet y) td" using ok pc by simp
  from work_ok [OF C(1) insertI1 C(3) b this] obtain s r where w: "work (th_pet y) p td = Inr (s, r)"
    "pet_core s P (insert p (other_hands y t))" "edits (th_pet y) p s"
    "used s = (used (th_pet y) - units (todo_block p td)) \<union> (\<Union>b\<in>set_option (outcome_block p r). units b)"
    "(used (th_pet y) - units (todo_block p td)) \<inter> (\<Union>b\<in>set_option (outcome_block p r). units b) = {}"
    "\<And>c. outcome_block p r = Some c \<Longrightarrow> block_fits (th_pet y) c" by blast
  have "threads_inv ps ((goes y t s (Handing p r))
      \<lparr>th_blocks := th_blocks y - {todo_block p td} \<union> set_option (outcome_block p r)\<rparr>)"
    by (rule edit_step [OF I w(3,2) C(2)]) (use pc w(4-6) in simp_all)
  with w(1) show ?thesis by blast
qed

lemma hand_step:
  assumes I: "threads_inv ps y" and pc: "th_pc y t = Handing p r"
  shows "\<exists>s. unhand_page (th_pet y) p = Inr s \<and> threads_inv ps (goes y t (finish p r s) Idle)"
proof -
  obtain P where C: "pet_core (th_pet y) P (insert p (other_hands y t))" "p \<notin> other_hands y t"
    "pages (th_pet y) p \<noteq> None"
    by (rule own_page [OF I, of t p]) (use pc in simp_all)
  obtain s where s: "unhand_page (th_pet y) p = Inr s" "handed_back (th_pet y) (insert p (other_hands y t)) p s"
    by (rule unhand_page_ok [OF C(1) insertI1 C(3)])
  note F = finish_views [where p = p and r = r and s = s]
  have "insert p (other_hands y t) - {p} = other_hands y t" using C(2) by simp
  then obtain P' where H: "pet_core s P' (other_hands y t)" "same_params (th_pet y) s" "used s = used (th_pet y)"
    "\<forall>q\<in>other_hands y t. bitmaps s q = bitmaps (th_pet y) q"
    using s(2) by (auto simp: handed_back_def)
  have par: "same_params (th_pet y) (finish p r s)" using same_params_trans [OF H(2) F(2)] .
  have B: "blocks_apart (th_pet y) (th_blocks y)" and o: "\<And>u b. owned (th_pc y u) = Some b \<Longrightarrow> b \<in> th_blocks y"
    using I by (auto simp: threads_inv_def)
  have "threads_inv ps ((goes y t (finish p r s) Idle)\<lparr>th_blocks := th_blocks y\<rparr>)"
  proof (rule threads_inv_step [OF I par, where P = P'])
    show "blocks_apart (finish p r s) (th_blocks y)"
      by (rule blocks_apart_cong [OF B par]) (simp add: F(3) H(3))
  qed (use F(4) [OF H(1)] H(4) F(1) o in auto)
  with s(1) show ?thesis by (auto simp: goes_def)
qed

subsection \<open>Reachable states\<close>

lemma pet_step_inv:
  assumes "pet_step mm y t z" and I: "threads_inv ps y" and mm: "mmap_ok ps mm"
  shows "threads_inv ps z"
  using assms(1)
proof cases
  case (th_allocate n clean)
  then obtain P where C: "pet_core (th_pet y) P (other_hands y t)" using no_page [OF I, of t] by auto
  show ?thesis
    unfolding th_allocate(1) by (rule lists_step [OF I same_but_lists_refl, of P]) (use C th_allocate in \<open>simp_all add: request_ok_def\<close>)
next
  case (th_call p td)
  then obtain P where C: "pet_core (th_pet y) P (other_hands y t)" using no_page [OF I, of t] by auto
  have B: "blocks_apart (th_pet y) (th_blocks y)" and o: "\<And>u b. owned (th_pc y u) = Some b \<Longrightarrow> b \<in> th_blocks y"
    using I by (auto simp: threads_inv_def)
  have "threads_inv ps ((goes y t (th_pet y) (Grabbing p td))\<lparr>th_blocks := th_blocks y\<rparr>)"
    by (rule threads_inv_step [OF I same_params_refl _ _ _ B, where P = P])
      (use C th_call o in \<open>auto simp: callable_def\<close>)
  then show ?thesis unfolding th_call(1) by (simp add: goes_def)
next
  case (th_take_lru n clean s)
  then show ?thesis using take_lru_step [OF I th_take_lru(2,3)] by auto
next
  case (th_look n clean p offset)
  then show ?thesis using look_step [OF I th_look(2)] by auto
next
  case (th_no_room n clean p lfb)
  then show ?thesis using look_step [OF I th_no_room(2)] by auto
next
  case (th_list n clean p lfb s)
  then show ?thesis using list_step [OF I th_list(2)] by auto
next
  case (th_found n clean s p offset)
  then show ?thesis using search_step [OF I, of t n clean] by (auto simp: searches_def)
next
  case (th_none n clean s)
  then show ?thesis using search_step [OF I, of t n clean] by (auto simp: searches_def)
next
  case (th_fill n clean p offset s)
  then show ?thesis using fill_step [OF I th_fill(2)] by auto
next
  case (th_no_memory n clean s)
  then show ?thesis using map_step [OF I th_no_memory(2) mm] by auto
next
  case (th_map n clean s p)
  then show ?thesis using map_step [OF I th_map(2) mm] by auto
next
  case (th_grab p td s)
  then show ?thesis
    using grab_step [OF I th_grab(2)] by auto
next
  case (th_work p td s r)
  then show ?thesis using work_step [OF I th_work(2)] by auto
next
  case (th_hand p r s)
  then show ?thesis using hand_step [OF I th_hand(2)] by auto
qed

lemma pet_runs_inv:
  assumes "pet_runs mm y z" and "threads_inv ps y" and "mmap_ok ps mm"
  shows "threads_inv ps z"
  using assms by (induction rule: pet_runs.induct) (auto intro: pet_step_inv)

text \<open>The start: the allocator with its blocks, and no thread in an operation.\<close>

definition threads_start :: "pet \<Rightarrow> ublock set \<Rightarrow> pet_threads" where
  "threads_start s B = \<lparr>th_pet = s, th_pc = (\<lambda>t. Idle), th_blocks = B\<rparr>"

lemma threads_start_inv:
  assumes "pet_inv s" and "blocks_apart s B"
  shows "threads_inv (sys_page_size s) (threads_start s B)"
  using assms by (auto simp: threads_inv_def threads_start_def hands_def pet_inv_def)

lemma reachable_inv:
  assumes "pet_inv s" and "blocks_apart s B" and "mmap_ok (sys_page_size s) mm"
    and "pet_runs mm (threads_start s B) y"
  shows "threads_inv (sys_page_size s) y"
  by (rule pet_runs_inv [OF assms(4) threads_start_inv [OF assms(1,2)] assms(3)])

subsection \<open>No deadlock\<close>

text \<open>How many steps an operation can still take.\<close>

fun steps_left :: "pet_pc \<Rightarrow> nat" where
  "steps_left Idle = 0"
| "steps_left (Handing p r) = 1"
| "steps_left (Working p td) = 2"
| "steps_left (Grabbing p td) = 3"
| "steps_left (Filling n clean p offset) = 2"
| "steps_left (Mapping n clean) = 2"
| "steps_left (Searching n clean) = 3"
| "steps_left (Listing n clean p lfb) = 4"
| "steps_left (Has_lru n clean p) = 5"
| "steps_left (Seeking n clean) = 6"

lemma step_leaves_others: "pet_step mm y t z \<Longrightarrow> u \<noteq> t \<Longrightarrow> th_pc z u = th_pc y u"
  by (induction rule: pet_step.induct) simp_all

lemma step_comes_nearer: "pet_step mm y t z \<Longrightarrow> th_pc y t \<noteq> Idle \<Longrightarrow> steps_left (th_pc z t) < steps_left (th_pc y t)"
  by (induction rule: pet_step.induct) auto

lemma search_enabled:
  assumes "threads_inv ps y" and "searches y t n clean"
  shows "\<exists>z. pet_step mm y t z"
  using search_step [OF assms] th_found [OF assms(2) [unfolded searches_def]] th_none [OF assms(2) [unfolded searches_def]]
  by blast

lemma active_steps:
  assumes I: "threads_inv ps y" and mm: "mmap_ok ps mm" and "th_pc y t \<noteq> Idle"
  shows "(\<exists>z. pet_step mm y t z) \<or>
    (\<exists>p td u. th_pc y t = Grabbing p td \<and> u \<noteq> t \<and> in_hand (th_pc y u) = Some p)"
proof (cases "th_pc y t")
  case (Seeking n clean)
  show ?thesis
  proof (cases "lru_page (th_pet y) = 0")
    case True
    then have "searches y t n clean" using Seeking by (simp add: searches_def)
    then show ?thesis using search_enabled [OF I] by blast
  next
    case False
    then show ?thesis using take_lru_step [OF I Seeking] th_take_lru [OF Seeking] by blast
  qed
next
  case (Has_lru n clean p)
  then show ?thesis using look_step [OF I Has_lru] th_look th_no_room by blast
next
  case (Listing n clean p lfb)
  then show ?thesis using list_step [OF I Listing] th_list by blast
next
  case (Searching n clean)
  then have "searches y t n clean" by (simp add: searches_def)
  then show ?thesis using search_enabled [OF I] by blast
next
  case (Filling n clean p offset)
  then show ?thesis using fill_step [OF I Filling] th_fill by blast
next
  case (Mapping n clean)
  then show ?thesis using map_step [OF I Mapping mm] th_map th_no_memory by blast
next
  case (Grabbing p td)
  then show ?thesis using grab_step [OF I Grabbing] th_grab by blast
next
  case (Working p td)
  then show ?thesis using work_step [OF I Working] th_work by blast
next
  case (Handing p r)
  then show ?thesis using hand_step [OF I Handing] th_hand by blast
qed (use assms(3) in simp)

text \<open>A thread that waits is waiting for one that can go on.\<close>

lemma threads_progress:
  assumes I: "threads_inv ps y" and mm: "mmap_ok ps mm" and t: "th_pc y t \<noteq> Idle"
  shows "\<exists>u z. pet_step mm y u z \<and> steps_left (th_pc z u) < steps_left (th_pc y u) \<and>
    (u = t \<or> (\<exists>p td. th_pc y t = Grabbing p td \<and> in_hand (th_pc y u) = Some p \<and> steps_left (th_pc y u) \<le> 5))"
proof -
  have nearer: "\<exists>z. pet_step mm y u z \<and> steps_left (th_pc z u) < steps_left (th_pc y u)"
    if "\<exists>z. pet_step mm y u z" "th_pc y u \<noteq> Idle" for u
    using that step_comes_nearer by blast
  show ?thesis
    using active_steps [OF I mm t]
  proof (elim disjE exE conjE)
    fix z assume "pet_step mm y t z"
    then show ?thesis using nearer [of t] t by blast
  next
    fix p td u assume w: "th_pc y t = Grabbing p td" "u \<noteq> t" "in_hand (th_pc y u) = Some p"
    then have u: "th_pc y u \<noteq> Idle" "steps_left (th_pc y u) \<le> 5" by (cases "th_pc y u"; simp)+
    have "\<exists>z. pet_step mm y u z"
      using active_steps [OF I mm u(1)] w(3) by auto
    then show ?thesis using nearer [OF _ u(1)] u(2) w by blast
  qed
qed

end
