(* ===== verification/Pet_Threads_Bytes.thy ===== *)
theory Pet_Threads_Bytes
  imports Pet_Threads_Steps Pet_Properties
begin

text \<open>
  The bytes of the blocks while any number of threads allocate, release and resize others. A step writes to
  memory only when it cleans the block it is about to return; so the bytes of a block stay the same as long
  as no operation on it makes a step.
\<close>

subsection \<open>What the sections leave alone\<close>

named_theorems mem_kept

lemma mem_write_page [mem_kept]: "write_page s p f = Inr t \<Longrightarrow> mem t = mem s"
  by (auto simp: write_page_def split: option.splits)

lemma mem_set_head [mem_kept]: "set_head s l p = Inr t \<Longrightarrow> mem t = mem s"
  by (cases l) (auto split: if_splits)

lemma mem_add_to_list [mem_kept]: "add_to_list s l p = Inr t \<Longrightarrow> mem t = mem s"
  by (auto simp: add_to_list_def bindE_Inr_iff split: if_splits dest!: mem_kept)

lemma mem_delete_from_list [mem_kept]: "delete_from_list s p = Inr t \<Longrightarrow> mem t = mem s"
  by (auto simp: delete_from_list_def bindE_Inr_iff split: if_splits dest!: mem_kept)

lemma mem_add_to_superblock_entry [mem_kept]: "add_to_superblock_entry s p lfb = Inr t \<Longrightarrow> mem t = mem s"
  by (auto simp: add_to_superblock_entry_def dest!: mem_kept)

lemma mem_change_bits [mem_kept]: "change_bits f s p offset n = Inr t \<Longrightarrow> mem t = mem s"
  by (auto simp: change_bits_def bindE_Inr_iff dest!: mem_kept)

lemma mem_grab_page [mem_kept]: "grab_page s p = Inr t \<Longrightarrow> mem t = mem s"
  by (auto simp: grab_page_def bindE_Inr_iff split: if_splits option.splits dest!: mem_kept)

lemma mem_unhand_page [mem_kept]: "unhand_page s p = Inr t \<Longrightarrow> mem t = mem s"
  by (auto simp: unhand_page_def bindE_Inr_iff Let_def call_munmap_def split: if_splits dest!: mem_kept)

lemma mem_search_superblock [mem_kept]: "search_superblock s n i k = Inr (t, found) \<Longrightarrow> mem t = mem s"
  by (induction s n i k arbitrary: t found rule: search_superblock.induct)
    (auto simp: search_superblock.simps bindE_Inr_iff Let_def split: if_splits dest!: mem_kept)

lemma mem_map_page [mem_kept]: "map_page mm s n = Inr (t, p) \<Longrightarrow> mem t = mem s"
  by (auto simp: map_page_def call_mmap_def bindE_Inr_iff Let_def split: if_splits dest!: mem_kept)

lemma mem_work [mem_kept]: "work s p td = Inr (t, r) \<Longrightarrow> mem t = mem s"
  by (cases td) (auto simp: bindE_Inr_iff Let_def split: if_splits dest!: mem_kept)

subsection \<open>The bytes of small blocks\<close>

fun small_bytes :: "ublock \<Rightarrow> u64 set" where
  "small_bytes (p, offset, n) =
     {x. unat p + 16 * unat offset \<le> unat x \<and> unat x < unat p + 16 * (unat offset + unat n)}"

lemma small_bytes_units:
  assumes g: "geometry s" "pages_ok s" and B: "blocks_apart s B" "b \<in> B" and x: "x \<in> small_bytes b"
  shows "unit_of s x \<in> units b" and "pages s (bm_page_by_addr s x) \<noteq> None"
proof -
  obtain p offset n where b: "b = (p, offset, n)" by (cases b)
  note fits = blocks_apartD(2) [OF B, unfolded b, simplified]
  have p: "pages s p \<noteq> None" using block_page [OF B(1)] B(2) b by blast
  then have "page_at s p" using g(2) by (auto simp: pages_ok_def bitmaps_def)
  then have "unat (sys_page_size s) dvd unat p" by (simp add: page_at_def)
  note U = unit_range [OF g(1) this, of "unat offset" "unat n" x]
  show "unit_of s x \<in> units b" "pages s (bm_page_by_addr s x) \<noteq> None"
    using U fits x p by (simp_all add: b)
qed

lemma small_bytes_apart:
  assumes "geometry s" "pages_ok s" and "blocks_apart s B" and "b \<in> B" "c \<in> B" "b \<noteq> c"
  shows "small_bytes b \<inter> small_bytes c = {}"
proof -
  have "units b \<inter> units c = {}" by (rule blocks_apartD(4) [OF assms(3-6)])
  then show ?thesis
    using small_bytes_units(1) [OF assms(1-3)] assms(4,5) by (meson disjoint_iff)
qed

text \<open>The bytes that the next step of a thread sets to zero.\<close>

fun cleaned :: "pet_pc \<Rightarrow> u64 set" where
  "cleaned (Handing p (Got offset n True fresh)) = small_bytes (p, offset, n)"
| "cleaned _ = {}"

lemma cleaned_owned: "x \<in> cleaned pc \<Longrightarrow> \<exists>b. owned pc = Some b \<and> x \<in> small_bytes b"
  by (cases pc rule: cleaned.cases) auto

lemma mem_finish:
  assumes g: "geometry s" and p: "page_at s p" and b: "block_fits s (p, offset, n)"
  shows "mem (finish p (Got offset n clean fresh) t) =
    (\<lambda>x. if x \<in> cleaned (Handing p (Got offset n clean fresh)) then 0 else mem t x)"
proof -
  note G = geometry_bounds [OF g]
  have n: "0 < unat n" "unat offset + unat n \<le> unat (units_per_page s)"
    using b by (simp_all add: word_less_nat_alt)
  then have o: "unat offset < unat (units_per_page s)" by linarith
  have o0: "0 < unat offset" using b by (intro order_less_le_trans [OF G(4)]) simp
  note A = unit_addr_facts [OF g p o]
  have n16: "unat (n * 16) = 16 * unat n"
    using n(2) G(2) unat_u32_bound [of "sys_page_size s"] by (subst unat_mult_exact) simp_all
  have "16 * unat offset + 16 * unat n \<le> unat (sys_page_size s)" using n(2) unfolding G(2) by simp
  then have "unat (unit_addr p offset) + 16 * unat n \<le> 2 ^ 64" using p unfolding A(1) by (simp add: page_at_def)
  then have c: "cleanse m (unit_addr p offset) 0 (n * 16) =
      zero_range m (unat p + 16 * unat offset) (unat p + 16 * (unat offset + unat n))" for m
    by (subst cleanse_eq) (simp_all add: n16 A(1) algebra_simps)
  show ?thesis
    using A(4) [OF o0] c
    by (cases clean) (auto simp: bm_allocate_out_def Let_def unit_addr_def zero_range_def fun_eq_iff)
qed

lemma step_memory:
  assumes st: "pet_step mm y t z" and I: "threads_inv ps y"
  shows "mem (th_pet z) = (\<lambda>x. if x \<in> cleaned (th_pc y t) then 0 else mem (th_pet y) x)"
  using st
proof cases
  case (th_hand p r s)
  have m: "mem s = mem (th_pet y)" using th_hand(3) by (rule mem_kept)
  show ?thesis
  proof (cases r)
    case (Got offset n clean fresh)
    obtain P where P: "pet_core (th_pet y) P (insert p (other_hands y t))" "pages (th_pet y) p \<noteq> None"
      by (rule own_page [OF I, of t p]) (use th_hand(2) in simp_all)
    have own: "owned (th_pc y t) = Some (p, offset, n)" using th_hand(2) Got by simp
    have b: "block_fits (th_pet y) (p, offset, n)"
      by (rule threads_invD [OF I]) (use own blocks_apartD(2) in blast)
    have "page_at (th_pet y) p" using pet_coreD(3) [OF P(1)] P(2) by (auto simp: pages_ok_def bitmaps_def)
    then show ?thesis
      using mem_finish [OF pet_coreD(1) [OF P(1)] _ b, of clean fresh s]
      unfolding th_hand(1,2) Got m by simp
  qed (use th_hand m in simp_all)
qed (auto dest!: mem_kept)

end
