(* ===== verification/Pet_Program.thy ===== *)
theory Pet_Program
  imports Pet_Threads_Bytes
begin

text \<open>
  The whole bitmap allocator in a program of any number of threads. Small blocks go through the steps of
  \<open>Pet_Threads\<close>. A block that is mapped directly costs one call of the kernel, so \<open>_allocate\<close>, \<open>_release\<close>
  and \<open>_reallocate\<close> of large blocks are single steps, by the functions of \<open>Pet_Allocator\<close>; counting blocks
  and cleaning memory that no other thread can know yet are joined to them. Between its calls a thread may
  write into live blocks: this is what callers do, and what \<open>_reallocate\<close> does when it copies or cleans.

  A call of \<open>_reallocate\<close> on a small block is a sequence of such steps of its thread: \<open>bm_shrink\<close>;
  \<open>bm_grow\<close> and writing zeroes; or, to move the block, an allocation, copying, and a release. The branch
  from a large block to a small one is left out, as in the sequential contract: it releases a page header
  that is not there.

  \<open>pr_large\<close> is the set of the large blocks, an address and the size it was asked for with. The code does
  not have it.
\<close>

record pet_program =
  pr_threads :: pet_threads
  pr_large :: "block set"

datatype live_block = Small ublock | Large block

fun live_bytes :: "live_block \<Rightarrow> u64 set" where
  "live_bytes (Small b) = small_bytes b"
| "live_bytes (Large b) = block_bytes b"

definition live :: "pet_program \<Rightarrow> live_block set" where
  "live w = Small ` th_blocks (pr_threads w) \<union> Large ` pr_large w"

text \<open>Blocks that a call under way has taken over or is about to return.\<close>

definition in_call :: "pet_program \<Rightarrow> nat \<Rightarrow> live_block set" where
  "in_call w t = Small ` set_option (owned (th_pc (pr_threads w) t))"

definition with_pet :: "pet_program \<Rightarrow> pet \<Rightarrow> pet_program" where
  "with_pet w s = w\<lparr>pr_threads := (pr_threads w)\<lparr>th_pet := s\<rparr>\<rparr>"

abbreviation pr_pet :: "pet_program \<Rightarrow> pet" where
  "pr_pet w \<equiv> th_pet (pr_threads w)"

text \<open>A step of thread \<open>t\<close> that is about the blocks \<open>W\<close>.\<close>

inductive program_step ::
  "mmap_fun \<Rightarrow> mremap_fun \<Rightarrow> pet_program \<Rightarrow> nat \<Rightarrow> live_block set \<Rightarrow> pet_program \<Rightarrow> bool" for mm mr where
  pr_small: "pet_step mm (pr_threads w) t y \<Longrightarrow> program_step mm mr w t (in_call w t) (w\<lparr>pr_threads := y\<rparr>)"
| pr_allocate: "th_pc (pr_threads w) t = Idle \<Longrightarrow> sized (pr_pet w) n \<Longrightarrow> \<not> small (pr_pet w) n \<Longrightarrow>
     pet_allocate mm (pr_pet w) n clean = Inr (s, a) \<Longrightarrow>
     program_step mm mr w t {}
       ((with_pet w s)\<lparr>pr_large := if a = 0 then pr_large w else insert (a, n) (pr_large w)\<rparr>)"
| pr_release: "th_pc (pr_threads w) t = Idle \<Longrightarrow> (a, n) \<in> pr_large w \<Longrightarrow>
     pet_release (pr_pet w) a n = Inr (s, p) \<Longrightarrow>
     program_step mm mr w t {Large (a, n)} ((with_pet w s)\<lparr>pr_large := pr_large w - {(a, n)}\<rparr>)"
| pr_reallocate: "th_pc (pr_threads w) t = Idle \<Longrightarrow> (a, old) \<in> pr_large w \<Longrightarrow> sized (pr_pet w) new \<Longrightarrow>
     \<not> small (pr_pet w) new \<Longrightarrow> pet_reallocate mm mr (pr_pet w) a old new clean = Inr (s, p, changed, ok) \<Longrightarrow>
     program_step mm mr w t {Large (a, old)}
       ((with_pet w s)\<lparr>pr_large := if ok then insert (p, new) (pr_large w - {(a, old)}) else pr_large w\<rparr>)"
| pr_write: "th_pc (pr_threads w) t = Idle \<Longrightarrow> b \<in> live w \<Longrightarrow> \<forall>u. b \<notin> in_call w u \<Longrightarrow> x \<in> live_bytes b \<Longrightarrow>
     program_step mm mr w t {b} (with_pet w ((pr_pet w)\<lparr>mem := (mem (pr_pet w))(x := v)\<rparr>))"

inductive program_runs :: "mmap_fun \<Rightarrow> mremap_fun \<Rightarrow> pet_program \<Rightarrow> pet_program \<Rightarrow> bool" for mm mr where
  pr_start: "program_runs mm mr w w"
| pr_next: "program_runs mm mr v w \<Longrightarrow> program_step mm mr w t W x \<Longrightarrow> program_runs mm mr v x"

text \<open>Runs in which no step is about the block \<open>b\<close>.\<close>

inductive runs_beside :: "mmap_fun \<Rightarrow> mremap_fun \<Rightarrow> live_block \<Rightarrow> pet_program \<Rightarrow> pet_program \<Rightarrow> bool" for mm mr b where
  rb_start: "runs_beside mm mr b w w"
| rb_next: "runs_beside mm mr b v w \<Longrightarrow> program_step mm mr w t W x \<Longrightarrow> b \<notin> W \<Longrightarrow> runs_beside mm mr b v x"

text \<open>The allocator as \<open>_init\<close> leaves it, before any call.\<close>

definition program_start :: "pet \<Rightarrow> pet_program" where
  "program_start s = \<lparr>pr_threads = threads_start s {}, pr_large = {}\<rparr>"

subsection \<open>Large blocks beside the pages of small ones\<close>

text \<open>
  The mappings as the large blocks see them: every page with a header is one more large block, of one page.
  What has been shown of the functions in one thread then says that they leave the other large blocks, and
  the pages of the sub-allocator, as they were.
\<close>

definition large_view :: "pet \<Rightarrow> pet" where
  "large_view s = s\<lparr>pages := (\<lambda>p. None), lru_page := 0, superblock := replicate (length (superblock s)) 0\<rparr>"

definition with_large :: "pet \<Rightarrow> pet \<Rightarrow> pet" where
  "with_large s t = s\<lparr>mapped := mapped t, mem := mem t, blocks_allocated := blocks_allocated t\<rparr>"

definition page_blocks :: "pet \<Rightarrow> block set" where
  "page_blocks s = {(p, sys_page_size s) | p. pages s p \<noteq> None}"

definition large_ok :: "pet \<Rightarrow> block set \<Rightarrow> bool" where
  "large_ok s L \<longleftrightarrow> (\<forall>b\<in>L. shape s b \<and> \<not> small s (snd b) \<and> pages_of s b \<subseteq> direct_pages s) \<and>
     (\<forall>b\<in>L. \<forall>c\<in>L. b \<noteq> c \<longrightarrow> pages_of s b \<inter> pages_of s c = {})"

lemma large_view_params: "same_params s (large_view s)"
  by (simp add: large_view_def same_params_def)

lemma with_large_params: "same_params s (with_large s t)"
  by (simp add: with_large_def same_params_def)

lemma mem_with_large [simp]: "mem (with_large s t) = mem t"
  by (simp add: with_large_def)

lemma large_units: "\<not> small s (snd b) \<Longrightarrow> units_of s b = {}"
  by (cases b) (simp add: units_of.simps)

lemma large_okD:
  assumes "large_ok s L" and "b \<in> L"
  shows "shape s b" and "\<not> small s (snd b)" and "pages_of s b \<subseteq> direct_pages s"
    and "c \<in> L \<Longrightarrow> b \<noteq> c \<Longrightarrow> pages_of s b \<inter> pages_of s c = {}"
  using assms by (auto simp: large_ok_def)

lemma header_page:
  assumes "pet_core s P A" and "pages s p \<noteq> None"
  shows "page_at s p" and "p \<noteq> 0"
proof -
  note D = pet_coreD [OF assms(1)]
  show "page_at s p" using D(3) assms(2) by (auto simp: pages_ok_def bitmaps_def)
  show "p \<noteq> 0" using ringsD(1) [OF D(2)] assms(2) by metis
qed

lemma page_block:
  assumes g: "geometry s" and p: "page_at s p" "p \<noteq> 0"
  shows "shape s (p, sys_page_size s)" and "\<not> small s (sys_page_size s)"
    and "pages_of s (p, sys_page_size s) = {p}"
proof -
  note G = geometry_bounds [OF g]
  obtain k where k: "unat (sys_page_size s) = 2 ^ k" by (rule geometry_page_size [OF g])
  have ps: "0 < unat (sys_page_size s)" using k by simp
  obtain j where "j \<le> 31" "unat (sys_page_size s) = 2 ^ j" using g unfolding geometry_def by blast
  then have "unat (sys_page_size s) \<le> 2 ^ 31" using power_increasing [of j 31 "2::nat"] by simp
  then have sz: "sized s (sys_page_size s)" using ps by (auto simp: sized_def)
  have "unat (page_size_of s (sys_page_size s)) = round_up k (unat (sys_page_size s))"
    unfolding page_size_of_def align_unsigned_to_page_def
    by (rule align_unsigned_pow2) (use k sz in \<open>simp_all add: sized_def\<close>)
  moreover have "round_up k (unat (sys_page_size s)) = unat (sys_page_size s)"
    by (intro antisym round_up_ge round_up_least) (simp_all add: k)
  ultimately have e: "page_size_of s (sys_page_size s) = sys_page_size s" by (simp add: unat_eq_iff)
  have "unat (bytes_to_units (sys_page_size s)) = unat (units_per_page s)"
    using sized_units(1) [OF g sz] G(2) by simp
  then show ns: "\<not> small s (sys_page_size s)" using G(4,6) by (simp add: small_def word_less_nat_alt)
  show "shape s (p, sys_page_size s)" using ns sz p by (simp add: shape.simps e page_at_def)
  show "pages_of s (p, sys_page_size s) = {p}" using ns ps by (simp add: pages_of.simps e page_range_one)
qed

lemma large_heap:
  assumes C: "pet_core s P A" and L: "large_ok s L"
  shows "heap_ok (large_view s) (L \<union> page_blocks s)"
proof -
  note D = pet_coreD [OF C]
  note par = block_cong [OF large_view_params [of s]]
  have hd: "shape s b" "\<not> small s (snd b)" "pages_of s b = {fst b}" "fst b \<in> mapped s" "pages s (fst b) \<noteq> None"
    if b: "b \<in> page_blocks s" for b
  proof -
    obtain p where p: "b = (p, sys_page_size s)" "pages s p \<noteq> None" using b unfolding page_blocks_def by blast
    then show "shape s b" "\<not> small s (snd b)" "pages_of s b = {fst b}" "fst b \<in> mapped s" "pages s (fst b) \<noteq> None"
      using page_block [OF D(1) header_page [OF C p(2)]] header_page(1) [OF C p(2)] by (simp_all add: page_at_def)
  qed
  have all: "shape s b \<and> pages_of s b \<subseteq> mapped s \<and> units_of s b = {}" if "b \<in> L \<union> page_blocks s" for b
    using that large_okD(1-3) [OF L, of b] hd(1-4) [of b] large_units [of s b] by (auto simp: direct_pages_def)
  have cross: "pages_of s b \<inter> pages_of s c = {}" if "b \<in> L" "c \<in> page_blocks s" for b c
    using large_okD(3) [OF L that(1)] hd(3,5) [OF that(2)] by (auto simp: direct_pages_def)
  have apart: "pages_of s b \<inter> pages_of s c = {}"
    if "b \<in> L \<union> page_blocks s" "c \<in> L \<union> page_blocks s" "b \<noteq> c" for b c
  proof -
    have "pages_of s b \<inter> pages_of s c = {}" if "b \<in> page_blocks s" "c \<in> page_blocks s"
      using hd(3) that \<open>b \<noteq> c\<close> by (auto simp: page_blocks_def)
    then show ?thesis
      using that large_okD(4) [OF L] cross [of b c] cross [of c b] by blast
  qed
  have "head (large_view s) l = 0" for l by (cases l) (simp_all add: large_view_def)
  then have "rings (large_view s) {}" by (simp add: rings_def large_view_def view_defs)
  moreover have "pages_ok (large_view s)" "labels_ok (large_view s)"
    by (simp_all add: pages_ok_def labels_ok_def large_view_def view_defs)
  ultimately have "pet_core (large_view s) {} {}"
    using D(1,6) same_params_eqs(1) [OF large_view_params] by (simp add: pet_core_def large_view_def)
  then have inv: "pet_inv (large_view s)" by (auto simp: pet_inv_def)
  have u: "used (large_view s) = {}" by (simp add: used_def bitmaps_def large_view_def)
  have d: "direct_pages (large_view s) = mapped s" by (simp add: direct_pages_def large_view_def)
  show ?thesis
    unfolding heap_ok_def par u d using inv all apart by blast
qed

text \<open>Back: what the large blocks and the mappings have become.\<close>

lemma large_ok_back:
  assumes H: "heap_ok t (L \<union> page_blocks s)" and par: "same_params s t"
    and L: "\<forall>b\<in>L. \<not> small s (snd b)" "L \<inter> page_blocks s = {}"
    and C: "pet_core s P A"
  shows "large_ok (with_large s t) L" and "pages s p \<noteq> None \<Longrightarrow> p \<in> mapped t"
proof -
  note D = pet_coreD [OF C]
  note B = block_cong [OF with_large_params [of s t]] and T = block_cong [OF par]
  have pg: "pages_of s (p, sys_page_size s) = {p}" if "pages s p \<noteq> None" for p
    by (rule page_block(3) [OF D(1) header_page [OF C that]])
  have hd: "(p, sys_page_size s) \<in> page_blocks s" if "pages s p \<noteq> None" for p
    using that by (auto simp: page_blocks_def)
  show "p \<in> mapped t" if "pages s p \<noteq> None"
    using heap_okD(4) [OF H, of "(p, sys_page_size s)"] hd [OF that] pg [OF that]
    by (auto simp: T direct_pages_def)
  have sub: "pages_of s b \<subseteq> direct_pages (with_large s t)" if b: "b \<in> L" for b
  proof
    fix p assume p: "p \<in> pages_of s b"
    have "p \<in> mapped t" using heap_okD(4) [OF H, of b] b p by (auto simp: T direct_pages_def)
    moreover have "pages s p = None"
    proof (rule ccontr)
      assume n: "pages s p \<noteq> None"
      have "b \<noteq> (p, sys_page_size s)" using hd [OF n] b L(2) by blast
      then have "pages_of s b \<inter> pages_of s (p, sys_page_size s) = {}"
        using heap_okD(8) [OF H, of b "(p, sys_page_size s)"] b hd [OF n] by (simp add: T)
      then show False using p pg [OF n] by simp
    qed
    ultimately show "p \<in> direct_pages (with_large s t)" by (simp add: direct_pages_def with_large_def)
  qed
  show "large_ok (with_large s t) L"
    unfolding large_ok_def B
    using heap_okD(3,8) [OF H] L(1) sub by (auto simp: T)
qed

end
