(* ===== verification/Pet_Program_Invariant.thy ===== *)
theory Pet_Program_Invariant
  imports Pet_Program
begin

text \<open>
  The invariant of a program of threads: the invariant of the sub-allocator, and large blocks that own
  their pages beside it. Calls for large blocks do the same in the presence of the sub-allocator as without.
\<close>

subsection \<open>Calls for large blocks\<close>

lemma with_large_self: "with_large s (large_view s) = s"
  by (simp add: with_large_def large_view_def)

lemma beside_allocate:
  assumes "\<not> small s n" and "pet_allocate mm (large_view s) n clean = Inr (t, a)"
  shows "pet_allocate mm s n clean = Inr (with_large s t, a)"
  using assms
  by (auto simp: pet_allocate_def small_def Let_def call_mmap_def with_large_def large_view_def split: if_splits)

lemma beside_release:
  assumes "\<not> small s n" "n \<noteq> 0" "a \<noteq> 0" "bm_page_by_addr s a = a"
    and "page_range (sys_page_size s) a (page_size_of s n) \<subseteq> direct_pages s"
    and r: "pet_release (large_view s) a n = Inr (t, p)"
  shows "pet_release s a n = Inr (with_large s t, p)"
proof -
  let ?R = "page_range (sys_page_size s) a (page_size_of s n)"
  have "(\<lambda>q. if q \<in> ?R then None else pages s q) = pages s"
    using assms(5) by (auto simp: direct_pages_def fun_eq_iff)
  then show ?thesis
    using assms(1-4) r
    by (auto simp: pet_release_def call_munmap_def page_size_of_def Let_def with_large_def large_view_def
        bm_page_by_addr_def)
qed

lemma beside_mremap:
  assumes "call_mremap mr (large_view s) a old new clean = (t, p)"
  shows "call_mremap mr s a old new clean = (with_large s t, p)"
proof -
  let ?o = "align_unsigned_to_page (sys_page_size s) old" and ?n = "align_unsigned_to_page (sys_page_size s) new"
  have v: "sys_page_size (large_view s) = sys_page_size s" "mapped (large_view s) = mapped s"
    "mem (large_view s) = mem s" "with_large s (large_view s) = s"
    "with_large s ((large_view s)\<lparr>mem := m\<rparr>) = s\<lparr>mem := m\<rparr>"
    "with_large s ((large_view s)\<lparr>mapped := M, mem := m\<rparr>) = s\<lparr>mapped := M, mem := m\<rparr>" for m M
    by (simp_all add: large_view_def with_large_def)
  let ?both = "\<lambda>u. call_mremap mr u a old new clean"
  have "?both s = map_prod (with_large s) id (?both (large_view s))"
  proof (cases "?n = ?o")
    case True
    then show ?thesis by (cases clean; cases "new > old") (simp_all add: call_mremap_def v)
  next
    case False
    then show ?thesis
      by (cases "mr (mapped s) a ?o ?n = 0"; cases "?n > ?o") (simp_all add: call_mremap_def v Let_def)
  qed
  then show ?thesis using assms by simp
qed

lemma beside_reallocate:
  assumes "\<not> small s old" "\<not> small s new" "a \<noteq> 0" "bm_page_by_addr s a = a"
    and r: "pet_reallocate mm mr (large_view s) a old new clean = Inr (t, p, changed, ok)"
  shows "pet_reallocate mm mr s a old new clean = Inr (with_large s t, p, changed, ok)"
proof -
  have v: "bm_page_by_addr (large_view s) a = a" "max_data_units (large_view s) = max_data_units s"
    "mem (large_view s) = mem s" "with_large s ((large_view s)\<lparr>mem := m\<rparr>) = s\<lparr>mem := m\<rparr>" for m
    using assms(4) by (simp_all add: large_view_def bm_page_by_addr_def with_large_def)
  obtain t1 p1 where 1: "call_mremap mr (large_view s) a old new clean = (t1, p1)" by fastforce
  obtain t2 p2 where 2: "call_mremap mr (large_view s) a old new False = (t2, p2)" by fastforce
  show ?thesis
    using r assms(1-4) beside_mremap [OF 1] beside_mremap [OF 2] 1 2
    by (auto simp: pet_reallocate_def pet_shrink_def pet_grow_def pet_remap_def small_def Let_def v
        with_large_self split: if_splits)
qed

subsection \<open>The sub-allocator leaves the large blocks alone\<close>

named_theorems direct_kept

definition outline :: "pet \<Rightarrow> u64 set \<times> u32 \<times> u32 \<times> u32 \<times> u32 \<times> nat" where
  "outline s = (direct_pages s, sys_page_size s, units_per_page s, bm_page_header_size_in_units s,
     max_data_units s, length (superblock s))"

lemma outline_iff: "outline t = outline s \<longleftrightarrow> same_params s t \<and> direct_pages t = direct_pages s"
  by (auto simp: outline_def same_params_def)

lemma direct_write_page [direct_kept]: "write_page s p f = Inr t \<Longrightarrow> outline t = outline s"
  by (auto simp: write_page_def outline_def direct_pages_def split: option.splits if_splits)

lemma direct_set_head [direct_kept]: "set_head s l p = Inr t \<Longrightarrow> outline t = outline s"
  by (cases l) (auto simp: outline_def direct_pages_def split: if_splits)

lemma direct_add_to_list [direct_kept]: "add_to_list s l p = Inr t \<Longrightarrow> outline t = outline s"
  by (auto simp: add_to_list_def bindE_Inr_iff split: if_splits dest!: direct_kept)

lemma direct_add_to_superblock_entry [direct_kept]: "add_to_superblock_entry s p lfb = Inr t \<Longrightarrow> outline t = outline s"
  by (simp add: add_to_superblock_entry_def direct_add_to_list)

lemma direct_delete_from_list [direct_kept]: "delete_from_list s p = Inr t \<Longrightarrow> outline t = outline s"
  by (auto simp: delete_from_list_def bindE_Inr_iff split: if_splits dest!: direct_kept)

lemma direct_change_bits [direct_kept]: "change_bits f s p offset n = Inr t \<Longrightarrow> outline t = outline s"
  by (auto simp: change_bits_def bindE_Inr_iff dest!: direct_kept)

lemma direct_grab_page [direct_kept]: "grab_page s p = Inr t \<Longrightarrow> outline t = outline s"
  by (auto simp: grab_page_def bindE_Inr_iff split: if_splits option.splits dest!: direct_kept)

lemma direct_search_superblock [direct_kept]: "search_superblock s n i k = Inr (t, found) \<Longrightarrow> outline t = outline s"
  by (induction s n i k arbitrary: t found rule: search_superblock.induct)
    (auto simp: search_superblock.simps bindE_Inr_iff Let_def split: if_splits dest!: direct_kept)

lemma direct_work [direct_kept]: "work s p td = Inr (t, r) \<Longrightarrow> outline t = outline s"
  by (cases td) (auto simp: bindE_Inr_iff Let_def split: if_splits dest!: direct_kept)

lemma direct_finish [simp]: "outline (finish p r s) = outline s"
  by (cases r) (simp_all add: bm_allocate_out_def Let_def outline_def direct_pages_def)

text \<open>A fresh page is not one of those that are mapped.\<close>

lemma direct_map_page:
  assumes "map_page mm s n = Inr (t, p)" and mm: "mmap_ok (sys_page_size s) mm" and ps: "0 < unat (sys_page_size s)"
  shows "outline t = outline s"
proof (cases "mm (mapped s) (sys_page_size s) = 0")
  case True
  then show ?thesis using assms(1) by (simp add: map_page_def call_mmap_def)
next
  case False
  let ?p = "mm (mapped s) (sys_page_size s)"
  have new: "?p \<notin> mapped s" using mmap_okD(3) [OF mm False] page_range_self [OF ps ps, of ?p] by auto
  then have "outline (s\<lparr>mapped := insert ?p (mapped s), pages := (pages s)(?p \<mapsto> pg)\<rparr>) = outline s" for pg
    by (auto simp: outline_def direct_pages_def)
  then show ?thesis
    using assms(1) False
    by (auto simp: map_page_def call_mmap_def bindE_Inr_iff Let_def page_range_one [OF ps] dest!: direct_change_bits)
qed

lemma step_keeps:
  assumes st: "pet_step mm y t z" and I: "threads_inv ps y" and mm: "mmap_ok ps mm"
  shows "same_params (th_pet y) (th_pet z)" and "direct_pages (th_pet z) = direct_pages (th_pet y)"
proof -
  obtain P where C: "pet_core (th_pet y) P (hands y)" by (rule threads_invD [OF I])
  have e: "sys_page_size (th_pet y) = ps" using I by (simp add: threads_inv_def)
  have ps: "0 < unat (sys_page_size (th_pet y))" using geometry_bounds(2,5) [OF pet_coreD(1) [OF C]] by simp
  have "outline (th_pet z) = outline (th_pet y)"
    using st
  proof cases
    case (th_hand p r s)
    obtain P where P: "pet_core (th_pet y) P (insert p (other_hands y t))" "pages (th_pet y) p \<noteq> None"
      by (rule own_page [OF I, of t p]) (use th_hand(2) in simp_all)
    obtain s' where s': "unhand_page (th_pet y) p = Inr s'" "handed_back (th_pet y) (insert p (other_hands y t)) p s'"
      by (rule unhand_page_ok [OF P(1) insertI1 P(2)])
    then have "outline s = outline (th_pet y)"
      using th_hand(3) unfolding outline_iff by (simp add: handed_back_def)
    then show ?thesis by (simp add: th_hand(1))
  next
    case (th_no_memory n clean s)
    then show ?thesis using direct_map_page [OF th_no_memory(3)] mm e ps by simp
  next
    case (th_map n clean s p)
    then show ?thesis using direct_map_page [OF th_map(3)] mm e ps by simp
  qed (auto dest!: direct_kept)
  then show "same_params (th_pet y) (th_pet z)" "direct_pages (th_pet z) = direct_pages (th_pet y)"
    unfolding outline_iff by blast+
qed

subsection \<open>The invariant\<close>

declare small_bytes.simps [simp del]

lemma live_simps [simp]:
  "Small u \<in> live w \<longleftrightarrow> u \<in> th_blocks (pr_threads w)" "Large l \<in> live w \<longleftrightarrow> l \<in> pr_large w"
  by (auto simp: live_def)

definition program_inv :: "u32 \<Rightarrow> pet_program \<Rightarrow> bool" where
  "program_inv ps w \<longleftrightarrow> threads_inv ps (pr_threads w) \<and> large_ok (pr_pet w) (pr_large w)"

lemma program_invD:
  assumes "program_inv ps w"
  obtains P where "threads_inv ps (pr_threads w)" and "large_ok (pr_pet w) (pr_large w)"
    and "sys_page_size (pr_pet w) = ps" and "pet_core (pr_pet w) P (hands (pr_threads w))"
    and "blocks_apart (pr_pet w) (th_blocks (pr_threads w))"
    and "heap_ok (large_view (pr_pet w)) (pr_large w \<union> page_blocks (pr_pet w))"
    and "pr_large w \<inter> page_blocks (pr_pet w) = {}"
proof -
  have I: "threads_inv ps (pr_threads w)" "large_ok (pr_pet w) (pr_large w)"
    using assms by (simp_all add: program_inv_def)
  obtain P where P: "pet_core (pr_pet w) P (hands (pr_threads w))" "blocks_apart (pr_pet w) (th_blocks (pr_threads w))"
    by (rule threads_invD [OF I(1)])
  have "b \<notin> page_blocks (pr_pet w)" if b: "b \<in> pr_large w" for b
  proof
    assume "b \<in> page_blocks (pr_pet w)"
    then obtain p where p: "b = (p, sys_page_size (pr_pet w))" "pages (pr_pet w) p \<noteq> None"
      unfolding page_blocks_def by blast
    then have "p \<in> pages_of (pr_pet w) b"
      using page_block(3) [OF pet_coreD(1) [OF P(1)] header_page [OF P(1) p(2)]] by simp
    then show False using large_okD(3) [OF I(2) b] p(2) by (auto simp: direct_pages_def)
  qed
  then have "pr_large w \<inter> page_blocks (pr_pet w) = {}" by blast
  moreover have "sys_page_size (pr_pet w) = ps" using I(1) by (simp add: threads_inv_def)
  ultimately show thesis using that [OF I _ P large_heap [OF P(1) I(2)]] by blast
qed

text \<open>The page of a byte.\<close>

lemma byte_page: "geometry s \<Longrightarrow> x \<in> block_bytes (bm_page_by_addr s x, sys_page_size s)"
proof -
  assume g: "geometry s"
  have ps: "0 < unat (sys_page_size s)" using geometry_bounds(2,5) [OF g] by simp
  show ?thesis
    using div_mult_mod_eq [of "unat x" "unat (sys_page_size s)"] mod_less_divisor [OF ps, of "unat x"]
    unfolding block_bytes_range bm_page_by_addr_eq [OF g] by linarith
qed

lemma small_in_page_block:
  assumes "program_inv ps w" and "b \<in> th_blocks (pr_threads w)" and "x \<in> small_bytes b"
  obtains c where "c \<in> page_blocks (pr_pet w)" and "x \<in> block_bytes c"
proof (rule program_invD [OF assms(1)])
  fix P assume C: "pet_core (pr_pet w) P (hands (pr_threads w))"
    "blocks_apart (pr_pet w) (th_blocks (pr_threads w))"
  note D = pet_coreD [OF C(1)]
  let ?c = "(bm_page_by_addr (pr_pet w) x, sys_page_size (pr_pet w))"
  have "?c \<in> page_blocks (pr_pet w)"
    using small_bytes_units(2) [OF D(1,3) C(2) assms(2,3)] unfolding page_blocks_def by blast
  then show thesis using that byte_page [OF D(1)] by blast
qed

lemma live_apart:
  assumes I: "program_inv ps w" and b: "b \<in> live w" "c \<in> live w" "b \<noteq> c"
  shows "live_bytes b \<inter> live_bytes c = {}"
proof (rule program_invD [OF I])
  fix P assume D: "pet_core (pr_pet w) P (hands (pr_threads w))"
    "blocks_apart (pr_pet w) (th_blocks (pr_threads w))"
    "heap_ok (large_view (pr_pet w)) (pr_large w \<union> page_blocks (pr_pet w))"
    "pr_large w \<inter> page_blocks (pr_pet w) = {}"
  note C = pet_coreD [OF D(1)]
  have mixed: "small_bytes u \<inter> block_bytes l = {}" if "u \<in> th_blocks (pr_threads w)" "l \<in> pr_large w" for u l
  proof -
    have "x \<notin> block_bytes l" if "x \<in> small_bytes u" for x
    proof (rule small_in_page_block [OF I \<open>u \<in> th_blocks (pr_threads w)\<close> that])
      fix c assume c: "c \<in> page_blocks (pr_pet w)" "x \<in> block_bytes c"
      then have "block_bytes c \<inter> block_bytes l = {}"
        using \<open>l \<in> pr_large w\<close> D(4) by (intro blocks_separate [OF D(3)]) auto
      then show "x \<notin> block_bytes l" using c(2) by blast
    qed
    then show ?thesis by blast
  qed
  have small: "small_bytes u \<inter> small_bytes v = {}"
    if "u \<in> th_blocks (pr_threads w)" "v \<in> th_blocks (pr_threads w)" "u \<noteq> v" for u v
    by (rule small_bytes_apart [OF C(1,3) D(2) that])
  have large: "block_bytes l \<inter> block_bytes m = {}" if "l \<in> pr_large w" "m \<in> pr_large w" "l \<noteq> m" for l m
    using that by (intro blocks_separate [OF D(3)]) auto
  show ?thesis
  proof (cases b; cases c)
    fix u v assume "b = Small u" "c = Small v"
    then show ?thesis using small [of u v] b by simp
  next
    fix u l assume "b = Small u" "c = Large l"
    then show ?thesis using mixed [of u l] b by simp
  next
    fix l u assume "b = Large l" "c = Small u"
    then show ?thesis using mixed [of u l] b by (simp add: Int_commute)
  next
    fix l m assume "b = Large l" "c = Large m"
    then show ?thesis using large [of l m] b by simp
  qed
qed

text \<open>Every byte of a live block is in a page that is mapped.\<close>

lemma live_mapped:
  assumes I: "program_inv ps w" and b: "b \<in> live w" "x \<in> live_bytes b"
  shows "bm_page_by_addr (pr_pet w) x \<in> mapped (pr_pet w)"
proof (rule program_invD [OF I])
  fix P assume D: "pet_core (pr_pet w) P (hands (pr_threads w))" "large_ok (pr_pet w) (pr_large w)"
    "blocks_apart (pr_pet w) (th_blocks (pr_threads w))"
  note C = pet_coreD [OF D(1)]
  show ?thesis
  proof (cases b)
    case (Small u)
    then have "pages (pr_pet w) (bm_page_by_addr (pr_pet w) x) \<noteq> None"
      using small_bytes_units(2) [OF C(1,3) D(3), of u x] b by simp
    then show ?thesis using header_page(1) [OF D(1)] by (simp add: page_at_def)
  next
    case (Large l)
    then have l: "l \<in> pr_large w" "x \<in> block_bytes l" using b by simp_all
    note L = large_okD [OF D(2) l(1)]
    have "x \<in> block_region (pr_pet w) l" using block_bytes_region [OF C(1) L(1)] l(2) by blast
    then have "bm_page_by_addr (pr_pet w) x \<in> pages_of (pr_pet w) l"
      using large_units [OF L(2)] by (simp add: block_region_def)
    then show ?thesis using L(3) by (auto simp: direct_pages_def)
  qed
qed

subsection \<open>Every step keeps it\<close>

lemma threads_inv_mapped:
  assumes I: "threads_inv ps y" and M: "\<And>p. pages (th_pet y) p \<noteq> None \<Longrightarrow> p \<in> mapped t"
  shows "threads_inv ps (y\<lparr>th_pet := with_large (th_pet y) t\<rparr>)"
proof (rule threads_invD [OF I])
  let ?s = "with_large (th_pet y) t" and ?m = "(th_pet y)\<lparr>mapped := mapped t\<rparr>"
  fix P
  assume C: "pet_core (th_pet y) P (hands y)" and D: "\<And>p. p \<in> hands y \<Longrightarrow> pages (th_pet y) p \<noteq> None"
    "\<And>t p. in_hand (th_pc y t) = Some p \<Longrightarrow> p \<notin> other_hands y t" "blocks_apart (th_pet y) (th_blocks y)"
    "\<And>t b. owned (th_pc y t) = Some b \<Longrightarrow> b \<in> th_blocks y"
    "\<And>t u b. owned (th_pc y t) = Some b \<Longrightarrow> owned (th_pc y u) = Some b \<Longrightarrow> t = u"
    "\<And>t. pc_ok (th_pet y) (th_pc y t)"
  have v: "bitmaps ?s = bitmaps (th_pet y)" "pages ?s = pages (th_pet y)"
    by (simp_all add: with_large_def view_defs fun_eq_iff)
  have "head ?s l = head ?m l" for l by (cases l) (simp_all add: with_large_def)
  then have core: "pet_core ?s P (hands y)"
    by (intro pet_core_cong [OF pet_core_mapped [OF C M]])
      (auto simp: with_large_def view_defs same_params_def fun_eq_iff)
  have "threads_inv ps ((goes y 0 ?s (th_pc y 0))\<lparr>th_blocks := th_blocks y\<rparr>)"
  proof (rule threads_inv_step [OF I with_large_params])
    show "pet_core ?s P (set_option (in_hand (th_pc y 0)) \<union> other_hands y 0)"
      using core by (simp add: hands_split [of y 0])
    show "p \<notin> other_hands y 0 \<and> pages ?s p \<noteq> None" if "in_hand (th_pc y 0) = Some p" for p
      using that D(1,2) by (auto simp: v hands_def)
    show "blocks_apart ?s (th_blocks y)"
      by (rule blocks_apart_cong [OF D(3) with_large_params used_eq [OF with_large_params v(1)]])
    show "pc_ok ?s (th_pc y 0)" by (rule pc_ok_stable [OF D(6) with_large_params]) (simp add: v)
    show "b \<in> th_blocks y \<and> owned (th_pc y 0) \<noteq> Some b" if "u \<noteq> 0" "owned (th_pc y u) = Some b" for u b
      using that D(4) [of u b] D(5) [of u b 0] by auto
  qed (simp_all add: v D(4))
  then show ?thesis by (simp add: goes_def)
qed

text \<open>What a step about the blocks \<open>W\<close> leaves as it was.\<close>

definition leaves_others :: "pet_program \<Rightarrow> live_block set \<Rightarrow> pet_program \<Rightarrow> bool" where
  "leaves_others w W x \<longleftrightarrow>
     (\<forall>b\<in>live w - W. b \<in> live x \<and> (\<forall>i\<in>live_bytes b. mem (pr_pet x) i = mem (pr_pet w) i))"

lemma leaves_othersI:
  assumes "\<And>u. u \<in> th_blocks (pr_threads w) \<Longrightarrow> Small u \<notin> W \<Longrightarrow> u \<in> th_blocks (pr_threads x) \<and>
      (\<forall>i\<in>small_bytes u. mem (pr_pet x) i = mem (pr_pet w) i)"
    and "\<And>l. l \<in> pr_large w \<Longrightarrow> Large l \<notin> W \<Longrightarrow> l \<in> pr_large x \<and>
      (\<forall>i\<in>block_bytes l. mem (pr_pet x) i = mem (pr_pet w) i)"
  shows "leaves_others w W x"
  using assms unfolding leaves_others_def live_def by auto

lemma with_pet_simps [simp]:
  "pr_threads (with_pet w s) = (pr_threads w)\<lparr>th_pet := s\<rparr>" "pr_large (with_pet w s) = pr_large w"
  by (simp_all add: with_pet_def)

lemma large_call:
  assumes I: "program_inv ps w" and s: "s = pr_pet w" and H: "heap_ok t (L \<union> page_blocks s)" and par: "same_params s t"
    and L: "\<forall>b\<in>L. \<not> small s (snd b)" "L \<inter> page_blocks s = {}"
    and same: "same_bytes s t ((pr_large w - R) \<union> page_blocks s)" and R: "pr_large w - R \<subseteq> L" "Large ` R \<subseteq> W"
  shows "program_inv ps ((with_pet w (with_large s t))\<lparr>pr_large := L\<rparr>)"
    and "leaves_others w W ((with_pet w (with_large s t))\<lparr>pr_large := L\<rparr>)"
proof -
  let ?x = "(with_pet w (with_large s t))\<lparr>pr_large := L\<rparr>"
  show "program_inv ps ?x"
  proof (rule program_invD [OF I])
    fix P assume C: "pet_core (pr_pet w) P (hands (pr_threads w))" "threads_inv ps (pr_threads w)"
    note B = large_ok_back [OF H par L C(1) [folded s]]
    show "program_inv ps ?x"
      using B(1) threads_inv_mapped [OF C(2), of t] B(2) s by (simp add: program_inv_def)
  qed
  have page: "\<forall>i\<in>small_bytes u. mem t i = mem s i" if u: "u \<in> th_blocks (pr_threads w)" for u
  proof
    fix i assume i: "i \<in> small_bytes u"
    show "mem t i = mem s i"
      by (rule small_in_page_block [OF I u i]) (use same s in \<open>auto simp: same_bytes_def\<close>)
  qed
  show "leaves_others w W ?x"
  proof (rule leaves_othersI)
    show "u \<in> th_blocks (pr_threads ?x) \<and> (\<forall>i\<in>small_bytes u. mem (pr_pet ?x) i = mem (pr_pet w) i)"
      if "u \<in> th_blocks (pr_threads w)" for u
      using page [OF that] that by (simp add: s)
    show "l \<in> pr_large ?x \<and> (\<forall>i\<in>block_bytes l. mem (pr_pet ?x) i = mem (pr_pet w) i)"
      if "l \<in> pr_large w" "Large l \<notin> W" for l
    proof -
      have "l \<in> pr_large w - R" using that R(2) by blast
      then show ?thesis using R(1) same by (auto simp: s same_bytes_def)
    qed
  qed
qed

lemma large_allocate_step:
  assumes I: "program_inv ps w" and mm: "mmap_ok ps mm" and n: "sized (pr_pet w) n" "\<not> small (pr_pet w) n"
  obtains s a where "pet_allocate mm (pr_pet w) n clean = Inr (s, a)"
    and "program_inv ps ((with_pet w s)\<lparr>pr_large := if a = 0 then pr_large w else insert (a, n) (pr_large w)\<rparr>)"
    and "leaves_others w {} ((with_pet w s)\<lparr>pr_large := if a = 0 then pr_large w else insert (a, n) (pr_large w)\<rparr>)"
proof (rule program_invD [OF I])
  let ?s = "pr_pet w" and ?v = "large_view (pr_pet w)"
  let ?B = "pr_large w \<union> page_blocks ?s"
  assume D: "sys_page_size ?s = ps" "large_ok ?s (pr_large w)" "heap_ok ?v ?B" "pr_large w \<inter> page_blocks ?s = {}"
  note par = block_cong [OF large_view_params [of ?s]]
  have ns: "\<forall>b\<in>pr_large w. \<not> small ?s (snd b)" using large_okD(2) [OF D(2)] by blast
  have mm': "mmap_ok (sys_page_size ?v) mm" using mm D(1) by (simp add: large_view_def)
  note result = that
  have to: thesis if t: "pet_allocate mm ?v n clean = Inr (t, a)" "same_params ?v t" "same_bytes ?v t ?B"
      "heap_ok t (L \<union> page_blocks ?s)" "L = (if a = 0 then pr_large w else insert (a, n) (pr_large w))"
      "L \<inter> page_blocks ?s = {}" for t a L
  proof -
    have p: "same_params ?s t" "same_bytes ?s t ((pr_large w - {}) \<union> page_blocks ?s)"
      using same_params_trans [OF large_view_params t(2)] t(3) by (simp_all add: same_bytes_def large_view_def)
    have "\<forall>b\<in>L. \<not> small ?s (snd b)" using ns n(2) t(5) by (auto split: if_splits)
    note C = large_call [OF I refl t(4) p(1) this t(6) p(2), of "{}"]
    have "pr_large w - {} \<subseteq> L" using t(5) by auto
    then show thesis
      using C result [OF beside_allocate [OF n(2) t(1)]] unfolding t(5) by blast
  qed
  have "sized ?v n" using n(1) par(5) by simp
  from pet_allocate_ok [OF D(3) mm' this, of clean] show thesis
  proof (elim disjE exE conjE)
    fix t assume "pet_allocate mm ?v n clean = Inr (t, 0)" "heap_ok t ?B" "same_params ?v t" "mem t = mem ?v"
    then show thesis using to [of t 0 "pr_large w"] D(4) by (simp add: same_bytes_def)
  next
    fix t a assume t: "pet_allocate mm ?v n clean = Inr (t, a)" "new_block ?v ?B n clean t a"
    then have "a \<noteq> 0" "(a, n) \<notin> ?B" "heap_ok t (insert (a, n) ?B)" "same_params ?v t"
      by (simp_all add: new_block_def)
    then show thesis
      using to [OF t(1) _ new_block_others [OF D(3) t(2)], of "insert (a, n) (pr_large w)"] D(4) by simp
  qed
qed

lemma large_release_step:
  assumes I: "program_inv ps w" and b: "(a, n) \<in> pr_large w"
  obtains s where "pet_release (pr_pet w) a n = Inr (s, 0)"
    and "program_inv ps ((with_pet w s)\<lparr>pr_large := pr_large w - {(a, n)}\<rparr>)"
    and "leaves_others w {Large (a, n)} ((with_pet w s)\<lparr>pr_large := pr_large w - {(a, n)}\<rparr>)"
proof (rule program_invD [OF I])
  let ?s = "pr_pet w" and ?v = "large_view (pr_pet w)"
  let ?B = "pr_large w \<union> page_blocks ?s"
  fix P assume D: "large_ok ?s (pr_large w)" "heap_ok ?v ?B" "pr_large w \<inter> page_blocks ?s = {}"
    "pet_core ?s P (hands (pr_threads w))"
  note b' = large_okD [OF D(1) b, simplified] and g = pet_coreD(1) [OF D(4)]
  note L = large_block [OF g b'(1,2)]
  obtain t where t: "pet_release ?v a n = Inr (t, 0)" "heap_ok t (?B - {(a, n)})" "mem t = mem ?v" "same_params ?v t"
    by (rule pet_release_ok [OF D(2)]) (use b in auto)
  have "n \<noteq> 0" using shape_sized [OF b'(1)] by (simp add: sized_def)
  then have r: "pet_release ?s a n = Inr (with_large ?s t, 0)"
    using b' L by (intro beside_release [OF _ _ _ _ _ t(1)]) simp_all
  have p: "same_params ?s t" "same_bytes ?s t ((pr_large w - {(a, n)}) \<union> page_blocks ?s)"
    using same_params_trans [OF large_view_params t(4)] t(3) by (simp_all add: same_bytes_def large_view_def)
  have e: "?B - {(a, n)} = (pr_large w - {(a, n)}) \<union> page_blocks ?s" using b D(3) by blast
  have "\<forall>b\<in>pr_large w - {(a, n)}. \<not> small ?s (snd b)" "(pr_large w - {(a, n)}) \<inter> page_blocks ?s = {}"
    using large_okD(2) [OF D(1)] D(3) by blast+
  note C = large_call [OF I refl t(2) [unfolded e] p(1) this p(2), of "{Large (a, n)}"]
  from C(1) C(2) show thesis using that [OF r] by simp
qed

text \<open>Where \<open>mremap\<close> leaves a large block: in its place, or at the address the kernel chose.\<close>

lemma remapped_to:
  assumes "\<not> small s old" "\<not> small s new" "a \<noteq> 0"
    and "pet_reallocate mm mr s a old new clean = Inr (t, p, changed, ok)"
  shows "p = a \<or> p \<noteq> 0 \<and> p = mr (mapped s) a (page_size_of s old) (page_size_of s new)"
  using assms
  by (auto simp: pet_reallocate_def pet_shrink_def pet_grow_def pet_remap_def call_mremap_def small_def
      page_size_of_def Let_def split: if_splits)

lemma remapped_no_page:
  assumes I: "program_inv ps w" and b: "(a, old) \<in> pr_large w" and n: "sized (pr_pet w) new" "\<not> small (pr_pet w) new"
    and mr: "mremap_ok ps mr" and r: "pet_reallocate mm mr (pr_pet w) a old new clean = Inr (t, p, changed, ok)"
  shows "(p, new) \<notin> page_blocks (pr_pet w)"
proof (rule program_invD [OF I])
  let ?s = "pr_pet w"
  fix P assume D: "large_ok ?s (pr_large w)" "pet_core ?s P (hands (pr_threads w))" "sys_page_size ?s = ps"
  note b' = large_okD(1-3) [OF D(1) b, simplified] and g = pet_coreD(1) [OF D(2)]
  note L = large_block [OF g b'(1,2)]
  have ps: "0 < unat (sys_page_size ?s)" using geometry_bounds(2,5) [OF g] by simp
  note self = page_range_self [OF ps sized_pages(3) [OF g]]
  have own: "page_range ps a (page_size_of ?s old) \<subseteq> direct_pages ?s" using b'(3) by (simp add: L(3) D(3))
  have "a \<in> page_range ps a (page_size_of ?s old)"
    using self [OF shape_sized [OF b'(1)]] by (simp add: D(3))
  then have a: "pages ?s a = None" using own by (auto simp: direct_pages_def)
  have "pages ?s p = None"
  proof (rule ccontr)
    assume h: "pages ?s p \<noteq> None"
    then have m: "p \<in> mapped ?s" "p \<notin> page_range ps a (page_size_of ?s old)"
      using header_page(1) [OF D(2) h] own by (auto simp: page_at_def direct_pages_def)
    have p: "p \<noteq> 0" "p = mr (mapped ?s) a (page_size_of ?s old) (page_size_of ?s new)"
      using remapped_to [OF b'(2) n(2) L(2) r] h a by auto
    then have "page_range ps p (page_size_of ?s new) \<inter> (mapped ?s - page_range ps a (page_size_of ?s old)) = {}"
      using mr unfolding mremap_ok_def by blast
    then show False using self [OF n(1), of p] m by (auto simp: D(3))
  qed
  then show ?thesis by (auto simp: page_blocks_def)
qed

lemma large_reallocate_step:
  assumes I: "program_inv ps w" and mm: "mmap_ok ps mm" and mr: "mremap_ok ps mr"
    and b: "(a, old) \<in> pr_large w" and n: "sized (pr_pet w) new" "\<not> small (pr_pet w) new"
  obtains s p changed ok where "pet_reallocate mm mr (pr_pet w) a old new clean = Inr (s, p, changed, ok)"
    and "program_inv ps ((with_pet w s)\<lparr>pr_large := if ok then insert (p, new) (pr_large w - {(a, old)}) else pr_large w\<rparr>)"
    and "leaves_others w {Large (a, old)}
      ((with_pet w s)\<lparr>pr_large := if ok then insert (p, new) (pr_large w - {(a, old)}) else pr_large w\<rparr>)"
proof (rule program_invD [OF I])
  let ?s = "pr_pet w" and ?v = "large_view (pr_pet w)"
  let ?B = "pr_large w \<union> page_blocks ?s" and ?R = "{(a, old)}"
  fix P assume D: "large_ok ?s (pr_large w)" "heap_ok ?v ?B" "pr_large w \<inter> page_blocks ?s = {}"
    "pet_core ?s P (hands (pr_threads w))" "sys_page_size ?s = ps"
  note b' = large_okD(1,2) [OF D(1) b, simplified] and par = block_cong [OF large_view_params [of ?s]]
  note L = large_block [OF pet_coreD(1) [OF D(4)] b']
  have v: "sized ?v new" "covered ?v old new" "mmap_ok (sys_page_size ?v) mm" "mremap_ok (sys_page_size ?v) mr"
    using n mm mr D(5) by (simp_all add: par covered_def) (simp_all add: large_view_def)
  obtain t p changed ok where r: "pet_reallocate mm mr ?v a old new clean = Inr (t, p, changed, ok)"
    "resize_outcome ?v ?B a old new clean (t, p, changed, ok)"
    by (rule reallocate_ok [OF D(2) _ v]) (use b in \<open>auto simp: prod_eq_iff\<close>)
  note real = beside_reallocate [OF b'(2) n(2) L(2,1) r(1)]
  let ?L = "if ok then insert (p, new) (pr_large w - ?R) else pr_large w"
  have e: "?B - ?R = (pr_large w - ?R) \<union> page_blocks ?s" using b D(3) by blast
  have o: "heap_ok t (?L \<union> page_blocks ?s)" "same_params ?v t" "same_bytes ?v t (?B - ?R)"
    using r(2) e by (auto simp: resize_outcome_def resized_def same_bytes_def split: if_splits)
  have par': "same_params ?s t" "same_bytes ?s t ((pr_large w - ?R) \<union> page_blocks ?s)"
    using same_params_trans [OF large_view_params o(2)] o(3) e by (simp_all add: same_bytes_def large_view_def)
  have "\<forall>b\<in>?L. \<not> small ?s (snd b)" "?L \<inter> page_blocks ?s = {}"
    using large_okD(2) [OF D(1)] n(2) remapped_no_page [OF I b n mr real] D(3) by auto
  note C = large_call [OF I refl o(1) par'(1) this par'(2), of "{Large (a, old)}"]
  have "pr_large w - ?R \<subseteq> ?L" by auto
  then show thesis using C that [OF real] by simp
qed

text \<open>Steps that are not about large blocks: in the sub-allocator, or a byte written into a live block.\<close>

lemma large_ok_cong:
  assumes "same_params s t" and "direct_pages t = direct_pages s" and "large_ok s L"
  shows "large_ok t L"
  using assms(3) unfolding large_ok_def block_cong [OF assms(1)] assms(2) .

lemma step_blocks: "pet_step mm y t z \<Longrightarrow> u \<in> th_blocks y \<Longrightarrow> owned (th_pc y t) \<noteq> Some u \<Longrightarrow> u \<in> th_blocks z"
  by (induction rule: pet_step.induct) auto

lemma small_step_ok:
  assumes I: "program_inv ps w" and mm: "mmap_ok ps mm" and st: "pet_step mm (pr_threads w) t y"
  shows "program_inv ps (w\<lparr>pr_threads := y\<rparr>)" and "leaves_others w (in_call w t) (w\<lparr>pr_threads := y\<rparr>)"
proof -
  let ?y = "pr_threads w" and ?x = "w\<lparr>pr_threads := y\<rparr>"
  have T: "threads_inv ps ?y" and L: "large_ok (th_pet ?y) (pr_large w)"
    using I by (simp_all add: program_inv_def)
  show "program_inv ps ?x"
    using pet_step_inv [OF st T mm] large_ok_cong [OF step_keeps [OF st T mm] L] by (simp add: program_inv_def)
  have same: "mem (th_pet y) i = mem (th_pet ?y) i"
    if b: "b \<in> live w" "b \<notin> in_call w t" "i \<in> live_bytes b" for b i
  proof -
    have "i \<notin> cleaned (th_pc ?y t)"
    proof
      assume "i \<in> cleaned (th_pc ?y t)"
      then obtain u where u: "owned (th_pc ?y t) = Some u" "i \<in> small_bytes u" using cleaned_owned by blast
      have "Small u \<in> live w" by (rule threads_invD [OF T]) (use u in simp)
      then have "live_bytes b \<inter> live_bytes (Small u) = {}"
        using b u(1) by (intro live_apart [OF I]) (auto simp: in_call_def)
      then show False using b(3) u(2) by auto
    qed
    then show ?thesis by (simp add: step_memory [OF st T])
  qed
  show "leaves_others w (in_call w t) ?x"
    by (rule leaves_othersI) (use same step_blocks [OF st] in \<open>force simp: in_call_def\<close>)+
qed

lemma write_step_ok:
  assumes I: "program_inv ps w" and b: "b \<in> live w" "x \<in> live_bytes b"
    and z: "z = with_pet w ((pr_pet w)\<lparr>mem := (mem (pr_pet w))(x := v)\<rparr>)"
  shows "program_inv ps z" and "leaves_others w {b} z"
proof -
  let ?s = "pr_pet w" and ?t = "(pr_pet w)\<lparr>mem := (mem (pr_pet w))(x := v)\<rparr>"
  have e: "with_large ?s ?t = ?t" by (simp add: with_large_def)
  have "threads_inv ps ((pr_threads w)\<lparr>th_pet := ?t\<rparr>)"
  proof (rule program_invD [OF I])
    fix P assume D: "threads_inv ps (pr_threads w)" "pet_core ?s P (hands (pr_threads w))"
    show ?thesis
      using threads_inv_mapped [OF D(1), of ?t] header_page(1) [OF D(2)] unfolding e by (simp add: page_at_def)
  qed
  moreover have "large_ok ?t (pr_large w)"
    by (rule large_ok_cong [of ?s]) (use I in \<open>simp_all add: program_inv_def same_params_def direct_pages_def\<close>)
  ultimately show "program_inv ps z" by (simp add: program_inv_def z)
  have "i \<noteq> x" if "c \<in> live w - {b}" "i \<in> live_bytes c" for c i
    using live_apart [OF I, of b c] b that by auto
  then show "leaves_others w {b} z" by (auto simp: leaves_others_def live_def z)
qed

lemma program_step_ok:
  assumes st: "program_step mm mr w t W x" and I: "program_inv ps w" and mm: "mmap_ok ps mm" and mr: "mremap_ok ps mr"
  shows "program_inv ps x \<and> leaves_others w W x"
  using st
proof cases
  case (pr_small y)
  then show ?thesis using small_step_ok [OF I mm] by simp
next
  case (pr_allocate n clean s a)
  show ?thesis
    by (rule large_allocate_step [OF I mm pr_allocate(4,5), of clean]) (use pr_allocate in simp)
next
  case (pr_release a n s p)
  show ?thesis
    by (rule large_release_step [OF I pr_release(4)]) (use pr_release in simp)
next
  case (pr_reallocate a old new clean s p changed ok)
  show ?thesis
    by (rule large_reallocate_step [OF I mm mr pr_reallocate(4-6), of clean]) (use pr_reallocate in simp)
next
  case (pr_write b i v)
  then show ?thesis using write_step_ok [OF I] by simp
qed

lemma program_runs_inv:
  assumes "program_runs mm mr v w" and "program_inv ps v" and "mmap_ok ps mm" and "mremap_ok ps mr"
  shows "program_inv ps w"
  using assms by (induction rule: program_runs.induct) (auto dest: program_step_ok)

lemma program_start_inv:
  assumes "heap_ok s {}"
  shows "program_inv (sys_page_size s) (program_start s)"
proof -
  have "pet_inv s" "used s = {}" using heap_okD(1,5) [OF assms] by simp_all
  then have "threads_inv (sys_page_size s) (threads_start s {})"
    by (intro threads_start_inv) (simp_all add: blocks_apart_def)
  then show ?thesis by (simp add: program_inv_def program_start_def large_ok_def)
qed

lemma program_reachable:
  assumes "heap_ok s {}" and "mmap_ok (sys_page_size s) mm" and "mremap_ok (sys_page_size s) mr"
    and "program_runs mm mr (program_start s) w"
  shows "program_inv (sys_page_size s) w"
  by (rule program_runs_inv [OF assms(4) program_start_inv [OF assms(1)] assms(2,3)])

end
