(* ===== verification/Pet_Program_Claims.thy ===== *)
theory Pet_Program_Claims
  imports Pet_Program_Invariant
begin

text \<open>
  What the bitmap allocator promises to a program of any number of threads: live blocks lie apart in mapped
  memory, nobody's bytes change but by steps about the block, and no call fails or waits for ever.
\<close>

text \<open>
  C6. From \<open>_init\<close> on, whatever the interleaving of the calls for small and large blocks by any number of
  threads, and whatever the threads write into their blocks: the bytes of any two live blocks are disjoint,
  and all of them are in pages that are mapped.
\<close>

theorem program_blocks_apart:
  assumes "heap_ok s {}" and "mmap_ok (sys_page_size s) mm" and "mremap_ok (sys_page_size s) mr"
    and "program_runs mm mr (program_start s) w"
  shows "(\<forall>b\<in>live w. \<forall>c\<in>live w. b \<noteq> c \<longrightarrow> live_bytes b \<inter> live_bytes c = {}) \<and>
    (\<forall>b\<in>live w. \<forall>x\<in>live_bytes b. bm_page_by_addr (pr_pet w) x \<in> mapped (pr_pet w))"
  using live_apart live_mapped program_reachable [OF assms] by blast

lemma beside_keeps:
  assumes "runs_beside mm mr b w x" and "program_inv ps w" and "mmap_ok ps mm" and "mremap_ok ps mr" and "b \<in> live w"
  shows "program_inv ps x \<and> b \<in> live x \<and> (\<forall>i\<in>live_bytes b. mem (pr_pet x) i = mem (pr_pet w) i)"
  using assms
proof (induction rule: runs_beside.induct)
  case (rb_next v w t W x)
  then have w: "program_inv ps w" "b \<in> live w" "\<forall>i\<in>live_bytes b. mem (pr_pet w) i = mem (pr_pet v) i" by blast+
  have "program_inv ps x" "leaves_others w W x"
    using program_step_ok [OF rb_next.hyps(2) w(1) rb_next.prems(2,3)] by blast+
  then show ?case using w(2,3) rb_next.hyps(3) by (simp add: leaves_others_def)
qed simp

text \<open>
  C7. A live block keeps its bytes, and stays live, through any run in which no step is about it: neither
  allocating and cleaning, nor mapping, moving and unmapping other blocks, nor handling the pages of the
  small ones touches it.
\<close>

theorem program_keeps_bytes:
  assumes "heap_ok s {}" and "mmap_ok (sys_page_size s) mm" and "mremap_ok (sys_page_size s) mr"
    and "program_runs mm mr (program_start s) w" and "b \<in> live w" and "runs_beside mm mr b w x"
  shows "b \<in> live x \<and> (\<forall>i\<in>live_bytes b. mem (pr_pet x) i = mem (pr_pet w) i)"
  using beside_keeps [OF assms(6) program_reachable [OF assms(1-4)] assms(2,3,5)] by blast

text \<open>
  C8. There is no deadlock and no call of the program fails. A thread in a call for a small block can make a
  step that brings its call nearer to the end, unless it waits for a page that another thread has in hand,
  and then that one can; a holder hands its page back after at most five steps. Allocation of a large block,
  release of one, and resizing one to a large size return, for sizes whose rounding to pages does not wrap.
  The program has no resize of a large block to a small size, which ends in a failure in the code
  (\<open>shrink_to_sub_allocator_fails\<close> in \<open>Pet_Defects\<close>).
\<close>

theorem program_progress:
  assumes "heap_ok s {}" and "mmap_ok (sys_page_size s) mm" and "mremap_ok (sys_page_size s) mr"
    and "program_runs mm mr (program_start s) w"
  shows "(\<forall>t. th_pc (pr_threads w) t \<noteq> Idle \<longrightarrow>
      (\<exists>u x. program_step mm mr w u (in_call w u) x \<and>
        steps_left (th_pc (pr_threads x) u) < steps_left (th_pc (pr_threads w) u) \<and>
        (u = t \<or> (\<exists>p td. th_pc (pr_threads w) t = Grabbing p td \<and> in_hand (th_pc (pr_threads w) u) = Some p \<and>
          steps_left (th_pc (pr_threads w) u) \<le> 5)))) \<and>
    (\<forall>n clean. sized (pr_pet w) n \<and> \<not> small (pr_pet w) n \<longrightarrow>
      (\<exists>r. pet_allocate mm (pr_pet w) n clean = Inr r) \<and>
      (\<forall>(a, old)\<in>pr_large w. \<exists>r. pet_reallocate mm mr (pr_pet w) a old n clean = Inr r)) \<and>
    (\<forall>(a, n)\<in>pr_large w. \<exists>u. pet_release (pr_pet w) a n = Inr (u, 0))"
proof -
  note I = program_reachable [OF assms]
  have "\<exists>u x. program_step mm mr w u (in_call w u) x \<and>
        steps_left (th_pc (pr_threads x) u) < steps_left (th_pc (pr_threads w) u) \<and>
        (u = t \<or> (\<exists>p td. th_pc (pr_threads w) t = Grabbing p td \<and> in_hand (th_pc (pr_threads w) u) = Some p \<and>
          steps_left (th_pc (pr_threads w) u) \<le> 5))"
    if "th_pc (pr_threads w) t \<noteq> Idle" for t
  proof -
    have "threads_inv (sys_page_size s) (pr_threads w)" using I by (simp add: program_inv_def)
    from threads_progress [OF this assms(2) that] obtain u y where y: "pet_step mm (pr_threads w) u y"
      "steps_left (th_pc y u) < steps_left (th_pc (pr_threads w) u)"
      "u = t \<or> (\<exists>p td. th_pc (pr_threads w) t = Grabbing p td \<and> in_hand (th_pc (pr_threads w) u) = Some p \<and>
         steps_left (th_pc (pr_threads w) u) \<le> 5)" by blast
    from pr_small [OF y(1), of mr] y(2,3) show ?thesis
      by (intro exI [of _ u] exI [of _ "w\<lparr>pr_threads := y\<rparr>"]) simp
  qed
  moreover have "\<exists>r. pet_allocate mm (pr_pet w) n clean = Inr r" if "sized (pr_pet w) n" "\<not> small (pr_pet w) n" for n clean
    by (rule large_allocate_step [OF I assms(2) that, of clean]) blast
  moreover have "\<exists>r. pet_reallocate mm mr (pr_pet w) a old n clean = Inr r"
    if "(a, old) \<in> pr_large w" "sized (pr_pet w) n" "\<not> small (pr_pet w) n" for a old n clean
    by (rule large_reallocate_step [OF I assms(2,3) that, of clean]) blast
  moreover have "\<exists>u. pet_release (pr_pet w) a n = Inr (u, 0)" if "(a, n) \<in> pr_large w" for a n
    by (rule large_release_step [OF I that]) blast
  ultimately show ?thesis by blast
qed

subsection \<open>Witnesses\<close>

text \<open>One thread has a large block, and another begins to allocate a small one.\<close>

definition gets_large :: "pet \<Rightarrow> pet \<Rightarrow> u64 \<Rightarrow> pet_program" where
  "gets_large s t a = (with_pet (program_start s) t)\<lparr>pr_large := {(a, 5000)}\<rparr>"

definition then_small :: "pet \<Rightarrow> pet \<Rightarrow> u64 \<Rightarrow> pet_program" where
  "then_small s t a = (gets_large s t a)\<lparr>pr_threads := goes (pr_threads (gets_large s t a)) 1 t (Seeking 2 True)\<rparr>"

lemma program_example:
  obtains s t a where "started = Inr s" and "heap_ok s {}" and "mmap_ok (sys_page_size s) simple_mmap"
    and "mremap_ok (sys_page_size s) simple_mremap"
    and "program_runs simple_mmap simple_mremap (program_start s) (gets_large s t a)"
    and "program_step simple_mmap simple_mremap (gets_large s t a) 1 {} (then_small s t a)"
proof (rule started_ok)
  fix s assume s: "started = Inr s" "heap_ok s {}" "sys_page_size s = 4096" "mapped s = {0x100000000}"
  have m: "mmap_ok (sys_page_size s) simple_mmap" "mremap_ok (sys_page_size s) simple_mremap"
    using simple_mmap_ok simple_mremap_ok s(3) by simp_all
  have e: "bytes_to_units 5000 = 313" "max_units 4096 = 252" by (code_simp, simp add: max_units_def)
  have n: "\<not> small s 5000" "sized s 5000"
    using small_max_units [OF heap_okD(2) [OF s(2)], of 5000] e s(3) by (simp_all add: sized_def)
  have nz: "simple_mmap (mapped s) (if small s 5000 then sys_page_size s else page_size_of s 5000) \<noteq> 0"
    unfolding s(4) by (rule simple_mmap_started, rule started_size) (simp_all add: s(3))
  obtain t a where t: "pet_allocate simple_mmap s 5000 False = Inr (t, a)" "a \<noteq> 0" "same_params s t"
    using pet_allocate_ok [OF s(2) m(1) n(2), of False] nz by (auto simp: new_block_def)
  let ?w = "program_start s" and ?g = "gets_large s t a"
  have "program_step simple_mmap simple_mremap ?w 0 {} ?g"
    using pr_allocate [of ?w 0 5000 simple_mmap False t a simple_mremap] t(1,2) n
    by (simp add: gets_large_def program_start_def threads_start_def)
  then have run: "program_runs simple_mmap simple_mremap ?w ?g" by (blast intro: pr_start pr_next)
  have "geometry t" "sys_page_size t = 4096"
    using heap_okD(2) [OF s(2)] s(3) t(3) same_params_eqs(1) [OF t(3)] by (simp_all add: same_params_def)
  then have "max_data_units t = max_data_units s" "unat (max_data_units t) = 252"
    using t(3) geometry_bounds(6) [of t] by (auto simp: same_params_def geometry_def)
  then have "(2::u32) \<le> max_data_units t" by (simp add: word_le_nat_alt)
  then have "pet_step simple_mmap (pr_threads ?g) 1 (goes (pr_threads ?g) 1 t (Seeking 2 True))"
    using th_allocate [of "pr_threads ?g" 1 2 simple_mmap True]
    by (simp add: gets_large_def program_start_def threads_start_def)
  from pr_small [OF this, of simple_mremap]
  have "program_step simple_mmap simple_mremap ?g 1 {} (then_small s t a)"
    by (simp add: then_small_def in_call_def gets_large_def program_start_def threads_start_def)
  then show thesis using that [OF s(1,2) m run] by blast
qed

theorem program_blocks_apart_witness:
  "\<exists>s t a. started = Inr s \<and> Large (a, 5000) \<in> live (gets_large s t a) \<and>
     (\<forall>x\<in>block_bytes (a, 5000). bm_page_by_addr (pr_pet (gets_large s t a)) x \<in> mapped (pr_pet (gets_large s t a)))"
proof (rule program_example)
  fix s t a assume s: "started = Inr s" "heap_ok s {}" "mmap_ok (sys_page_size s) simple_mmap"
    "mremap_ok (sys_page_size s) simple_mremap"
    "program_runs simple_mmap simple_mremap (program_start s) (gets_large s t a)"
  have "Large (a, 5000) \<in> live (gets_large s t a)" by (simp add: gets_large_def)
  with program_blocks_apart [OF s(2-5)] s(1) show ?thesis by fastforce
qed

theorem program_keeps_bytes_witness:
  "\<exists>s t a. started = Inr s \<and> Large (a, 5000) \<in> live (then_small s t a) \<and>
     (\<forall>i\<in>block_bytes (a, 5000). mem (pr_pet (then_small s t a)) i = mem (pr_pet (gets_large s t a)) i)"
proof (rule program_example)
  fix s t a assume s: "started = Inr s" "heap_ok s {}" "mmap_ok (sys_page_size s) simple_mmap"
    "mremap_ok (sys_page_size s) simple_mremap"
    "program_runs simple_mmap simple_mremap (program_start s) (gets_large s t a)"
    "program_step simple_mmap simple_mremap (gets_large s t a) 1 {} (then_small s t a)"
  have b: "Large (a, 5000) \<in> live (gets_large s t a)" by (simp add: gets_large_def)
  have "runs_beside simple_mmap simple_mremap (Large (a, 5000)) (gets_large s t a) (then_small s t a)"
    using s(6) by (blast intro: rb_start rb_next)
  from program_keeps_bytes [OF s(2-5) b this] s(1) show ?thesis by fastforce
qed

theorem program_progress_witness:
  "\<exists>s t a u x. started = Inr s \<and> program_step simple_mmap simple_mremap (then_small s t a) u (in_call (then_small s t a) u) x \<and>
     steps_left (th_pc (pr_threads x) u) < steps_left (th_pc (pr_threads (then_small s t a)) u)"
proof (rule program_example)
  fix s t a assume s: "started = Inr s" "heap_ok s {}" "mmap_ok (sys_page_size s) simple_mmap"
    "mremap_ok (sys_page_size s) simple_mremap"
    "program_runs simple_mmap simple_mremap (program_start s) (gets_large s t a)"
    "program_step simple_mmap simple_mremap (gets_large s t a) 1 {} (then_small s t a)"
  have r: "program_runs simple_mmap simple_mremap (program_start s) (then_small s t a)"
    using s(5,6) by (rule pr_next)
  have "th_pc (pr_threads (then_small s t a)) 1 \<noteq> Idle" by (simp add: then_small_def)
  with program_progress [OF s(2-4) r] s(1) show ?thesis by blast
qed

end
