(* ===== verification/Pet_Threads_Claims.thy ===== *)
theory Pet_Threads_Claims
  imports Pet_Threads_Steps Pet_Properties
begin

text \<open>
  What the sub-allocator promises to any number of threads: blocks that lie apart, pages in the hands of
  one thread each, and no deadlock. A thread that runs alone does what the sequential functions do.
\<close>

text \<open>
  C9. Whatever the interleaving of allocations, releases and resizes by any number of threads: the blocks
  lie apart and inside the data areas of pages, the units in use are exactly theirs, no page is in the hands
  of two threads, and no block is passed to, or returned by, two operations at a time.
\<close>

theorem pet_threads_keep_apart:
  assumes "pet_inv s" and "blocks_apart s B" and "mmap_ok (sys_page_size s) mm"
    and "pet_runs mm (threads_start s B) y"
  shows "blocks_apart (th_pet y) (th_blocks y) \<and>
    (\<forall>t u p. in_hand (th_pc y t) = Some p \<and> in_hand (th_pc y u) = Some p \<longrightarrow> t = u) \<and>
    (\<forall>t u b. owned (th_pc y t) = Some b \<and> owned (th_pc y u) = Some b \<longrightarrow> t = u)"
  using reachable_inv [OF assms] unfolding threads_inv_def by blast

text \<open>
  No action of a thread fails and there is no deadlock: a thread in an operation can make a step, unless
  it waits for a page that another thread has in hand, and then that one can make a step. Each step shortens
  the operation it belongs to, so a page is handed back after at most five steps of its holder.
\<close>

theorem pet_threads_progress:
  assumes "pet_inv s" and "blocks_apart s B" and "mmap_ok (sys_page_size s) mm"
    and "pet_runs mm (threads_start s B) y" and "th_pc y t \<noteq> Idle"
  shows "\<exists>u z. pet_step mm y u z \<and> steps_left (th_pc z u) < steps_left (th_pc y u) \<and>
    (u = t \<or> (\<exists>p td. th_pc y t = Grabbing p td \<and> in_hand (th_pc y u) = Some p \<and> steps_left (th_pc y u) \<le> 5))"
  by (rule threads_progress [OF reachable_inv [OF assms(1-4)] assms(3,5)])

subsection \<open>One thread alone\<close>

lemma runs_first: "pet_step mm x t y \<Longrightarrow> pet_runs mm y z \<Longrightarrow> pet_runs mm x z"
  by (rotate_tac 1, induction rule: pet_runs.induct) (auto intro: th_start th_next)

lemma goes_goes [simp]:
  "goes (goes y t s pc) t s' pc' = goes y t s' pc'"
  "goes (y\<lparr>th_blocks := B\<rparr>) t s pc = (goes y t s pc)\<lparr>th_blocks := B\<rparr>"
  by (simp_all add: goes_def)

lemma goes_same_blocks: "(goes y t s pc)\<lparr>th_blocks := th_blocks y\<rparr> = goes y t s pc"
  by (simp add: goes_def)

text \<open>A thread at \<open>pc\<close> comes to its end in the state \<open>s'\<close>, with the blocks \<open>B\<close>, while the others stand still.\<close>

definition comes_to :: "mmap_fun \<Rightarrow> pet_threads \<Rightarrow> nat \<Rightarrow> pet \<Rightarrow> pet_pc \<Rightarrow> pet \<Rightarrow> ublock set \<Rightarrow> bool" where
  "comes_to mm y t s pc s' B \<longleftrightarrow> pet_runs mm (goes y t s pc) ((goes y t s' Idle)\<lparr>th_blocks := B\<rparr>)"

lemma comes_to_step:
  assumes "pet_step mm (goes y t s pc) t (goes y t s1 pc1)" and "comes_to mm y t s1 pc1 s' B"
  shows "comes_to mm y t s pc s' B"
  using assms runs_first unfolding comes_to_def by blast

lemma comes_to_blocks:
  assumes "pet_step mm (goes y t s pc) t ((goes y t s1 pc1)\<lparr>th_blocks := C\<rparr>)"
    and "comes_to mm (y\<lparr>th_blocks := C\<rparr>) t s1 pc1 s' B"
  shows "comes_to mm y t s pc s' B"
proof -
  have "(goes (y\<lparr>th_blocks := C\<rparr>) t s' Idle)\<lparr>th_blocks := B\<rparr> = (goes y t s' Idle)\<lparr>th_blocks := B\<rparr>"
    "goes (y\<lparr>th_blocks := C\<rparr>) t s1 pc1 = (goes y t s1 pc1)\<lparr>th_blocks := C\<rparr>" by (simp_all add: goes_def)
  then show ?thesis using assms(2) runs_first [OF assms(1)] unfolding comes_to_def by simp
qed

lemma comes_to_hand:
  "unhand_page s p = Inr u \<Longrightarrow> comes_to mm y t s (Handing p r) (finish p r u) (th_blocks y)"
proof (rule comes_to_step)
  assume "unhand_page s p = Inr u"
  then show "pet_step mm (goes y t s (Handing p r)) t (goes y t (finish p r u) Idle)"
    using th_hand [of "goes y t s (Handing p r)" t p r u mm] by simp
  show "comes_to mm y t (finish p r u) Idle (finish p r u) (th_blocks y)"
    unfolding comes_to_def goes_same_blocks by (rule th_start)
qed

lemma comes_to_fill:
  assumes "change_bits set_bits s p offset n = Inr s1" and "unhand_page s1 p = Inr u"
  shows "comes_to mm y t s (Filling n clean p offset) (finish p (Got offset n clean False) u)
    (insert (p, offset, n) (th_blocks y))"
proof (rule comes_to_blocks)
  show "pet_step mm (goes y t s (Filling n clean p offset)) t
      ((goes y t s1 (Handing p (Got offset n clean False)))\<lparr>th_blocks := insert (p, offset, n) (th_blocks y)\<rparr>)"
    using th_fill [of "goes y t s (Filling n clean p offset)" t n clean p offset s1 mm] assms(1) by simp
  show "comes_to mm (y\<lparr>th_blocks := insert (p, offset, n) (th_blocks y)\<rparr>) t s1 (Handing p (Got offset n clean False))
      (finish p (Got offset n clean False) u) (insert (p, offset, n) (th_blocks y))"
    using comes_to_hand [OF assms(2), of mm "y\<lparr>th_blocks := insert (p, offset, n) (th_blocks y)\<rparr>"]
    by (simp del: finish.simps)
qed

text \<open>The end of \<open>bm_allocate\<close>, behind \<open>find_available_page\<close>.\<close>

lemma comes_to_map:
  assumes "map_page mm s n = Inr (s1, p)"
  shows "p = 0 \<Longrightarrow> comes_to mm y t s (Mapping n clean) s1 (th_blocks y)"
    and "p \<noteq> 0 \<Longrightarrow> unhand_page s1 p = Inr u \<Longrightarrow> comes_to mm y t s (Mapping n clean)
      (finish p (Got (bm_page_header_size_in_units s1) n clean True) u)
      (insert (p, bm_page_header_size_in_units s1, n) (th_blocks y))"
proof -
  let ?o = "bm_page_header_size_in_units s1"
  show "comes_to mm y t s (Mapping n clean) s1 (th_blocks y)" if "p = 0"
  proof (rule comes_to_step)
    show "pet_step mm (goes y t s (Mapping n clean)) t (goes y t s1 Idle)"
      using th_no_memory [of "goes y t s (Mapping n clean)" t n clean mm s1] assms that by simp
    show "comes_to mm y t s1 Idle s1 (th_blocks y)"
      unfolding comes_to_def goes_same_blocks by (rule th_start)
  qed
  show "comes_to mm y t s (Mapping n clean) (finish p (Got ?o n clean True) u) (insert (p, ?o, n) (th_blocks y))"
    if "p \<noteq> 0" "unhand_page s1 p = Inr u"
  proof (rule comes_to_blocks)
    show "pet_step mm (goes y t s (Mapping n clean)) t
        ((goes y t s1 (Handing p (Got ?o n clean True)))\<lparr>th_blocks := insert (p, ?o, n) (th_blocks y)\<rparr>)"
      using th_map [of "goes y t s (Mapping n clean)" t n clean mm s1 p] assms that(1) by simp
    show "comes_to mm (y\<lparr>th_blocks := insert (p, ?o, n) (th_blocks y)\<rparr>) t s1 (Handing p (Got ?o n clean True))
        (finish p (Got ?o n clean True) u) (insert (p, ?o, n) (th_blocks y))"
      using comes_to_hand [OF that(2), of mm "y\<lparr>th_blocks := insert (p, ?o, n) (th_blocks y)\<rparr>"]
      by (simp del: finish.simps)
  qed
qed

text \<open>The result of \<open>find_available_page\<close> is reached.\<close>

lemma finds_page:
  assumes "find_available_page s n = Inr (s1, found)"
    and "comes_to mm y t s1 (case found of None \<Rightarrow> Mapping n clean | Some (p, offset) \<Rightarrow> Filling n clean p offset) s' B"
  shows "comes_to mm y t s (Seeking n clean) s' B"
proof -
  let ?next = "case found of None \<Rightarrow> Mapping n clean | Some (p, offset) \<Rightarrow> Filling n clean p offset"
  have search: "comes_to mm y t s2 pc s' B" if "pc = Searching n clean \<or> pc = Seeking n clean \<and> lru_page s2 = 0"
    "search_superblock s2 n (unat n) n = Inr (s1, found)" for s2 pc
  proof (rule comes_to_step [OF _ assms(2)])
    show "pet_step mm (goes y t s2 pc) t (goes y t s1 ?next)"
    proof (cases found)
      case None
      then show ?thesis using th_none [of "goes y t s2 pc" t n clean s1 mm] that by simp
    next
      case (Some x)
      then show ?thesis
        using th_found [of "goes y t s2 pc" t n clean s1 "fst x" "snd x" mm] that by (cases x) simp
    qed
  qed
  show ?thesis
  proof (cases "lru_page s = 0")
    case True
    then show ?thesis using search [of "Seeking n clean" s] assms(1) by (simp add: find_available_page_def)
  next
    case False
    let ?p = "lru_page s"
    obtain s2 offset where s2: "delete_from_list s ?p = Inr s2" "page_free_block s2 ?p n = Inr offset"
      using assms(1) False by (auto simp: find_available_page_def Let_def bindE_Inr_iff)
    have take: "pet_step mm (goes y t s (Seeking n clean)) t (goes y t s2 (Has_lru n clean ?p))"
      using th_take_lru [of "goes y t s (Seeking n clean)" t n clean s2 mm] False s2(1) by simp
    show ?thesis
    proof (rule comes_to_step [OF take], cases "offset = 0")
      case o: False
      then have f: "s1 = s2" "found = Some (?p, offset)"
        using assms(1) False s2 by (simp_all add: find_available_page_def Let_def)
      have "pet_step mm (goes y t s2 (Has_lru n clean ?p)) t (goes y t s2 (Filling n clean ?p offset))"
        using th_look [of "goes y t s2 (Has_lru n clean ?p)" t n clean ?p offset mm] s2(2) o by simp
      then show "comes_to mm y t s2 (Has_lru n clean ?p) s' B"
        using comes_to_step assms(2) by (simp add: f)
    next
      case o: True
      obtain lfb s3 where s3: "page_longest_free_block s2 ?p = Inr lfb" "add_to_superblock_entry s2 ?p lfb = Inr s3"
        "search_superblock s3 n (unat n) n = Inr (s1, found)"
        using assms(1) False s2 o by (auto simp: find_available_page_def Let_def bindE_Inr_iff)
      have a: "pet_step mm (goes y t s2 (Has_lru n clean ?p)) t (goes y t s2 (Listing n clean ?p lfb))"
        using th_no_room [of "goes y t s2 (Has_lru n clean ?p)" t n clean ?p lfb mm] s2(2) s3(1) o by simp
      have b: "pet_step mm (goes y t s2 (Listing n clean ?p lfb)) t (goes y t s3 (Searching n clean))"
        using th_list [of "goes y t s2 (Listing n clean ?p lfb)" t n clean ?p lfb s3 mm] s3(2) by simp
      show "comes_to mm y t s2 (Has_lru n clean ?p) s' B"
        by (rule comes_to_step [OF a], rule comes_to_step [OF b], rule search) (use s3(3) in simp_all)
    qed
  qed
qed

subsection \<open>The sequential functions\<close>

lemma comes_to_call:
  assumes "grab_page s p = Inr s1" and "work s1 p td = Inr (s2, r)" and "unhand_page s2 p = Inr u"
  shows "comes_to mm y t s (Grabbing p td) (finish p r u)
    (th_blocks y - {todo_block p td} \<union> set_option (outcome_block p r))"
proof (rule comes_to_step)
  let ?B = "th_blocks y - {todo_block p td} \<union> set_option (outcome_block p r)"
  show "pet_step mm (goes y t s (Grabbing p td)) t (goes y t s1 (Working p td))"
    using th_grab [of "goes y t s (Grabbing p td)" t p td s1 mm] assms(1) by simp
  show "comes_to mm y t s1 (Working p td) (finish p r u) ?B"
  proof (rule comes_to_blocks)
    show "pet_step mm (goes y t s1 (Working p td)) t ((goes y t s2 (Handing p r))\<lparr>th_blocks := ?B\<rparr>)"
      using th_work [of "goes y t s1 (Working p td)" t p td s2 r mm] assms(2) by simp
    show "comes_to mm (y\<lparr>th_blocks := ?B\<rparr>) t s2 (Handing p r) (finish p r u) ?B"
      using comes_to_hand [OF assms(3), of mm "y\<lparr>th_blocks := ?B\<rparr>"] by (simp del: finish.simps)
  qed
qed

datatype request = Allocate u32 bool | Change u64 todo

fun entry :: "request \<Rightarrow> pet_pc" where
  "entry (Allocate n clean) = Seeking n clean"
| "entry (Change p td) = Grabbing p td"

fun sequential :: "mmap_fun \<Rightarrow> pet \<Rightarrow> request \<Rightarrow> pet res" where
  "sequential mm s (Allocate n clean) = bindE (bm_allocate mm s n clean) (\<lambda>(s, addr). Inr s)"
| "sequential mm s (Change p (Clear offset n)) = bm_release s p offset n"
| "sequential mm s (Change p (Cut offset old new)) = bm_shrink s p offset old new"
| "sequential mm s (Change p (Extend offset old new)) = bindE (bm_grow s p offset old new) (\<lambda>(s, ok). Inr s)"

lemma unhand_keeps_header:
  "unhand_page s p = Inr u \<Longrightarrow> bm_page_header_size_in_units u = bm_page_header_size_in_units s"
proof -
  have w: "write_page s p f = Inr u \<Longrightarrow> bm_page_header_size_in_units u = bm_page_header_size_in_units s" for s p f u
    by (auto simp: write_page_def split: option.splits)
  have h: "set_head s l p = Inr u \<Longrightarrow> bm_page_header_size_in_units u = bm_page_header_size_in_units s" for s l p u
    by (cases l) (auto simp: bindE_Inr_iff split: if_splits)
  have a: "add_to_list s l p = Inr u \<Longrightarrow> bm_page_header_size_in_units u = bm_page_header_size_in_units s" for s l p u
    by (auto simp: add_to_list_def bindE_Inr_iff Let_def split: if_splits dest!: w h)
  show "unhand_page s p = Inr u \<Longrightarrow> bm_page_header_size_in_units u = bm_page_header_size_in_units s"
    by (auto simp: unhand_page_def bindE_Inr_iff Let_def call_munmap_def split: if_splits dest!: w a)
qed

lemma allocates_alone:
  assumes "bm_allocate mm s n clean = Inr (s', addr)"
  shows "(addr = 0 \<and> comes_to mm y t s (Seeking n clean) s' (th_blocks y)) \<or>
    (\<exists>p offset. addr = unit_addr p offset \<and>
       comes_to mm y t s (Seeking n clean) s' (insert (p, offset, n) (th_blocks y)))"
proof -
  obtain s1 found where f: "find_available_page s n = Inr (s1, found)"
    using assms by (auto simp: bm_allocate_def bindE_Inr_iff)
  note find = finds_page [OF f]
  show ?thesis
  proof (cases found)
    case (Some x)
    obtain p offset where x: "x = (p, offset)" by (cases x)
    obtain s2 u where u: "change_bits set_bits s1 p offset n = Inr s2" "unhand_page s2 p = Inr u"
      "bm_allocate_out n clean (u, p + ucast (offset * 16)) = (s', addr)"
      using assms Some x f by (auto simp: bm_allocate_def bindE_Inr_iff)
    have "finish p (Got offset n clean False) u = s'" using u(3) by simp
    moreover have "addr = unit_addr p offset" using u(3) by (simp add: unit_addr_def bm_allocate_out_def Let_def)
    ultimately show ?thesis using find [of mm y t clean] comes_to_fill [OF u(1,2)] Some x by fastforce
  next
    case None
    obtain m p where call: "call_mmap mm s1 (sys_page_size s1) False = (m, p)" by fastforce
    show ?thesis
    proof (cases "p = 0")
      case True
      then have map: "map_page mm s1 n = Inr (m, 0)" using call by (simp add: map_page_def)
      have "s' = m" "addr = 0" using assms f None True call by (simp_all add: bm_allocate_def bm_allocate_out_def)
      then show ?thesis using find [of mm y t clean] comes_to_map(1) [OF map] None by fastforce
    next
      case False
      then obtain s2 u where m: "map_page mm s1 n = Inr (s2, p)" "unhand_page s2 p = Inr u"
        "bm_allocate_out n clean (u\<lparr>num_bm_pages := num_bm_pages u + 1\<rparr>,
           p + ucast (bm_page_header_size_in_units u * 16)) = (s', addr)"
        using assms f None call by (auto simp: bm_allocate_def map_page_def bindE_Inr_iff Let_def)
      have "finish p (Got (bm_page_header_size_in_units s2) n clean True) u = s'"
        using m(3) by (simp add: unhand_keeps_header [OF m(2)])
      moreover have "addr = unit_addr p (bm_page_header_size_in_units s2)"
        using m(3) by (simp add: unhand_keeps_header [OF m(2)] unit_addr_def bm_allocate_out_def Let_def)
      ultimately show ?thesis using find [of mm y t clean] comes_to_map(2) [OF m(1) False m(2)] None by fastforce
    qed
  qed
qed

lemma changes_alone:
  assumes "sequential mm s (Change p td) = Inr s'"
  obtains s1 s2 r where "grab_page s p = Inr s1" and "work s1 p td = Inr (s2, r)"
    and "comes_to mm y t s (Grabbing p td) s' (th_blocks y - {todo_block p td} \<union> set_option (outcome_block p r))"
proof -
  obtain s1 s2 r u where "grab_page s p = Inr s1" "work s1 p td = Inr (s2, r)" "unhand_page s2 p = Inr u"
    "finish p r u = s'"
    using assms
    by (cases td) (auto simp: bm_release_def bm_shrink_def bm_grow_def bindE_Inr_iff Let_def split: if_splits)
  then show thesis using that comes_to_call by blast
qed

text \<open>
  A thread whose operation is not interrupted does exactly what the sequential function does: the steps
  of \<open>bm_allocate\<close>, \<open>bm_release\<close>, \<open>bm_shrink\<close> and \<open>bm_grow\<close> lead to the state that the function returns.
\<close>

theorem pet_threads_alone:
  assumes "sequential mm s rq = Inr s'"
  shows "\<exists>B. pet_runs mm (goes y t s (entry rq)) ((goes y t s' Idle)\<lparr>th_blocks := B\<rparr>)"
proof (cases rq)
  case (Allocate n clean)
  then obtain addr where "bm_allocate mm s n clean = Inr (s', addr)" using assms by (auto simp: bindE_Inr_iff)
  from allocates_alone [OF this, of y t] show ?thesis unfolding comes_to_def Allocate entry.simps by blast
next
  case (Change p td)
  have "sequential mm s (Change p td) = Inr s'" using assms Change by simp
  from changes_alone [OF this, of y t] show ?thesis unfolding comes_to_def Change entry.simps by blast
qed

subsection \<open>Witnesses\<close>

text \<open>Two threads allocate at the same time.\<close>

definition two_allocate :: "pet \<Rightarrow> pet_threads" where
  "two_allocate s = goes (goes (threads_start s {}) 0 s (Seeking 1 False)) 1 s (Seeking 2 True)"

lemma max_data_units_4096:
  assumes "geometry s" and "sys_page_size s = 4096"
  shows "unat (max_data_units s) = 252"
proof -
  have "unat (units_per_page s) = 256" "unat (bm_page_header_size_in_units s) = 4"
    using assms by (simp_all add: geometry_def)
  then show ?thesis using geometry_bounds(6) [OF assms(1)] by simp
qed

lemma two_allocate_runs:
  obtains s where "started = Inr s" and "pet_inv s" and "blocks_apart s {}"
    and "mmap_ok (sys_page_size s) simple_mmap" and "pet_runs simple_mmap (threads_start s {}) (two_allocate s)"
proof (rule started_ok)
  fix s assume s: "started = Inr s" "heap_ok s {}" "sys_page_size s = 4096"
  have apart: "blocks_apart s {}" using heap_okD(5) [OF s(2)] by (simp add: blocks_apart_def)
  have n: "(1::u32) \<le> max_data_units s" "(2::u32) \<le> max_data_units s"
    using max_data_units_4096 [OF heap_okD(2) [OF s(2)] s(3)] by (simp_all add: word_le_nat_alt)
  have "pet_step simple_mmap (threads_start s {}) 0 (goes (threads_start s {}) 0 s (Seeking 1 False))"
    using th_allocate [of "threads_start s {}" 0 1 simple_mmap False] n by (simp add: threads_start_def)
  moreover have "pet_step simple_mmap (goes (threads_start s {}) 0 s (Seeking 1 False)) 1 (two_allocate s)"
    using th_allocate [of "goes (threads_start s {}) 0 s (Seeking 1 False)" 1 2 simple_mmap True] n
    by (simp add: two_allocate_def threads_start_def)
  ultimately have "pet_runs simple_mmap (threads_start s {}) (two_allocate s)" by (blast intro: th_start th_next)
  with that [OF s(1) heap_okD(1) [OF s(2)] apart] simple_mmap_ok s(3) show thesis by simp
qed

theorem pet_threads_keep_apart_witness:
  "\<exists>s. started = Inr s \<and> pet_runs simple_mmap (threads_start s {}) (two_allocate s) \<and>
     blocks_apart (th_pet (two_allocate s)) (th_blocks (two_allocate s))"
proof (rule two_allocate_runs)
  fix s assume s: "started = Inr s" "pet_inv s" "blocks_apart s {}" "mmap_ok (sys_page_size s) simple_mmap"
    "pet_runs simple_mmap (threads_start s {}) (two_allocate s)"
  from pet_threads_keep_apart [OF s(2-5)] s(1,5) show ?thesis by blast
qed

theorem pet_threads_progress_witness:
  "\<exists>s u z. started = Inr s \<and> pet_step simple_mmap (two_allocate s) u z \<and>
     steps_left (th_pc z u) < steps_left (th_pc (two_allocate s) u)"
proof (rule two_allocate_runs)
  fix s assume s: "started = Inr s" "pet_inv s" "blocks_apart s {}" "mmap_ok (sys_page_size s) simple_mmap"
    "pet_runs simple_mmap (threads_start s {}) (two_allocate s)"
  have "th_pc (two_allocate s) 1 \<noteq> Idle" by (simp add: two_allocate_def)
  from pet_threads_progress [OF s(2-5) this] s(1) show ?thesis by blast
qed

theorem pet_threads_alone_witness:
  "\<exists>s s' B. started = Inr s \<and> sequential simple_mmap s (Allocate 4 True) = Inr s' \<and>
     pet_runs simple_mmap (goes (threads_start s {}) 0 s (Seeking 4 True)) ((goes (threads_start s {}) 0 s' Idle)\<lparr>th_blocks := B\<rparr>)"
proof (rule started_ok)
  fix s assume s: "started = Inr s" "heap_ok s {}" "sys_page_size s = 4096"
  have m: "mmap_ok (sys_page_size s) simple_mmap" using simple_mmap_ok s(3) by simp
  have n: "0 < unat (4::u32)" "(4::u32) \<le> max_data_units s"
    using max_data_units_4096 [OF heap_okD(2) [OF s(2)] s(3)] by (simp_all add: word_le_nat_alt)
  obtain s' a where "bm_allocate simple_mmap s 4 True = Inr (s', a)"
    using bm_allocate_ok [OF heap_okD(1) [OF s(2)] m n, of True] by blast
  then have q: "sequential simple_mmap s (Allocate 4 True) = Inr s'" by simp
  from pet_threads_alone [OF q, of "threads_start s {}" 0] q s(1) show ?thesis by auto
qed

end
