(* ===== verification/Pet_Program_Alone.thy ===== *)
theory Pet_Program_Alone
  imports Pet_Program_Invariant Pet_Threads_Claims
begin

text \<open>
  A heap with its blocks, as \<open>heap_ok\<close> describes it, as a state of the program of threads, and the calls for
  small blocks as runs of one thread that is alone. \<open>Pet_Program_Calls\<close> does the rest of the operations.
\<close>

subsection \<open>A heap as the state of a program\<close>

fun ublock_of :: "pet \<Rightarrow> block \<Rightarrow> ublock" where
  "ublock_of s (a, n) = (bm_page_by_addr s a, ptrdiff_to_units a (bm_page_by_addr s a), bytes_to_units n)"

definition ublocks :: "pet \<Rightarrow> block set \<Rightarrow> ublock set" where
  "ublocks s B = ublock_of s ` {b\<in>B. small s (snd b)}"

definition larges :: "pet \<Rightarrow> block set \<Rightarrow> block set" where
  "larges s B = {b\<in>B. \<not> small s (snd b)}"

definition program_of :: "pet \<Rightarrow> block set \<Rightarrow> pet_program" where
  "program_of s B = \<lparr>pr_threads = \<lparr>th_pet = s, th_pc = (\<lambda>t. Idle), th_blocks = ublocks s B\<rparr>, pr_large = larges s B\<rparr>"

lemma program_of_simps [simp]:
  "pr_pet (program_of s B) = s" "th_pc (pr_threads (program_of s B)) t = Idle"
  "th_blocks (pr_threads (program_of s B)) = ublocks s B" "pr_large (program_of s B) = larges s B"
  by (simp_all add: program_of_def)

lemma nobody_in_call [simp]: "in_call (program_of s B) u = {}"
  by (simp add: in_call_def)

lemma ublocks_cong: "same_params s t \<Longrightarrow> ublocks t B = ublocks s B \<and> larges t B = larges s B"
proof -
  assume par: "same_params s t"
  then have "ublock_of t b = ublock_of s b" for b
    by (cases b) (simp add: bm_page_by_addr_def same_params_def)
  then show ?thesis using block_cong(4) [OF par] by (simp add: ublocks_def larges_def)
qed

lemma ublock_units:
  assumes "heap_ok s B" and "(a, n) \<in> B" and "small s n"
  shows "units (ublock_of s (a, n)) = units_of s (a, n)" and "block_fits s (ublock_of s (a, n))"
proof -
  obtain p and offset :: u32 where p: "bm_page_by_addr s a = p" "ptrdiff_to_units a p = offset"
    "units_of s (a, n) = block_units p (unat offset) (unat (bytes_to_units n))"
    "unat (bm_page_header_size_in_units s) \<le> unat offset"
    "unat offset + unat (bytes_to_units n) \<le> unat (units_per_page s)"
    by (rule block_in_heap [OF assms], rule that)
  have "0 < unat (bytes_to_units n)"
    by (rule sized_units(2) [OF heap_okD(2) [OF assms(1)] shape_sized [OF heap_okD(3) [OF assms(1,2)]]])
  then show "units (ublock_of s (a, n)) = units_of s (a, n)" "block_fits s (ublock_of s (a, n))"
    using p by (simp_all add: word_less_nat_alt)
qed

lemma ublock_inj:
  assumes H: "heap_ok s B" and "b \<in> B" "c \<in> B" and "small s (snd b)" "small s (snd c)" and "ublock_of s b = ublock_of s c"
  shows "b = c"
proof (rule ccontr)
  assume "b \<noteq> c"
  then have "units_of s b \<inter> units_of s c = {}" by (rule heap_okD(7) [OF H assms(2,3)])
  moreover have "units (ublock_of s b) = units_of s b" "units (ublock_of s c) = units_of s c" "block_fits s (ublock_of s b)"
    using ublock_units [OF H, of "fst b" "snd b"] ublock_units(1) [OF H, of "fst c" "snd c"] assms(2-5) by simp_all
  ultimately show False using units_nonempty [of s "ublock_of s b"] assms(6) by auto
qed

lemma ublocks_insert [simp]:
  "ublocks s (insert (a, n) B) = (if small s n then insert (ublock_of s (a, n)) (ublocks s B) else ublocks s B)"
  "larges s (insert (a, n) B) = (if small s n then larges s B else insert (a, n) (larges s B))"
proof -
  have "{b \<in> insert (a, n) B. small s (snd b)} =
      (if small s n then insert (a, n) {b\<in>B. small s (snd b)} else {b\<in>B. small s (snd b)})" by auto
  then show "ublocks s (insert (a, n) B) = (if small s n then insert (ublock_of s (a, n)) (ublocks s B) else ublocks s B)"
    unfolding ublocks_def by (simp del: ublock_of.simps)
  show "larges s (insert (a, n) B) = (if small s n then larges s B else insert (a, n) (larges s B))"
    by (auto simp: larges_def)
qed

lemma ublocks_remove:
  assumes H: "heap_ok s B" and b: "(a, n) \<in> B"
  shows "ublocks s (B - {(a, n)}) = (if small s n then ublocks s B - {ublock_of s (a, n)} else ublocks s B)"
    and "larges s (B - {(a, n)}) = larges s B - {(a, n)}"
proof -
  have "ublock_of s c \<noteq> ublock_of s (a, n)" if "small s n" "c \<in> B - {(a, n)}" "small s (snd c)" for c
    using ublock_inj [OF H, of c "(a, n)"] b that by auto
  then have n: "ublock_of s (a, n) \<notin> ublocks s (B - {(a, n)})" if "small s n"
    using that unfolding ublocks_def by (blast dest: sym)
  have "ublocks s B = ublocks s (insert (a, n) (B - {(a, n)}))" using b by (simp only: insert_Diff)
  also have "\<dots> = (if small s n then insert (ublock_of s (a, n)) (ublocks s (B - {(a, n)})) else ublocks s (B - {(a, n)}))"
    by (rule ublocks_insert(1))
  finally show "ublocks s (B - {(a, n)}) = (if small s n then ublocks s B - {ublock_of s (a, n)} else ublocks s B)"
    using n by (simp del: ublock_of.simps)
  show "larges s (B - {(a, n)}) = larges s B - {(a, n)}" by (auto simp: larges_def)
qed

declare ublock_of.simps [simp del]

lemma program_of_inv:
  assumes H: "heap_ok s B"
  shows "program_inv (sys_page_size s) (program_of s B)"
proof -
  note D = heap_okD [OF H]
  have U: "(\<Union>b\<in>ublocks s B. units b) = used s"
  proof -
    have "units_of s b = (if small s (snd b) then units (ublock_of s b) else {})" if "b \<in> B" for b
      using that ublock_units(1) [OF H, of "fst b" "snd b"] large_units [of s b] by simp
    then have "used s = (\<Union>b\<in>{b\<in>B. small s (snd b)}. units (ublock_of s b))" unfolding D(5) by (auto split: if_splits)
    then show ?thesis by (simp add: ublocks_def)
  qed
  have apart: "blocks_apart s (ublocks s B)"
    unfolding blocks_apart_def U
  proof (intro conjI ballI impI refl)
    fix u assume "u \<in> ublocks s B"
    then obtain b where b: "b \<in> B" "small s (snd b)" "u = ublock_of s b" by (auto simp: ublocks_def)
    then show "block_fits s u" using ublock_units(2) [OF H, of "fst b" "snd b"] by simp
  next
    fix u v assume "u \<in> ublocks s B" "v \<in> ublocks s B" "u \<noteq> v"
    then obtain b c where b: "b \<in> B" "small s (snd b)" "u = ublock_of s b" "c \<in> B" "small s (snd c)" "v = ublock_of s c"
      "b \<noteq> c" unfolding ublocks_def by blast
    then show "units u \<inter> units v = {}"
      using D(7) [OF b(1,4,7)] ublock_units(1) [OF H, of "fst b" "snd b"] ublock_units(1) [OF H, of "fst c" "snd c"] by simp
  qed
  have "threads_inv (sys_page_size s) (threads_start s (ublocks s B))"
    by (rule threads_start_inv [OF D(1) apart])
  moreover have "large_ok s (larges s B)"
    using D(3,4,8) by (simp add: large_ok_def larges_def)
  ultimately show ?thesis by (simp add: program_inv_def program_of_def threads_start_def)
qed

subsection \<open>Runs of one thread\<close>

lemma program_runs_trans: "program_runs mm mr v w \<Longrightarrow> program_runs mm mr u v \<Longrightarrow> program_runs mm mr u w"
  by (induction rule: program_runs.induct) (auto intro: pr_next)

lemma program_runs_step: "program_step mm mr v t W w \<Longrightarrow> w = x \<Longrightarrow> program_runs mm mr v x"
  by (blast intro: pr_start pr_next)

lemma lift_runs: "pet_runs mm y z \<Longrightarrow> program_runs mm mr (w\<lparr>pr_threads := y\<rparr>) (w\<lparr>pr_threads := z\<rparr>)"
proof (induction rule: pet_runs.induct)
  case (th_next x y t z)
  from pr_small [of mm "w\<lparr>pr_threads := y\<rparr>" t z mr] th_next show ?case by (auto intro: pr_next)
qed (rule pr_start)

text \<open>An operation of the sub-allocator: its first step, and what \<open>comes_to\<close> says of the others.\<close>

lemma alone_operation:
  assumes "pet_step mm (pr_threads (program_of s B)) 0 (goes (pr_threads (program_of s B)) 0 s pc)"
    and "comes_to mm (pr_threads (program_of s B)) 0 s pc t U" and "U = ublocks t C" and "larges t C = larges s B"
  shows "program_runs mm mr (program_of s B) (program_of t C)"
proof -
  let ?y = "pr_threads (program_of s B)"
  have "pet_runs mm ?y ((goes ?y 0 t Idle)\<lparr>th_blocks := U\<rparr>)"
    using runs_first [OF assms(1)] assms(2) by (simp add: comes_to_def)
  from lift_runs [OF this, of mr "program_of s B"] show ?thesis
    using assms(3,4) by (simp add: program_of_def goes_def fun_upd_idem)
qed

text \<open>A block that the sub-allocator delivers has an address that leads back to its page and unit.\<close>

lemma reached_block:
  assumes I: "program_inv ps w" and b: "(p, offset, n) \<in> th_blocks (pr_threads w)"
  shows "unit_addr p offset \<noteq> 0" and "bm_page_by_addr (pr_pet w) (unit_addr p offset) = p"
    and "ptrdiff_to_units (unit_addr p offset) p = offset"
proof -
  obtain P where C: "pet_core (pr_pet w) P (hands (pr_threads w))" "blocks_apart (pr_pet w) (th_blocks (pr_threads w))"
    by (rule program_invD [OF I])
  note g = pet_coreD(1) [OF C(1)]
  have f: "0 < unat n" "unat (bm_page_header_size_in_units (pr_pet w)) \<le> unat offset"
    "unat offset + unat n \<le> unat (units_per_page (pr_pet w))"
    using blocks_apartD(2) [OF C(2) b] by (simp_all add: word_less_nat_alt)
  then have o: "unat offset < unat (units_per_page (pr_pet w))" "0 < unat offset"
    using geometry_bounds(4) [OF g] by linarith+
  note A = unit_addr_facts [OF g header_page(1) [OF C(1) block_page [OF C(2) b]] o(1)]
  show "unit_addr p offset \<noteq> 0" "bm_page_by_addr (pr_pet w) (unit_addr p offset) = p"
    "ptrdiff_to_units (unit_addr p offset) p = offset" using A(2,3) A(4) [OF o(2)] by simp_all
qed

lemma alone_allocate_small:
  assumes H: "heap_ok s B" and mm: "mmap_ok (sys_page_size s) mm" and n: "small s n" "sized s n"
    and r: "bm_allocate mm s (bytes_to_units n) clean = Inr (t, a)" and par: "same_params s t"
  shows "program_runs mm mr (program_of s B) (program_of t (if a = 0 then B else insert (a, n) B))"
proof -
  let ?u = "bytes_to_units n" and ?y = "pr_threads (program_of s B)"
  have u: "0 < ?u" "?u \<le> max_data_units s"
    using sized_units(2) [OF heap_okD(2) [OF H] n(2)] n(1) by (simp_all add: small_def unat_gt_0 word_gt_0)
  have first: "pet_step mm ?y 0 (goes ?y 0 s (Seeking ?u clean))"
    using th_allocate [of ?y 0 ?u mm clean] u by simp
  have e: "ublocks t C = ublocks s C" "larges t C = larges s C" for C using ublocks_cong [OF par] by simp_all
  from allocates_alone [OF r, of ?y 0] show ?thesis
  proof (elim disjE exE conjE)
    assume "a = 0" "comes_to mm ?y 0 s (Seeking ?u clean) t (th_blocks ?y)"
    then show ?thesis using alone_operation [OF first] by (simp add: e)
  next
    fix p offset
    assume a: "a = unit_addr p offset" and c: "comes_to mm ?y 0 s (Seeking ?u clean) t (insert (p, offset, ?u) (th_blocks ?y))"
    let ?w = "(program_of s B)\<lparr>pr_threads := (goes ?y 0 t Idle)\<lparr>th_blocks := insert (p, offset, ?u) (th_blocks ?y)\<rparr>\<rparr>"
    have "threads_inv (sys_page_size s) ?y" using program_of_inv [OF H] by (simp add: program_inv_def)
    moreover have "pet_runs mm ?y ((goes ?y 0 t Idle)\<lparr>th_blocks := insert (p, offset, ?u) (th_blocks ?y)\<rparr>)"
      using runs_first [OF first] c by (simp add: comes_to_def)
    ultimately have T: "threads_inv (sys_page_size s) (pr_threads ?w)" using pet_runs_inv mm by force
    have I: "program_inv (sys_page_size s) \<lparr>pr_threads = pr_threads ?w, pr_large = {}\<rparr>"
      using T by (simp add: program_inv_def large_ok_def)
    have f: "a \<noteq> 0" "ublock_of t (a, n) = (p, offset, ?u)"
      using reached_block [OF I, of p offset ?u] a by (simp_all add: ublock_of.simps)
    have ts: "small t n" using n(1) block_cong(4) [OF par] by simp
    then have "insert (p, offset, ?u) (th_blocks ?y) = ublocks t (insert (a, n) B)" using f by (simp add: e(1))
    moreover have "larges t (insert (a, n) B) = larges s B" using ts e(2) [of B] by simp
    ultimately show ?thesis using alone_operation [OF first c] f(1) by simp
  qed
qed

lemma alone_change:
  assumes H: "heap_ok s B" and b: "(a, n) \<in> B" "small s n" and par: "same_params s t"
    and p: "p = bm_page_by_addr s a" and td: "todo_block p td = ublock_of s (a, n)" "call_ok s td"
    and r: "sequential mm s (Change p td) = Inr t"
    and C: "\<And>s1 s2 q. grab_page s p = Inr s1 \<Longrightarrow> work s1 p td = Inr (s2, q) \<Longrightarrow>
      set_option (outcome_block p q) = U \<and> ublocks s C = ublocks s B - {ublock_of s (a, n)} \<union> U"
    and l: "larges s C = larges s B"
  shows "program_runs mm mr (program_of s B) (program_of t C)"
proof -
  let ?y = "pr_threads (program_of s B)"
  obtain s1 s2 q where q: "grab_page s p = Inr s1" "work s1 p td = Inr (s2, q)"
    "comes_to mm ?y 0 s (Grabbing p td) t (th_blocks ?y - {todo_block p td} \<union> set_option (outcome_block p q))"
    by (rule changes_alone [OF r])
  have "callable ?y (todo_block p td)"
    using b unfolding callable_def td(1) by (force simp: ublocks_def)
  then have "pet_step mm ?y 0 (goes ?y 0 s (Grabbing p td))"
    using th_call [of ?y 0 p td mm] td(2) by simp
  from alone_operation [OF this q(3)] show ?thesis
    using C [OF q(1,2)] l ublocks_cong [OF par] by (simp add: td(1))
qed

lemma alone_release_small:
  assumes H: "heap_ok s B" and b: "(a, n) \<in> B" "small s n" and par: "same_params s t"
    and r: "bm_release s (bm_page_by_addr s a) (ptrdiff_to_units a (bm_page_by_addr s a)) (bytes_to_units n) = Inr t"
  shows "program_runs mm mr (program_of s B) (program_of t (B - {(a, n)}))"
proof (rule alone_change [OF H b par refl,
      where td = "Clear (ptrdiff_to_units a (bm_page_by_addr s a)) (bytes_to_units n)" and U = "{}"])
  show "larges s (B - {(a, n)}) = larges s B"
    using ublocks_remove(2) [OF H b(1)] b(2) by (auto simp: larges_def)
qed (use r b(2) ublocks_remove(1) [OF H b(1)] in \<open>auto simp: ublock_of.simps bindE_Inr_iff\<close>)

text \<open>A small block of another size at the same place.\<close>

lemma resized_blocks:
  assumes H: "heap_ok s B" and b: "(a, old) \<in> B" and n: "small s old" "small s new"
  shows "ublocks s (insert (a, new) (B - {(a, old)})) =
      ublocks s B - {ublock_of s (a, old)} \<union> {(bm_page_by_addr s a, ptrdiff_to_units a (bm_page_by_addr s a), bytes_to_units new)}"
    and "larges s (insert (a, new) (B - {(a, old)})) = larges s B"
proof -
  have "ublock_of s (a, new) = (bm_page_by_addr s a, ptrdiff_to_units a (bm_page_by_addr s a), bytes_to_units new)"
    by (simp add: ublock_of.simps)
  then show "ublocks s (insert (a, new) (B - {(a, old)})) =
      ublocks s B - {ublock_of s (a, old)} \<union> {(bm_page_by_addr s a, ptrdiff_to_units a (bm_page_by_addr s a), bytes_to_units new)}"
    using ublocks_remove(1) [OF H b] n by simp
  have "(a, old) \<notin> larges s B" using n(1) by (simp add: larges_def)
  then show "larges s (insert (a, new) (B - {(a, old)})) = larges s B"
    using ublocks_remove(2) [OF H b] n(2) by simp
qed

lemma alone_shrink_small:
  assumes H: "heap_ok s B" and b: "(a, old) \<in> B" "small s old" and par: "same_params s t"
    and n: "small s new" "0 < bytes_to_units new" "bytes_to_units new \<le> bytes_to_units old"
    and r: "bm_shrink s (bm_page_by_addr s a) (ptrdiff_to_units a (bm_page_by_addr s a)) (bytes_to_units old)
      (bytes_to_units new) = Inr t"
  shows "program_runs mm mr (program_of s B) (program_of t (insert (a, new) (B - {(a, old)})))"
proof (rule alone_change [OF H b par refl,
      where td = "Cut (ptrdiff_to_units a (bm_page_by_addr s a)) (bytes_to_units old) (bytes_to_units new)"
        and U = "{(bm_page_by_addr s a, ptrdiff_to_units a (bm_page_by_addr s a), bytes_to_units new)}"])
  let ?p = "bm_page_by_addr s a" and ?o = "ptrdiff_to_units a (bm_page_by_addr s a)"
  fix s1 s2 q assume "work s1 ?p (Cut ?o (bytes_to_units old) (bytes_to_units new)) = Inr (s2, q)"
  then have "q = Kept ?o (bytes_to_units new) True" by (auto simp: bindE_Inr_iff)
  then show "set_option (outcome_block ?p q) = {(?p, ?o, bytes_to_units new)} \<and>
      ublocks s (insert (a, new) (B - {(a, old)})) = ublocks s B - {ublock_of s (a, old)} \<union> {(?p, ?o, bytes_to_units new)}"
    using resized_blocks(1) [OF H b n(1)] by simp
next
  show "larges s (insert (a, new) (B - {(a, old)})) = larges s B" by (rule resized_blocks(2) [OF H b n(1)])
qed (use r n in \<open>simp_all add: ublock_of.simps\<close>)

lemma alone_grow_small:
  assumes H: "heap_ok s B" and b: "(a, old) \<in> B" "small s old" and par: "same_params s t"
    and n: "small s new" "bytes_to_units old \<le> bytes_to_units new"
    and r: "bm_grow s (bm_page_by_addr s a) (ptrdiff_to_units a (bm_page_by_addr s a)) (bytes_to_units old)
      (bytes_to_units new) = Inr (t, grown)"
  shows "program_runs mm mr (program_of s B) (program_of t (if grown then insert (a, new) (B - {(a, old)}) else B))"
proof (rule alone_change [OF H b par refl,
      where td = "Extend (ptrdiff_to_units a (bm_page_by_addr s a)) (bytes_to_units old) (bytes_to_units new)"])
  have "ublock_of s (a, old) \<in> ublocks s B" using b by (force simp: ublocks_def)
  then have same: "ublocks s B = ublocks s B - {ublock_of s (a, old)} \<union> {ublock_of s (a, old)}" by blast
  let ?p = "bm_page_by_addr s a" and ?o = "ptrdiff_to_units a (bm_page_by_addr s a)"
  fix s1 s2 q assume g: "grab_page s ?p = Inr s1"
    "work s1 ?p (Extend ?o (bytes_to_units old) (bytes_to_units new)) = Inr (s2, q)"
  then have "q = Kept ?o (if grown then bytes_to_units new else bytes_to_units old) grown"
    using r by (auto simp: bm_grow_def bindE_Inr_iff Let_def split: if_splits)
  then show "set_option (outcome_block ?p q) = {(?p, ?o, if grown then bytes_to_units new else bytes_to_units old)} \<and>
      ublocks s (if grown then insert (a, new) (B - {(a, old)}) else B) =
        ublocks s B - {ublock_of s (a, old)} \<union> {(?p, ?o, if grown then bytes_to_units new else bytes_to_units old)}"
    using resized_blocks(1) [OF H b n(1)] same by (simp add: ublock_of.simps)
qed (use r n resized_blocks(2) [OF H b n(1)] in \<open>auto simp: ublock_of.simps bindE_Inr_iff\<close>)

end
