(* ===== verification/Pet_Program_Calls.thy ===== *)
theory Pet_Program_Calls
  imports Pet_Program_Alone
begin

text \<open>
  The steps of a program against the functions of one thread: whatever \<open>_allocate\<close>, \<open>_release\<close> and
  \<open>_reallocate\<close> compute on a heap with the blocks \<open>B\<close>, a thread that is alone comes to by steps of the
  program. \<open>_reallocate\<close> on a small block is a sequence of calls and writes, in the order of the code.
\<close>

subsection \<open>Writing into a block\<close>

lemma same_params_mem [simp]: "same_params s (s\<lparr>mem := m\<rparr>)"
  by (simp add: same_params_def)

lemma with_pet_program_of:
  assumes "same_params s t"
  shows "(with_pet (program_of s B) t)\<lparr>pr_large := larges s B\<rparr> = program_of t B"
    and "with_pet (program_of s B) t = program_of t B"
  using ublocks_cong [OF assms, of B] by (simp_all add: program_of_def with_pet_def)

lemma live_block_bytes:
  assumes H: "heap_ok s B" and b: "(a, n) \<in> B" and x: "x \<in> block_bytes (a, n)"
  obtains c where "c \<in> live (program_of s B)" and "x \<in> live_bytes c"
proof (cases "small s n")
  case False
  then have "Large (a, n) \<in> live (program_of s B)" using b by (simp add: larges_def)
  then show thesis using that [of "Large (a, n)"] x by simp
next
  case True
  have "Small (ublock_of s (a, n)) \<in> live (program_of s B)" using b True by (force simp: ublocks_def)
  moreover have "x \<in> small_bytes (ublock_of s (a, n))"
  proof (rule block_in_heap [OF H b True])
    fix p and offset :: u32
    assume p: "bm_page_by_addr s a = p" "ptrdiff_to_units a p = offset" "unat a = unat p + 16 * unat offset"
    have "unat n \<le> 16 * unat (bytes_to_units n)"
      by (rule sized_units(3) [OF heap_okD(2) [OF H] shape_sized [OF heap_okD(3) [OF H b]]])
    then show ?thesis using x p by (simp add: ublock_of.simps small_bytes.simps block_bytes_range)
  qed
  ultimately show thesis using that [of "Small (ublock_of s (a, n))"] by simp
qed

lemma alone_writes:
  assumes H: "heap_ok s B" and b: "(a, n) \<in> B" and m: "\<And>x. x \<notin> block_bytes (a, n) \<Longrightarrow> m x = mem s x"
  shows "program_runs mm mr (program_of s B) (program_of (s\<lparr>mem := m\<rparr>) B)"
proof -
  have "finite A \<Longrightarrow> A \<subseteq> block_bytes (a, n) \<Longrightarrow>
      program_runs mm mr (program_of s B) (program_of (s\<lparr>mem := \<lambda>x. if x \<in> A then m x else mem s x\<rparr>) B)" for A
  proof (induction A rule: finite_induct)
    case (insert x A)
    let ?t = "s\<lparr>mem := \<lambda>x. if x \<in> A then m x else mem s x\<rparr>"
    let ?u = "s\<lparr>mem := \<lambda>y. if y \<in> insert x A then m y else mem s y\<rparr>"
    have u: "?u = ?t\<lparr>mem := (mem ?t)(x := m x)\<rparr>" using insert.hyps by (auto simp: fun_eq_iff)
    have T: "heap_ok ?t B" using H by simp
    obtain c where c: "c \<in> live (program_of ?t B)" "x \<in> live_bytes c"
      by (rule live_block_bytes [OF T b]) (use insert.prems in blast)
    have "program_step mm mr (program_of ?t B) 0 {c} (with_pet (program_of ?t B) ?u)"
      using pr_write [of "program_of ?t B" 0 c x mm mr "m x"] c unfolding u by simp
    moreover have "with_pet (program_of ?t B) ?u = program_of ?u B"
      by (rule with_pet_program_of(2)) (simp add: same_params_def)
    ultimately show ?case using insert by (auto intro: pr_next)
  qed (simp add: pr_start)
  from this [of "block_bytes (a, n)"]
  have "program_runs mm mr (program_of s B)
      (program_of (s\<lparr>mem := \<lambda>x. if x \<in> block_bytes (a, n) then m x else mem s x\<rparr>) B)" by simp
  moreover have "(\<lambda>x. if x \<in> block_bytes (a, n) then m x else mem s x) = m" using m by auto
  ultimately show ?thesis by simp
qed

subsection \<open>The operations of the allocator\<close>

lemma alone_allocate:
  assumes H: "heap_ok s B" and mm: "mmap_ok (sys_page_size s) mm" and n: "sized s n"
    and r: "pet_allocate mm s n clean = Inr (t, a)" and par: "same_params s t"
  shows "program_runs mm mr (program_of s B) (program_of t (if a = 0 then B else insert (a, n) B))"
proof (cases "small s n")
  case True
  then have "bm_allocate mm s (bytes_to_units n) clean = Inr (t, a)"
    using r n by (simp add: pet_allocate_def small_def sized_def)
  then show ?thesis by (rule alone_allocate_small [OF H mm True n _ par])
next
  case False
  let ?C = "if a = 0 then B else insert (a, n) B"
  have "larges t ?C = (if a = 0 then larges s B else insert (a, n) (larges s B))" "ublocks t ?C = ublocks s B"
    using ublocks_cong [OF par, of ?C] False by simp_all
  then show ?thesis
    using pr_allocate [of "program_of s B" 0 n mm clean t a mr] n False r
    by (intro program_runs_step) (auto simp: program_of_def with_pet_def)
qed

lemma alone_release:
  assumes H: "heap_ok s B" and b: "(a, n) \<in> B" and r: "pet_release s a n = Inr (t, p)" and par: "same_params s t"
  shows "program_runs mm mr (program_of s B) (program_of t (B - {(a, n)}))"
proof (cases "small s n")
  case True
  have "n \<noteq> 0" using shape_sized [OF heap_okD(3) [OF H b]] by (simp add: sized_def)
  moreover have "a \<noteq> 0" "a \<noteq> bm_page_by_addr s a" using block_in_heap [OF H b True] by metis+
  ultimately have "bm_release s (bm_page_by_addr s a) (ptrdiff_to_units a (bm_page_by_addr s a)) (bytes_to_units n) = Inr t"
    using r by (auto simp: pet_release_def bindE_Inr_iff Let_def)
  then show ?thesis by (rule alone_release_small [OF H b True par])
next
  case False
  let ?C = "B - {(a, n)}"
  have "larges t ?C = larges s B - {(a, n)}" "ublocks t ?C = ublocks s B"
    using ublocks_cong [OF par, of ?C] ublocks_remove [OF H b] False by simp_all
  moreover have "(a, n) \<in> larges s B" using b False by (simp add: larges_def)
  ultimately show ?thesis
    using pr_release [of "program_of s B" 0 a n t p mm mr] r
    by (intro program_runs_step) (auto simp: program_of_def with_pet_def)
qed

lemma alone_zero_tail:
  assumes H: "heap_ok s B" and b: "(a, new) \<in> B"
  shows "program_runs mm mr (program_of s B) (program_of (zero_tail s a old new clean) B)"
proof (cases clean)
  case True
  have "zero_range (mem s) (unat a + unat old) (unat a + unat new) x = mem s x" if "x \<notin> block_bytes (a, new)" for x
    using that by (auto simp: zero_range_def block_bytes_range)
  from alone_writes [OF H b this] show ?thesis using True by (simp add: zero_tail_def)
qed (simp add: zero_tail_def pr_start)

text \<open>A large block that is resized to a large one is one step.\<close>

lemma alone_remap:
  assumes H: "heap_ok s B" and b: "(a, old) \<in> B" and n: "\<not> small s old" "sized s new" "\<not> small s new"
    and r: "pet_reallocate mm mr s a old new clean = Inr (t, a', changed, ok)" and par: "same_params s t"
  shows "program_runs mm mr (program_of s B) (program_of t (if ok then insert (a', new) (B - {(a, old)}) else B))"
proof -
  let ?C = "if ok then insert (a', new) (B - {(a, old)}) else B"
  have "larges t ?C = (if ok then insert (a', new) (larges s B - {(a, old)}) else larges s B)" "ublocks t ?C = ublocks s B"
    using ublocks_cong [OF par, of ?C] ublocks_remove [OF H b] n by simp_all
  moreover have "(a, old) \<in> larges s B" using b n(1) by (simp add: larges_def)
  ultimately show ?thesis
    using pr_reallocate [of "program_of s B" 0 a old new mm mr clean t a' changed ok] r n
    by (intro program_runs_step) (auto simp: program_of_def with_pet_def)
qed

text \<open>A block that is moved: an allocation, copying, a release, and cleaning the rest.\<close>

lemma alone_move:
  assumes H: "heap_ok s B" "(a, old) \<in> B" and mm: "mmap_ok (sys_page_size s) mm" and n: "sized s new" "unat old \<le> unat new"
    and r: "pet_move mm s a old new clean = Inr (t, a', changed, ok)"
  shows "program_runs mm mr (program_of s B) (program_of t (if ok then insert (a', new) (B - {(a, old)}) else B))"
  using pet_allocate_ok [OF H(1) mm n(1), of False]
proof (elim disjE exE conjE)
  fix t0 assume t0: "pet_allocate mm s new False = Inr (t0, 0)" "same_params s t0"
  then have "t = t0" "\<not> ok" using r by (simp_all add: pet_move_def)
  then show ?thesis using alone_allocate [OF H(1) mm n(1) t0, of mr] by simp
next
  fix t1 b assume t1: "pet_allocate mm s new False = Inr (t1, b)" "new_block s B new False t1 b"
  have N: "b \<noteq> 0" "(b, new) \<notin> B" "heap_ok t1 (insert (b, new) B)" "same_params s t1"
    using t1(2) by (simp_all add: new_block_def)
  have e: "unat b + unat new \<le> 2 ^ 64"
    by (rule block_end [OF heap_okD(2) [OF N(3)]]) (rule heap_okD(3) [OF N(3)], simp)
  let ?s2 = "copy t1 b a old"
  have H2: "heap_ok ?s2 (insert (b, new) B)" "(a, old) \<in> insert (b, new) B"
    using heap_ok_counters(2) [OF N(3)] H(2) by (simp_all add: copy_def)
  have other: "insert (b, new) B - {(a, old)} = insert (b, new) (B - {(a, old)})" using N(2) H(2) by auto
  show ?thesis
  proof (rule pet_release_ok [OF H2])
    fix t3 assume t3: "pet_release ?s2 a old = Inr (t3, 0)" "heap_ok t3 (insert (b, new) B - {(a, old)})"
      "same_params ?s2 t3"
    have "pet_move mm s a old new clean = Inr (zero_tail t3 b old new clean, b, True, True)"
      using N(1) t3(1) cleanse_tail [OF e n(2), of clean t3] by (simp add: pet_move_def t1(1) Let_def)
    then have fin: "t = zero_tail t3 b old new clean" "a' = b" "ok" using r by auto
    have r1: "program_runs mm mr (program_of s B) (program_of t1 (insert (b, new) B))"
      using alone_allocate [OF H(1) mm n(1) t1(1) N(4), of mr] N(1) by simp
    have "moved_mem (mem t1) b a old x = mem t1 x" if "x \<notin> block_bytes (b, new)" for x
      using that n(2) by (auto simp: moved_mem_def block_bytes_range)
    then have r2: "program_runs mm mr (program_of t1 (insert (b, new) B)) (program_of ?s2 (insert (b, new) B))"
      unfolding copy_def by (rule alone_writes [OF N(3) insertI1])
    have r3: "program_runs mm mr (program_of ?s2 (insert (b, new) B)) (program_of t3 (insert (b, new) B - {(a, old)}))"
      by (rule alone_release [OF H2 t3(1,3)])
    have r4: "program_runs mm mr (program_of t3 (insert (b, new) (B - {(a, old)})))
        (program_of t (insert (b, new) (B - {(a, old)})))"
      unfolding fin(1) by (rule alone_zero_tail) (use t3(2) in \<open>simp_all add: other\<close>)
    from program_runs_trans [OF r4 program_runs_trans [OF r3 [unfolded other] program_runs_trans [OF r2 r1]]]
    show ?thesis using fin(2,3) by simp
  qed
qed

lemma alone_grow:
  assumes H: "heap_ok s B" and b: "(a, old) \<in> B" and mm: "mmap_ok (sys_page_size s) mm"
    and n: "sized s new" "small s new" "small s old" "bytes_to_units old < bytes_to_units new" "unat old \<le> unat new"
    and r: "pet_grow mm mr s a old new clean = Inr (t, a', changed, ok)"
    and out: "resize_outcome s B a old new clean (t, a', changed, ok)"
  shows "program_runs mm mr (program_of s B) (program_of t (if ok then insert (a', new) (B - {(a, old)}) else B))"
proof (rule block_in_heap [OF H b n(3)])
  fix p and offset :: u32
  assume p: "a \<noteq> p" "bm_page_by_addr s a = p" "ptrdiff_to_units a p = offset" "pages s p \<noteq> None"
    "unat (bm_page_header_size_in_units s) \<le> unat offset"
    "unat offset + unat (bytes_to_units old) \<le> unat (units_per_page s)"
  have le: "bytes_to_units old \<le> bytes_to_units new" using n(4) by simp
  let ?C = "insert (a, new) (B - {(a, old)})"
  obtain t1 grown where t1: "bm_grow s p offset (bytes_to_units old) (bytes_to_units new) = Inr (t1, grown)"
    "same_params s t1" "\<not> grown \<Longrightarrow> heap_ok t1 B"
  proof (rule bm_grow_ok [OF heap_okD(1) [OF H] p(4-6)])
    show "unat (bytes_to_units old) \<le> unat (bytes_to_units new)" using le by (simp add: word_le_nat_alt)
  qed (use that heap_ok_moves [OF H] in \<open>auto simp: moves_to_def\<close>)
  have g: "pet_grow mm mr s a old new clean =
      (if grown then Inr (if clean then t1\<lparr>mem := cleanse (mem t1) a old new\<rparr> else t1, a, False, True)
       else pet_move mm t1 a old new clean)"
    using n(2,3) p(1-3) t1(1) by (simp add: pet_grow_def small_def Let_def)
  have first: "program_runs mm mr (program_of s B) (program_of t1 (if grown then ?C else B))"
    by (rule alone_grow_small [OF H b n(3) t1(2) n(2) le]) (simp add: p(2,3) t1(1))
  show ?thesis
  proof (cases grown)
    case True
    have fin: "t = (if clean then t1\<lparr>mem := cleanse (mem t1) a old new\<rparr> else t1)" "a' = a" "ok"
      using r unfolding g using True by auto
    have T: "heap_ok t ?C" using out fin(2,3) by (simp add: resize_outcome_def resized_def)
    have e: "unat a + unat new \<le> 2 ^ 64"
      by (rule block_end [OF heap_okD(2) [OF T]]) (rule heap_okD(3) [OF T], simp)
    have z: "t = zero_tail t1 a old new clean" unfolding fin(1) by (rule cleanse_tail [OF e n(5)])
    have "t1 = t\<lparr>mem := mem t1\<rparr>" by (simp add: z zero_tail_def)
    then have "heap_ok t1 ?C" using heap_ok_counters(2) [OF T, of "mem t1"] by simp
    then have "program_runs mm mr (program_of t1 ?C) (program_of t ?C)" unfolding z by (rule alone_zero_tail) simp
    from program_runs_trans [OF this] show ?thesis using first True fin(2,3) by simp
  next
    case False
    have T: "heap_ok t1 B" by (rule t1(3) [OF False])
    have m: "mmap_ok (sys_page_size t1) mm" "sized t1 new"
      using mm n(1) t1(2) block_cong(5) [OF t1(2)] by (simp_all add: same_params_def)
    have "pet_move mm t1 a old new clean = Inr (t, a', changed, ok)" using r unfolding g using False by simp
    from program_runs_trans [OF alone_move [OF T b m n(5) this] first [simplified False if_False]]
    show ?thesis .
  qed
qed

lemma alone_shrink:
  assumes H: "heap_ok s B" and b: "(a, old) \<in> B" and n: "sized s new" "small s new" "small s old"
    "bytes_to_units new < bytes_to_units old"
    and r: "pet_shrink mm mr s a old new = Inr (t, a', changed, ok)" and par: "same_params s t"
  shows "program_runs mm mr (program_of s B) (program_of t (if ok then insert (a', new) (B - {(a, old)}) else B))"
proof -
  have a: "a \<noteq> bm_page_by_addr s a" using block_in_heap [OF H b n(3)] by metis
  have sh: "pet_shrink mm mr s a old new =
      bindE (bm_shrink s (bm_page_by_addr s a) (ptrdiff_to_units a (bm_page_by_addr s a)) (bytes_to_units old)
        (bytes_to_units new)) (\<lambda>s. Inr (s, a, False, True))"
    using a n(2,3) by (simp add: pet_shrink_def small_def Let_def)
  have u: "bm_shrink s (bm_page_by_addr s a) (ptrdiff_to_units a (bm_page_by_addr s a)) (bytes_to_units old)
      (bytes_to_units new) = Inr t" "a' = a" "ok"
    using r unfolding sh bindE_Inr_iff by auto
  have "0 < bytes_to_units new" using sized_units(2) [OF heap_okD(2) [OF H] n(1)] by (simp add: unat_gt_0 word_gt_0)
  from alone_shrink_small [OF H b n(3) par n(2) this less_imp_le [OF n(4)] u(1)] show ?thesis using u(2,3) by simp
qed

lemma alone_reallocate:
  assumes H: "heap_ok s B" and b: "(a, old) \<in> B" and mm: "mmap_ok (sys_page_size s) mm"
    and n: "sized s new" "covered s old new"
    and r: "pet_reallocate mm mr s a old new clean = Inr (t, a', changed, ok)"
    and out: "resize_outcome s B a old new clean (t, a', changed, ok)"
  shows "program_runs mm mr (program_of s B) (program_of t (if ok then insert (a', new) (B - {(a, old)}) else B))"
proof -
  note D = heap_okD [OF H]
  have par: "same_params s t" using out by (auto simp: resize_outcome_def resized_def split: if_splits)
  have old: "sized s old" by (rule shape_sized [OF D(3) [OF b]])
  have a: "a \<noteq> 0" using small_block [OF D(2) D(3) [OF b]] large_block(2) [OF D(2) D(3) [OF b]] by metis
  let ?u = "bytes_to_units old" and ?v = "bytes_to_units new"
  have nz: "old OR new \<noteq> 0" using old by (simp add: sized_def or_eq_0_iff)
  have e: "pet_reallocate mm mr s a old new clean = (if old = new then Inr (s, a, False, True)
      else if ?v = ?u then Inr (if clean \<and> new > old then s\<lparr>mem := cleanse (mem s) a old new\<rparr> else s, a, False, True)
      else if ?v < ?u then pet_shrink mm mr s a old new else pet_grow mm mr s a old new clean)"
    using a nz by (simp add: pet_reallocate_def Let_def)
  consider (equal) "old = new" | (large) "\<not> small s old" "\<not> small s new" "old \<noteq> new" | (same) "?v = ?u" "small s old" "old \<noteq> new"
    | (shrink) "?v < ?u" "small s new" "small s old" | (grow) "?u < ?v" "small s new" "small s old"
    | (leave) "?u < ?v" "\<not> small s new" "small s old"
    using n(2) unfolding covered_def small_def by (metis linorder_less_linear order_less_trans)
  then show ?thesis
  proof cases
    case equal
    then have "t = s" "a' = a" "ok" using r unfolding e by auto
    then show ?thesis using equal b by (simp add: insert_absorb pr_start)
  next
    case large
    show ?thesis by (rule alone_remap [OF H b large(1) n(1) large(2) r par])
  next
    case same
    have sn: "small s new" using same by (simp add: small_def)
    let ?C = "insert (a, new) (B - {(a, old)})"
    have t: "t = (if clean \<and> new > old then s\<lparr>mem := cleanse (mem s) a old new\<rparr> else s)" "a' = a" "ok"
      using r same unfolding e by auto
    have T: "heap_ok t ?C" using out t(2,3) by (simp add: resize_outcome_def resized_def)
    have "s = t\<lparr>mem := mem s\<rparr>" by (simp add: t(1))
    then have S: "heap_ok s ?C" using heap_ok_counters(2) [OF T, of "mem s"] by simp
    have le: "unat a + unat new \<le> 2 ^ 64"
      by (rule block_end [OF heap_okD(2) [OF T]]) (rule heap_okD(3) [OF T], simp)
    have "t = zero_tail s a old new (clean \<and> new > old)"
    proof (cases "clean \<and> new > old")
      case True
      then have "unat old \<le> unat new" by (simp add: word_less_nat_alt)
      then show ?thesis using cleanse_tail [OF le, of old True s] True by (simp add: t(1))
    next
      case False
      then show ?thesis by (simp only: t(1) zero_tail_def if_False)
    qed
    then have z: "program_runs mm mr (program_of s ?C) (program_of t ?C)" using alone_zero_tail [OF S] by simp
    have "ublock_of s (a, old) \<in> ublocks s B" using b same(2) by (force simp: ublocks_def)
    then have "ublocks s ?C = ublocks s B" "larges s ?C = larges s B"
      using resized_blocks [OF H b same(2) sn] same(1) by (auto simp: ublock_of.simps)
    then have "program_of s ?C = program_of s B" by (simp add: program_of_def)
    then show ?thesis using z t(2,3) by simp
  next
    case shrink
    then have "old \<noteq> new" "?v \<noteq> ?u" by auto
    then have "pet_shrink mm mr s a old new = Inr (t, a', changed, ok)" using r shrink(1) unfolding e by simp
    then show ?thesis by (rule alone_shrink [OF H b n(1) shrink(2,3,1) _ par])
  next
    case grow
    then have "old \<noteq> new" "?v \<noteq> ?u" "\<not> ?v < ?u" by auto
    then have "pet_grow mm mr s a old new clean = Inr (t, a', changed, ok)" using r unfolding e by simp
    then show ?thesis by (rule alone_grow [OF H b mm n(1) grow(2,3,1) units_less [OF D(2) old n(1) grow(1)] _ out])
  next
    case leave
    then have "old \<noteq> new" "?v \<noteq> ?u" "\<not> ?v < ?u" by auto
    then have "pet_grow mm mr s a old new clean = Inr (t, a', changed, ok)" using r unfolding e by simp
    then have "pet_move mm s a old new clean = Inr (t, a', changed, ok)"
      using leave by (simp add: pet_grow_def small_def)
    then show ?thesis by (rule alone_move [OF H b mm n(1) units_less [OF D(2) old n(1) leave(1)]])
  qed
qed

subsection \<open>Every call is a run\<close>

datatype pet_call = Gets u32 bool | Frees u64 u32 | Resizes u64 u32 u32 bool

text \<open>The calls that the contract covers, for a program that holds the blocks \<open>B\<close>.\<close>

fun permitted :: "pet \<Rightarrow> block set \<Rightarrow> pet_call \<Rightarrow> bool" where
  "permitted s B (Gets n clean) \<longleftrightarrow> sized s n"
| "permitted s B (Frees a n) \<longleftrightarrow> (a, n) \<in> B"
| "permitted s B (Resizes a old new clean) \<longleftrightarrow> (a, old) \<in> B \<and> sized s new \<and> covered s old new"

text \<open>The state and the blocks after a call.\<close>

fun called :: "mmap_fun \<Rightarrow> mremap_fun \<Rightarrow> pet \<Rightarrow> block set \<Rightarrow> pet_call \<Rightarrow> (pet \<times> block set) res" where
  "called mm mr s B (Gets n clean) =
     bindE (pet_allocate mm s n clean) (\<lambda>(t, a). Inr (t, if a = 0 then B else insert (a, n) B))"
| "called mm mr s B (Frees a n) = bindE (pet_release s a n) (\<lambda>(t, p). Inr (t, B - {(a, n)}))"
| "called mm mr s B (Resizes a old new clean) =
     bindE (pet_reallocate mm mr s a old new clean)
       (\<lambda>(t, a', changed, ok). Inr (t, if ok then insert (a', new) (B - {(a, old)}) else B))"

lemma permitted_call_runs:
  assumes H: "heap_ok s B" and mm: "mmap_ok (sys_page_size s) mm" and mr: "mremap_ok (sys_page_size s) mr"
    and p: "permitted s B c"
  shows "\<exists>t C. called mm mr s B c = Inr (t, C) \<and> heap_ok t C \<and> same_params s t \<and>
    program_runs mm mr (program_of s B) (program_of t C)"
proof (cases c)
  case (Gets n clean)
  then have n: "sized s n" using p by simp
  obtain t a where t: "pet_allocate mm s n clean = Inr (t, a)" "same_params s t"
    "heap_ok t (if a = 0 then B else insert (a, n) B)"
    using pet_allocate_ok [OF H mm n, of clean] by (auto simp: new_block_def)
  show ?thesis using t alone_allocate [OF H mm n t(1,2), of mr] by (simp add: Gets)
next
  case (Frees a n)
  then have b: "(a, n) \<in> B" using p by simp
  show ?thesis
  proof (rule pet_release_ok [OF H b])
    fix t assume t: "pet_release s a n = Inr (t, 0)" "heap_ok t (B - {(a, n)})" "same_params s t"
    show ?thesis using t alone_release [OF H b t(1,3), of mm mr] by (simp add: Frees)
  qed
next
  case (Resizes a old new clean)
  then have b: "(a, old) \<in> B" and n: "sized s new" "covered s old new" using p by simp_all
  show ?thesis
  proof (rule reallocate_ok [OF H b n mm mr, of clean])
    fix r assume r: "pet_reallocate mm mr s a old new clean = Inr r" "resize_outcome s B a old new clean r"
    obtain t a' changed ok where e: "r = (t, a', changed, ok)" by (cases r) auto
    have "heap_ok t (if ok then insert (a', new) (B - {(a, old)}) else B)" "same_params s t"
      using r(2) by (simp_all add: e resize_outcome_def resized_def split: if_splits)
    with alone_reallocate [OF H b mm n r(1) [unfolded e] r(2) [unfolded e]] r(1)
    show ?thesis by (simp add: Resizes e)
  qed
qed

text \<open>
  C10. Every call of \<open>_allocate\<close>, \<open>_release\<close> and \<open>_reallocate\<close> that the contract covers returns, and the steps
  of a program lead from the state before it to the state after it, byte for byte: the functions of one
  thread are runs of the program of threads, a resize included, whether it stays, grows, shrinks or moves.
\<close>

theorem calls_are_runs:
  assumes "heap_ok s B" and "mmap_ok (sys_page_size s) mm" and "mremap_ok (sys_page_size s) mr" and "permitted s B c"
  shows "\<exists>t C. called mm mr s B c = Inr (t, C) \<and> heap_ok t C \<and> program_runs mm mr (program_of s B) (program_of t C)"
  using permitted_call_runs [OF assms] by blast

text \<open>Any sequence of calls. A call that the contract does not cover is not made.\<close>

fun perform :: "mmap_fun \<Rightarrow> mremap_fun \<Rightarrow> pet \<Rightarrow> block set \<Rightarrow> pet_call list \<Rightarrow> (pet \<times> block set) res" where
  "perform mm mr s B [] = Inr (s, B)"
| "perform mm mr s B (c # cs) =
     (if permitted s B c then bindE (called mm mr s B c) (\<lambda>(t, C). perform mm mr t C cs)
      else perform mm mr s B cs)"

lemma call_runs:
  assumes "heap_ok s B" and "mmap_ok (sys_page_size s) mm" and "mremap_ok (sys_page_size s) mr"
  shows "\<exists>t C. perform mm mr s B cs = Inr (t, C) \<and> heap_ok t C \<and> program_runs mm mr (program_of s B) (program_of t C)"
  using assms
proof (induction cs arbitrary: s B)
  case (Cons c cs)
  show ?case
  proof (cases "permitted s B c")
    case True
    obtain t C where t: "called mm mr s B c = Inr (t, C)" "heap_ok t C" "same_params s t"
      "program_runs mm mr (program_of s B) (program_of t C)"
      using permitted_call_runs [OF Cons.prems True] by blast
    have "sys_page_size t = sys_page_size s" using t(3) by (simp add: same_params_def)
    then obtain u D where "perform mm mr t C cs = Inr (u, D)" "heap_ok u D"
      "program_runs mm mr (program_of t C) (program_of u D)"
      using Cons.IH [OF t(2)] Cons.prems(2,3) by auto
    then show ?thesis using True t(1) program_runs_trans [OF _ t(4)] by auto
  qed (use Cons in simp)
qed (simp add: pr_start)

lemma program_of_start: "heap_ok s {} \<Longrightarrow> program_of s {} = program_start s"
  by (simp add: program_of_def program_start_def threads_start_def ublocks_def larges_def)

text \<open>
  C11. A heap stays well-formed: from \<open>_init\<close> on, every sequence of calls that the contract covers is carried
  out without a failure, keeps \<open>heap_ok\<close> for the blocks the caller then holds, and comes to a state that the
  program of threads reaches.
\<close>

theorem calls_keep_heap:
  assumes "heap_ok s {}" and "mmap_ok (sys_page_size s) mm" and "mremap_ok (sys_page_size s) mr"
  shows "\<exists>t C. perform mm mr s {} cs = Inr (t, C) \<and> heap_ok t C \<and> program_runs mm mr (program_start s) (program_of t C)"
  using call_runs [OF assms] program_of_start [OF assms(1)] by simp

subsection \<open>Witnesses\<close>

theorem calls_are_runs_witness:
  "\<exists>s a t C. started_with 100 = Inr (s, a) \<and>
     called simple_mmap simple_mremap s {(a, 100)} (Resizes a 100 5000 True) = Inr (t, C) \<and> heap_ok t C \<and>
     program_runs simple_mmap simple_mremap (program_of s {(a, 100)}) (program_of t C)"
proof -
  obtain s a where s: "started_with 100 = Inr (s, a)" "heap_ok s {(a, 100)}" "sys_page_size s = 4096"
    by (rule started_with_ok [of 100]) simp_all
  have m: "mmap_ok (sys_page_size s) simple_mmap" "mremap_ok (sys_page_size s) simple_mremap"
    using simple_mmap_ok simple_mremap_ok s(3) by simp_all
  have e: "bytes_to_units 5000 = 313" "max_units 4096 = 252" by (code_simp, simp add: max_units_def)
  have "\<not> small s 5000" using small_max_units [OF heap_okD(2) [OF s(2)], of 5000] e s(3) by simp
  then have "permitted s {(a, 100)} (Resizes a 100 5000 True)" using s(3) by (simp add: covered_def sized_def)
  from calls_are_runs [OF s(2) m this] s(1) show ?thesis by blast
qed

text \<open>A block at the first unit of the first page behind the superblock is got, resized, and freed.\<close>

theorem calls_keep_heap_witness:
  "\<exists>s t C. started = Inr s \<and> perform simple_mmap simple_mremap s {}
       [Gets 100 True, Resizes 0x200000040 100 300 True, Gets 5000 False, Frees 0x200000040 300] = Inr (t, C) \<and>
     heap_ok t C \<and> program_runs simple_mmap simple_mremap (program_start s) (program_of t C)"
proof (rule started_ok)
  fix s assume s: "started = Inr s" "heap_ok s {}" "sys_page_size s = 4096"
  have m: "mmap_ok (sys_page_size s) simple_mmap" "mremap_ok (sys_page_size s) simple_mremap"
    using simple_mmap_ok simple_mremap_ok s(3) by simp_all
  from calls_keep_heap [OF s(2) m] s(1) show ?thesis by blast
qed

end
