(* ===== verification/Event_Clock.thy ===== *)
theory Event_Clock
  imports Sync_Event Timespec
begin

text \<open>
  Waiting for an event with a timeout, with the clock and the time point that \<open>wait_event\<close> hands to
  \<open>cnd_timedwait\<close>: the time of \<open>timespec_get\<close> plus the timeout, computed by \<open>timespec_add\<close>. The clock of the
  system may advance at any time and is not set back; \<open>cnd_timedwait\<close> gives up only when the clock has
  reached the time point. Every other step is one of \<open>Sync_Event\<close>. A time point that does not fit is
  undefined in C and has no step here.
\<close>

record clocked =
  ck_event :: event
  ck_now :: timespec
  ck_timeout :: "nat \<Rightarrow> rat"
  ck_began :: "nat \<Rightarrow> timespec"
  ck_deadline :: "nat \<Rightarrow> timespec option"

text \<open>The places that a thread comes to by steps of their own below.\<close>

fun by_clock :: "event_pc \<Rightarrow> bool" where
  "by_clock (Locking timed) = True"
| "by_clock (Asleep timed) = True"
| "by_clock (Woken timed out) = out"
| "by_clock _ = False"

inductive clock_step :: "clocked \<Rightarrow> clocked \<Rightarrow> bool" where
  tick: "normalised now \<Longrightarrow> nanoseconds (ck_now c) \<le> nanoseconds now \<Longrightarrow> clock_step c (c\<lparr>ck_now := now\<rparr>)"
| call: "ev_pc (ck_event c) t = Out \<Longrightarrow>
     clock_step c (c\<lparr>ck_event := goto (ck_event c) t (Locking (x \<ge> 0)), ck_timeout := (ck_timeout c)(t := x),
       ck_deadline := (ck_deadline c)(t := None)\<rparr>)"
| time_point: "ev_pc (ck_event c) t = Deciding True \<Longrightarrow> ck_deadline c t = None \<Longrightarrow>
     timespec_add (ck_now c) (ck_timeout c t) = Some time_point \<Longrightarrow>
     clock_step c (c\<lparr>ck_began := (ck_began c)(t := ck_now c), ck_deadline := (ck_deadline c)(t := Some time_point)\<rparr>)"
| doze: "ev_pc (ck_event c) t = Deciding timed \<Longrightarrow> timed \<longrightarrow> ck_deadline c t \<noteq> None \<Longrightarrow>
     clock_step c (c\<lparr>ck_event := goto ((ck_event c)\<lparr>ev_owner := None\<rparr>) t (Asleep timed)\<rparr>)"
| expire: "ev_pc (ck_event c) t = Asleep True \<Longrightarrow> ck_deadline c t = Some time_point \<Longrightarrow>
     nanoseconds time_point \<le> nanoseconds (ck_now c) \<Longrightarrow>
     clock_step c (c\<lparr>ck_event := goto (ck_event c) t (Woken True True)\<rparr>)"
| other: "event_step (ck_event c) t e \<Longrightarrow> \<not> by_clock (ev_pc e t) \<Longrightarrow> clock_step c (c\<lparr>ck_event := e\<rparr>)"

inductive clock_run :: "clocked \<Rightarrow> clocked \<Rightarrow> bool" where
  clock_begin: "clock_run c c"
| clock_next: "clock_run c d \<Longrightarrow> clock_step d e \<Longrightarrow> clock_run c e"

definition clock_start :: "bool \<Rightarrow> timespec \<Rightarrow> clocked" where
  "clock_start flag now =
     \<lparr>ck_event = idle_event flag, ck_now = now, ck_timeout = (\<lambda>t. 0), ck_began = (\<lambda>t. now), ck_deadline = (\<lambda>t. None)\<rparr>"

subsection \<open>The clock only restricts the steps of events\<close>

lemma clock_step_event:
  "clock_step c d \<Longrightarrow> ck_event d = ck_event c \<or> (\<exists>t. event_step (ck_event c) t (ck_event d))"
  by (induction rule: clock_step.induct)
    (auto intro: event_step.enter event_step.sleep event_step.timeout)

lemma clock_run_event: "clock_run c d \<Longrightarrow> event_run (ck_event c) (ck_event d)"
  by (induction rule: clock_run.induct) (auto intro: event_run.intros dest!: clock_step_event)

subsection \<open>What the places of a thread say about the clock\<close>

definition expired :: "clocked \<Rightarrow> nat \<Rightarrow> bool" where
  "expired c t \<longleftrightarrow> (\<exists>p. ck_deadline c t = Some p \<and> nanoseconds p \<le> nanoseconds (ck_now c))"

fun place_ok :: "clocked \<Rightarrow> nat \<Rightarrow> event_pc \<Rightarrow> bool" where
  "place_ok c t (Locking timed) = (timed = (ck_timeout c t \<ge> 0))"
| "place_ok c t (Holding timed) = (timed = (ck_timeout c t \<ge> 0))"
| "place_ok c t (Deciding timed) = (timed = (ck_timeout c t \<ge> 0))"
| "place_ok c t (Asleep timed) = (timed = (ck_timeout c t \<ge> 0))"
| "place_ok c t (Woken timed out) = (timed = (ck_timeout c t \<ge> 0) \<and> (out \<longrightarrow> expired c t))"
| "place_ok c t (Unlocking r) = (r \<or> ck_timeout c t < 0 \<or> expired c t)"
| "place_ok c t (Returned r) = (r \<or> ck_timeout c t < 0 \<or> expired c t)"
| "place_ok c t _ = True"

definition deadline_ok :: "clocked \<Rightarrow> nat \<Rightarrow> bool" where
  "deadline_ok c t \<longleftrightarrow> (\<forall>p. ck_deadline c t = Some p \<longrightarrow>
     timespec_add (ck_began c t) (ck_timeout c t) = Some p \<and> normalised (ck_began c t) \<and> 0 \<le> tv_sec (ck_began c t))"

definition clock_inv :: "clocked \<Rightarrow> bool" where
  "clock_inv c \<longleftrightarrow> normalised (ck_now c) \<and> 0 \<le> tv_sec (ck_now c) \<and>
     (\<forall>t. deadline_ok c t \<and> place_ok c t (ev_pc (ck_event c) t))"

lemma later_sec:
  assumes "normalised a" "normalised b" "nanoseconds a \<le> nanoseconds b" and "0 \<le> tv_sec a"
  shows "0 \<le> tv_sec b"
  using assms by (simp add: normalised_def nanoseconds_def)

lemma place_wake: "place_ok c t pc \<Longrightarrow> place_ok c t (wake pc)"
  by (cases pc) auto

lemma place_cong:
  assumes "place_ok c t pc" and "ck_timeout d t = ck_timeout c t" and "expired c t \<Longrightarrow> expired d t"
  shows "place_ok d t pc"
  using assms by (cases pc) auto

lemma place_step:
  assumes "event_step e t f" and "\<not> by_clock (ev_pc f t)" and "\<forall>u. place_ok c u (ev_pc e u)"
  shows "place_ok c u (ev_pc f u)"
proof -
  have "place_ok c t (ev_pc e t)" "place_ok c u (ev_pc e u)" using assms(3) by blast+
  with assms(1,2) show ?thesis
    by (cases rule: event_step.cases) (auto intro: place_wake)
qed

lemma place_here: "clock_inv c \<Longrightarrow> ev_pc (ck_event c) t = pc \<Longrightarrow> place_ok c t pc"
  by (auto simp: clock_inv_def)

lemma clock_step_inv: "clock_step c d \<Longrightarrow> clock_inv c \<Longrightarrow> clock_inv d"
proof (induction rule: clock_step.induct)
  case (tick now c)
  have "expired c t \<Longrightarrow> expired (c\<lparr>ck_now := now\<rparr>) t" for t
    using tick.hyps(2) by (auto simp: expired_def)
  then show ?case
    using tick.prems tick.hyps later_sec [OF _ tick.hyps(1,2)]
    by (auto simp: clock_inv_def deadline_ok_def intro: place_cong)
next
  case (call c t x)
  then show ?case
    by (auto simp: clock_inv_def deadline_ok_def expired_def intro: place_cong)
next
  case (time_point c t p)
  have "expired c u \<Longrightarrow> expired (c\<lparr>ck_began := (ck_began c)(t := ck_now c), ck_deadline := (ck_deadline c)(t := Some p)\<rparr>) u" for u
    using time_point.hyps(2) by (auto simp: expired_def)
  moreover have "0 \<le> ck_timeout c t" using place_here [OF time_point.prems time_point.hyps(1)] by simp
  ultimately show ?case
    using time_point by (auto simp: clock_inv_def deadline_ok_def intro: place_cong)
next
  case (doze c t timed)
  have "timed = (ck_timeout c t \<ge> 0)" using place_here [OF doze.prems doze.hyps(1)] by simp
  then show ?case
    using doze.prems
    by (auto simp: clock_inv_def deadline_ok_def expired_def intro: place_cong)
next
  case (expire c t p)
  have "0 \<le> ck_timeout c t" using place_here [OF expire.prems expire.hyps(1)] by simp
  then show ?case
    using expire.prems expire.hyps(2,3)
    by (auto simp: clock_inv_def deadline_ok_def expired_def intro: place_cong)
next
  case (other c t e)
  have "place_ok c u (ev_pc e u)" for u
    by (rule place_step [OF other.hyps]) (use other.prems in \<open>simp add: clock_inv_def\<close>)
  then have "place_ok (c\<lparr>ck_event := e\<rparr>) u (ev_pc e u)" for u
    by (rule place_cong) (simp_all add: expired_def)
  then show ?case using other.prems by (simp add: clock_inv_def deadline_ok_def)
qed

lemma clock_run_inv: "clock_run c d \<Longrightarrow> clock_inv c \<Longrightarrow> clock_inv d"
  by (induction rule: clock_run.induct) (auto intro: clock_step_inv)

lemma clock_start_inv: "normalised now \<Longrightarrow> 0 \<le> tv_sec now \<Longrightarrow> clock_inv (clock_start flag now)"
  by (simp add: clock_inv_def clock_start_def deadline_ok_def idle_event_def)

text \<open>
  C32. A wait with a timeout that returns false has lasted for its timeout: the clock shows at least the
  time at which the wait was set up plus the timeout, less a nanosecond. Whatever the clock does, the
  threads take the steps of \<open>Sync_Event\<close>.
\<close>

theorem wait_lasts_for_timeout:
  assumes "clock_run (clock_start flag now) c" and "normalised now" and "0 \<le> tv_sec now"
    and "ev_pc (ck_event c) t = Returned False" and "0 \<le> ck_timeout c t"
    and "of_int (tv_sec (ck_began c t)) + ck_timeout c t < 2 ^ 53 - 1"
  shows "of_int (nanoseconds (ck_began c t)) + ck_timeout c t * 1000000000 - 1 < of_int (nanoseconds (ck_now c)) \<and>
    event_run (idle_event flag) (ck_event c)"
proof -
  have I: "clock_inv c" by (rule clock_run_inv [OF assms(1) clock_start_inv [OF assms(2,3)]])
  then have "place_ok c t (Returned False)" "deadline_ok c t" using assms(4) by (metis clock_inv_def)+
  then obtain p where p: "nanoseconds p \<le> nanoseconds (ck_now c)" "timespec_add (ck_began c t) (ck_timeout c t) = Some p"
    "normalised (ck_began c t)" "0 \<le> tv_sec (ck_began c t)"
    using assms(5) by (auto simp: expired_def deadline_ok_def)
  have "\<bar>of_int (nanoseconds p) - (of_int (nanoseconds (ck_began c t)) + ck_timeout c t * 1000000000)\<bar> < 1"
    using timespec_add_near [OF p(3,4) assms(5,6)] p(2) by auto
  moreover have "of_int (nanoseconds p) \<le> (of_int (nanoseconds (ck_now c)) :: rat)" using p(1) by (simp only: of_int_le_iff)
  ultimately have "of_int (nanoseconds (ck_began c t)) + ck_timeout c t * 1000000000 - 1 < of_int (nanoseconds (ck_now c))"
    by linarith
  moreover have "event_run (idle_event flag) (ck_event c)"
    using clock_run_event [OF assms(1)] by (simp add: clock_start_def)
  ultimately show ?thesis by blast
qed

subsection \<open>Witness\<close>

text \<open>A thread waits for a second and a quarter, and nobody sets the event.\<close>

abbreviation before :: timespec where "before \<equiv> \<lparr>tv_sec = 7, tv_nsec = 900000000\<rparr>"
abbreviation later :: timespec where "later \<equiv> \<lparr>tv_sec = 9, tv_nsec = 150000000\<rparr>"

abbreviation alone :: "nat option \<Rightarrow> event_pc \<Rightarrow> event" where
  "alone owner pc \<equiv> \<lparr>ev_flag = False, ev_owner = owner, ev_pc = (\<lambda>t. Out)(1 := pc)\<rparr>"

definition waiting :: "nat option \<Rightarrow> event_pc \<Rightarrow> timespec \<Rightarrow> timespec option \<Rightarrow> clocked" where
  "waiting owner pc now deadline =
     \<lparr>ck_event = alone owner pc, ck_now = now,
      ck_timeout = (\<lambda>t. 0)(1 := 5 / 4), ck_began = (\<lambda>t. before), ck_deadline = (\<lambda>t. None)(1 := deadline)\<rparr>"

lemma clock_append: "clock_run c d \<Longrightarrow> clock_step d e \<Longrightarrow> e = f \<Longrightarrow> clock_run c f"
  by (blast intro: clock_next)

lemma waiting_other:
  assumes "clock_run c (waiting owner pc now deadline)"
    and "event_step (alone owner pc) 1 (alone owner' pc')" and "\<not> by_clock pc'"
  shows "clock_run c (waiting owner' pc' now deadline)"
  by (rule clock_append [OF assms(1) clock_step.other [where t = 1]])
    (use assms(2,3) in \<open>auto simp: waiting_def\<close>)

lemma waiting_expires: "clock_run (clock_start False before) (waiting None (Returned False) later (Some later))"
proof -
  let ?s = "clock_start False before"
  have "clock_run ?s (waiting None (Locking True) before None)"
    by (rule clock_append [OF clock_begin call [where t = 1 and x = "5 / 4"]])
      (simp_all add: waiting_def clock_start_def idle_event_def goto_def fun_eq_iff)
  then have "clock_run ?s (waiting (Some 1) (Holding True) before None)"
    by (rule waiting_other) (use lock [of "alone None (Locking True)" 1 True] in \<open>simp_all add: goto_def\<close>)
  then have "clock_run ?s (waiting (Some 1) (Deciding True) before None)"
    by (rule waiting_other) (use unseen [of "alone (Some 1) (Holding True)" 1 True] in \<open>simp_all add: goto_def\<close>)
  then have "clock_run ?s (waiting (Some 1) (Deciding True) before (Some later))"
    by (rule clock_append [OF _ time_point [where t = 1 and time_point = later]])
      (simp_all add: waiting_def timespec_eval fun_eq_iff)
  then have "clock_run ?s (waiting None (Asleep True) before (Some later))"
    by (rule clock_append [OF _ doze [where t = 1 and timed = True]]) (simp_all add: waiting_def goto_def fun_eq_iff)
  then have "clock_run ?s (waiting None (Asleep True) later (Some later))"
    by (rule clock_append [OF _ tick [where now = later]]) (simp_all add: waiting_def normalised_def nanoseconds_def)
  then have "clock_run ?s (waiting None (Woken True True) later (Some later))"
    by (rule clock_append [OF _ expire [where t = 1 and time_point = later]]) (simp_all add: waiting_def goto_def fun_eq_iff)
  then have "clock_run ?s (waiting (Some 1) (Unlocking False) later (Some later))"
    by (rule waiting_other) (use relock [of "alone None (Woken True True)" 1 True True] in \<open>simp_all add: goto_def\<close>)
  then show ?thesis
    by (rule waiting_other) (use unlock [of "alone (Some 1) (Unlocking False)" 1 False] in \<open>simp_all add: goto_def\<close>)
qed

theorem wait_lasts_for_timeout_witness:
  "clock_run (clock_start False before) (waiting None (Returned False) later (Some later)) \<and>
   event_run (idle_event False) (ck_event (waiting None (Returned False) later (Some later)))"
proof -
  have "event_run (idle_event False) (ck_event (waiting None (Returned False) later (Some later)))"
    using wait_lasts_for_timeout [OF waiting_expires, of 1] by (simp add: waiting_def normalised_def)
  then show ?thesis using waiting_expires by blast
qed

end
