(* ===== verification/Startup.thy ===== *)
theory Startup
  imports Pet_Program_Invariant Mmarray
begin

text \<open>
  The page size when a program is loaded. \<^verbatim>\<open>src/allocator.c\<close> and \<^verbatim>\<open>src/arena.c\<close> have the same constructor
  \<open>init_page_size\<close>, run in any order before \<open>main\<close>; \<^verbatim>\<open>src/mmarray.c\<close> asks for the page size at its first use.
  The argument \<open>sysconf\<close> is what the system answers, a \<open>long\<close>.
\<close>

definition init_page_size :: "u64 \<Rightarrow> u32 \<Rightarrow> u32" where
  "init_page_size sysconf page_size = (if page_size = 0 then ucast sysconf else page_size)"

definition get_page_size :: "u64 \<Rightarrow> u64 \<Rightarrow> u64" where
  "get_page_size sysconf page_size = (if page_size = 0 then sysconf else page_size)"

lemma constructors_page_size:
  "ucast sysconf \<noteq> (0 :: u32) \<Longrightarrow> (init_page_size sysconf ^^ Suc n) 0 = ucast sysconf"
  by (induction n) (simp_all add: init_page_size_def)

lemma page_size_asked_once: "sysconf \<noteq> 0 \<Longrightarrow> (get_page_size sysconf ^^ Suc n) 0 = sysconf"
  by (induction n) (simp_all add: get_page_size_def)

text \<open>
  With the constructors run, however often, \<open>_init\<close> leaves an allocator on which any program of threads
  keeps the invariant, and arrays use the same page size.
\<close>

theorem library_starts:
  assumes "unat sysconf = 2 ^ k" and "10 \<le> k" and "k \<le> 31"
    and "mmap_ok (ucast sysconf) mm" and "mremap_ok (ucast sysconf) mr" and "mm {} (ucast sysconf) \<noteq> 0"
  shows "\<exists>s. pet_init mm (static_state ((init_page_size sysconf ^^ Suc n) 0) m) = Inr s \<and>
    unat (sys_page_size s) = unat ((get_page_size sysconf ^^ Suc j) 0) \<and>
    (\<forall>w. program_runs mm mr (program_start s) w \<longrightarrow> program_inv (sys_page_size s) w)"
proof -
  have "(2::nat) ^ k < 2 ^ 32" using assms(3) by (intro power_strict_increasing) simp_all
  then have u: "unat (ucast sysconf :: u32) = 2 ^ k"
    using assms(1,3) by (simp add: unsigned_ucast_eq take_bit_nat_eq_self)
  then have nz: "ucast sysconf \<noteq> (0 :: u32)" "sysconf \<noteq> 0" using assms(1) by (auto simp: unat_eq_0 [symmetric])
  obtain s where s: "pet_init mm (static_state (ucast sysconf) m) = Inr s" "heap_ok s {}" "sys_page_size s = ucast sysconf"
    by (rule pet_init_ok [where mm = mm and m = m, OF u assms(2,3,6)])
  have "program_inv (sys_page_size s) w" if "program_runs mm mr (program_start s) w" for w
    by (rule program_reachable [OF s(2) _ _ that]) (simp_all add: s(3) assms(4,5))
  then show ?thesis
    using s u assms(1) constructors_page_size [OF nz(1), of n] page_size_asked_once [OF nz(2), of j] by auto
qed

end
