(* ===== verification/Spec2Isabelle.thy ===== *)
theory Spec2Isabelle
  imports Bitmap_Properties Pet_Defects Ring_On_Pet Mmarray Arena_Properties Fsb_Properties
    Stdlib_Allocator Debug_Properties Sync_Ring_Claims
    Default_Allocator Hex_Claims Bitmap_Dump_Claims Timespec
    Pet_Dump Arena_Dumps Pet_Program_Claims Pet_Program_Calls
    Event_Clock Startup
begin

text \<open>
  libpussy: memory allocators and small data structures in C.

  The parts and how they interact. An \<open>Allocator\<close> (\<^verbatim>\<open>include/allocator.h\<close>) is a table of functions whose
  callers keep the sizes of their blocks. The library has three: the bitmap allocator
  (\<^verbatim>\<open>src/allocator_pet.c\<close>), which cuts pages into units of 16 bytes and maps large blocks directly, the one
  on the C heap (\<^verbatim>\<open>src/allocator_stdlib.c\<close>) and the debug allocator with guards around each block
  (\<^verbatim>\<open>src/allocator_debug.c\<close>). Ring buffers, events and synchronized ring buffers keep their structures in
  blocks of the default allocator; ring buffer data, memory-mapped arrays, the region arena and the arena
  of fixed-size blocks take their pages from the kernel.

  Foundations.
    \<^item> \<open>Pussy_Prelude\<close>: results with errors, facts about words and lists.
    \<^item> \<open>Alignment\<close>, \<open>Word_Bits\<close>: the helpers of \<^verbatim>\<open>include/allocator.h\<close> and \<^verbatim>\<open>src/word.h\<close>.
    \<^item> \<open>Alloc_Interface\<close>: the locales \<open>allocator\<close> and \<open>resizing_allocator\<close>, the contract over the set of live
      blocks and their bytes. \<open>Pet_Realloc\<close>, \<open>Stdlib_Allocator\<close> and \<open>Debug_Properties\<close> interpret them.
    \<^item> \<open>Block_Map\<close>, \<open>Queue_Interface\<close>: the locales of a map of used units, interpreted in \<open>Bitmap_Ops\<close>, and of
      a queue of bytes, interpreted in \<open>Ring_Claims\<close>.

  The bitmap allocator. The header of a page holds its bitmap and its place in a circular list; the list of
  a page with longest free block \<open>n\<close> is entry \<open>n\<close> of the superblock, and the page used last is in the LRU slot.
    \<^item> \<open>Bitmap_Ops\<close>, \<open>Bitmap_Properties\<close>: the bitmap of a page, \<open>count_zero_bits\<close> to
      \<open>find_longest_free_block\<close>, each shown to be its specification on the bits.
    \<^item> \<open>Pet_Lists\<close>: state, page headers, \<open>add_to_list\<close>, \<open>delete_from_list\<close>, and the invariant \<open>rings\<close> of the
      lists; the invariant of pages and free blocks, \<open>pet_inv\<close>, is in \<open>Pet_Invariant\<close>.
    \<^item> \<open>Pet_Memory\<close>: \<open>cleanse\<close> and the calls of \<open>mmap\<close>, \<open>munmap\<close>, \<open>mremap\<close>.
    \<^item> \<open>Pet_Pages\<close>: the operations on units; \<open>Pet_Blocks\<close> shows what each does to the units in use.
    \<^item> \<open>Pet_Allocator\<close>: \<open>_init\<close>, \<open>_allocate\<close>, \<open>_release\<close>, \<open>_reallocate\<close>. \<open>Pet_Heap\<close> relates the state to
      the set of live blocks, \<open>heap_ok\<close>; \<open>Pet_Realloc\<close> does so for \<open>_reallocate\<close>.
    \<^item> \<open>Pet_Properties\<close>, \<open>Pet_Defects\<close>: what the allocator promises, and where it does not keep it.

  The other allocators.
    \<^item> \<open>Libc_Heap\<close>: \<open>malloc\<close>, \<open>calloc\<close>, \<open>realloc\<close>, \<open>free\<close>, \<open>memcpy\<close>, \<open>memset\<close> as the code uses them.
    \<^item> \<open>Stdlib_Allocator\<close>; \<open>Debug_Allocator\<close>, \<open>Debug_Properties\<close>: the allocators and their contracts; the
      counts of damaged bytes are exact, and a release ends the program exactly when a guard was damaged.
    \<^item> \<open>Default_Allocator\<close>: the tables of functions, \<open>init_allocator\<close> and the wrappers \<open>allocate\<close>, \<open>reallocate\<close>,
      \<open>release\<close>. They keep whatever contract the allocator behind them keeps, for all three allocators, through any
      sequence of calls.
    \<^item> \<open>Startup\<close>: \<open>init_page_size\<close> and \<open>get_page_size\<close>, and what the library is when they have run.

  Data structures.
    \<^item> \<open>Ring_Buffer\<close>, \<open>Ring_Properties\<close>, \<open>Ring_Claims\<close>, \<open>Ring_On_Pet\<close>: \<^verbatim>\<open>src/ringbuffer_base.c\<close>, its contents
      as a list of bytes, and its life in a block of the bitmap allocator.
    \<^item> \<open>Mmarray\<close>: \<^verbatim>\<open>src/mmarray.c\<close>, its contents as a list of items.
    \<^item> \<open>Arena\<close>, \<open>Arena_Properties\<close>: \<^verbatim>\<open>src/arena.c\<close>, a list of regions filled from below.
    \<^item> \<open>Fsb_Arena\<close>, \<open>Fsb_Properties\<close>: \<^verbatim>\<open>src/fsb_arena.c\<close>, its state as the set of allocated blocks; which
      arenas are accepted, with the wrap-around that lets some in whose header does not fit.
    \<^item> \<open>Fsb_Walk\<close>: \<open>fsb_arena_walk\<close> visits exactly the allocated blocks, and does not end for some callbacks
      that release them.

  Threads.
    \<^item> \<open>Pet_Threads\<close>, \<open>Pet_Threads_Invariant\<close>, \<open>Pet_Threads_Steps\<close>, \<open>Pet_Threads_Claims\<close>: the sub-allocator
      in any number of threads, a step for each section under its mutex. The invariant of \<open>Pet_Invariant\<close> holds
      around the pages in hand; blocks lie apart in every interleaving, there is no deadlock, and a thread
      alone does what the functions of \<open>Pet_Pages\<close> do. \<open>Pet_Threads_Bytes\<close>: what a step does to memory.
    \<^item> \<open>Pet_Program\<close>, \<open>Pet_Program_Invariant\<close>, \<open>Pet_Program_Claims\<close>: the whole allocator in a program of
      threads, with calls for large blocks as steps of their own and threads that write into their blocks. To
      the large blocks the pages of the sub-allocator are large blocks of one page, so the sequential lemmas
      on \<open>_allocate\<close>, \<open>_release\<close> and \<open>_reallocate\<close> carry over. Live blocks share no byte, keep their
      bytes through the steps about other blocks, no call that is a step of it fails, and there is no deadlock.
    \<^item> \<open>Pet_Program_Alone\<close>, \<open>Pet_Program_Calls\<close>: the functions of one thread are runs of that program. A
      heap with its blocks is a state of it, and \<open>_allocate\<close>, \<open>_release\<close> and \<open>_reallocate\<close> are sequences of its
      steps, so what is shown of all runs holds of every sequence of such calls; none of them fails.
    \<^item> \<open>Sync_Event\<close>: \<^verbatim>\<open>src/sync_event.c\<close>, a step relation of any number of threads, with the mutex as an
      invariant of the reachable states. \<open>Event_Clock\<close> puts it together with \<open>Timespec\<close>: the clock, the time
      point of a timeout, and how long a wait lasts.
    \<^item> \<open>Sync_Ring\<close>, \<open>Sync_Ring_Threads\<close>, \<open>Sync_Ring_Claims\<close>: \<^verbatim>\<open>src/ringbuffer_sync.c\<close>. The state
      counts mappings, locks, mutexes and condition variables beside the blocks: deletion gives back what
      creation took, on every allocator, and a failed creation leaves behind a lock or condition variables
      in the cases stated. The operations of any number of threads serialise.

  Diagnostics and time.
    \<^item> \<open>Text_Output\<close>: text as strings, reading memory byte by byte, lines and decimal digits.
    \<^item> \<open>Hex_Dump\<close>, \<open>Hex_Properties\<close>, \<open>Hex_Reader\<close>, \<open>Hex_Claims\<close>: \<^verbatim>\<open>src/dump_hex.c\<close>. The text is a function of
      the runs of equal rows; a reader finds bytes and addresses again, and the runs and addresses where it
      does not are characterised.
    \<^item> \<open>Bitmap_Dump\<close>, \<open>Bitmap_Dump_Claims\<close>: \<^verbatim>\<open>src/dump_bitmap.c\<close>, whose text determines the bitmap.
    \<^item> \<open>Pet_Dump\<close>: \<open>dump\<close> of the bitmap allocator, which returns in every state and shows each list once, and
      the check of the units in a debug build, which is exact and silent on live blocks. \<open>Arena_Dumps\<close>:
      \<open>dump_fsb_arena\<close> and \<open>arena_print\<close> as functions of the lists they show.
    \<^item> \<open>Double_Rounding\<close>, \<open>Timespec\<close>: \<^verbatim>\<open>src/timespec.c\<close>. The locale \<open>rounding\<close> is what the sum of a time and a
      \<open>double\<close> relies on; rounding to 53 bits is shown to keep it.

  Conventions. The target is LP64 with 64-bit words in the bitmaps; \<open>unsigned\<close> is \<open>u32\<close>, pointers and
  \<open>size_t\<close> are \<open>u64\<close>, and all arithmetic wraps as in C. A result is \<open>Inl\<close> of a failure or \<open>Inr\<close> of the new
  state and the value returned: \<open>Abort\<close> is \<open>abort\<close>, \<open>exit\<close> or a failed assertion, \<open>Bad_Access\<close> an access to
  memory that is not there, \<open>Does_Not_Return\<close> an endless loop. What is not in the sources is an argument:
  the answers of the kernel (with \<open>mmap_ok\<close>, \<open>mremap_ok\<close>, \<open>kmap_ok\<close>, \<open>kremap_ok\<close>, \<open>array_mremap_ok\<close>,
  \<open>arena_mmap_ok\<close>, \<open>fsb_mmap_ok\<close> as what the code relies on), the places of blocks of the C heap (\<open>pick_ok\<close>),
  the success of \<open>cnd_init\<close> and \<open>mtx_init\<close>. Mappings of ring buffers and the objects of the thread
  library are counted. Loops are recursive functions with a termination proof; the
  loops along linked lists, and the search for the size of a bitmap, are \<open>partial_function\<close>s, and that they
  return is proved. No fuel is used.

  Not modelled. Messages, \<open>print_msg\<close>, tracing and the \<open>_dump\<close> stubs: they write diagnostics and change no state.
  In the functions of one thread \<open>grab_page\<close> would wait for a page that another thread holds, so a page that is in no
  list makes it \<open>Does_Not_Return\<close>. In several threads the memory of
  the program is sequentially consistent, the branch of \<open>_reallocate\<close> from a large to a small block is left
  out, and that each thread gets its turn is not assumed. NaN and infinities are not among the values of \<open>double\<close>.
\<close>

end
